(* ===== verification/Prelude.thy ===== *)
theory Prelude
  imports Main "HOL-Library.Word"
begin

text \<open>
  Shared vocabulary of the development: the machine types of the C sources under
  \<^verbatim>\<open>src/lualib-src\<close>, the faults an operation can end in, and the generic lemmas on lists,
  integers and words that the component theories use.

  A C \<^verbatim>\<open>int\<close> is a HOL \<open>int\<close> and every arithmetic operation of the source that can leave the
  32-bit range goes through \<open>s32\<close>, two's complement wrap-around; unsigned machine words are
  \<open>'n word\<close>. A pointer into a byte buffer with its size is the list of the bytes from the
  pointer on.
\<close>

unbundle bit_operations_syntax

section \<open>Types and faults\<close>

type_synonym byte = "8 word"
type_synonym u16 = "16 word"
type_synonym u32 = "32 word"
type_synonym u64 = "64 word"

text \<open>How an operation can fail: a failed \<^verbatim>\<open>assert\<close>, an access outside a C object, an exit of
  the process with a message, a loop that does not end, an operation the C standard leaves
  undefined, an error
  raised into Lua with \<^verbatim>\<open>luaL_error\<close> or a failed argument check.\<close>

datatype fault = AssertFailed | OutOfBounds | LuaError string | Die string | Diverges | Undefined

type_synonym 'a result = "fault + 'a"

definition rbind :: "'a result \<Rightarrow> ('a \<Rightarrow> 'b result) \<Rightarrow> 'b result" where
  "rbind r f = (case r of Inl e \<Rightarrow> Inl e | Inr x \<Rightarrow> f x)"

lemma rbind_simps [simp]: "rbind (Inl e) f = Inl e" "rbind (Inr x) f = f x"
  by (simp_all add: rbind_def)

lemma rbind_eq_Inr_iff: "rbind r f = Inr y \<longleftrightarrow> (\<exists>x. r = Inr x \<and> f x = Inr y)"
  by (cases r) auto

named_theorems range_simps \<open>facts about values kept inside their machine range\<close>

section \<open>32-bit signed arithmetic\<close>

definition s32 :: "int \<Rightarrow> int" where
  "s32 x = (x + 2147483648) mod 4294967296 - 2147483648"

abbreviation INT_MAX :: int where "INT_MAX \<equiv> 2147483647"
abbreviation INT_MIN :: int where "INT_MIN \<equiv> -2147483648"

definition in_s32 :: "int \<Rightarrow> bool" where
  "in_s32 x \<longleftrightarrow> INT_MIN \<le> x \<and> x \<le> INT_MAX"

lemma s32_id [range_simps]: "INT_MIN \<le> x \<Longrightarrow> x \<le> INT_MAX \<Longrightarrow> s32 x = x"
  by (simp add: s32_def)

lemma s32_in_range: "in_s32 (s32 x)"
proof -
  have "0 \<le> (x + 2147483648) mod 4294967296" "(x + 2147483648) mod 4294967296 < 4294967296"
    by simp_all
  then show ?thesis by (simp add: s32_def in_s32_def)
qed

lemma s32_cong: "x mod 4294967296 = y mod 4294967296 \<Longrightarrow> s32 x = s32 y"
  by (metis s32_def mod_add_left_eq)

section \<open>Bytes of an integer\<close>

text \<open>The value of a byte as a C expression: integer promotion of \<^verbatim>\<open>uint8_t\<close>.\<close>

lemma uint_byte_bounds [range_simps]: "0 \<le> uint (b :: byte)" "uint (b :: byte) \<le> 255"
  using uint_range_size [of b] by (auto simp: word_size)

lemma uint_byte_of_int [range_simps]: "uint (word_of_int x :: byte) = x mod 256"
  by (simp add: uint_word_of_int)

lemma and_0xff: "(x :: int) AND 255 = x mod 256"
  using take_bit_eq_mask [of 8 x] by (simp add: take_bit_eq_mod mask_eq_exp_minus_1)

lemma and_0x7f: "(x :: int) AND 127 = x mod 128"
  using take_bit_eq_mask [of 7 x] by (simp add: take_bit_eq_mod mask_eq_exp_minus_1)

lemma and_0x7fff: "(x :: int) AND 32767 = x mod 32768"
  using take_bit_eq_mask [of 15 x] by (simp add: take_bit_eq_mod mask_eq_exp_minus_1)

lemma and_0xffff: "(x :: int) AND 65535 = x mod 65536"
  using take_bit_eq_mask [of 16 x] by (simp add: take_bit_eq_mod mask_eq_exp_minus_1)

lemma and_not_0xffff: "(x :: int) AND NOT 65535 = x - x mod 65536"
proof -
  have "x = (x AND 65535) OR (x AND NOT 65535)"
    by (simp flip: bit.conj_disj_distrib)
  also have "\<dots> = (x AND 65535) + (x AND NOT 65535)"
    by (rule disjunctive_add_eq_or [symmetric]) (simp add: ac_simps)
  finally show ?thesis by (simp add: and_0xffff)
qed

lemma or_add_low:
  fixes a x :: int
  assumes "0 \<le> x" "x < 2 ^ k"
  shows "(a * 2 ^ k) OR x = a * 2 ^ k + x"
proof -
  have x: "take_bit k x = x" using assms by (simp add: take_bit_int_eq_self)
  have "push_bit k a AND take_bit k x = 0"
    by (rule bit_eqI) (auto simp: bit_simps)
  then show ?thesis by (simp add: disjunctive_add_eq_or x push_bit_eq_mult)
qed

lemma and_0x3f: "(x :: int) AND 63 = x mod 64"
  using take_bit_eq_mask [of 6 x] by (simp add: take_bit_eq_mod mask_eq_exp_minus_1)

section \<open>Memory\<close>

text \<open>An unsigned integer stored in memory by a little-endian machine, such as the x86 the server
  is built for.\<close>

definition load_le :: "byte list \<Rightarrow> int" where
  "load_le bs = foldr (\<lambda>b x. uint b + 256 * x) bs 0"

lemma digit:
  fixes a y :: int
  assumes "0 \<le> a" "a < 256"
  shows "(a + 256 * y) mod 256 = a" "(a + 256 * y) div 256 = y"
  using assms by simp_all

lemma load_le_digits:
  "load_le (b # bs) mod 256 = uint b" "load_le (b # bs) div 256 = load_le bs" "load_le [] = 0"
  using digit [of "uint b"] uint_byte_bounds [of b] by (simp_all add: load_le_def)

lemma load_le_bounds: "0 \<le> load_le bs" "load_le bs < 256 ^ length bs"
proof (induction bs)
  case (Cons b bs)
  {
    case 1
    then show ?case using Cons uint_byte_bounds [of b] by (simp add: load_le_def)
  next
    case 2
    have "load_le bs + 1 \<le> 256 ^ length bs" using Cons by simp
    then have "256 * (load_le bs + 1) \<le> 256 * 256 ^ length bs" by (intro mult_left_mono) simp_all
    then show ?case using uint_byte_bounds [of b] by (simp add: load_le_def)
  }
qed (simp_all add: load_le_def)

lemma load_le_append: "load_le (xs @ ys) = load_le xs + 256 ^ length xs * load_le ys"
  by (induction xs) (simp_all add: load_le_def algebra_simps)

text \<open>The byte swaps of \<^verbatim>\<open>ntohs\<close> and \<^verbatim>\<open>ntohl\<close>, which are also \<^verbatim>\<open>htons\<close> and \<^verbatim>\<open>htonl\<close>, on such a
  machine.\<close>

definition ntohs :: "int \<Rightarrow> int" where
  "ntohs x = (x mod 256) * 256 + x div 256 mod 256"

definition ntohl :: "int \<Rightarrow> int" where
  "ntohl x = (x mod 256) * 2 ^ 24 + (x div 256 mod 256) * 2 ^ 16 + (x div 2 ^ 16 mod 256) * 256
             + x div 2 ^ 24 mod 256"

lemma ntohs_load: "ntohs (load_le [a, b]) = uint a * 256 + uint b"
  unfolding ntohs_def by (simp only: load_le_digits)

lemma ntohl_load:
  assumes "x mod 2 ^ 32 = load_le (a # b # c # d # bs) mod 2 ^ 32" "0 \<le> x" "x < 2 ^ 32"
  shows "ntohl x = uint a * 2 ^ 24 + uint b * 2 ^ 16 + uint c * 256 + uint d"
proof -
  let ?y = "load_le (a # b # c # d # bs)"
  have x: "x = ?y mod 2 ^ 32" using assms by simp
  have m: "?y mod 2 ^ 32 div 2 ^ k mod 2 ^ 8 = ?y div 2 ^ k mod 2 ^ 8" if "k + 8 \<le> 32" for k :: nat
  proof -
    have "?y mod 2 ^ 32 div 2 ^ k mod 2 ^ 8 = take_bit 8 (drop_bit k (take_bit 32 ?y))"
      by (simp add: take_bit_eq_mod drop_bit_eq_div)
    also have "\<dots> = take_bit 8 (drop_bit k ?y)"
      using that by (intro bit_eqI) (auto simp: bit_simps)
    finally show ?thesis by (simp add: take_bit_eq_mod drop_bit_eq_div)
  qed
  have p: "(2 :: int) ^ 0 = 1" "(2 :: int) ^ 8 = 256" "(2 :: int) ^ 16 = 256 * 256"
      "(2 :: int) ^ 24 = 256 * 256 * 256" by simp_all
  have q: "z div (256 * 256) = z div 256 div 256" "z div (256 * 256 * 256) = z div 256 div 256 div 256"
    for z :: int by (simp_all only: zdiv_zmult2_eq zero_le_numeral)
  have "x mod 256 = uint a" using m [of 0] unfolding x by (simp only: p div_by_1 load_le_digits)
  moreover have "x div 256 mod 256 = uint b"
    using m [of 8] unfolding x by (simp only: p load_le_digits)
  moreover have "x div 2 ^ 16 mod 256 = uint c"
    using m [of 16] unfolding x p(2) by (simp only: p(3) q load_le_digits)
  moreover have "x div 2 ^ 24 mod 256 = uint d"
    using m [of 24] unfolding x p(2) by (simp only: p(4) q load_le_digits)
  ultimately show ?thesis by (simp add: ntohl_def)
qed

text \<open>Storing an integer of either sign as \<open>n\<close> little-endian bytes.\<close>

definition store_le :: "nat \<Rightarrow> int \<Rightarrow> byte list" where
  "store_le n x = map (\<lambda>i. word_of_int (x div 256 ^ i)) [0..<n]"

lemma store_le_length [simp]: "length (store_le n x) = n"
  by (simp add: store_le_def)

lemma store_le_Suc: "store_le (Suc n) x = word_of_int x # store_le n (x div 256)"
proof -
  have "store_le (Suc n) x = word_of_int x # map (\<lambda>i. word_of_int (x div 256 ^ Suc i)) [0..<n]"
    unfolding store_le_def by (simp add: upt_conv_Cons map_Suc_upt [symmetric] del: upt_Suc)
  then show ?thesis by (simp add: store_le_def zdiv_zmult2_eq)
qed

lemma load_store_le: "load_le (store_le n x) = x mod 256 ^ n"
proof (induction n arbitrary: x)
  case (Suc n)
  have "load_le (store_le (Suc n) x) = x mod 256 + 256 * (x div 256 mod 256 ^ n)"
    using Suc by (simp add: store_le_Suc load_le_def uint_byte_of_int)
  also have "\<dots> = x mod (256 * 256 ^ n)" by (simp add: mod_mult2_eq zmod_zmult2_eq)
  finally show ?case by simp
qed (simp add: store_le_def load_le_def)

lemma store_load_le: "store_le (length bs) (load_le bs) = bs"
proof (induction bs)
  case (Cons b bs)
  have "word_of_int (load_le (b # bs)) = b"
    using load_le_digits(1) [of b bs] by (metis uint_byte_of_int word_of_int_uint word_uint_eqI)
  then show ?case using Cons by (simp add: store_le_Suc load_le_digits(2))
qed (simp add: store_le_def)

lemma load_le_eqI: "length xs = length ys \<Longrightarrow> load_le xs = load_le ys \<Longrightarrow> xs = ys"
  by (metis store_load_le)

text \<open>\<^verbatim>\<open>memcpy\<close> and \<^verbatim>\<open>memset\<close> into an object: a write that does not fit is a fault.\<close>

definition mem_write :: "'a list \<Rightarrow> nat \<Rightarrow> 'a list \<Rightarrow> 'a list result" where
  "mem_write mem off bs =
     (if off + length bs \<le> length mem then Inr (take off mem @ bs @ drop (off + length bs) mem)
      else Inl OutOfBounds)"

lemma mem_write_fits:
  "off + length bs \<le> length mem \<Longrightarrow>
   mem_write mem off bs = Inr (take off mem @ bs @ drop (off + length bs) mem)"
  by (simp add: mem_write_def)

section \<open>Lists\<close>

text \<open>A list that is strictly sorted by a key is determined by its set.\<close>

lemma strict_key_sorted_unique:
  fixes f :: "'a \<Rightarrow> 'k :: linorder"
  assumes "sorted_wrt (\<lambda>a b. f a < f b) xs" "sorted_wrt (\<lambda>a b. f a < f b) ys" "set xs = set ys"
  shows "xs = ys"
  using assms
proof (induction xs arbitrary: ys)
  case (Cons x xs)
  then obtain y ys' where ys: "ys = y # ys'" by (cases ys) auto
  have "x = y"
  proof (rule ccontr)
    assume "x \<noteq> y"
    with Cons.prems ys have "x \<in> set ys'" "y \<in> set xs" by auto
    with Cons.prems ys have "f y < f x" "f x < f y" by auto
    then show False by simp
  qed
  moreover have "x \<notin> set xs" "y \<notin> set ys'" using Cons.prems ys by auto
  then have "set xs = set ys'" using Cons.prems(3) ys \<open>x = y\<close> by auto
  ultimately show ?case using Cons ys by simp
qed simp

lemma key_sorted_le_last:
  fixes f :: "'a \<Rightarrow> 'k :: linorder"
  shows "sorted_wrt (\<lambda>a b. f a < f b) xs \<Longrightarrow> a \<in> set xs \<Longrightarrow> f a \<le> f (last xs)"
  by (induction xs) (auto simp: less_imp_le)

end
