(* ===== verification/Interfaces.thy ===== *)
theory Interfaces
  imports Prelude
begin

text \<open>
  The contracts that components rely on, as locales, each with the lemmas its clients use. Every
  locale is interpreted on the definitions of the component that provides the contract.
\<close>

section \<open>Self-delimiting encodings\<close>

text \<open>A decoder that reads one encoded value off the front of its input and returns the rest.\<close>

locale prefix_codec =
  fixes ok :: "'a \<Rightarrow> bool"
    and enc :: "'a \<Rightarrow> 'b list"
    and dec :: "'b list \<Rightarrow> ('a \<times> 'b list) option"
  assumes dec_enc: "ok x \<Longrightarrow> dec (enc x @ rest) = Some (x, rest)"
begin

lemma enc_append_inject:
  assumes "ok x" "ok y" "enc x @ r = enc y @ s"
  shows "x = y \<and> r = s"
proof -
  have "Some (x, r) = dec (enc y @ s)" using dec_enc [OF assms(1), of r] assms(3) by metis
  then show ?thesis using dec_enc [OF assms(2), of s] by simp
qed

lemma enc_inject: "ok x \<Longrightarrow> ok y \<Longrightarrow> enc x = enc y \<longleftrightarrow> x = y"
  using enc_append_inject [of x y "[]" "[]"] by auto

lemma enc_prefix_free: "ok x \<Longrightarrow> ok y \<Longrightarrow> enc y = enc x @ s \<Longrightarrow> s = []"
  using enc_append_inject [of x y s "[]"] by simp

primrec dec_n :: "nat \<Rightarrow> 'b list \<Rightarrow> ('a list \<times> 'b list) option" where
  "dec_n 0 bs = Some ([], bs)"
| "dec_n (Suc n) bs =
     Option.bind (dec bs) (\<lambda>(x, r). Option.bind (dec_n n r) (\<lambda>(xs, r'). Some (x # xs, r')))"

lemma dec_n_enc:
  "list_all ok xs \<Longrightarrow> dec_n (length xs) (concat (map enc xs) @ rest) = Some (xs, rest)"
  by (induction xs) (simp_all add: dec_enc)

lemma enc_list_inject:
  assumes "list_all ok xs" "list_all ok ys" "dec [] = None"
    "concat (map enc xs) = concat (map enc ys)"
  shows "xs = ys"
  using assms
proof (induction xs arbitrary: ys)
  case Nil
  then show ?case
  proof (cases ys)
    case (Cons y ys')
    then have "enc y = []" "ok y" using Nil.prems by simp_all
    then show ?thesis using dec_enc [of y "[]"] Nil.prems(3) by simp
  qed simp
next
  case (Cons x xs)
  show ?case
  proof (cases ys)
    case Nil
    then have "enc x = []" "ok x" using Cons.prems by simp_all
    then show ?thesis using dec_enc [of x "[]"] Cons.prems(3) by simp
  next
    case ys: (Cons y ys')
    then have "enc x @ concat (map enc xs) = enc y @ concat (map enc ys')"
      using Cons.prems(4) by simp
    then have "x = y \<and> concat (map enc xs) = concat (map enc ys')"
      using Cons.prems(1,2) ys by (intro enc_append_inject) simp_all
    then show ?thesis using Cons.IH [of ys'] Cons.prems(1-3) ys by simp
  qed
qed

end

section \<open>Keyed tables\<close>

text \<open>A table of key-value pairs: what a lookup returns after an insertion or update.\<close>

locale keyed_table =
  fixes inv :: "'t \<Rightarrow> bool"
    and empty :: "'t"
    and get :: "'t \<Rightarrow> 'k \<Rightarrow> 'v option"
    and put :: "'t \<Rightarrow> 'k \<Rightarrow> 'v \<Rightarrow> 't"
  assumes inv_empty: "inv empty"
    and get_empty: "get empty k = None"
    and inv_put: "inv t \<Longrightarrow> inv (put t k v)"
    and get_put: "inv t \<Longrightarrow> get (put t k v) k' = (if k' = k then Some v else get t k')"
begin

definition put_all :: "'t \<Rightarrow> ('k \<times> 'v) list \<Rightarrow> 't" where
  "put_all t kvs = foldl (\<lambda>t (k, v). put t k v) t kvs"

lemma inv_put_all: "inv t \<Longrightarrow> inv (put_all t kvs)"
  by (induction kvs arbitrary: t) (auto simp: put_all_def inv_put)

lemma get_put_all:
  "inv t \<Longrightarrow> get (put_all t kvs) k = (case map_of (rev kvs) k of Some v \<Rightarrow> Some v | None \<Rightarrow> get t k)"
proof (induction kvs arbitrary: t)
  case (Cons kv kvs)
  then show ?case
    by (cases kv) (auto simp: put_all_def inv_put get_put map_add_def split: option.splits)
qed (simp add: put_all_def)

lemma get_built: "get (put_all empty kvs) k = map_of (rev kvs) k"
  by (simp add: get_put_all inv_empty get_empty split: option.splits)

lemma put_overwrites: "inv t \<Longrightarrow> get (put (put t k v) k w) k' = get (put t k w) k'"
  by (simp add: get_put inv_put)

lemma put_commute:
  "inv t \<Longrightarrow> k \<noteq> l \<Longrightarrow> get (put (put t k v) l w) k' = get (put (put t l w) k v) k'"
  by (simp add: get_put inv_put)

end

section \<open>First-in first-out queues\<close>

locale fifo =
  fixes inv :: "'s \<Rightarrow> bool"
    and items :: "'s \<Rightarrow> 'a list"
    and push :: "'s \<Rightarrow> 'a \<Rightarrow> 's"
    and pop :: "'s \<Rightarrow> ('a \<times> 's) option"
  assumes inv_push: "inv s \<Longrightarrow> inv (push s x)"
    and items_push: "inv s \<Longrightarrow> items (push s x) = items s @ [x]"
    and pop_empty: "inv s \<Longrightarrow> items s = [] \<Longrightarrow> pop s = None"
    and pop_cons: "inv s \<Longrightarrow> items s = x # xs \<Longrightarrow> \<exists>s'. pop s = Some (x, s') \<and> inv s' \<and> items s' = xs"
begin

lemma inv_push_all: "inv s \<Longrightarrow> inv (foldl push s xs)"
  by (induction xs arbitrary: s) (simp_all add: inv_push)

lemma items_push_all: "inv s \<Longrightarrow> items (foldl push s xs) = items s @ xs"
  by (induction xs arbitrary: s) (simp_all add: inv_push items_push)

primrec pop_n :: "nat \<Rightarrow> 's \<Rightarrow> 'a list \<times> 's" where
  "pop_n 0 s = ([], s)"
| "pop_n (Suc n) s =
     (case pop s of None \<Rightarrow> ([], s) | Some (x, s') \<Rightarrow> (let (xs, s'') = pop_n n s' in (x # xs, s'')))"

lemma pop_n_items:
  "inv s \<Longrightarrow> fst (pop_n n s) = take n (items s) \<and> items (snd (pop_n n s)) = drop n (items s) \<and>
   inv (snd (pop_n n s))"
proof (induction n arbitrary: s)
  case (Suc n)
  show ?case
  proof (cases "items s")
    case Nil
    then show ?thesis using Suc.prems by (simp add: pop_empty)
  next
    case (Cons x xs)
    then obtain s' where "pop s = Some (x, s')" "inv s'" "items s' = xs"
      using pop_cons [OF Suc.prems] by blast
    then show ?thesis using Suc.IH [of s'] Cons by (simp add: split_def)
  qed
qed simp

text \<open>What was put in comes out, in the same order.\<close>

lemma pop_pushed:
  assumes "inv s" "items s = []"
  shows "fst (pop_n (length xs) (foldl push s xs)) = xs"
  using pop_n_items [OF inv_push_all [OF assms(1)]] items_push_all [OF assms(1)] assms(2) by simp

end

section \<open>Incremental input\<close>

text \<open>An object that takes its input in pieces: \<open>holds s xs\<close> says that the state \<open>s\<close> stands for the
  input \<open>xs\<close> taken so far, and \<open>fits\<close> says which inputs are within the object's limits.\<close>

locale sink =
  fixes holds :: "'s \<Rightarrow> 'a list \<Rightarrow> bool"
    and fits :: "'a list \<Rightarrow> bool"
    and put :: "'s \<Rightarrow> 'a list \<Rightarrow> 's result"
  assumes fits_prefix: "fits (xs @ ys) \<Longrightarrow> fits xs"
    and put_holds: "holds s xs \<Longrightarrow> fits (xs @ ys) \<Longrightarrow> \<exists>s'. put s ys = Inr s' \<and> holds s' (xs @ ys)"
begin

fun put_all :: "'s \<Rightarrow> 'a list list \<Rightarrow> 's result" where
  "put_all s [] = Inr s"
| "put_all s (ys # yss) = rbind (put s ys) (\<lambda>s'. put_all s' yss)"

lemma put_all_holds:
  "holds s xs \<Longrightarrow> fits (xs @ concat yss) \<Longrightarrow> \<exists>s'. put_all s yss = Inr s' \<and> holds s' (xs @ concat yss)"
proof (induction yss arbitrary: s xs)
  case (Cons ys yss)
  have f: "fits ((xs @ ys) @ concat yss)" using Cons.prems(2) by simp
  obtain s' where "put s ys = Inr s'" "holds s' (xs @ ys)"
    using put_holds [OF Cons.prems(1) fits_prefix [OF f]] by blast
  then show ?case using Cons.IH [OF _ f] by simp
qed simp

end

text \<open>An incremental hash: the digest of a state is a function of the input it stands for, so it
  does not depend on how the input was cut into pieces.\<close>

locale hash_sink = sink holds fits put
  for holds :: "'s \<Rightarrow> 'a list \<Rightarrow> bool" and fits and put +
  fixes digest :: "'s \<Rightarrow> 'd"
    and hash :: "'a list \<Rightarrow> 'd"
  assumes digest_holds: "holds s xs \<Longrightarrow> fits xs \<Longrightarrow> digest s = hash xs"
begin

lemma digest_put_all:
  assumes "holds s []" "fits (concat yss)"
  shows "\<exists>s'. put_all s yss = Inr s' \<and> digest s' = hash (concat yss)"
  using put_all_holds [of s "[]" yss] digest_holds assms by auto

end

section \<open>Simulation of an abstract object\<close>

text \<open>Running a list of calls on an object whose calls may fail, and on its specification; and that every call is
  allowed in the state it meets.\<close>

fun run_ops :: "('s \<Rightarrow> 'c \<Rightarrow> ('o \<times> 's) option) \<Rightarrow> 's \<Rightarrow> 'c list \<Rightarrow> ('o list \<times> 's) option" where
  "run_ops step s [] = Some ([], s)"
| "run_ops step s (c # cs) =
     Option.bind (step s c) (\<lambda>(out, s'). map_option (\<lambda>(outs, s''). (out # outs, s'')) (run_ops step s' cs))"

fun run_spec :: "('a \<Rightarrow> 'c \<Rightarrow> 'o \<times> 'a) \<Rightarrow> 'a \<Rightarrow> 'c list \<Rightarrow> 'o list \<times> 'a" where
  "run_spec spec a [] = ([], a)"
| "run_spec spec a (c # cs) =
     (fst (spec a c) # fst (run_spec spec (snd (spec a c)) cs), snd (run_spec spec (snd (spec a c)) cs))"

fun ops_ok :: "('a \<Rightarrow> 'c \<Rightarrow> bool) \<Rightarrow> ('a \<Rightarrow> 'c \<Rightarrow> 'o \<times> 'a) \<Rightarrow> 'a \<Rightarrow> 'c list \<Rightarrow> bool" where
  "ops_ok ok spec a [] \<longleftrightarrow> True"
| "ops_ok ok spec a (c # cs) \<longleftrightarrow> ok a c \<and> ops_ok ok spec (snd (spec a c)) cs"

locale simulation =
  fixes rep :: "'s \<Rightarrow> 'a \<Rightarrow> bool"
    and ok :: "'a \<Rightarrow> 'c \<Rightarrow> bool"
    and step :: "'s \<Rightarrow> 'c \<Rightarrow> ('o \<times> 's) option"
    and spec :: "'a \<Rightarrow> 'c \<Rightarrow> 'o \<times> 'a"
  assumes sim: "rep s a \<Longrightarrow> ok a c \<Longrightarrow>
    \<exists>s'. step s c = Some (fst (spec a c), s') \<and> rep s' (snd (spec a c))"
begin

lemma run_refines:
  "rep s a \<Longrightarrow> ops_ok ok spec a cs \<Longrightarrow>
   \<exists>s'. run_ops step s cs = Some (fst (run_spec spec a cs), s') \<and> rep s' (snd (run_spec spec a cs))"
proof (induction cs arbitrary: s a)
  case (Cons c cs)
  obtain s1 where "step s c = Some (fst (spec a c), s1)" "rep s1 (snd (spec a c))"
    using sim Cons.prems by (metis ops_ok.simps(2))
  then show ?case using Cons.IH [of s1 "snd (spec a c)"] Cons.prems(2) by auto
qed simp

end

end
