(* ===== verification/Rudp.thy ===== *)
theory Rudp
  imports Interfaces
begin

text \<open>
  Reliable UDP (\<^verbatim>\<open>src/lualib-src/rudp/rudp.c\<close>, with the Lua binding
  \<^verbatim>\<open>src/lualib-src/rudp/lua-rudp.c\<close>). One \<open>rudp\<close> record is one endpoint: the queues of messages
  to send, received and already sent, the ids the peer asked for again, and the counters.
  A singly linked \<^verbatim>\<open>struct message_queue\<close> with its head and tail pointers is the list of its
  messages from head to tail, and \<^verbatim>\<open>NULL\<close> is the empty list; the free list, which recycles
  message structs with their old bytes, is kept. The definitions follow the order of the source.
\<close>

unbundle bit_operations_syntax

section \<open>Data\<close>

definition GENERAL_PACKAGE :: int where "GENERAL_PACKAGE = 128"
definition MAX_PACKAGE :: int where "MAX_PACKAGE = 0x7fff - 4"

record message =
  m_buffer :: "byte list"
  m_sz :: int
  m_cap :: int
  m_id :: int
  m_tick :: int

record array =
  a_cap :: nat
  a_n :: nat
  a_a :: "int list"

record rudp =
  send_queue :: "message list"
  recv_queue :: "message list"
  send_history :: "message list"
  send_package :: "byte list list"
  free_list :: "message list"
  send_again :: array
  corrupt :: bool
  current_tick :: int
  last_send_tick :: int
  last_expired_tick :: int
  send_id :: int
  recv_id_min :: int
  recv_id_max :: int
  send_delay :: int
  expired :: int

definition rudp_new :: "int \<Rightarrow> int \<Rightarrow> rudp" where
  "rudp_new delay expired_time =
     \<lparr> send_queue = [], recv_queue = [], send_history = [], send_package = [], free_list = [],
       send_again = \<lparr> a_cap = 0, a_n = 0, a_a = [] \<rparr>, corrupt = False,
       current_tick = 0, last_send_tick = 0, last_expired_tick = 0, send_id = 0,
       recv_id_min = 0, recv_id_max = 0, send_delay = delay, expired = expired_time \<rparr>"

definition clear_outpackage :: "rudp \<Rightarrow> rudp" where
  "clear_outpackage U = U\<lparr>send_package := []\<rparr>"

section \<open>Messages and queues\<close>

text \<open>\<open>new_message\<close> takes the first struct of the free list when its capacity suffices and frees
  it otherwise. The bytes of a recycled buffer behind the copied ones stay as they were; the
  bytes of a fresh allocation are not represented. \<open>None\<close> is the \<^verbatim>\<open>NULL\<close> buffer of
  \<^verbatim>\<open>add_missing\<close>.\<close>

definition new_message :: "rudp \<Rightarrow> byte list option \<Rightarrow> int \<Rightarrow> rudp \<times> message" where
  "new_message U buffer sz =
     (let (fl, tmp) = (case free_list U of
            [] \<Rightarrow> ([], None)
          | t # ts \<Rightarrow> (ts, if m_cap t < sz then None else Some t));
          cap = (if sz < GENERAL_PACKAGE then GENERAL_PACKAGE else sz);
          base = (case tmp of
            None \<Rightarrow> \<lparr> m_buffer = [], m_sz = 0, m_cap = cap, m_id = 0, m_tick = 0 \<rparr>
          | Some t \<Rightarrow> t);
          bytes = (case buffer of
            None \<Rightarrow> m_buffer base
          | Some b \<Rightarrow> if sz > 0 then take (nat sz) b @ drop (nat sz) (m_buffer base)
                      else m_buffer base)
      in (U\<lparr>free_list := fl\<rparr>,
          base\<lparr>m_sz := sz, m_buffer := bytes, m_tick := 0, m_id := 0\<rparr>))"

definition delete_message :: "rudp \<Rightarrow> message \<Rightarrow> rudp" where
  "delete_message U m = U\<lparr>free_list := m # free_list U\<rparr>"

definition queue_push :: "message list \<Rightarrow> message \<Rightarrow> message list" where
  "queue_push q m = q @ [m]"

definition queue_pop :: "message list \<Rightarrow> int \<Rightarrow> message list \<times> message option" where
  "queue_pop q pid = (case q of
     [] \<Rightarrow> (q, None)
   | m # rest \<Rightarrow> if m_id m \<noteq> pid then (q, None) else (rest, Some m))"

text \<open>\<open>array_insert\<close>: the first loop stops at an equal id (the call returns) or before the first
  greater one; the array doubles when it is full; the second loop shifts the tail up by one. New
  cells of a \<^verbatim>\<open>realloc\<close> are written before they are read; the model fills them with 0.\<close>

function array_scan :: "int list \<Rightarrow> nat \<Rightarrow> int \<Rightarrow> nat \<Rightarrow> nat option" where
  "array_scan xs n pid i =
     (if i < n then
        (if xs ! i = pid then None
         else if xs ! i > pid then Some i
         else array_scan xs n pid (Suc i))
      else Some i)"
  by pat_completeness auto
termination
  by (relation "measure (\<lambda>(xs, n, pid, i). n - i)") auto

declare array_scan.simps [simp del]

fun array_shift :: "int list \<Rightarrow> nat \<Rightarrow> nat \<Rightarrow> int list" where
  "array_shift xs i 0 = xs"
| "array_shift xs i (Suc j) =
     (if Suc j > i then array_shift (xs[Suc j := xs ! j]) i j else xs)"

definition array_grow :: "array \<Rightarrow> array" where
  "array_grow a = (if a_n a \<ge> a_cap a then
     (let cap = (if a_cap a = 0 then 16 else 2 * a_cap a)
      in a\<lparr>a_cap := cap, a_a := a_a a @ replicate (cap - length (a_a a)) 0\<rparr>)
     else a)"

definition array_insert :: "array \<Rightarrow> int \<Rightarrow> array" where
  "array_insert a pid = (case array_scan (a_a a) (a_n a) pid 0 of
     None \<Rightarrow> a
   | Some i \<Rightarrow>
       (let a' = array_grow a;
            shifted = array_shift (a_a a') i (a_n a')
        in a'\<lparr>a_a := shifted[i := pid], a_n := Suc (a_n a')\<rparr>))"

section \<open>Sending and receiving\<close>

text \<open>The length of the Lua string arrives as an \<open>int\<close>; the model takes it to be the length of the
  list, which it is for every string below 2 GiB.\<close>

definition rudp_send :: "rudp \<Rightarrow> byte list \<Rightarrow> rudp result" where
  "rudp_send U buffer =
     (let sz = int (length buffer)
      in if \<not> sz \<le> MAX_PACKAGE then Inl AssertFailed
         else (let (U1, m) = new_message U (Some buffer) sz;
                   m1 = m\<lparr>m_id := send_id U1, m_tick := current_tick U1\<rparr>
               in Inr (U1\<lparr>send_id := s32 (send_id U1 + 1),
                          send_queue := queue_push (send_queue U1) m1\<rparr>)))"

text \<open>\<open>rudp_recv\<close> returns the state, the C return value and the bytes copied to the caller's
  buffer.\<close>

definition rudp_recv :: "rudp \<Rightarrow> rudp \<times> int \<times> byte list" where
  "rudp_recv U =
     (if corrupt U then (U\<lparr>corrupt := False\<rparr>, -1, [])
      else (case queue_pop (recv_queue U) (recv_id_min U) of
          (q, None) \<Rightarrow> (U, 0, [])
        | (q, Some m) \<Rightarrow>
            (let U1 = U\<lparr>recv_queue := q, recv_id_min := s32 (recv_id_min U + 1)\<rparr>;
                 data = (if m_sz m > 0 then take (nat (m_sz m)) (m_buffer m) else [])
             in (delete_message U1 m, m_sz m, data))))"

fun expired_prefix :: "message list \<Rightarrow> int \<Rightarrow> message list \<times> message list" where
  "expired_prefix [] tick = ([], [])"
| "expired_prefix (m # ms) tick =
     (if m_tick m \<ge> tick then ([], m # ms)
      else (let (old, keep) = expired_prefix ms tick in (m # old, keep)))"

definition clear_send_expired :: "rudp \<Rightarrow> int \<Rightarrow> rudp" where
  "clear_send_expired U tick =
     (let (old, keep) = expired_prefix (send_history U) tick
      in U\<lparr>free_list := old @ free_list U, send_history := keep\<rparr>)"

text \<open>The full id of a frame from its low 16 bits, relative to the greatest id received.\<close>

definition get_id :: "rudp \<Rightarrow> byte \<Rightarrow> byte \<Rightarrow> int" where
  "get_id U b0 b1 =
     (let id0 = uint b0 * 256 + uint b1;
          id1 = id0 OR (recv_id_max U AND NOT 0xffff)
      in if id1 < s32 (recv_id_max U - 0x8000) then s32 (id1 + 0x10000)
         else if id1 > s32 (recv_id_max U + 0x8000) then s32 (id1 - 0x10000)
         else id1)"

definition add_request :: "rudp \<Rightarrow> int \<Rightarrow> rudp" where
  "add_request U pid = U\<lparr>send_again := array_insert (send_again U) pid\<rparr>"

text \<open>The insertion loop of \<open>insert_message\<close>: before the first message with a greater id, and
  nowhere when there is none.\<close>

fun insert_before :: "message list \<Rightarrow> message \<Rightarrow> message list option" where
  "insert_before [] t = None"
| "insert_before (m # ms) t =
     (if m_id m > m_id t then Some (t # m # ms)
      else (case insert_before ms t of None \<Rightarrow> None | Some ms' \<Rightarrow> Some (m # ms')))"

definition insert_message :: "rudp \<Rightarrow> int \<Rightarrow> byte list option \<Rightarrow> int \<Rightarrow> rudp" where
  "insert_message U pid buffer sz =
     (if pid < recv_id_min U then U
      else if pid > recv_id_max U \<or> recv_queue U = [] then
        (let (U1, m) = new_message U buffer sz
         in U1\<lparr>recv_queue := queue_push (recv_queue U1) (m\<lparr>m_id := pid\<rparr>), recv_id_max := pid\<rparr>)
      else
        (let (U1, m) = new_message U buffer sz
         in (case insert_before (recv_queue U) (m\<lparr>m_id := pid\<rparr>) of
               None \<Rightarrow> U
             | Some q \<Rightarrow> U1\<lparr>recv_queue := q\<rparr>)))"

definition add_missing :: "rudp \<Rightarrow> int \<Rightarrow> rudp" where
  "add_missing U pid = insert_message U pid None (-1)"

section \<open>Parsing an incoming package\<close>

definition TYPE_IGNORE :: int where "TYPE_IGNORE = 0"
definition TYPE_CORRUPT :: int where "TYPE_CORRUPT = 1"
definition TYPE_REQUEST :: int where "TYPE_REQUEST = 2"
definition TYPE_MISSING :: int where "TYPE_MISSING = 3"
definition TYPE_NORMAL :: int where "TYPE_NORMAL = 4"

lemmas type_defs = TYPE_IGNORE_def TYPE_CORRUPT_def TYPE_REQUEST_def TYPE_MISSING_def
  TYPE_NORMAL_def

text \<open>The length field at the head of a frame: one byte below 128, two bytes otherwise; \<open>None\<close>
  when the second byte is missing.\<close>

fun frame_len :: "byte list \<Rightarrow> (int \<times> byte list) option" where
  "frame_len [] = None"
| "frame_len (b # bs) =
     (if uint b > 127 then
        (case bs of [] \<Rightarrow> None
         | b1 # bs' \<Rightarrow> Some ((uint b * 256 + uint b1) AND 0x7fff, bs'))
      else Some (uint b, bs))"

lemma frame_len_shorter: "frame_len bs = Some (len, rest) \<Longrightarrow> length rest < length bs"
  by (cases bs) (auto split: if_splits list.splits)

function extract_package :: "rudp \<Rightarrow> byte list \<Rightarrow> rudp" where
  "extract_package U buffer =
     (if buffer = [] then U
      else (case frame_len buffer of
          None \<Rightarrow> U\<lparr>corrupt := True\<rparr>
        | Some (len, rest) \<Rightarrow>
            if len = TYPE_IGNORE then
              (let U' = (if a_n (send_again U) = 0
                         then U\<lparr>send_again := array_insert (send_again U) (recv_id_min U)\<rparr>
                         else U)
               in extract_package U' rest)
            else if len = TYPE_CORRUPT then U\<lparr>corrupt := True\<rparr>
            else if len = TYPE_REQUEST \<or> len = TYPE_MISSING then
              (if length rest < 2 then U\<lparr>corrupt := True\<rparr>
               else (let pid = get_id U (rest ! 0) (rest ! 1);
                         U' = (if len = TYPE_REQUEST then add_request U pid else add_missing U pid)
                     in extract_package U' (drop 2 rest)))
            else
              (let n = len - TYPE_NORMAL
               in if int (length rest) < n + 2 then U\<lparr>corrupt := True\<rparr>
                  else (let pid = get_id U (rest ! 0) (rest ! 1);
                            U' = insert_message U pid (Some (drop 2 rest)) n
                        in extract_package U' (drop (nat (n + 2)) rest)))))"
  by pat_completeness auto
termination
  by (relation "measure (\<lambda>(U, buffer). length buffer)") (auto dest!: frame_len_shorter)

declare extract_package.simps [simp del]

section \<open>Building the outgoing packages\<close>

text \<open>The write buffer \<^verbatim>\<open>struct tmp_buffer\<close>: \<open>t_buf\<close> is the written prefix of the 128-byte
  array (its length is the field \<^verbatim>\<open>sz\<close>), \<open>t_out\<close> the list of finished packages.\<close>

record tmp_buffer =
  t_buf :: "byte list"
  t_out :: "byte list list"

definition new_package :: "tmp_buffer \<Rightarrow> tmp_buffer" where
  "new_package tmp = tmp\<lparr>t_out := t_out tmp @ [t_buf tmp], t_buf := []\<rparr>"

definition fill_header :: "int \<Rightarrow> int \<Rightarrow> byte list" where
  "fill_header len pid =
     (if len < 128 then [word_of_int len]
      else [word_of_int (drop_bit 8 (len AND 0x7f00) OR 0x80), word_of_int (len AND 0xff)])
     @ [word_of_int (drop_bit 8 (pid AND 0xff00)), word_of_int (pid AND 0xff)]"

definition pack_request :: "tmp_buffer \<Rightarrow> int \<Rightarrow> int \<Rightarrow> tmp_buffer" where
  "pack_request tmp pid tag =
     (let sz = GENERAL_PACKAGE - int (length (t_buf tmp));
          tmp1 = (if sz < 3 then new_package tmp else tmp)
      in tmp1\<lparr>t_buf := t_buf tmp1 @ fill_header tag pid\<rparr>)"

definition pack_message :: "tmp_buffer \<Rightarrow> message \<Rightarrow> tmp_buffer" where
  "pack_message tmp m =
     (let sz = GENERAL_PACKAGE - int (length (t_buf tmp));
          frame = fill_header (m_sz m + TYPE_NORMAL) (m_id m) @ take (nat (m_sz m)) (m_buffer m)
      in if m_sz m > GENERAL_PACKAGE - 4 then
           (let tmp1 = (if length (t_buf tmp) > 0 then new_package tmp else tmp)
            in tmp1\<lparr>t_out := t_out tmp1 @ [frame]\<rparr>)
         else
           (let tmp1 = (if sz < 4 + m_sz m then new_package tmp else tmp)
            in tmp1\<lparr>t_buf := t_buf tmp1 @ frame\<rparr>))"

function request_range :: "tmp_buffer \<Rightarrow> int \<Rightarrow> int \<Rightarrow> tmp_buffer" where
  "request_range tmp i hi =
     (if i < hi then request_range (pack_request tmp i TYPE_REQUEST) (i + 1) hi else tmp)"
  by pat_completeness auto
termination
  by (relation "measure (\<lambda>(tmp, i, hi). nat (hi - i))") auto

declare request_range.simps [simp del]

fun request_missing_from :: "tmp_buffer \<Rightarrow> int \<Rightarrow> message list \<Rightarrow> tmp_buffer result" where
  "request_missing_from tmp pid [] = Inr tmp"
| "request_missing_from tmp pid (m # ms) =
     (if \<not> m_id m \<ge> pid then Inl AssertFailed
      else request_missing_from (request_range tmp pid (m_id m)) (s32 (m_id m + 1)) ms)"

definition request_missing :: "rudp \<Rightarrow> tmp_buffer \<Rightarrow> tmp_buffer result" where
  "request_missing U tmp = request_missing_from tmp (recv_id_min U) (recv_queue U)"

text \<open>The inner loop of \<open>reply_request\<close> for one requested id. The history pointer only moves
  forward and is shared by all requested ids.\<close>

fun reply_one :: "tmp_buffer \<Rightarrow> message list \<Rightarrow> int \<Rightarrow> tmp_buffer \<times> message list" where
  "reply_one tmp [] pid = (pack_request tmp pid TYPE_MISSING, [])"
| "reply_one tmp (h # hs) pid =
     (if pid < m_id h then (pack_request tmp pid TYPE_MISSING, h # hs)
      else if pid = m_id h then (pack_message tmp h, h # hs)
      else reply_one tmp hs pid)"

fun reply_all :: "rudp \<Rightarrow> tmp_buffer \<Rightarrow> message list \<Rightarrow> int list \<Rightarrow> tmp_buffer" where
  "reply_all U tmp history [] = tmp"
| "reply_all U tmp history (pid # pids) =
     (if pid < recv_id_min U then reply_all U tmp history pids
      else (let (tmp', history') = reply_one tmp history pid in reply_all U tmp' history' pids))"

definition reply_request :: "rudp \<Rightarrow> tmp_buffer \<Rightarrow> rudp \<times> tmp_buffer" where
  "reply_request U tmp =
     (let ids = take (a_n (send_again U)) (a_a (send_again U))
      in (U\<lparr>send_again := (send_again U)\<lparr>a_n := 0\<rparr>\<rparr>,
          reply_all U tmp (send_history U) ids))"

definition send_message :: "rudp \<Rightarrow> tmp_buffer \<Rightarrow> rudp \<times> tmp_buffer" where
  "send_message U tmp =
     (let tmp' = foldl pack_message tmp (send_queue U)
      in if send_queue U \<noteq> [] then
           (U\<lparr>send_history := send_history U @ send_queue U, send_queue := []\<rparr>, tmp')
         else (U, tmp'))"

definition gen_outpackage :: "rudp \<Rightarrow> (rudp \<times> byte list list) result" where
  "gen_outpackage U =
     rbind (request_missing U \<lparr> t_buf = [], t_out = [] \<rparr>) (\<lambda>tmp.
       let (U1, tmp1) = reply_request U tmp;
           (U2, tmp2) = send_message U1 tmp1;
           tmp3 = (if t_out tmp2 = [] \<and> t_buf tmp2 = []
                   then tmp2\<lparr>t_buf := [word_of_int TYPE_IGNORE]\<rparr> else tmp2)
       in Inr (U2, t_out (new_package tmp3)))"

text \<open>\<open>rudp_update\<close>: the returned list of packages is \<open>[]\<close> for the \<^verbatim>\<open>NULL\<close> of the source; a
  package list built by \<open>gen_outpackage\<close> is never empty.\<close>

definition rudp_update :: "rudp \<Rightarrow> byte list \<Rightarrow> int \<Rightarrow> (rudp \<times> byte list list) result" where
  "rudp_update U buffer tick =
     (let U1 = clear_outpackage (U\<lparr>current_tick := s32 (current_tick U + tick)\<rparr>);
          U2 = extract_package U1 buffer;
          U3 = (if current_tick U2 \<ge> s32 (last_expired_tick U2 + expired U2)
                then (clear_send_expired U2 (last_expired_tick U2))
                       \<lparr>last_expired_tick := current_tick U2\<rparr>
                else U2)
      in if current_tick U3 \<ge> s32 (last_send_tick U3 + send_delay U3) then
           rbind (gen_outpackage U3) (\<lambda>(U4, ps).
             Inr (U4\<lparr>send_package := ps, last_send_tick := current_tick U4\<rparr>, ps))
         else Inr (U3, []))"

section \<open>The Lua binding\<close>

text \<open>\<^verbatim>\<open>struct rudp_aux\<close>: the endpoint and the peer address in a 256-byte array.\<close>

definition MAX_FROM_LEN :: nat where "MAX_FROM_LEN = 256"

record rudp_aux =
  aux_u :: rudp
  aux_sz :: nat
  aux_from :: "byte list"

definition lsend :: "rudp_aux \<Rightarrow> byte list \<Rightarrow> rudp_aux result" where
  "lsend aux buffer = rbind (rudp_send (aux_u aux) buffer) (\<lambda>U. Inr (aux\<lparr>aux_u := U\<rparr>))"

lemma rudp_recv_shorter:
  "fst (snd (rudp_recv U)) > 0 \<Longrightarrow>
   length (recv_queue (fst (rudp_recv U))) < length (recv_queue U)"
  by (auto simp: rudp_recv_def queue_pop_def delete_message_def Let_def
      split: if_splits list.splits option.splits)

text \<open>The receive loop of \<open>lupdate\<close>: the packages handed to the Lua callback, until
  \<open>rudp_recv\<close> returns 0 or a negative value.\<close>

function recv_loop :: "rudp \<Rightarrow> rudp \<times> byte list list" where
  "recv_loop U =
     (let r = rudp_recv U; U' = fst r; n = fst (snd r); data = snd (snd r)
      in if n > 0 then (let (U'', ds) = recv_loop U' in (U'', data # ds)) else (U', []))"
  by pat_completeness auto
termination
  by (relation "measure (\<lambda>U. length (recv_queue U))")
    (auto intro: rudp_recv_shorter)

declare recv_loop.simps [simp del]

text \<open>\<open>lupdate\<close> returns the state, the packages passed to the \<open>send\<close> callback and those passed
  to the \<open>recv\<close> callback. An update without an incoming package passes \<open>[]\<close>.\<close>

definition lupdate ::
    "rudp_aux \<Rightarrow> int \<Rightarrow> byte list \<Rightarrow> (rudp_aux \<times> byte list list \<times> byte list list) result" where
  "lupdate aux tick buffer =
     rbind (rudp_update (aux_u aux) buffer tick) (\<lambda>(U, res).
       let (U', got) = recv_loop U in Inr (aux\<lparr>aux_u := U'\<rparr>, res, got))"

definition lset_from :: "rudp_aux \<Rightarrow> byte list \<Rightarrow> rudp_aux result" where
  "lset_from aux addr =
     (if \<not> length addr \<le> MAX_FROM_LEN then Inl AssertFailed
      else Inr (aux\<lparr>aux_from := addr @ replicate (MAX_FROM_LEN - length addr) 0,
                    aux_sz := length addr\<rparr>))"

text \<open>\<open>lua_pushstring\<close> reads the array up to the first NUL byte; without one it runs past the
  array.\<close>

definition lget_from :: "rudp_aux \<Rightarrow> byte list result" where
  "lget_from aux =
     (if 0 \<in> set (aux_from aux) then Inr (takeWhile (\<lambda>b. b \<noteq> 0) (aux_from aux))
      else Inl OutOfBounds)"

definition lalloc :: "byte list \<Rightarrow> nat \<Rightarrow> rudp_aux" where
  "lalloc uninit_from uninit_sz =
     \<lparr> aux_u = rudp_new 1 5, aux_sz = uninit_sz, aux_from = uninit_from \<rparr>"

section \<open>The array of requested ids\<close>

definition arr_list :: "array \<Rightarrow> int list" where
  "arr_list a = take (a_n a) (a_a a)"

definition arr_wf :: "array \<Rightarrow> bool" where
  "arr_wf a \<longleftrightarrow> a_n a \<le> a_cap a \<and> length (a_a a) = a_cap a \<and> sorted_wrt (<) (arr_list a)"

lemma array_scan_None:
  "array_scan xs n x i = None \<Longrightarrow> \<exists>k. i \<le> k \<and> k < n \<and> xs ! k = x"
proof (induction xs n x i rule: array_scan.induct)
  case (1 xs n x i)
  show ?case
  proof (cases "i < n \<and> xs ! i \<noteq> x \<and> \<not> x < xs ! i")
    case True
    with 1 have "\<exists>k. Suc i \<le> k \<and> k < n \<and> xs ! k = x"
      by (simp add: array_scan.simps [of xs n x i])
    then show ?thesis by (auto intro: Suc_leD)
  next
    case False
    with 1 show ?thesis by (auto simp: array_scan.simps [of xs n x i] split: if_splits)
  qed
qed

lemma array_scan_Some:
  "array_scan xs n x i = Some j \<Longrightarrow> i \<le> n \<Longrightarrow>
   i \<le> j \<and> j \<le> n \<and> (\<forall>k. i \<le> k \<longrightarrow> k < j \<longrightarrow> xs ! k < x) \<and> (j < n \<longrightarrow> x < xs ! j)"
proof (induction xs n x i rule: array_scan.induct)
  case (1 xs n x i)
  show ?case
  proof (cases "i < n \<and> xs ! i \<noteq> x \<and> \<not> x < xs ! i")
    case True
    with 1 have "Suc i \<le> j \<and> j \<le> n \<and> (\<forall>k. Suc i \<le> k \<longrightarrow> k < j \<longrightarrow> xs ! k < x) \<and>
        (j < n \<longrightarrow> x < xs ! j)"
      by (simp add: array_scan.simps [of xs n x i])
    moreover have "xs ! i < x" using True by simp
    ultimately show ?thesis by (metis le_neq_implies_less Suc_leI Suc_leD)
  next
    case False
    with 1 show ?thesis by (auto simp: array_scan.simps [of xs n x i] split: if_splits)
  qed
qed

lemma array_shift_length [simp]: "length (array_shift xs i j) = length xs"
  by (induction xs i j rule: array_shift.induct) auto

lemma array_shift_nth:
  "j < length xs \<Longrightarrow> k < length xs \<Longrightarrow>
   array_shift xs i j ! k = (if i < k \<and> k \<le> j then xs ! (k - 1) else xs ! k)"
  by (induction xs i j rule: array_shift.induct) (auto simp: nth_list_update le_Suc_eq)

lemma array_insert_take:
  assumes "i \<le> n" "n < length xs"
  shows "take (Suc n) ((array_shift xs i n)[i := x]) = take i xs @ x # drop i (take n xs)"
proof (rule nth_equalityI)
  show "length (take (Suc n) ((array_shift xs i n)[i := x])) =
      length (take i xs @ x # drop i (take n xs))"
    using assms by simp
next
  fix k
  assume "k < length (take (Suc n) ((array_shift xs i n)[i := x]))"
  then have k: "k < Suc n" "k < length xs" using assms by simp_all
  consider "k < i" | "k = i" | "i < k" by linarith
  then show "take (Suc n) ((array_shift xs i n)[i := x]) ! k =
      (take i xs @ x # drop i (take n xs)) ! k"
    by cases (use k assms in \<open>auto simp: array_shift_nth nth_append nth_Cons' min_def\<close>)
qed

lemma array_grow_props:
  assumes "arr_wf a"
  shows "arr_list (array_grow a) = arr_list a" "a_n (array_grow a) = a_n a"
    "a_n (array_grow a) < a_cap (array_grow a)"
    "length (a_a (array_grow a)) = a_cap (array_grow a)"
    "k < a_n a \<Longrightarrow> a_a (array_grow a) ! k = a_a a ! k"
  using assms by (auto simp: array_grow_def arr_wf_def arr_list_def Let_def nth_append)

lemma strict_sorted_insert_at:
  assumes "sorted_wrt (<) (ys :: int list)" "i \<le> length ys"
    and "\<And>k. k < i \<Longrightarrow> ys ! k < x" "i < length ys \<Longrightarrow> x < ys ! i"
  shows "sorted_wrt (<) (take i ys @ x # drop i ys)"
proof -
  have tk: "\<forall>y\<in>set (take i ys). y < x"
    using assms(3) by (auto simp: in_set_conv_nth)
  have dr: "\<forall>y\<in>set (drop i ys). x < y"
  proof
    fix y assume "y \<in> set (drop i ys)"
    then obtain k where k: "k < length ys - i" "y = ys ! (i + k)"
      by (auto simp: in_set_conv_nth)
    have "x < ys ! i" using assms(4) k(1) by simp
    moreover have "ys ! i \<le> ys ! (i + k)"
      using assms(1) k(1) by (cases "k = 0") (auto simp: sorted_wrt_iff_nth_less less_imp_le)
    ultimately show "x < y" using k by simp
  qed
  have st: "sorted_wrt (<) (take i ys)" "sorted_wrt (<) (drop i ys)"
    using assms(1) by (auto simp: sorted_wrt_take sorted_wrt_drop)
  show ?thesis using tk dr st by (fastforce simp: sorted_wrt_append)
qed

lemma array_insert_new:
  assumes "arr_wf a" "array_scan (a_a a) (a_n a) x 0 = Some i"
  shows "arr_list (array_insert a x) = take i (arr_list a) @ x # drop i (arr_list a)"
    "arr_wf (array_insert a x)" "x \<notin> set (arr_list a)"
proof -
  let ?g = "array_grow a"
  note g = array_grow_props [OF assms(1)]
  from array_scan_Some [OF assms(2)]
  have i: "i \<le> a_n a" "\<And>k. k < i \<Longrightarrow> a_a a ! k < x" "i < a_n a \<Longrightarrow> x < a_a a ! i" by auto
  have len: "length (arr_list a) = a_n a"
    using assms(1) by (simp add: arr_wf_def arr_list_def)
  have nth: "arr_list a ! k = a_a a ! k" if "k < a_n a" for k
    using that by (simp add: arr_list_def)
  have "take (Suc (a_n ?g)) ((array_shift (a_a ?g) i (a_n ?g))[i := x]) =
      take i (a_a ?g) @ x # drop i (take (a_n ?g) (a_a ?g))"
    by (rule array_insert_take) (use i g in auto)
  moreover have "take i (a_a ?g) = take i (arr_list a)"
    using i(1) g(1,2) by (metis arr_list_def take_take min_def)
  ultimately show eq: "arr_list (array_insert a x) =
      take i (arr_list a) @ x # drop i (arr_list a)"
    using g(1,2) by (simp add: array_insert_def assms(2) Let_def arr_list_def)
  have sorted: "sorted_wrt (<) (take i (arr_list a) @ x # drop i (arr_list a))"
    by (rule strict_sorted_insert_at) (use assms(1) i len nth in \<open>auto simp: arr_wf_def\<close>)
  then show "arr_wf (array_insert a x)"
    using eq g(2,3,4) by (simp add: arr_wf_def) (simp add: array_insert_def assms(2) Let_def)
  show "x \<notin> set (arr_list a)"
  proof -
    have "set (arr_list a) = set (take i (arr_list a)) \<union> set (drop i (arr_list a))"
      by (metis append_take_drop_id set_append)
    then show ?thesis using sorted by (auto simp: sorted_wrt_append)
  qed
qed

lemma array_insert_old:
  assumes "arr_wf a" "array_scan (a_a a) (a_n a) x 0 = None"
  shows "array_insert a x = a" "x \<in> set (arr_list a)"
  using array_scan_None [OF assms(2)] assms(1)
  by (auto simp: array_insert_def assms(2) arr_list_def arr_wf_def in_set_conv_nth)

lemma arr_wf_insert: "arr_wf a \<Longrightarrow> arr_wf (array_insert a x)"
  using array_insert_new(2) array_insert_old(1) by (metis option.exhaust)

lemma set_arr_insert: "arr_wf a \<Longrightarrow> set (arr_list (array_insert a x)) = insert x (set (arr_list a))"
proof (cases "array_scan (a_a a) (a_n a) x 0")
  case (Some i)
  assume "arr_wf a"
  moreover have "set (take i ys) \<union> set (drop i ys) = set ys" for ys :: "int list"
    by (metis append_take_drop_id set_append)
  ultimately show ?thesis using Some by (auto simp: array_insert_new)
qed (auto simp: array_insert_old)

section \<open>The wire format\<close>

text \<open>The frames of the protocol and their encoding, as \<open>fill_header\<close> and the packing functions
  write them; \<open>apply_frame\<close> is what the receiver does with one.\<close>

datatype frame = Request int | Missing int | Normal int "byte list"

fun encode_frame :: "frame \<Rightarrow> byte list" where
  "encode_frame (Request i) = fill_header TYPE_REQUEST i"
| "encode_frame (Missing i) = fill_header TYPE_MISSING i"
| "encode_frame (Normal i d) = fill_header (int (length d) + TYPE_NORMAL) i @ d"

definition id_hi :: "int \<Rightarrow> byte" where "id_hi i = word_of_int (drop_bit 8 (i AND 0xff00))"
definition id_lo :: "int \<Rightarrow> byte" where "id_lo i = word_of_int (i AND 0xff)"

fun apply_frame :: "rudp \<Rightarrow> frame \<Rightarrow> rudp" where
  "apply_frame U (Request i) = add_request U (get_id U (id_hi i) (id_lo i))"
| "apply_frame U (Missing i) = add_missing U (get_id U (id_hi i) (id_lo i))"
| "apply_frame U (Normal i d) =
     insert_message U (get_id U (id_hi i) (id_lo i)) (Some d) (int (length d))"

fun frame_ok :: "frame \<Rightarrow> bool" where
  "frame_ok (Normal i d) \<longleftrightarrow> int (length d) \<le> MAX_PACKAGE"
| "frame_ok _ \<longleftrightarrow> True"

lemma or_0x80: "0 \<le> x \<Longrightarrow> x < 128 \<Longrightarrow> (x :: int) OR 0x80 = x + 128"
  using set_bit_eq [of 7 x] set_bit_eq_or [of 7 x] by (simp add: bit_iff_odd)

lemma frame_len_header:
  assumes "0 \<le> len" "len \<le> 0x7fff"
  shows "frame_len (fill_header len i @ rest) = Some (len, id_hi i # id_lo i # rest)"
proof (cases "len < 128")
  case True
  with assms show ?thesis
    by (simp add: fill_header_def id_hi_def id_lo_def uint_byte_of_int)
next
  case False
  have d: "len div 256 < 128" "0 \<le> len div 256" using assms by auto
  have "drop_bit 8 (len AND 0x7f00) OR 0x80 = len div 256 + 128"
    using d or_0x80 [of "len div 256"]
    by (simp add: and_0x7f) (simp add: drop_bit_eq_div)
  moreover have "(len div 256 + 128) * 256 + len mod 256 = len + 32768"
    using div_mult_mod_eq [of len 256] by simp
  moreover obtain b0 b1 :: byte where b: "b0 = word_of_int (drop_bit 8 (len AND 0x7f00) OR 0x80)"
      "b1 = word_of_int (len AND 0xff)"
    by simp
  ultimately have "uint b0 = len div 256 + 128" "uint b1 = len mod 256"
    "(uint b0 * 256 + uint b1) AND 0x7fff = len"
    using d assms by (simp_all only: uint_byte_of_int and_0xff and_0x7fff) simp_all
  moreover have "fill_header len i @ rest = b0 # b1 # id_hi i # id_lo i # rest"
    using False by (simp add: fill_header_def id_hi_def id_lo_def b)
  ultimately show ?thesis using d by simp
qed

lemma extract_Nil [simp]: "extract_package U [] = U"
  by (simp add: extract_package.simps)

lemma fill_header_not_Nil [simp]: "fill_header len i @ rest \<noteq> []" "fill_header len i \<noteq> []"
  by (simp_all add: fill_header_def)

theorem extract_frame:
  assumes "frame_ok f"
  shows "extract_package U (encode_frame f @ rest) = extract_package (apply_frame U f) rest"
proof (cases f)
  case (Request i)
  then show ?thesis
    by (subst extract_package.simps) (simp add: frame_len_header type_defs)
next
  case (Missing i)
  then show ?thesis
    by (subst extract_package.simps) (simp add: frame_len_header type_defs)
next
  case (Normal i d)
  with assms have "frame_len (fill_header (int (length d) + 4) i @ d @ rest) =
      Some (int (length d) + 4, id_hi i # id_lo i # d @ rest)"
    by (intro frame_len_header) (auto simp: MAX_PACKAGE_def)
  moreover have "insert_message U j (Some (d @ rest)) (int (length d)) =
      insert_message U j (Some d) (int (length d))" for j
    by (simp add: insert_message_def new_message_def Let_def split: option.splits list.splits)
  ultimately show ?thesis
    using Normal by (subst extract_package.simps) (simp add: type_defs nat_add_distrib)
qed

lemma extract_frames:
  "list_all frame_ok fs \<Longrightarrow>
   extract_package U (concat (map encode_frame fs) @ rest) =
   extract_package (foldl apply_frame U fs) rest"
  by (induction fs arbitrary: U) (simp_all add: extract_frame)

section \<open>Full ids from 16 bits\<close>

lemma uint_id_hi: "uint (id_hi i) = (i div 256) mod 256"
  by (simp add: id_hi_def uint_byte_of_int and_0xff) (simp add: drop_bit_eq_div)

lemma uint_id_lo: "uint (id_lo i) = i mod 256"
  by (simp add: id_lo_def uint_byte_of_int and_0xff)

lemma id_bytes: "uint (id_hi i) * 256 + uint (id_lo i) = i mod 65536"
  using mod_mult2_eq' [of i 256 256] by (simp add: uint_id_hi uint_id_lo)

lemma or_block: "0 \<le> x \<Longrightarrow> x < 65536 \<Longrightarrow> (x :: int) OR (M AND NOT 65535) = x + (M - M mod 65536)"
proof -
  assume "0 \<le> x" "x < 65536"
  then have "x = x AND 65535" by (simp add: and_0xffff)
  then have "x AND (M AND NOT 65535) = (x AND 65535) AND (M AND NOT 65535)" by simp
  also have "\<dots> = 0" by (simp add: ac_simps)
  finally show ?thesis
    by (simp only: disjunctive_add_eq_or [symmetric] and_not_0xffff)
qed

lemma get_id_near:
  assumes "\<bar>i - recv_id_max U\<bar> < 0x8000"
    and "0 \<le> i" "i \<le> INT_MAX - 0x10000" "0 \<le> recv_id_max U" "recv_id_max U \<le> INT_MAX - 0x10000"
  shows "get_id U (id_hi i) (id_lo i) = i"
proof -
  let ?M = "recv_id_max U"
  define r where "r = i mod 65536"
  define B where "B = ?M - ?M mod 65536"
  have r: "0 \<le> r" "r < 65536" by (simp_all add: r_def)
  have B: "B \<le> ?M" "?M < B + 65536" "B mod 65536 = 0"
    by (simp_all add: B_def)
  have id1: "(uint (id_hi i) * 256 + uint (id_lo i)) OR (?M AND NOT 0xffff) = r + B"
    using or_block [OF r, of ?M] by (simp add: id_bytes r_def B_def)
  have "(r + B) mod 65536 = i mod 65536"
    using B(3) by (simp add: r_def mod_add_eq [symmetric])
  then obtain k where k: "i = r + B + k * 65536"
    by (metis add.commute mod_eqE mult.commute diff_add_cancel add_diff_cancel_left')
  have "k = 0 \<or> k = 1 \<or> k = -1" using k assms(1) B(1,2) r by arith
  moreover have "s32 (?M - 0x8000) = ?M - 0x8000" "s32 (?M + 0x8000) = ?M + 0x8000"
    using assms by (auto intro!: s32_id)
  moreover have "s32 i = i" using assms by (auto intro!: s32_id)
  ultimately show ?thesis
    unfolding get_id_def Let_def id1 using k assms(1) B(1,2) r by auto
qed

section \<open>Messages\<close>

definition payload :: "message \<Rightarrow> byte list" where
  "payload m = (if m_sz m > 0 then take (nat (m_sz m)) (m_buffer m) else [])"

lemma payload_update [simp]:
  "payload (m\<lparr>m_id := i\<rparr>) = payload m" "payload (m\<lparr>m_tick := t\<rparr>) = payload m"
  by (simp_all add: payload_def)

text \<open>Whatever struct the free list supplies, the payload of a new message is the data given.\<close>

lemma new_message_fields:
  assumes "new_message U b n = (U', m)"
  shows "m_sz m = n" "m_id m = 0" "m_tick m = 0" "\<exists>fl. U' = U\<lparr>free_list := fl\<rparr>"
  using assms by (auto simp: new_message_def Let_def split: prod.splits list.splits option.splits)

lemma new_message_payload:
  "new_message U (Some d) (int (length d)) = (U', m) \<Longrightarrow> payload m = d"
  by (auto simp: new_message_def Let_def payload_def split: prod.splits list.splits option.splits)

lemma new_message_buffer:
  "new_message U (Some d) (int (length d)) = (U', m) \<Longrightarrow> take (length d) (m_buffer m) = d"
  by (auto simp: new_message_def Let_def split: prod.splits list.splits option.splits if_splits)

section \<open>Packing\<close>

text \<open>A message as \<open>rudp_send\<close> queues it: its size is a package size and its buffer holds it.\<close>

definition msg_ok :: "message \<Rightarrow> bool" where
  "msg_ok m \<longleftrightarrow> 0 \<le> m_sz m \<and> m_sz m \<le> MAX_PACKAGE \<and> nat (m_sz m) \<le> length (m_buffer m)"

definition frame_of :: "message \<Rightarrow> frame" where
  "frame_of m = Normal (m_id m) (payload m)"

text \<open>\<open>framed t fs\<close>: the finished packages and the open one are whole frames, \<open>fs\<close> in all.\<close>

definition framed :: "tmp_buffer \<Rightarrow> frame list \<Rightarrow> bool" where
  "framed t fs \<longleftrightarrow> (\<exists>gs g. t_out t = map (\<lambda>g. concat (map encode_frame g)) gs \<and>
      t_buf t = concat (map encode_frame g) \<and> fs = concat gs @ g)"

text \<open>A finished package fits the 128-byte buffer or is the single frame of a long message.\<close>

definition package_ok :: "byte list \<Rightarrow> bool" where
  "package_ok p \<longleftrightarrow> int (length p) \<le> GENERAL_PACKAGE \<or>
     (\<exists>i d. p = encode_frame (Normal i d) \<and> GENERAL_PACKAGE - 4 < int (length d) \<and>
        int (length d) \<le> MAX_PACKAGE)"

definition tmp_ok :: "tmp_buffer \<Rightarrow> bool" where
  "tmp_ok t \<longleftrightarrow> int (length (t_buf t)) \<le> GENERAL_PACKAGE \<and> (\<forall>p\<in>set (t_out t). package_ok p)"

named_theorems framed_intros \<open>what each packing step adds to the frames written\<close>
named_theorems tmp_ok_intros \<open>each packing step stays inside the 128-byte buffer\<close>

lemma framedI:
  "t_out t = map (\<lambda>g. concat (map encode_frame g)) gs \<Longrightarrow> t_buf t = concat (map encode_frame g) \<Longrightarrow>
   fs = concat gs @ g \<Longrightarrow> framed t fs"
  unfolding framed_def by blast

lemma framed_empty [framed_intros]: "framed \<lparr> t_buf = [], t_out = [] \<rparr> []"
  by (rule framedI [of _ "[]" "[]"]) simp_all

lemma framed_new_package: "framed t fs \<Longrightarrow> framed (new_package t) fs \<and> t_buf (new_package t) = []"
proof -
  assume "framed t fs"
  then obtain gs g where "t_out t = map (\<lambda>g. concat (map encode_frame g)) gs"
      "t_buf t = concat (map encode_frame g)" "fs = concat gs @ g"
    by (auto simp: framed_def)
  then show ?thesis by (auto intro!: framedI [of _ "gs @ [g]" "[]"] simp: new_package_def)
qed

lemma framed_append:
  "framed t fs \<Longrightarrow> framed (t\<lparr>t_buf := t_buf t @ encode_frame f\<rparr>) (fs @ [f])"
  by (auto simp: framed_def)

lemma framed_append_big:
  "framed t fs \<Longrightarrow> t_buf t = [] \<Longrightarrow> framed (t\<lparr>t_out := t_out t @ [encode_frame f]\<rparr>) (fs @ [f])"
proof -
  assume *: "framed t fs" "t_buf t = []"
  then obtain gs g where g: "t_out t = map (\<lambda>g. concat (map encode_frame g)) gs"
      "t_buf t = concat (map encode_frame g)" "fs = concat gs @ g"
    by (auto simp: framed_def)
  have "encode_frame h \<noteq> []" for h by (cases h) simp_all
  with *(2) g(2) have "g = []" by (cases g) auto
  with g *(2) show ?thesis by (intro framedI [of _ "gs @ [[f]]" "[]"]) auto
qed

lemma framed_request [framed_intros]:
  "framed t fs \<Longrightarrow> framed (pack_request t i TYPE_REQUEST) (fs @ [Request i])"
  "framed t fs \<Longrightarrow> framed (pack_request t i TYPE_MISSING) (fs @ [Missing i])"
  using framed_append [of "new_package t" fs "Request i"] framed_append [of t fs "Request i"]
    framed_append [of "new_package t" fs "Missing i"] framed_append [of t fs "Missing i"]
    framed_new_package [of t fs]
  by (simp_all add: pack_request_def Let_def)

lemma encode_frame_of:
  "msg_ok m \<Longrightarrow> encode_frame (frame_of m) =
   fill_header (m_sz m + TYPE_NORMAL) (m_id m) @ take (nat (m_sz m)) (m_buffer m)"
  by (auto simp: frame_of_def payload_def msg_ok_def)

lemma framed_message [framed_intros]:
  assumes "framed t fs" "msg_ok m"
  shows "framed (pack_message t m) (fs @ [frame_of m])"
proof -
  note n = framed_new_package [OF assms(1)]
  have "framed (pack_message t m) (fs @ [frame_of m])" if "m_sz m > GENERAL_PACKAGE - 4"
    using that framed_append_big [OF assms(1), of "frame_of m"] n
      framed_append_big [of "new_package t" fs "frame_of m"]
    by (auto simp: pack_message_def Let_def encode_frame_of [OF assms(2)])
  moreover have "framed (pack_message t m) (fs @ [frame_of m])"
    if "\<not> m_sz m > GENERAL_PACKAGE - 4"
    using that framed_append [OF assms(1), of "frame_of m"] n
      framed_append [of "new_package t" fs "frame_of m"]
    by (auto simp: pack_message_def Let_def encode_frame_of [OF assms(2)])
  ultimately show ?thesis by blast
qed

lemma framed_messages [framed_intros]:
  "framed t fs \<Longrightarrow> list_all msg_ok ms \<Longrightarrow>
   framed (foldl pack_message t ms) (fs @ map frame_of ms)"
proof (induction ms arbitrary: t fs)
  case (Cons m ms)
  then have "framed (pack_message t m) (fs @ [frame_of m])" by (simp add: framed_message)
  from Cons.IH [OF this] Cons.prems(2) show ?case by simp
qed simp

lemma framed_extract:
  "framed t fs \<Longrightarrow> list_all frame_ok fs \<Longrightarrow>
   foldl extract_package U (t_out (new_package t)) = foldl apply_frame U fs"
proof -
  assume "framed t fs" and ok: "list_all frame_ok fs"
  then obtain gs g where g: "t_out t = map (\<lambda>g. concat (map encode_frame g)) gs"
      "t_buf t = concat (map encode_frame g)" "fs = concat gs @ g"
    by (auto simp: framed_def)
  have "foldl extract_package V (map (\<lambda>g. concat (map encode_frame g)) hs) =
      foldl apply_frame V (concat hs)" if "list_all frame_ok (concat hs)" for V hs
    using that
  proof (induction hs arbitrary: V)
    case (Cons h hs)
    then show ?case using extract_frames [of h V "[]"] by simp
  qed simp
  from this [of "gs @ [g]" U] ok g show ?thesis by (simp add: new_package_def)
qed

lemma length_fill_header: "length (fill_header len i) = (if len < 128 then 3 else 4)"
  by (simp add: fill_header_def)

lemma tmp_ok_empty [tmp_ok_intros]: "tmp_ok \<lparr> t_buf = [], t_out = [] \<rparr>"
  by (simp add: tmp_ok_def GENERAL_PACKAGE_def)

lemma tmp_ok_new_package: "tmp_ok t \<Longrightarrow> tmp_ok (new_package t)"
  by (auto simp: tmp_ok_def new_package_def package_ok_def)

lemma tmp_ok_request [tmp_ok_intros]: "tmp_ok t \<Longrightarrow> tag < 128 \<Longrightarrow> tmp_ok (pack_request t i tag)"
  using tmp_ok_new_package [of t]
  by (auto simp: tmp_ok_def pack_request_def Let_def length_fill_header new_package_def
      GENERAL_PACKAGE_def)

lemma package_ok_frame:
  assumes "msg_ok m" "GENERAL_PACKAGE - 4 < m_sz m"
  shows "package_ok (fill_header (m_sz m + TYPE_NORMAL) (m_id m) @ take (nat (m_sz m)) (m_buffer m))"
proof -
  let ?d = "take (nat (m_sz m)) (m_buffer m)"
  have l: "int (length ?d) = m_sz m" using assms(1) by (simp add: msg_ok_def)
  then have "fill_header (m_sz m + TYPE_NORMAL) (m_id m) @ ?d = encode_frame (Normal (m_id m) ?d)"
    "GENERAL_PACKAGE - 4 < int (length ?d)" "int (length ?d) \<le> MAX_PACKAGE"
    using assms unfolding encode_frame.simps l msg_ok_def by auto
  then show ?thesis unfolding package_ok_def by metis
qed

lemma tmp_ok_message [tmp_ok_intros]:
  assumes "tmp_ok t" "msg_ok m"
  shows "tmp_ok (pack_message t m)"
proof (cases "m_sz m > GENERAL_PACKAGE - 4")
  case True
  then show ?thesis
    using tmp_ok_new_package [OF assms(1)] package_ok_frame [OF assms(2) True] assms(1)
    by (simp add: tmp_ok_def pack_message_def Let_def)
next
  case False
  then show ?thesis
    using tmp_ok_new_package [OF assms(1)] assms
    by (auto simp: tmp_ok_def msg_ok_def pack_message_def Let_def length_fill_header
        new_package_def GENERAL_PACKAGE_def TYPE_NORMAL_def)
qed

lemma tmp_ok_messages [tmp_ok_intros]:
  "tmp_ok t \<Longrightarrow> list_all msg_ok ms \<Longrightarrow> tmp_ok (foldl pack_message t ms)"
  by (induction ms arbitrary: t) (simp_all add: tmp_ok_message)

lemma tmp_ok_range [tmp_ok_intros]: "tmp_ok t \<Longrightarrow> tmp_ok (request_range t i j)"
proof (induction t i j rule: request_range.induct)
  case (1 t i j)
  then show ?case
    by (subst request_range.simps) (simp add: tmp_ok_request TYPE_REQUEST_def)
qed

lemma tmp_ok_missing [tmp_ok_intros]:
  "request_missing_from t i ms = Inr t' \<Longrightarrow> tmp_ok t \<Longrightarrow> tmp_ok t'"
  by (induction t i ms rule: request_missing_from.induct)
    (auto split: if_splits intro: tmp_ok_range)

lemma tmp_ok_reply_one:
  "tmp_ok t \<Longrightarrow> list_all msg_ok hs \<Longrightarrow> reply_one t hs i = (t', hs') \<Longrightarrow>
   tmp_ok t' \<and> list_all msg_ok hs'"
  by (induction t hs i rule: reply_one.induct)
    (auto split: if_splits simp: tmp_ok_message tmp_ok_request TYPE_MISSING_def)

lemma tmp_ok_reply_all [tmp_ok_intros]:
  "tmp_ok t \<Longrightarrow> list_all msg_ok hs \<Longrightarrow> tmp_ok (reply_all U t hs ids)"
proof (induction ids arbitrary: t hs)
  case (Cons i ids)
  obtain t' hs' where r: "reply_one t hs i = (t', hs')" by fastforce
  with tmp_ok_reply_one [OF Cons.prems r] Cons show ?case by simp
qed simp

section \<open>From one endpoint to the other\<close>

fun send_all :: "rudp \<Rightarrow> byte list list \<Rightarrow> rudp result" where
  "send_all U [] = Inr U"
| "send_all U (d # ds) = rbind (rudp_send U d) (\<lambda>U'. send_all U' ds)"

fun number_frames :: "int \<Rightarrow> byte list list \<Rightarrow> frame list" where
  "number_frames i [] = []"
| "number_frames i (d # ds) = Normal i d # number_frames (i + 1) ds"

lemma rudp_send_ok:
  assumes "int (length d) \<le> MAX_PACKAGE" "send_id U < INT_MAX" "0 \<le> send_id U"
  obtains m fl where
    "rudp_send U d = Inr (U\<lparr>free_list := fl, send_id := send_id U + 1,
                            send_queue := send_queue U @ [m]\<rparr>)"
    "frame_of m = Normal (send_id U) d" "msg_ok m" "m_tick m = current_tick U"
proof -
  obtain U1 m0 where nm: "new_message U (Some d) (int (length d)) = (U1, m0)" by fastforce
  note f = new_message_fields [OF nm]
  obtain fl where U1: "U1 = U\<lparr>free_list := fl\<rparr>" using f(4) by blast
  let ?m = "m0\<lparr>m_id := send_id U, m_tick := current_tick U\<rparr>"
  have "frame_of ?m = Normal (send_id U) d"
    using new_message_payload [OF nm] by (simp add: frame_of_def)
  moreover have "length d \<le> length (m_buffer m0)"
    using new_message_buffer [OF nm] by (metis length_take min.cobounded1)
  then have "msg_ok ?m" using f(1) assms(1) by (simp add: msg_ok_def)
  ultimately show thesis
    using that [of ?m fl] assms nm U1
    by (simp add: rudp_send_def Let_def queue_push_def s32_id)
qed

lemma send_all_ok:
  assumes "list_all (\<lambda>d. int (length d) \<le> MAX_PACKAGE) ds" "0 \<le> send_id U"
    "send_id U + int (length ds) \<le> INT_MAX"
  shows "\<exists>fl ms. send_all U ds = Inr (U\<lparr>free_list := fl, send_id := send_id U + int (length ds),
      send_queue := send_queue U @ ms\<rparr>) \<and> map frame_of ms = number_frames (send_id U) ds \<and>
      list_all msg_ok ms \<and> length ms = length ds"
  using assms
proof (induction ds arbitrary: U)
  case Nil
  show ?case by (intro exI [of _ "free_list U"] exI [of _ "[]"]) simp
next
  case (Cons d ds)
  then have "int (length d) \<le> MAX_PACKAGE" "send_id U < INT_MAX" "0 \<le> send_id U" by auto
  then obtain m fl where s: "rudp_send U d = Inr (U\<lparr>free_list := fl, send_id := send_id U + 1,
      send_queue := send_queue U @ [m]\<rparr>)" "frame_of m = Normal (send_id U) d" "msg_ok m"
    by (rule rudp_send_ok)
  let ?U = "U\<lparr>free_list := fl, send_id := send_id U + 1, send_queue := send_queue U @ [m]\<rparr>"
  from Cons.IH [of ?U] Cons.prems obtain fl' ms where
    "send_all ?U ds = Inr (?U\<lparr>free_list := fl', send_id := send_id ?U + int (length ds),
      send_queue := send_queue ?U @ ms\<rparr>)" "map frame_of ms = number_frames (send_id ?U) ds"
    "list_all msg_ok ms" "length ms = length ds"
    by auto
  with s show ?case
    by (intro exI [of _ fl'] exI [of _ "m # ms"]) (simp add: algebra_simps)
qed

text \<open>A frame with the next id, or any frame into an empty queue, goes to the end.\<close>

lemma insert_message_append:
  assumes "recv_id_min U \<le> i" "recv_id_max U < i \<or> recv_queue U = []"
  obtains m fl where
    "insert_message U i (Some d) (int (length d)) =
       U\<lparr>free_list := fl, recv_queue := recv_queue U @ [m], recv_id_max := i\<rparr>"
    "m_id m = i" "payload m = d" "m_sz m = int (length d)"
proof -
  obtain U1 m0 where nm: "new_message U (Some d) (int (length d)) = (U1, m0)" by fastforce
  note f = new_message_fields [OF nm]
  obtain fl where U1: "U1 = U\<lparr>free_list := fl\<rparr>" using f(4) by blast
  have "payload (m0\<lparr>m_id := i\<rparr>) = d"
    using new_message_payload [OF nm] by simp
  then show thesis
    using that [of "m0\<lparr>m_id := i\<rparr>" fl] assms nm U1 f(1)
    by (auto simp: insert_message_def Let_def queue_push_def)
qed

text \<open>The part of the state that decides where a frame with id \<open>i\<close> is put.\<close>

definition expects :: "rudp \<Rightarrow> int \<Rightarrow> bool" where
  "expects U i \<longleftrightarrow> recv_id_min U \<le> i \<and> 0 \<le> recv_id_max U \<and> recv_id_max U \<le> i \<and>
     i - recv_id_max U < 0x8000 \<and> (recv_id_max U < i \<or> recv_queue U = [])"

lemma map_from_Suc:
  "map (\<lambda>k. (i :: int) + int k) [0..<Suc n] = i # map (\<lambda>k. i + 1 + int k) [0..<n]"
  by (induction n) simp_all

lemma apply_numbered:
  assumes "expects U i" "i + int (length ds) \<le> INT_MAX - 0x10000"
  shows "\<exists>ms. recv_queue (foldl apply_frame U (number_frames i ds)) = recv_queue U @ ms \<and>
     map m_id ms = map (\<lambda>k. i + int k) [0..<length ds] \<and> map payload ms = ds \<and>
     map m_sz ms = map (int \<circ> length) ds \<and>
     corrupt (foldl apply_frame U (number_frames i ds)) = corrupt U \<and>
     recv_id_min (foldl apply_frame U (number_frames i ds)) = recv_id_min U"
  using assms
proof (induction ds arbitrary: U i)
  case (Cons d ds)
  then have i: "get_id U (id_hi i) (id_lo i) = i"
    by (intro get_id_near) (auto simp: expects_def)
  obtain m fl where m: "insert_message U i (Some d) (int (length d)) =
      U\<lparr>free_list := fl, recv_queue := recv_queue U @ [m], recv_id_max := i\<rparr>"
    "m_id m = i" "payload m = d" "m_sz m = int (length d)"
    using insert_message_append [of U i d] Cons.prems(1) unfolding expects_def by metis
  let ?U = "U\<lparr>free_list := fl, recv_queue := recv_queue U @ [m], recv_id_max := i\<rparr>"
  have step: "foldl apply_frame U (number_frames i (d # ds)) =
      foldl apply_frame ?U (number_frames (i + 1) ds)"
    by (simp add: i m(1))
  have "expects ?U (i + 1)" "i + 1 + int (length ds) \<le> INT_MAX - 0x10000"
    using Cons.prems by (simp_all add: expects_def)
  from Cons.IH [OF this] obtain ms where ms:
    "recv_queue (foldl apply_frame ?U (number_frames (i + 1) ds)) = recv_queue ?U @ ms"
    "map m_id ms = map (\<lambda>k. i + 1 + int k) [0..<length ds]" "map payload ms = ds"
    "map m_sz ms = map (int \<circ> length) ds"
    "corrupt (foldl apply_frame ?U (number_frames (i + 1) ds)) = corrupt ?U"
    "recv_id_min (foldl apply_frame ?U (number_frames (i + 1) ds)) = recv_id_min ?U"
    by blast
  show ?case
    unfolding step
    by (rule exI [of _ "m # ms"]) (simp add: ms m map_from_Suc del: upt_Suc)
qed simp

lemma recv_loop_in_order:
  assumes "recv_queue U = ms" "\<not> corrupt U" "\<forall>m\<in>set ms. m_sz m > 0"
    "map m_id ms = map (\<lambda>k. recv_id_min U + int k) [0..<length ms]"
    "INT_MIN \<le> recv_id_min U" "recv_id_min U + int (length ms) \<le> INT_MAX"
  shows "snd (recv_loop U) = map payload ms"
  using assms
proof (induction ms arbitrary: U)
  case Nil
  then show ?case
    by (subst recv_loop.simps) (simp add: rudp_recv_def queue_pop_def)
next
  case (Cons m ms)
  have ids: "m_id m = recv_id_min U"
    "map m_id ms = map (\<lambda>k. recv_id_min U + 1 + int k) [0..<length ms]"
    using Cons.prems(4) by (simp_all add: map_from_Suc del: upt_Suc)
  let ?U = "delete_message (U\<lparr>recv_queue := ms, recv_id_min := recv_id_min U + 1\<rparr>) m"
  have "rudp_recv U = (?U, m_sz m, payload m)"
    using Cons.prems ids by (simp add: rudp_recv_def queue_pop_def payload_def s32_id)
  moreover have "snd (recv_loop ?U) = map payload ms"
    by (rule Cons.IH) (use Cons.prems ids in \<open>auto simp: delete_message_def\<close>)
  ultimately show ?case
    using Cons.prems(3) by (subst recv_loop.simps) (simp add: split_beta)
qed

section \<open>The receive queue\<close>

definition recv_inv :: "rudp \<Rightarrow> bool" where
  "recv_inv U \<longleftrightarrow> sorted_wrt (\<lambda>a b. m_id a < m_id b) (recv_queue U) \<and>
     (\<forall>m\<in>set (recv_queue U). recv_id_min U \<le> m_id m) \<and>
     (recv_queue U \<noteq> [] \<longrightarrow> recv_id_max U = m_id (last (recv_queue U)))"

definition recv_set :: "rudp \<Rightarrow> (int \<times> byte list) set" where
  "recv_set U = (\<lambda>m. (m_id m, payload m)) ` set (recv_queue U)"

lemma insert_before_spec:
  assumes "insert_before q t = Some q'" "sorted_wrt (\<lambda>a b. m_id a < m_id b) q"
    "m_id t \<notin> m_id ` set q"
  shows "sorted_wrt (\<lambda>a b. m_id a < m_id b) q'" "set q' = insert t (set q)"
    "last q' = last q" "q' \<noteq> []"
proof -
  have "sorted_wrt (\<lambda>a b. m_id a < m_id b) q' \<and> set q' = insert t (set q) \<and> last q' = last q \<and>
      q' \<noteq> []"
    using assms
  proof (induction q arbitrary: q')
    case (Cons m ms)
    show ?case
    proof (cases "m_id t < m_id m")
      case True
      with Cons.prems show ?thesis by force
    next
      case False
      with Cons.prems obtain ms' where ms': "insert_before ms t = Some ms'" "q' = m # ms'"
        by (auto split: option.splits)
      with Cons.IH [OF ms'(1)] Cons.prems(2,3) False show ?thesis by (cases ms) auto
    qed
  qed simp
  then show "sorted_wrt (\<lambda>a b. m_id a < m_id b) q'" "set q' = insert t (set q)"
    "last q' = last q" "q' \<noteq> []" by simp_all
qed

lemma insert_before_Some:
  "q \<noteq> [] \<Longrightarrow> m_id t < m_id (last q) \<Longrightarrow> \<exists>q'. insert_before q t = Some q'"
  by (induction q) (auto split: if_splits)

lemma insert_message_fresh:
  fixes d :: "byte list"
  assumes "recv_inv U" "recv_id_min U \<le> i" "i \<notin> m_id ` set (recv_queue U)"
  defines "U' \<equiv> insert_message U i (Some d) (int (length d))"
  shows "recv_inv U'" "recv_set U' = insert (i, d) (recv_set U)"
    "recv_id_min U' = recv_id_min U" "corrupt U' = corrupt U"
    "m_id ` set (recv_queue U') = insert i (m_id ` set (recv_queue U))"
    "m_sz ` set (recv_queue U') = insert (int (length d)) (m_sz ` set (recv_queue U))"
proof -
  have *: "recv_inv U' \<and> recv_set U' = insert (i, d) (recv_set U) \<and>
      recv_id_min U' = recv_id_min U \<and> corrupt U' = corrupt U \<and>
      m_id ` set (recv_queue U') = insert i (m_id ` set (recv_queue U)) \<and>
      m_sz ` set (recv_queue U') = insert (int (length d)) (m_sz ` set (recv_queue U))"
  proof (cases "recv_id_max U < i \<or> recv_queue U = []")
    case True
    then obtain m fl where m: "U' = U\<lparr>free_list := fl, recv_queue := recv_queue U @ [m],
        recv_id_max := i\<rparr>" "m_id m = i" "payload m = d" "m_sz m = int (length d)"
      using insert_message_append [of U i d] assms(2) unfolding U'_def by blast
    have "m_id a < i" if "a \<in> set (recv_queue U)" for a
    proof -
      have "m_id a \<le> m_id (last (recv_queue U))"
        using that assms(1) by (auto simp: recv_inv_def intro: key_sorted_le_last)
      then show ?thesis using True that assms(1) by (auto simp: recv_inv_def)
    qed
    then show ?thesis
      using assms(1,2) m by (auto simp: recv_inv_def recv_set_def sorted_wrt_append)
  next
    case False
    obtain U1 m0 where nm: "new_message U (Some d) (int (length d)) = (U1, m0)" by fastforce
    note f = new_message_fields [OF nm]
    obtain fl where U1: "U1 = U\<lparr>free_list := fl\<rparr>" using f(4) by blast
    let ?t = "m0\<lparr>m_id := i\<rparr>"
    have "i < m_id (last (recv_queue U))"
      using False assms(1,3) by (auto simp: recv_inv_def)
    then obtain q where q: "insert_before (recv_queue U) ?t = Some q"
      using insert_before_Some [of "recv_queue U" ?t] False by auto
    have s: "sorted_wrt (\<lambda>a b. m_id a < m_id b) q" "set q = insert ?t (set (recv_queue U))"
      "last q = last (recv_queue U)"
      using insert_before_spec [OF q] assms(1,3) by (auto simp: recv_inv_def)
    have "U' = U\<lparr>free_list := fl, recv_queue := q\<rparr>"
      using False nm U1 q assms(2) by (simp add: U'_def insert_message_def)
    then show ?thesis
      using assms(1,2) s f(1) new_message_payload [OF nm] False
      by (auto simp: recv_inv_def recv_set_def)
  qed
  from * show "recv_inv U'" "recv_set U' = insert (i, d) (recv_set U)"
    "recv_id_min U' = recv_id_min U" "corrupt U' = corrupt U"
    "m_id ` set (recv_queue U') = insert i (m_id ` set (recv_queue U))"
    "m_sz ` set (recv_queue U') = insert (int (length d)) (m_sz ` set (recv_queue U))"
    by simp_all
qed

definition receive_all :: "rudp \<Rightarrow> (int \<times> byte list) list \<Rightarrow> rudp" where
  "receive_all U fs = foldl (\<lambda>U (i, d). insert_message U i (Some d) (int (length d))) U fs"

lemma receive_all_fresh:
  assumes "recv_inv U" "distinct (map fst fs)" "\<forall>(i, d)\<in>set fs. recv_id_min U \<le> i"
    "fst ` set fs \<inter> m_id ` set (recv_queue U) = {}"
  shows "recv_inv (receive_all U fs) \<and> recv_set (receive_all U fs) = recv_set U \<union> set fs \<and>
     recv_id_min (receive_all U fs) = recv_id_min U \<and> corrupt (receive_all U fs) = corrupt U \<and>
     m_sz ` set (recv_queue (receive_all U fs)) =
       m_sz ` set (recv_queue U) \<union> (\<lambda>(i, d). int (length d)) ` set fs"
  using assms
proof (induction fs arbitrary: U)
  case Nil
  then show ?case by (simp add: receive_all_def)
next
  case (Cons f fs)
  obtain i d where f: "f = (i, d)" by fastforce
  let ?U = "insert_message U i (Some d) (int (length d))"
  have fr: "recv_id_min U \<le> i" "i \<notin> m_id ` set (recv_queue U)" using Cons.prems f by auto
  note n = insert_message_fresh [OF Cons.prems(1) fr, of d]
  have "fst ` set fs \<inter> m_id ` set (recv_queue ?U) = {}"
    using Cons.prems(2,4) f by (auto simp: n(5))
  moreover have "\<forall>(i, d)\<in>set fs. recv_id_min ?U \<le> i" using Cons.prems(3) n(3) by auto
  moreover have "distinct (map fst fs)" using Cons.prems(2) by simp
  ultimately have IH: "recv_inv (receive_all ?U fs) \<and>
      recv_set (receive_all ?U fs) = recv_set ?U \<union> set fs \<and>
      recv_id_min (receive_all ?U fs) = recv_id_min ?U \<and>
      corrupt (receive_all ?U fs) = corrupt ?U \<and>
      m_sz ` set (recv_queue (receive_all ?U fs)) =
        m_sz ` set (recv_queue ?U) \<union> (\<lambda>(i, d). int (length d)) ` set fs"
    using Cons.IH [OF n(1)] by blast
  have "receive_all U (f # fs) = receive_all ?U fs" by (simp add: receive_all_def f)
  then show ?case using IH n by (simp add: f insert_commute Un_insert_left Un_insert_right)
qed

section \<open>What an update sends\<close>

text \<open>The ids missing before and between the received messages, and the answer to a request for an
  id: the message from the history, or \<open>Missing\<close> once it has expired. \<open>outgoing\<close> lists the frames an
  update sends. Its filter is the check of \<open>reply_request\<close> (\<^verbatim>\<open>rudp.c:439\<close>), which skips every request for
  an id below \<open>recv_id_min\<close> as already received, although the requested ids number this endpoint's own
  messages and \<open>recv_id_min\<close> counts those of the peer: such requests are never answered.\<close>

fun gaps :: "int \<Rightarrow> message list \<Rightarrow> int list" where
  "gaps i [] = []"
| "gaps i (m # ms) = [i..m_id m - 1] @ gaps (m_id m + 1) ms"

definition answer :: "message list \<Rightarrow> int \<Rightarrow> frame" where
  "answer history i =
     (case find (\<lambda>h. m_id h = i) history of Some h \<Rightarrow> frame_of h | None \<Rightarrow> Missing i)"

definition outgoing :: "rudp \<Rightarrow> frame list" where
  "outgoing U = map Request (gaps (recv_id_min U) (recv_queue U)) @
     map (answer (send_history U)) (filter (\<lambda>i. recv_id_min U \<le> i) (arr_list (send_again U))) @
     map frame_of (send_queue U)"

definition send_inv :: "rudp \<Rightarrow> bool" where
  "send_inv U \<longleftrightarrow> list_all msg_ok (send_queue U) \<and> list_all msg_ok (send_history U) \<and>
     sorted_wrt (\<lambda>a b. m_id a < m_id b) (send_history U) \<and> arr_wf (send_again U)"

lemma framed_range: "framed t fs \<Longrightarrow> framed (request_range t i j) (fs @ map Request [i..j - 1])"
proof (induction t i j arbitrary: fs rule: request_range.induct)
  case (1 t i j)
  show ?case
  proof (cases "i < j")
    case True
    with 1 have "framed (request_range (pack_request t i TYPE_REQUEST) (i + 1) j)
        ((fs @ [Request i]) @ map Request [i + 1..j - 1])"
      by (blast intro: framed_request)
    moreover have "[i..j - 1] = i # [i + 1..j - 1]" using True by (simp add: upto_rec1)
    ultimately show ?thesis using True by (subst request_range.simps) simp
  qed (use 1 in \<open>simp add: request_range.simps [of t i j]\<close>)
qed

lemma request_missing_ok:
  assumes "framed t fs" "sorted_wrt (\<lambda>a b. m_id a < m_id b) ms" "\<forall>m\<in>set ms. i \<le> m_id m"
    "\<forall>m\<in>set ms. m_id m < INT_MAX" "INT_MIN \<le> i"
  shows "\<exists>t'. request_missing_from t i ms = Inr t' \<and> framed t' (fs @ map Request (gaps i ms))"
  using assms
proof (induction ms arbitrary: t i fs)
  case (Cons m ms)
  have "framed (request_range t i (m_id m)) (fs @ map Request [i..m_id m - 1])"
    using Cons.prems(1) by (rule framed_range)
  moreover have "s32 (m_id m + 1) = m_id m + 1"
    by (rule s32_id) (use Cons.prems in auto)
  moreover have "\<forall>m'\<in>set ms. m_id m + 1 \<le> m_id m'" using Cons.prems(2) by auto
  ultimately show ?case
    using Cons.IH [of "request_range t i (m_id m)" "fs @ map Request [i..m_id m - 1]" "m_id m + 1"]
      Cons.prems by auto
qed auto

text \<open>Since the requested ids and the history are both sorted, the history pointer may move on.\<close>

lemma answer_skip: "m_id h \<noteq> i \<Longrightarrow> answer (h # hs) i = answer hs i"
  by (simp add: answer_def)

lemma answer_greater: "\<forall>h\<in>set hs. i < m_id h \<Longrightarrow> answer hs i = Missing i"
proof -
  assume "\<forall>h\<in>set hs. i < m_id h"
  then have "find (\<lambda>h. m_id h = i) hs = None" by (auto simp: find_None_iff)
  then show ?thesis by (simp add: answer_def)
qed

lemma reply_one_answer:
  assumes "framed t fs" "list_all msg_ok hs" "sorted_wrt (\<lambda>a b. m_id a < m_id b) hs"
    "reply_one t hs i = (t', hs')"
  shows "framed t' (fs @ [answer hs i])" "\<And>j. i < j \<Longrightarrow> answer hs' j = answer hs j"
    "list_all msg_ok hs'" "sorted_wrt (\<lambda>a b. m_id a < m_id b) hs'"
proof -
  have "framed t' (fs @ [answer hs i]) \<and> (\<forall>j>i. answer hs' j = answer hs j) \<and>
      list_all msg_ok hs' \<and> sorted_wrt (\<lambda>a b. m_id a < m_id b) hs'"
    using assms
  proof (induction hs)
    case Nil
    then show ?case by (auto simp: answer_def framed_request)
  next
    case (Cons h hs)
    consider "i < m_id h" | "i = m_id h" | "m_id h < i" by linarith
    then show ?case
    proof cases
      case 1
      with Cons.prems have "\<forall>h'\<in>set (h # hs). i < m_id h'" by fastforce
      then have "answer (h # hs) i = Missing i" by (rule answer_greater)
      with Cons.prems 1 show ?thesis by (auto simp: framed_request)
    next
      case 2
      with Cons.prems show ?thesis by (auto simp: framed_message answer_def)
    next
      case 3
      with Cons show ?thesis by (auto simp: answer_skip)
    qed
  qed
  then show "framed t' (fs @ [answer hs i])" "\<And>j. i < j \<Longrightarrow> answer hs' j = answer hs j"
    "list_all msg_ok hs'" "sorted_wrt (\<lambda>a b. m_id a < m_id b) hs'" by auto
qed

lemma reply_all_answers:
  assumes "framed t fs" "list_all msg_ok hs" "sorted_wrt (\<lambda>a b. m_id a < m_id b) hs"
    "sorted_wrt (<) ids"
  shows "framed (reply_all U t hs ids)
    (fs @ map (answer hs) (filter (\<lambda>i. recv_id_min U \<le> i) ids))"
  using assms
proof (induction ids arbitrary: t fs hs)
  case (Cons i ids)
  show ?case
  proof (cases "i < recv_id_min U")
    case False
    obtain t' hs' where r: "reply_one t hs i = (t', hs')" by fastforce
    note a = reply_one_answer [OF Cons.prems(1-3) r]
    have eq: "map (answer hs') (filter (\<lambda>i. recv_id_min U \<le> i) ids) =
        map (answer hs) (filter (\<lambda>i. recv_id_min U \<le> i) ids)"
      using Cons.prems(4) by (intro map_cong refl) (auto simp: a(2))
    have "sorted_wrt (<) ids" using Cons.prems(4) by simp
    from Cons.IH [OF a(1,3,4) this, unfolded eq] show ?thesis using False r by simp
  qed (use Cons in simp)
qed simp

lemma gen_outpackage_frames:
  assumes "recv_inv U" "send_inv U" "INT_MIN \<le> recv_id_min U"
    "\<forall>m\<in>set (recv_queue U). m_id m < INT_MAX"
  shows "\<exists>t U'. framed t (outgoing U) \<and> tmp_ok t \<and> gen_outpackage U =
     Inr (U', t_out (new_package (if t_out t = [] \<and> t_buf t = []
                                  then t\<lparr>t_buf := [word_of_int TYPE_IGNORE]\<rparr> else t)))"
proof -
  let ?t0 = "\<lparr> t_buf = [], t_out = [] \<rparr>"
  obtain t1 where t1: "request_missing U ?t0 = Inr t1"
      "framed t1 (map Request (gaps (recv_id_min U) (recv_queue U)))"
    using request_missing_ok [OF framed_empty, of "recv_queue U" "recv_id_min U"] assms
    by (auto simp: recv_inv_def request_missing_def)
  let ?t2 = "reply_all U t1 (send_history U) (arr_list (send_again U))"
  let ?t3 = "foldl pack_message ?t2 (send_queue U)"
  note s = assms(2) [unfolded send_inv_def arr_wf_def]
  have "framed ?t3 (outgoing U)"
    unfolding outgoing_def append_assoc [symmetric]
    by (intro framed_messages reply_all_answers t1(2)) (use s in simp_all)
  moreover have "tmp_ok t1"
    using t1(1) by (auto simp: request_missing_def intro: tmp_ok_missing tmp_ok_empty)
  then have "tmp_ok ?t3"
    using assms(2) by (auto simp: send_inv_def intro!: tmp_ok_messages tmp_ok_reply_all)
  moreover have "\<exists>U'. gen_outpackage U =
      Inr (U', t_out (new_package (if t_out ?t3 = [] \<and> t_buf ?t3 = []
                                  then ?t3\<lparr>t_buf := [word_of_int TYPE_IGNORE]\<rparr> else ?t3)))"
    by (simp add: gen_outpackage_def t1(1) reply_request_def send_message_def arr_list_def Let_def)
  ultimately show ?thesis by blast
qed

section \<open>Properties\<close>

lemma frame_ok_outgoing: "send_inv U \<Longrightarrow> list_all frame_ok (outgoing U)"
proof -
  assume s: "send_inv U"
  have ok: "msg_ok m \<Longrightarrow> frame_ok (frame_of m)" for m
    by (auto simp: msg_ok_def frame_of_def payload_def MAX_PACKAGE_def min_def)
  have "frame_ok (answer (send_history U) i)" for i
    using s by (auto simp: answer_def send_inv_def list_all_iff find_Some_iff split: option.splits
        intro: ok)
  then show ?thesis
    using s ok by (auto simp: outgoing_def send_inv_def list_all_iff)
qed

lemma framed_not_empty: "framed t fs \<Longrightarrow> fs \<noteq> [] \<Longrightarrow> \<not> (t_out t = [] \<and> t_buf t = [])"
proof
  assume "framed t fs" "fs \<noteq> []" "t_out t = [] \<and> t_buf t = []"
  then obtain g where "concat (map encode_frame g) = []" "g \<noteq> []" by (auto simp: framed_def)
  moreover have "encode_frame h \<noteq> []" for h by (cases h) simp_all
  ultimately show False by (cases g) auto
qed

lemma gen_outpackage_frames_read:
  assumes "recv_inv U" "send_inv U" "INT_MIN \<le> recv_id_min U"
    "\<forall>m\<in>set (recv_queue U). m_id m < INT_MAX" "outgoing U \<noteq> []"
  obtains U' ps where "gen_outpackage U = Inr (U', ps)"
    "\<And>R. foldl extract_package R ps = foldl apply_frame R (outgoing U)"
proof -
  obtain t U' where t: "framed t (outgoing U)" "gen_outpackage U =
      Inr (U', t_out (new_package (if t_out t = [] \<and> t_buf t = []
                                  then t\<lparr>t_buf := [word_of_int TYPE_IGNORE]\<rparr> else t)))"
    using gen_outpackage_frames [OF assms(1-4)] by blast
  have "gen_outpackage U = Inr (U', t_out (new_package t))"
    using t(2) framed_not_empty [OF t(1) assms(5)] by simp
  then show thesis
    using that framed_extract [OF t(1) frame_ok_outgoing [OF assms(2)]] by blast
qed

text \<open>[C21] No package outgrows its buffer: from an endpoint whose queues are in order, whatever is queued,
  requested or kept in the history, generating the packages succeeds with at least one package, and
  each package fits the 128-byte write buffer or is the single frame of one long message.\<close>

theorem gen_outpackage_bounded:
  assumes "recv_inv U" "send_inv U" "INT_MIN \<le> recv_id_min U"
    "\<forall>m\<in>set (recv_queue U). m_id m < INT_MAX"
  shows "\<exists>U' ps. gen_outpackage U = Inr (U', ps) \<and> ps \<noteq> [] \<and>
     (\<forall>p\<in>set ps. package_ok p)"
proof -
  obtain t U' where t: "tmp_ok t" "gen_outpackage U =
      Inr (U', t_out (new_package (if t_out t = [] \<and> t_buf t = []
                                  then t\<lparr>t_buf := [word_of_int TYPE_IGNORE]\<rparr> else t)))"
    using gen_outpackage_frames [OF assms] by blast
  have "tmp_ok (t\<lparr>t_buf := [word_of_int TYPE_IGNORE]\<rparr>)"
    using t(1) by (simp add: tmp_ok_def GENERAL_PACKAGE_def)
  with t(1) have "tmp_ok (new_package (if t_out t = [] \<and> t_buf t = []
      then t\<lparr>t_buf := [word_of_int TYPE_IGNORE]\<rparr> else t))"
    by (simp add: tmp_ok_new_package)
  then show ?thesis
    using t(2) by (auto simp: tmp_ok_def) (auto simp: new_package_def)
qed

lemma fresh_inv: "recv_inv (rudp_new d e)" "send_inv (rudp_new d e)" "expects (rudp_new d e) 0"
  by (simp_all add: recv_inv_def send_inv_def expects_def rudp_new_def arr_wf_def arr_list_def)

lemma update_sends_queue:
  assumes U: "U = (rudp_new dl ex)\<lparr>free_list := fl, send_id := si, send_queue := ms\<rparr>"
    and "list_all msg_ok ms" "ms \<noteq> []" "0 \<le> dl" "dl \<le> tick" "tick \<le> INT_MAX"
  shows "\<exists>U' ps. rudp_update U [] tick = Inr (U', ps) \<and>
     (\<forall>R. foldl extract_package R ps = foldl apply_frame R (map frame_of ms))"
proof -
  define U2 where "U2 = U\<lparr>current_tick := tick, send_package := []\<rparr>"
  define U3 where "U3 = (if current_tick U2 \<ge> s32 (last_expired_tick U2 + expired U2)
      then (clear_send_expired U2 (last_expired_tick U2))\<lparr>last_expired_tick := current_tick U2\<rparr>
      else U2)"
  have f: "recv_queue U3 = []" "send_history U3 = []" "send_queue U3 = ms" "recv_id_min U3 = 0"
    "arr_wf (send_again U3)" "arr_list (send_again U3) = []" "current_tick U3 = tick"
    "last_send_tick U3 = 0" "send_delay U3 = dl"
    by (simp_all add: U3_def U2_def U rudp_new_def clear_send_expired_def arr_wf_def arr_list_def)
  have "recv_inv U3" "send_inv U3" "outgoing U3 = map frame_of ms"
    using f assms(2) by (simp_all add: recv_inv_def send_inv_def outgoing_def)
  then obtain U' ps where g: "gen_outpackage U3 = Inr (U', ps)"
      "\<And>R. foldl extract_package R ps = foldl apply_frame R (map frame_of ms)"
    using gen_outpackage_frames_read [of U3] f assms(3) by auto
  have "clear_outpackage (U\<lparr>current_tick := s32 (current_tick U + tick)\<rparr>) = U2"
    using assms by (simp add: U2_def U clear_outpackage_def rudp_new_def s32_id)
  moreover have "s32 (last_send_tick U3 + send_delay U3) \<le> current_tick U3"
    using f assms by (simp add: s32_id)
  ultimately show ?thesis
    using g by (simp add: rudp_update_def Let_def U3_def [symmetric])
qed

text \<open>[C1] Delivery without loss: the payloads sent on a fresh endpoint, packed by one update and
  handed package by package to a fresh peer, come out of its receive loop, complete and in order.\<close>

theorem lossless_delivery:
  assumes "ds \<noteq> []" "\<forall>d\<in>set ds. d \<noteq> [] \<and> int (length d) \<le> MAX_PACKAGE"
    "int (length ds) \<le> INT_MAX - 0x10000" "0 \<le> dl" "dl \<le> tick" "tick \<le> INT_MAX"
  shows "\<exists>S S' ps. send_all (rudp_new dl ex) ds = Inr S \<and> rudp_update S [] tick = Inr (S', ps) \<and>
     snd (recv_loop (foldl extract_package (rudp_new dl' ex') ps)) = ds"
proof -
  let ?N = "rudp_new dl ex" and ?R = "rudp_new dl' ex'"
  have "send_id ?N = 0" "send_queue ?N = []" by (simp_all add: rudp_new_def)
  then obtain fl ms where S: "send_all ?N ds = Inr (?N\<lparr>free_list := fl, send_id := int (length ds),
        send_queue := ms\<rparr>)" "map frame_of ms = number_frames 0 ds" "list_all msg_ok ms"
      "length ms = length ds"
    using send_all_ok [of ds ?N] assms(2,3) by (auto simp: list_all_iff)
  have "ms \<noteq> []" using S(4) assms(1) by auto
  from update_sends_queue [OF refl S(3) this assms(4-6), where ex = ex and fl = fl and si = "int (length ds)"]
  obtain S' ps where ps: "rudp_update (?N\<lparr>free_list := fl, send_id := int (length ds),
        send_queue := ms\<rparr>) [] tick = Inr (S', ps)"
      "foldl extract_package ?R ps = foldl apply_frame ?R (number_frames 0 ds)"
    unfolding S(2) by blast
  let ?R' = "foldl apply_frame ?R (number_frames 0 ds)"
  have R: "recv_queue ?R = []" "\<not> corrupt ?R" "recv_id_min ?R = 0" by (simp_all add: rudp_new_def)
  have "0 + int (length ds) \<le> INT_MAX - 0x10000" using assms(3) by simp
  from apply_numbered [OF fresh_inv(3) this, of dl' ex']
  obtain rs where rs: "recv_queue ?R' = rs" "map m_id rs = map (\<lambda>k. 0 + int k) [0..<length ds]"
      "map payload rs = ds" "map m_sz rs = map (int \<circ> length) ds" "\<not> corrupt ?R'"
      "recv_id_min ?R' = 0"
    unfolding R(1,3) append_Nil using R(2) by blast
  have len: "length rs = length ds" using rs(3) by (metis length_map)
  have sz: "m_sz ` set rs = set (map (int \<circ> length) ds)" using rs(4) by (metis list.set_map)
  have "\<forall>m\<in>set rs. m_sz m > 0"
  proof
    fix m assume "m \<in> set rs"
    then have "m_sz m \<in> set (map (int \<circ> length) ds)" using sz by blast
    then show "m_sz m > 0" using assms(2) by auto
  qed
  then have "snd (recv_loop ?R') = map payload rs"
    by (intro recv_loop_in_order) (use rs len assms(3) in simp_all)
  then show ?thesis using S(1) ps rs(3) by auto
qed

theorem lossless_delivery_witness:
  "\<exists>S S' ps. send_all (rudp_new 1 5) [[1], [2, 3]] = Inr S \<and> rudp_update S [] 1 = Inr (S', ps) \<and>
     snd (recv_loop (foldl extract_package (rudp_new 1 5) ps)) = [[1], [2, 3]]"
  by (rule lossless_delivery) (simp_all add: MAX_PACKAGE_def)

text \<open>A queue that holds exactly the numbered payloads delivers them.\<close>

lemma queue_delivers:
  assumes "recv_inv R" "recv_set R = set (zip (map (\<lambda>k. recv_id_min R + int k) [0..<length ds]) ds)" "\<not> corrupt R"
    "\<forall>d\<in>set ds. d \<noteq> []" "INT_MIN \<le> recv_id_min R" "recv_id_min R + int (length ds) \<le> INT_MAX"
  shows "snd (recv_loop R) = ds"
proof -
  let ?z = "zip (map (\<lambda>k. recv_id_min R + int k) [0..<length ds]) ds" and ?p = "\<lambda>m. (m_id m, payload m)"
  have zs: "sorted_wrt (\<lambda>a b. fst a < fst b) ?z"
    by (auto simp: sorted_wrt_iff_nth_less)
  have "map ?p (recv_queue R) = ?z"
    by (rule strict_key_sorted_unique [OF _ zs])
      (use assms(1,2) in \<open>auto simp: recv_inv_def recv_set_def sorted_wrt_map\<close>)
  then have q: "map m_id (recv_queue R) = map fst ?z" "map payload (recv_queue R) = map snd ?z"
    by (metis (no_types, lifting) comp_apply fst_conv map_eq_conv map_map)
      (metis (no_types, lifting) \<open>map ?p (recv_queue R) = ?z\<close> comp_apply map_eq_conv map_map snd_conv)
  have len: "length (recv_queue R) = length ds" using q(2) by (metis length_map length_zip
        length_upt diff_zero min.idem)
  have "\<forall>m\<in>set (recv_queue R). m_sz m > 0"
  proof
    fix m assume "m \<in> set (recv_queue R)"
    then have "payload m \<in> set (map payload (recv_queue R))" by simp
    then have "payload m \<noteq> []" unfolding q(2) using assms(4) by (auto dest: set_zip_rightD)
    then show "m_sz m > 0" by (auto simp: payload_def split: if_splits)
  qed
  then have "snd (recv_loop R) = map payload (recv_queue R)"
    by (intro recv_loop_in_order) (use assms(3,5,6) q(1) len in simp_all)
  then show ?thesis using q(2) by simp
qed

lemma recv_id_max_after: "recv_id_max (insert_message U i (Some d) n) \<in> {recv_id_max U, i}"
proof -
  obtain U1 m where nm: "new_message U (Some d) n = (U1, m)" by fastforce
  then obtain fl where "U1 = U\<lparr>free_list := fl\<rparr>" using new_message_fields(4) [OF nm] by blast
  then show ?thesis using nm by (simp add: insert_message_def split: option.split)
qed

text \<open>The ids of arriving frames are recovered from their 16 bits as long as they stay within reach of each other and of the
  highest id received so far.\<close>

lemma apply_arrivals:
  assumes "recv_id_max U \<in> A" "fst ` set fs \<subseteq> A" "\<And>i j. i \<in> A \<Longrightarrow> j \<in> A \<Longrightarrow> \<bar>i - j\<bar> < 0x8000"
    "\<And>i. i \<in> A \<Longrightarrow> 0 \<le> i \<and> i \<le> INT_MAX - 0x10000"
  shows "foldl apply_frame U (map (\<lambda>(i, d). Normal i d) fs) = receive_all U fs"
  using assms(1,2)
proof (induction fs arbitrary: U)
  case (Cons f fs)
  obtain i d where f: "f = (i, d)" by fastforce
  let ?U = "insert_message U i (Some d) (int (length d))"
  have i: "i \<in> A" using Cons.prems(2) by (simp add: f)
  have "get_id U (id_hi i) (id_lo i) = i"
    using assms(3) [OF i Cons.prems(1)] assms(4) [OF i] assms(4) [OF Cons.prems(1)] by (intro get_id_near) simp_all
  moreover have "recv_id_max ?U \<in> A" using recv_id_max_after [of U i d] i Cons.prems(1) by (metis insertE singletonD)
  then have "foldl apply_frame ?U (map (\<lambda>(i, d). Normal i d) fs) = receive_all ?U fs"
    using Cons.prems(2) by (intro Cons.IH) simp_all
  ultimately show ?case by (simp add: f receive_all_def)
qed (simp add: receive_all_def)

lemma arrivals_near:
  fixes b m :: int
  assumes "\<forall>k < n. \<bar>b + int k - m\<bar> < 0x8000" "n \<le> 0x8000"
    and "i \<in> insert m ((\<lambda>k. b + int k) ` {0..<n})" "j \<in> insert m ((\<lambda>k. b + int k) ` {0..<n})"
  shows "\<bar>i - j\<bar> < 0x8000"
proof -
  have reach: "\<bar>b + int k - m\<bar> < 0x8000" if "k < n" for k using assms(1) that by blast
  consider "i = m" | k where "k < n" "i = b + int k" using assms(3) by auto
  note i = this
  consider "j = m" | l where "l < n" "j = b + int l" using assms(4) by auto
  then show ?thesis
  proof cases
    case 1
    from i show ?thesis using reach 1 by cases simp_all
  next
    case (2 l)
    from i show ?thesis
    proof cases
      case 1
      then show ?thesis using reach [OF 2(1)] 2(2) by (simp add: abs_minus_commute)
    next
      case (2 k)
      then show ?thesis using \<open>l < n\<close> \<open>j = b + int l\<close> assms(2) by linarith
    qed
  qed
qed

text \<open>Packages that hold whole message frames, read one after the other.\<close>

definition packed :: "(int \<times> byte list) list \<Rightarrow> byte list" where
  "packed fs = concat (map (\<lambda>(i, d). encode_frame (Normal i d)) fs)"

lemma extract_packed:
  assumes "\<forall>(i, d) \<in> set (concat gs). int (length d) \<le> MAX_PACKAGE"
  shows "foldl extract_package U (map packed gs) = foldl apply_frame U (map (\<lambda>(i, d). Normal i d) (concat gs))"
  using assms
proof (induction gs arbitrary: U)
  case (Cons g gs)
  have "packed g = concat (map encode_frame (map (\<lambda>(i, d). Normal i d) g)) @ []"
    by (simp add: packed_def comp_def case_prod_unfold)
  moreover have "list_all frame_ok (map (\<lambda>(i, d). Normal i d) g)" using Cons.prems by (fastforce simp: list_all_iff)
  ultimately have "extract_package U (packed g) = foldl apply_frame U (map (\<lambda>(i, d). Normal i d) g)"
    by (metis extract_frames extract_Nil)
  then show ?case using Cons by simp
qed simp

text \<open>[C9] Reordering: on an endpoint whose receive queue is empty, frames of non-empty messages with the ids \<open>recv_id_min\<close>, \<open>recv_id_min + 1\<close>, \<dots>, each sent once, that arrive
  in any order and split over packages in any way, are parsed, their ids recovered from the 16 bits on the wire, and delivered
  complete and in the order of their ids. The frames are at most \<open>0x8000\<close> and lie within \<open>0x8000\<close> of the highest id received
  before them, since the wire cannot tell ids that are further apart.\<close>

theorem reordered_delivery:
  assumes "recv_queue U = []" "\<not> corrupt U" "concat gs = fs"
    and "distinct fs" "set fs = set (zip (map (\<lambda>k. recv_id_min U + int k) [0..<length ds]) ds)"
    and "\<forall>d\<in>set ds. d \<noteq> [] \<and> int (length d) \<le> MAX_PACKAGE"
    and "0 \<le> recv_id_min U" "recv_id_min U + int (length ds) \<le> INT_MAX - 0x10000"
    and "0 \<le> recv_id_max U" "recv_id_max U \<le> INT_MAX - 0x10000" "length ds \<le> 0x8000"
    and "\<forall>k < length ds. \<bar>recv_id_min U + int k - recv_id_max U\<bar> < 0x8000"
  shows "snd (recv_loop (foldl extract_package U (map packed gs))) = ds"
proof -
  let ?z = "zip (map (\<lambda>k. recv_id_min U + int k) [0..<length ds]) ds" and ?R = "receive_all U fs"
  have ids: "fst ` set fs = (\<lambda>k. recv_id_min U + int k) ` {0..<length ds}"
  proof -
    have "map fst ?z = map (\<lambda>k. recv_id_min U + int k) [0..<length ds]" by simp
    then show ?thesis unfolding assms(5) by (metis set_map set_upt)
  qed
  have arrive: "foldl apply_frame U (map (\<lambda>(i, d). Normal i d) fs) = ?R"
    by (rule apply_arrivals [of U "insert (recv_id_max U) (fst ` set fs)"]; unfold ids)
      (use arrivals_near [OF assms(12,11)] assms(7-10) in \<open>auto dest: order.strict_implies_order\<close>)
  have "\<forall>(i, d) \<in> set (concat gs). int (length d) \<le> MAX_PACKAGE"
    unfolding assms(3,5) using assms(6) by (auto dest: set_zip_rightD)
  then have *: "foldl extract_package U (map packed gs) = ?R" using extract_packed [of gs U] assms(3) arrive by simp
  have "inj_on fst (set ?z)" by (auto simp: inj_on_def in_set_zip)
  then have "distinct (map fst fs)" using assms(4,5) by (simp add: distinct_map)
  moreover have "\<forall>(i, d)\<in>set fs. recv_id_min U \<le> i"
    unfolding assms(5) by (auto simp: in_set_zip)
  moreover have "recv_inv U" using assms(1) by (simp add: recv_inv_def)
  ultimately have R: "recv_inv ?R" "recv_set ?R = set ?z" "recv_id_min ?R = recv_id_min U" "\<not> corrupt ?R"
    using receive_all_fresh [of U fs] assms(1,2,5) by (auto simp: recv_set_def)
  show ?thesis unfolding * by (rule queue_delivers) (use R assms(6-8) in simp_all)
qed

theorem reordered_delivery_witness:
  "snd (recv_loop (foldl extract_package (rudp_new 1 5) (map packed [[(1, [8, 9]), (2, [3])], [(0, [7])]]))) =
   [[7], [8, 9], [3]]"
  by (rule reordered_delivery [where fs = "[(1, [8, 9]), (2, [3]), (0, [7])]"])
    (auto simp: rudp_new_def upt_rec MAX_PACKAGE_def)

theorem gen_outpackage_bounded_witness:
  "\<exists>U' ps. gen_outpackage (rudp_new 1 5) = Inr (U', ps) \<and> ps \<noteq> [] \<and>
     (\<forall>p\<in>set ps. package_ok p)"
  by (rule gen_outpackage_bounded [OF fresh_inv(1,2)]) (simp_all add: rudp_new_def)


definition example_gap :: rudp where
  "example_gap = (rudp_new 1 5)\<lparr>recv_queue :=
     [\<lparr> m_buffer = [5], m_sz = 1, m_cap = 128, m_id = 2, m_tick = 0 \<rparr>], recv_id_max := 2\<rparr>"

lemma outgoing_example_gap: "outgoing example_gap = [Request 0, Request 1]"
  by (simp add: outgoing_def example_gap_def rudp_new_def arr_list_def upto_rec1)


lemma request_missing_duplicate:
  assumes "sorted_wrt (\<lambda>a b. m_id a < m_id b) (xs @ [m])" "\<forall>x\<in>set (xs @ [m]). i \<le> m_id x"
    "m_id m' = m_id m" "INT_MIN \<le> i" "m_id m < INT_MAX"
  shows "request_missing_from t i (xs @ m # m' # ys) = Inl AssertFailed"
  using assms
proof (induction xs arbitrary: t i)
  case Nil
  then have "s32 (m_id m + 1) = m_id m + 1" by (intro s32_id) auto
  with Nil show ?case by simp
next
  case (Cons x xs)
  then have x: "i \<le> m_id x" "m_id x < m_id m" "\<forall>y\<in>set (xs @ [m]). m_id x + 1 \<le> m_id y" by auto
  then have "s32 (m_id x + 1) = m_id x + 1" using Cons.prems by (intro s32_id) auto
  with Cons x show ?case by auto
qed

lemma insert_before_duplicate:
  assumes "sorted_wrt (\<lambda>a b. m_id a < m_id b) (xs @ m # n # ys)" "m_id t = m_id m"
  shows "insert_before (xs @ m # n # ys) t = Some (xs @ m # t # n # ys)"
  using assms by (induction xs) auto

lemma insert_before_last:
  "\<forall>m \<in> set q. m_id m \<le> m_id t \<Longrightarrow> insert_before q t = None"
  by (induction q) auto

lemma duplicate_of_last:
  assumes "recv_inv U" "recv_queue U \<noteq> []"
  shows "insert_message U (m_id (last (recv_queue U))) (Some d) n = U"
proof -
  let ?q = "recv_queue U"
  obtain U1 t where nm: "new_message U (Some d) n = (U1, t)" by fastforce
  note inv = assms(1) [unfolded recv_inv_def]
  have "m_id m \<le> m_id (last ?q)" if "m \<in> set ?q" for m by (rule key_sorted_le_last) (use inv that in auto)
  then have "insert_before ?q (t\<lparr>m_id := m_id (last ?q)\<rparr>) = None" by (intro insert_before_last) simp
  then show ?thesis using inv assms(2) nm by (simp add: insert_message_def)
qed

lemma duplicate_aborts_inner:
  assumes "recv_inv U" "recv_queue U = xs @ m # n # ys" "INT_MIN \<le> recv_id_min U"
    "m_id (last (recv_queue U)) < INT_MAX"
  shows "gen_outpackage (insert_message U (m_id m) (Some d) (int (length d))) = Inl AssertFailed"
proof -
  obtain U1 t where nm: "new_message U (Some d) (int (length d)) = (U1, t)" by fastforce
  obtain fl where U1: "U1 = U\<lparr>free_list := fl\<rparr>" using new_message_fields(4) [OF nm] by blast
  note inv = assms(1) [unfolded recv_inv_def]
  let ?t = "t\<lparr>m_id := m_id m\<rparr>"
  have "insert_before (recv_queue U) ?t = Some (xs @ m # ?t # n # ys)"
    unfolding assms(2) by (rule insert_before_duplicate) (use inv assms(2) in simp_all)
  moreover have "m_id m < m_id n" using inv assms(2) by (auto simp: sorted_wrt_append)
  moreover have n: "m_id n \<le> m_id (last (recv_queue U))"
    by (rule key_sorted_le_last) (use inv assms(2) in auto)
  ultimately have "insert_message U (m_id m) (Some d) (int (length d)) =
      U\<lparr>free_list := fl, recv_queue := xs @ m # ?t # n # ys\<rparr>"
    using inv assms(2) nm U1 by (auto simp: insert_message_def)
  moreover have "request_missing_from t0 (recv_id_min U) (xs @ m # ?t # n # ys) = Inl AssertFailed"
    for t0
    by (rule request_missing_duplicate)
      (use inv assms n \<open>m_id m < m_id n\<close> in \<open>auto simp: sorted_wrt_append\<close>)
  ultimately show ?thesis by (simp add: gen_outpackage_def request_missing_def)
qed

text \<open>[C36] A frame received twice is fatal: a second copy of a message that waits in the receive queue with another one
  behind it is queued too, and the next outgoing update fails its assertion. Only a copy of the last message in the queue is
  ignored.\<close>

theorem duplicate_aborts:
  assumes "recv_inv U" "m \<in> set (recv_queue U)" "INT_MIN \<le> recv_id_min U" "m_id (last (recv_queue U)) < INT_MAX"
  shows "if m = last (recv_queue U) then insert_message U (m_id m) (Some d) (int (length d)) = U
         else gen_outpackage (insert_message U (m_id m) (Some d) (int (length d))) = Inl AssertFailed"
proof (cases "m = last (recv_queue U)")
  case True
  have "recv_queue U \<noteq> []" using assms(2) by auto
  then show ?thesis using duplicate_of_last [OF assms(1)] True by simp
next
  case False
  obtain xs zs where q: "recv_queue U = xs @ m # zs" using split_list [OF assms(2)] by blast
  then obtain n ys where "zs = n # ys" using False by (cases zs) auto
  then show ?thesis using duplicate_aborts_inner [OF assms(1) _ assms(3,4)] q False by simp
qed

definition example_two :: rudp where
  "example_two = receive_all (rudp_new 1 5) [(0, [7]), (1, [8])]"

theorem duplicate_aborts_witness:
  "gen_outpackage (insert_message example_two 0 (Some [7]) (int (length [7 :: byte]))) = Inl AssertFailed \<and>
   insert_message example_two 1 (Some [8]) (int (length [8 :: byte])) = example_two"
proof -
  obtain m n where q: "recv_queue example_two = [m, n]" "m_id m = 0" "m_id n = 1"
    "recv_inv example_two" "recv_id_min example_two = 0"
    by (simp add: example_two_def receive_all_def rudp_new_def insert_message_def new_message_def
        queue_push_def recv_inv_def)
  have "m \<noteq> n" using q(2,3) by auto
  then show ?thesis using duplicate_aborts [OF q(4), of m "[7]"] duplicate_aborts [OF q(4), of n "[8]"] q by simp
qed

text \<open>Resend requests are compared with the wrong counter: a request for an id below the number
  of messages this endpoint has received is dropped, even when the message is still in the history,
  and only a heartbeat is sent.\<close>

theorem request_ignored:
  assumes "recv_queue U = []" "send_queue U = []" "arr_list (send_again U) = [i]"
    and "i < recv_id_min U" "h \<in> set (send_history U)" "m_id h = i"
  shows "\<exists>U'. gen_outpackage U = Inr (U', [[word_of_int TYPE_IGNORE]])"
  using assms
  by (auto simp: gen_outpackage_def request_missing_def reply_request_def send_message_def
      new_package_def arr_list_def Let_def)

definition example_history :: rudp where
  "example_history = (rudp_new 1 5)\<lparr>recv_id_min := 9,
     send_history := [\<lparr> m_buffer = [5], m_sz = 1, m_cap = 128, m_id = 2, m_tick = 0 \<rparr>],
     send_again := array_insert \<lparr> a_cap = 0, a_n = 0, a_a = [] \<rparr> 2\<rparr>"

theorem request_ignored_witness:
  "\<exists>U'. gen_outpackage example_history = Inr (U', [[word_of_int TYPE_IGNORE]])"
  by (rule request_ignored [of _ 2 "hd (send_history example_history)"])
    (simp_all add: example_history_def rudp_new_def array_insert_def array_scan.simps array_grow_def
      arr_list_def numeral_eq_Suc)

text \<open>The requested ids: \<open>array_insert\<close> keeps the array strictly sorted inside its capacity and
  adds exactly the given id.\<close>

theorem array_insert_refines:
  assumes "arr_wf a"
  shows "arr_wf (array_insert a x) \<and>
     arr_list (array_insert a x) =
       (if x \<in> set (arr_list a) then arr_list a else insort x (arr_list a))"
proof
  show wf: "arr_wf (array_insert a x)" using assms by (rule arr_wf_insert)
  let ?l = "arr_list a"
  show "arr_list (array_insert a x) = (if x \<in> set ?l then ?l else insort x ?l)"
  proof (cases "array_scan (a_a a) (a_n a) x 0")
    case None
    then show ?thesis using array_insert_old [OF assms] by simp
  next
    case (Some i)
    have x: "x \<notin> set ?l" using array_insert_new(3) [OF assms Some] .
    have "sorted ?l" "distinct ?l"
      using assms by (simp_all add: arr_wf_def strict_sorted_iff)
    then have "sorted_wrt (<) (insort x ?l)"
      using x by (simp add: strict_sorted_iff distinct_insort sorted_insort)
    moreover have "set (insort x ?l) = set (arr_list (array_insert a x))"
      using set_arr_insert [OF assms] by (simp add: set_insort_key)
    ultimately have "arr_list (array_insert a x) = insort x ?l"
      using wf by (intro strict_key_sorted_unique [where f = "\<lambda>x. x"]) (simp_all add: arr_wf_def)
    with x show ?thesis by simp
  qed
qed

theorem array_insert_refines_witness:
  "arr_list (array_insert \<lparr> a_cap = 3, a_n = 2, a_a = [4, 9, 0] \<rparr> 6) = [4, 6, 9]"
proof -
  let ?a = "\<lparr> a_cap = 3, a_n = 2, a_a = [4, 9, 0] \<rparr>"
  have "arr_wf ?a" by (simp add: arr_wf_def arr_list_def)
  from array_insert_refines [OF this, of 6] show ?thesis by (simp add: arr_list_def)
qed

lemma expired_prefix_split:
  "expired_prefix ms t = (takeWhile (\<lambda>m. m_tick m < t) ms, dropWhile (\<lambda>m. m_tick m < t) ms)"
  by (induction ms t rule: expired_prefix.induct) (simp_all add: not_less)

text \<open>Expiry: with a history in the order of its ticks, \<open>clear_send_expired\<close> keeps exactly the
  messages sent at or after the tick and returns every other struct to the free list.\<close>

theorem clear_send_expired_keeps:
  assumes "sorted (map m_tick (send_history U))"
  shows "send_history (clear_send_expired U t) = filter (\<lambda>m. t \<le> m_tick m) (send_history U) \<and>
     free_list (clear_send_expired U t) =
       filter (\<lambda>m. m_tick m < t) (send_history U) @ free_list U"
proof -
  have "dropWhile (\<lambda>m. m_tick m < t) ms = filter (\<lambda>m. t \<le> m_tick m) ms \<and>
      takeWhile (\<lambda>m. m_tick m < t) ms = filter (\<lambda>m. m_tick m < t) ms"
    if "sorted (map m_tick ms)" for ms
    using that
  proof (induction ms)
    case (Cons m ms)
    show ?case
    proof (cases "m_tick m < t")
      case False
      then have "\<forall>x\<in>set ms. t \<le> m_tick x" using Cons.prems by force
      with False show ?thesis by (auto simp: empty_filter_conv filter_id_conv not_less)
    qed (use Cons in simp)
  qed simp
  from this [OF assms] show ?thesis by (simp add: clear_send_expired_def expired_prefix_split)
qed

theorem clear_send_expired_keeps_witness:
  "send_history (clear_send_expired example_history 1) = []"
proof -
  have "sorted (map m_tick (send_history example_history))" by (simp add: example_history_def)
  from clear_send_expired_keeps [OF this, of 1] show ?thesis by (simp add: example_history_def)
qed

lemma frame_len_prefix:
  assumes "0 \<le> len" "len \<le> 0x7fff" "0 < k" "k < length (fill_header len i)"
  shows "frame_len (take k (fill_header len i)) = None \<or>
     (\<exists>rest. frame_len (take k (fill_header len i)) = Some (len, rest) \<and> length rest < 2)"
proof -
  have "frame_len (fill_header len i) = Some (len, [id_hi i, id_lo i])"
    using frame_len_header [OF assms(1,2), of i "[]"] by simp
  moreover have "k = 1 \<or> k = 2 \<or> k = 3"
    using assms(3,4) by (auto simp: length_fill_header split: if_splits)
  ultimately show ?thesis
    using assms(4) by (auto simp: fill_header_def take_Cons' split: if_splits)
qed

text \<open>A package cut off inside a frame is reported: any proper, non-empty prefix of a frame that
  carries a request or a message leaves the queues untouched and marks the connection corrupt.\<close>

theorem truncated_frame_corrupt:
  assumes "frame_ok f" "0 < k" "k < length (encode_frame f)"
  shows "extract_package U (take k (encode_frame f)) = U\<lparr>corrupt := True\<rparr>"
proof -
  obtain len i d where f: "encode_frame f = fill_header len i @ d" "0 \<le> len" "len \<le> 0x7fff"
      "len = TYPE_REQUEST \<and> d = [] \<or> len = TYPE_MISSING \<and> d = [] \<or> len = int (length d) + TYPE_NORMAL"
  proof (cases f)
    case (Request i)
    then show ?thesis by (intro that [of 2 i "[]"]) (simp_all add: type_defs)
  next
    case (Missing i)
    then show ?thesis by (intro that [of 3 i "[]"]) (simp_all add: type_defs)
  next
    case (Normal i d)
    then show ?thesis using assms(1)
      by (intro that [of "int (length d) + 4" i d]) (simp_all add: type_defs MAX_PACKAGE_def)
  qed
  let ?h = "length (fill_header len i)"
  show ?thesis
  proof (cases "k < ?h")
    case True
    then have "take k (encode_frame f) = take k (fill_header len i)" by (simp add: f(1))
    with frame_len_prefix [OF f(2,3) assms(2) True] assms(2) f(4) show ?thesis
      by (subst extract_package.simps) (auto simp: type_defs split: option.splits)
  next
    case False
    then have tk: "take k (encode_frame f) = fill_header len i @ take (k - ?h) d" "k - ?h < length d"
      using assms(3) by (simp_all add: f(1))
    then have len: "len = int (length d) + 4" using f(4) by (auto simp: type_defs)
    note fl = frame_len_header [OF f(2,3), of i "take (k - ?h) d", unfolded len]
    show ?thesis using tk(2)
      by (subst extract_package.simps) (simp add: tk(1) len fl type_defs)
  qed
qed

theorem truncated_frame_corrupt_witness:
  "extract_package (rudp_new 1 5) (take 4 (encode_frame (Normal 0 [7, 8]))) =
   (rudp_new 1 5)\<lparr>corrupt := True\<rparr>"
  by (rule truncated_frame_corrupt)
    (simp_all add: MAX_PACKAGE_def fill_header_def TYPE_NORMAL_def)

text \<open>The peer address: an address shorter than the buffer and free of NUL bytes is read back as
  it was set, but one that fills the 256-byte buffer, which the assertion accepts, is read past its
  end.\<close>

theorem lget_from_after_set:
  assumes "0 \<notin> set addr" "length addr \<le> MAX_FROM_LEN"
  shows "rbind (lset_from aux addr) lget_from =
     (if length addr < MAX_FROM_LEN then Inr addr else Inl OutOfBounds)"
proof -
  have "takeWhile (\<lambda>b. b \<noteq> 0) (addr @ 0 # zs) = addr" for zs :: "byte list"
    using assms(1) by (subst takeWhile_append2) auto
  moreover have "replicate (MAX_FROM_LEN - length addr) (0 :: byte) =
      0 # replicate (MAX_FROM_LEN - length addr - 1) 0" if "length addr < MAX_FROM_LEN"
    using that by (metis Suc_diff_1 replicate_Suc zero_less_diff)
  ultimately show ?thesis using assms by (auto simp: lset_from_def lget_from_def)
qed

theorem lget_from_after_set_witness:
  "rbind (lset_from (lalloc [] 0) (replicate 256 1)) lget_from = Inl OutOfBounds"
  using lget_from_after_set [of "replicate 256 1" "lalloc [] 0"] by (simp add: MAX_FROM_LEN_def)

section \<open>The frame format as a self-delimiting code\<close>

text \<open>Reading one frame off the wire, with the 16-bit id as transmitted.\<close>

definition parse_frame :: "byte list \<Rightarrow> (frame \<times> byte list) option" where
  "parse_frame bs =
     (case frame_len bs of None \<Rightarrow> None
      | Some (len, rest) \<Rightarrow>
          if length rest < 2 then None
          else (let i = uint (rest ! 0) * 256 + uint (rest ! 1); rest' = drop 2 rest
                in if len = TYPE_REQUEST then Some (Request i, rest')
                   else if len = TYPE_MISSING then Some (Missing i, rest')
                   else if len < TYPE_NORMAL then None
                   else if int (length rest') < len - TYPE_NORMAL then None
                   else Some (Normal i (take (nat (len - TYPE_NORMAL)) rest'),
                              drop (nat (len - TYPE_NORMAL)) rest')))"

fun frame_id :: "frame \<Rightarrow> int" where
  "frame_id (Request i) = i"
| "frame_id (Missing i) = i"
| "frame_id (Normal i d) = i"

definition wire_ok :: "frame \<Rightarrow> bool" where
  "wire_ok f \<longleftrightarrow> frame_ok f \<and> 0 \<le> frame_id f \<and> frame_id f < 65536"

interpretation frame_codec: prefix_codec wire_ok encode_frame parse_frame
proof
  fix f rest
  assume "wire_ok f"
  moreover from this have "frame_id f mod 65536 = frame_id f" by (simp add: wire_ok_def)
  ultimately show "parse_frame (encode_frame f @ rest) = Some (f, rest)"
    by (cases f)
      (simp_all add: wire_ok_def parse_frame_def frame_len_header type_defs MAX_PACKAGE_def id_bytes)
qed

text \<open>[C22] The wire format is unambiguous: no two different sequences of frames, with ids below
  65536 and payloads of at most \<open>MAX_PACKAGE\<close> bytes, have the same bytes.\<close>

theorem wire_unambiguous:
  assumes "list_all wire_ok fs" "list_all wire_ok gs"
  shows "concat (map encode_frame fs) = concat (map encode_frame gs) \<longleftrightarrow> fs = gs"
  using frame_codec.enc_list_inject [OF assms] by (auto simp: parse_frame_def)

theorem wire_unambiguous_witness:
  "concat (map encode_frame [Request 1, Normal 2 [7]]) \<noteq>
   concat (map encode_frame [Normal 1 [], Normal 2 [7]])"
  using wire_unambiguous [of "[Request 1, Normal 2 [7]]" "[Normal 1 [], Normal 2 [7]]"]
  by (simp add: wire_ok_def MAX_PACKAGE_def)

end
