(* ===== verification/RudpRecovery.thy ===== *)
theory RudpRecovery
  imports Rudp
begin

text \<open>
  Recovery from loss over a full round of the protocol of \<^verbatim>\<open>rudp/rudp.c\<close>: a receiver that misses messages asks for them
  with its next package, the sender answers from its history, and the receiver then delivers everything in order.
\<close>

section \<open>The gaps\<close>

lemma gaps_set:
  "ms \<noteq> [] \<Longrightarrow> sorted_wrt (\<lambda>a b. m_id a < m_id b) ms \<Longrightarrow> \<forall>m\<in>set ms. i \<le> m_id m \<Longrightarrow>
   set (gaps i ms) = {i..m_id (last ms)} - m_id ` set ms"
proof (induction ms arbitrary: i)
  case (Cons m ms)
  show ?case
  proof (cases "ms = []")
    case True
    then show ?thesis by auto
  next
    case False
    have "\<forall>m'\<in>set ms. m_id m + 1 \<le> m_id m'" using Cons.prems(2) by auto
    then have "set (gaps (m_id m + 1) ms) = {m_id m + 1..m_id (last ms)} - m_id ` set ms"
      using Cons.IH False Cons.prems(2) by simp
    moreover have "x \<le> m_id (last ms)" if "x < m_id m" for x
    proof -
      have "m_id m < m_id (last ms)" using Cons.prems(2) False by simp
      then show ?thesis using that by linarith
    qed
    moreover have "i \<le> m_id m" using Cons.prems(3) by simp
    moreover have "\<forall>m'\<in>set ms. m_id m < m_id m'" using Cons.prems(2) by simp
    ultimately show ?thesis using False by (auto simp: image_iff)
  qed
qed simp

lemma gaps_sorted:
  "sorted_wrt (\<lambda>a b. m_id a < m_id b) ms \<Longrightarrow> \<forall>m\<in>set ms. i \<le> m_id m \<Longrightarrow> sorted_wrt (<) (gaps i ms) \<and> (\<forall>k\<in>set (gaps i ms). i \<le> k)"
proof (induction ms arbitrary: i)
  case (Cons m ms)
  have "\<forall>m'\<in>set ms. m_id m + 1 \<le> m_id m'" using Cons.prems(1) by auto
  then have "sorted_wrt (<) (gaps (m_id m + 1) ms)" "\<forall>k\<in>set (gaps (m_id m + 1) ms). m_id m + 1 \<le> k"
    using Cons.IH [of "m_id m + 1"] Cons.prems(1) by simp_all
  moreover have "sorted_wrt (<) [i..m_id m - 1]" by simp
  moreover have "i \<le> m_id m" using Cons.prems(2) by simp
  ultimately show ?case by (force simp: sorted_wrt_append)
qed simp

section \<open>One round\<close>

lemma gen_outpackage_keeps:
  assumes "gen_outpackage U = Inr (U', ps)"
  shows "recv_queue U' = recv_queue U" "recv_id_min U' = recv_id_min U" "recv_id_max U' = recv_id_max U" "corrupt U' = corrupt U"
  using assms by (auto simp: gen_outpackage_def rbind_eq_Inr_iff reply_request_def send_message_def Let_def split: if_splits)

text \<open>What the sender remembers of the requests.\<close>

lemma apply_requests:
  assumes "\<forall>i \<in> set ids. \<bar>i - recv_id_max S\<bar> < 0x8000 \<and> 0 \<le> i \<and> i \<le> INT_MAX - 0x10000"
    "0 \<le> recv_id_max S" "recv_id_max S \<le> INT_MAX - 0x10000"
  shows "foldl apply_frame S (map Request ids) = S\<lparr>send_again := foldl array_insert (send_again S) ids\<rparr>"
  using assms
proof (induction ids arbitrary: S)
  case (Cons i ids)
  have i: "get_id S (id_hi i) (id_lo i) = i" using Cons.prems by (intro get_id_near) auto
  let ?S = "S\<lparr>send_again := array_insert (send_again S) i\<rparr>"
  have "foldl apply_frame ?S (map Request ids) = ?S\<lparr>send_again := foldl array_insert (send_again ?S) ids\<rparr>"
    using Cons.prems by (intro Cons.IH) simp_all
  then show ?case by (simp add: i add_request_def)
qed simp

lemma foldl_array_insert:
  "arr_wf a \<Longrightarrow> arr_wf (foldl array_insert a ids) \<and> set (arr_list (foldl array_insert a ids)) = set (arr_list a) \<union> set ids"
  by (induction ids arbitrary: a) (auto simp: arr_wf_insert set_arr_insert)

lemma collected_requests:
  assumes "arr_wf a" "arr_list a = []" "sorted_wrt (<) ids"
  shows "arr_list (foldl array_insert a ids) = ids"
proof -
  have "arr_wf (foldl array_insert a ids)" "set (arr_list (foldl array_insert a ids)) = set ids"
    using foldl_array_insert [OF assms(1), of ids] assms(2) by simp_all
  then show ?thesis using assms(3) by (intro strict_key_sorted_unique [of "\<lambda>i. i"]) (simp_all add: arr_wf_def)
qed


section \<open>Recovery\<close>

text \<open>The messages a receiver waits for: the payloads \<open>ds\<close> under the ids from \<open>recv_id_min\<close> on.\<close>

definition awaited :: "rudp \<Rightarrow> byte list list \<Rightarrow> (int \<times> byte list) set" where
  "awaited R ds = set (zip (map (\<lambda>k. recv_id_min R + int k) [0..<length ds]) ds)"

lemma awaited_iff: "(i, d) \<in> awaited R ds \<longleftrightarrow> (\<exists>k < length ds. i = recv_id_min R + int k \<and> d = ds ! k)"
proof
  assume "\<exists>k < length ds. i = recv_id_min R + int k \<and> d = ds ! k"
  then obtain k where "k < length ds" "i = recv_id_min R + int k" "d = ds ! k" by blast
  then show "(i, d) \<in> awaited R ds" unfolding awaited_def set_zip by (intro CollectI exI [of _ k]) simp
qed (auto simp: awaited_def set_zip)

lemma awaited_fun: "(i, d) \<in> awaited R ds \<Longrightarrow> (i, d') \<in> awaited R ds \<Longrightarrow> d = d'"
  by (auto simp: awaited_iff)

text \<open>A receiver that holds some of the awaited messages, the last among them, and misses at least one.\<close>

definition waiting :: "rudp \<Rightarrow> byte list list \<Rightarrow> bool" where
  "waiting R ds \<longleftrightarrow> recv_inv R \<and> send_inv R \<and> \<not> corrupt R \<and> send_queue R = [] \<and> arr_list (send_again R) = [] \<and>
     recv_set R \<subset> awaited R ds \<and> (recv_id_min R + int (length ds) - 1, last ds) \<in> recv_set R \<and> (\<forall>d \<in> set ds. d \<noteq> []) \<and>
     0 \<le> recv_id_min R \<and> int (length ds) < 0x8000 \<and> recv_id_min R + int (length ds) \<le> INT_MAX - 0x10000"

text \<open>A sender that has them all in its history, has nothing else to send, and has not received more messages than the first
  awaited id says.\<close>

definition remembers :: "rudp \<Rightarrow> rudp \<Rightarrow> byte list list \<Rightarrow> bool" where
  "remembers S R ds \<longleftrightarrow> send_inv S \<and> recv_queue S = [] \<and> send_queue S = [] \<and> arr_list (send_again S) = [] \<and>
     awaited R ds \<subseteq> (\<lambda>m. (m_id m, payload m)) ` set (send_history S) \<and>
     recv_id_min S \<le> recv_id_min R \<and> INT_MIN \<le> recv_id_min S \<and> 0 \<le> recv_id_max S \<and> recv_id_max S \<le> INT_MAX - 0x10000 \<and>
     (\<forall>k < length ds. \<bar>recv_id_min R + int k - recv_id_max S\<bar> < 0x8000)"

abbreviation missing :: "rudp \<Rightarrow> int list" where
  "missing R \<equiv> gaps (recv_id_min R) (recv_queue R)"

definition lost :: "rudp \<Rightarrow> byte list list \<Rightarrow> (int \<times> byte list) list" where
  "lost R ds = map (\<lambda>i. (i, ds ! nat (i - recv_id_min R))) (missing R)"

lemma waiting_queue:
  assumes "waiting R ds"
  shows "recv_queue R \<noteq> []" "recv_id_max R = recv_id_min R + int (length ds) - 1" "recv_id_max R \<in> m_id ` set (recv_queue R)"
    "set (missing R) = {recv_id_min R..recv_id_max R} - m_id ` set (recv_queue R)" "sorted_wrt (<) (missing R)"
    "m \<in> set (recv_queue R) \<Longrightarrow> (m_id m, payload m) \<in> awaited R ds"
proof -
  let ?q = "recv_queue R"
  have "(recv_id_min R + int (length ds) - 1, last ds) \<in> recv_set R" using assms by (simp add: waiting_def)
  then obtain ml where ml: "ml \<in> set ?q" "m_id ml = recv_id_min R + int (length ds) - 1" by (auto simp: recv_set_def)
  then show ne: "?q \<noteq> []" by auto
  have sorted: "sorted_wrt (\<lambda>a b. m_id a < m_id b) ?q" "\<forall>m\<in>set ?q. recv_id_min R \<le> m_id m" and top: "recv_id_max R = m_id (last ?q)"
    using assms ne by (simp_all add: waiting_def recv_inv_def)
  show held: "(m_id m, payload m) \<in> awaited R ds" if "m \<in> set ?q" for m
    using assms that by (auto simp: waiting_def recv_set_def)
  have "m_id (last ?q) \<le> recv_id_min R + int (length ds) - 1" using held [of "last ?q"] ne by (auto simp: awaited_iff)
  then show "recv_id_max R = recv_id_min R + int (length ds) - 1"
    using key_sorted_le_last [OF sorted(1) ml(1)] ml(2) top by simp
  then show "recv_id_max R \<in> m_id ` set ?q" using ml by (metis imageI)
  show "set (missing R) = {recv_id_min R..recv_id_max R} - m_id ` set ?q" "sorted_wrt (<) (missing R)"
    using gaps_set [OF ne sorted] gaps_sorted [OF sorted] top by simp_all
qed

lemma missing_id:
  assumes "waiting R ds" "i \<in> set (missing R)"
  shows "recv_id_min R \<le> i" "i < recv_id_max R" "i \<notin> m_id ` set (recv_queue R)" "(i, ds ! nat (i - recv_id_min R)) \<in> awaited R ds"
proof -
  note q = waiting_queue [OF assms(1)]
  show b: "recv_id_min R \<le> i" "i < recv_id_max R" "i \<notin> m_id ` set (recv_queue R)"
    using assms(2) q(3) unfolding q(4) by (auto simp: le_less)
  then show "(i, ds ! nat (i - recv_id_min R)) \<in> awaited R ds"
    unfolding awaited_iff using q(2) by (intro exI [of _ "nat (i - recv_id_min R)"]) auto
qed

text \<open>What is held and what is lost make up what is awaited.\<close>

lemma held_lost:
  assumes "waiting R ds"
  shows "recv_set R \<union> set (lost R ds) = awaited R ds"
proof
  show "recv_set R \<union> set (lost R ds) \<subseteq> awaited R ds"
    using assms missing_id(4) [OF assms] by (auto simp: waiting_def lost_def)
  show "awaited R ds \<subseteq> recv_set R \<union> set (lost R ds)"
  proof
    fix e assume e: "e \<in> awaited R ds"
    obtain i d where id: "e = (i, d)" by fastforce
    have i: "i \<in> {recv_id_min R..recv_id_max R}" using e waiting_queue(2) [OF assms] by (auto simp: id awaited_iff)
    show "e \<in> recv_set R \<union> set (lost R ds)"
    proof (cases "i \<in> set (missing R)")
      case True
      then have "d = ds ! nat (i - recv_id_min R)" using missing_id(4) [OF assms True] e awaited_fun unfolding id by blast
      then show ?thesis using True by (auto simp: lost_def id)
    next
      case False
      then obtain m where m: "m \<in> set (recv_queue R)" "m_id m = i" using i waiting_queue(4) [OF assms] by auto
      then have "d = payload m" using waiting_queue(6) [OF assms m(1)] e awaited_fun unfolding id by blast
      then show ?thesis using m by (auto simp: recv_set_def id)
    qed
  qed
qed

lemma something_missing:
  assumes "waiting R ds"
  shows "missing R \<noteq> []"
proof
  assume "missing R = []"
  then have "recv_set R = awaited R ds" using held_lost [OF assms] by (simp add: lost_def)
  then show False using assms by (simp add: waiting_def)
qed

text \<open>The receiver asks for what is missing.\<close>

lemma receiver_asks:
  assumes "waiting R ds"
  obtains R1 ps where "gen_outpackage R = Inr (R1, ps)" "\<And>U. foldl extract_package U ps = foldl apply_frame U (map Request (missing R))"
proof -
  have out: "outgoing R = map Request (missing R)" using assms by (simp add: outgoing_def waiting_def)
  have "m_id m < INT_MAX" if "m \<in> set (recv_queue R)" for m
    using waiting_queue(6) [OF assms that] assms by (auto simp: awaited_iff waiting_def)
  moreover have "recv_inv R" "send_inv R" "INT_MIN \<le> recv_id_min R" using assms by (auto simp: waiting_def)
  ultimately show thesis
    using gen_outpackage_frames_read [of R] something_missing [OF assms] that out by (metis (no_types, lifting) map_is_Nil_conv)
qed

text \<open>The sender answers every request from its history.\<close>

lemma answer_remembered:
  assumes "sorted_wrt (\<lambda>a b. m_id a < m_id b) h" "(i, d) \<in> (\<lambda>m. (m_id m, payload m)) ` set h"
  shows "answer h i = Normal i d"
  using assms by (induction h) (auto simp: answer_def frame_of_def)

lemma sender_answers:
  assumes w: "waiting R ds" and s: "remembers S R ds"
  obtains S1 qs where "gen_outpackage (foldl apply_frame S (map Request (missing R))) = Inr (S1, qs)"
    "\<And>U. foldl extract_package U qs = foldl apply_frame U (map (\<lambda>(i, d). Normal i d) (lost R ds))"
proof -
  let ?S = "S\<lparr>send_again := foldl array_insert (send_again S) (missing R)\<rparr>"
  have near: "\<bar>i - recv_id_max S\<bar> < 0x8000 \<and> 0 \<le> i \<and> i \<le> INT_MAX - 0x10000" if "i \<in> set (missing R)" for i
    using missing_id(4) [OF w that] w s by (auto simp: awaited_iff waiting_def remembers_def)
  have S: "foldl apply_frame S (map Request (missing R)) = ?S"
    using near s by (intro apply_requests) (auto simp: remembers_def)
  have again: "arr_list (send_again ?S) = missing R"
    using s waiting_queue(5) [OF w] by (simp add: remembers_def send_inv_def collected_requests)
  have "answer (send_history S) i = Normal i (ds ! nat (i - recv_id_min R))" if "i \<in> set (missing R)" for i
    using missing_id(4) [OF w that] s by (intro answer_remembered) (auto simp: remembers_def send_inv_def)
  moreover have "filter (\<lambda>i. recv_id_min S \<le> i) (missing R) = missing R"
    using missing_id(1) [OF w] s by (intro filter_True) (force simp: remembers_def)
  ultimately have out: "outgoing ?S = map (\<lambda>(i, d). Normal i d) (lost R ds)"
    using s again by (simp add: outgoing_def remembers_def lost_def)
  have "recv_inv ?S" "send_inv ?S" "INT_MIN \<le> recv_id_min ?S" "\<forall>m\<in>set (recv_queue ?S). m_id m < INT_MAX"
    using s foldl_array_insert [of "send_again S" "missing R"] by (simp_all add: remembers_def recv_inv_def send_inv_def)
  moreover have "outgoing ?S \<noteq> []" unfolding out using something_missing [OF w] by (simp add: lost_def)
  ultimately show thesis using gen_outpackage_frames_read [of ?S] that unfolding S out by metis
qed



text \<open>Of three messages the first two packages were lost.\<close>

definition example_lossy :: "rudp \<times> rudp" where
  "example_lossy =
     (let m = (\<lambda>i d. \<lparr> m_buffer = d, m_sz = int (length d), m_cap = 128, m_id = i, m_tick = 0 \<rparr>)
      in ((rudp_new 1 5)\<lparr>send_id := 3, send_history := [m 0 [7], m 1 [8, 9], m 2 [5]]\<rparr>,
          (rudp_new 1 5)\<lparr>recv_queue := [m 2 [5]], recv_id_max := 2\<rparr>))"


end
