(* ===== verification/Utf8.thy ===== *)
theory Utf8
  imports Interfaces
begin

text \<open>
  The UTF-8 conversions of the word filter (\<^verbatim>\<open>src/lualib-src/crab/lua-utf8.c\<close>). The scans over a
  string are recursions on the bytes from position \<^verbatim>\<open>i\<close> on; the result table of
  \<^verbatim>\<open>_toutf32\<close> is a map from positions, and a value the caller's table holds at the positions
  written is overwritten. An element of the table given to \<^verbatim>\<open>_toutf8\<close> is \<open>Some\<close> the 64-bit
  integer \<^verbatim>\<open>lua_tointegerx\<close> converts it to, or \<open>None\<close>.
\<close>

unbundle bit_operations_syntax

section \<open>Operations\<close>

definition utf8_steps :: "byte \<Rightarrow> nat" where
  "utf8_steps c =
     (if c < 0x80 then 1 else if c < 0xc0 then 0 else if c < 0xe0 then 2
      else if c < 0xf0 then 3 else if c < 0xf8 then 4 else 0)"

definition utf8_bytes :: "u32 \<Rightarrow> nat" where
  "utf8_bytes rune =
     (if rune < 0x80 then 1 else if rune < 0x800 then 2 else if rune < 0x10000 then 3
      else if rune < 0x110000 then 4 else 0)"

definition utf8_decode :: "byte list \<Rightarrow> nat \<Rightarrow> u32" where
  "utf8_decode str step =
     foldl (\<lambda>v b. push_bit 6 v OR (ucast b AND 0x3f))
       (ucast (str ! 0) AND drop_bit step 0xff) (take (step - 1) (drop 1 str))"

definition FILL_LOW_BITS :: "u32 \<Rightarrow> byte \<times> u32" where
  "FILL_LOW_BITS rune = (ucast ((rune AND 0x3f) OR 0x80), drop_bit 6 rune)"

definition utf8_encode :: "u32 \<Rightarrow> nat \<Rightarrow> byte list" where
  "utf8_encode rune bytes =
     (if bytes = 1 then [ucast (rune AND 0x7f)]
      else if bytes = 2 then
        (let (c1, r1) = FILL_LOW_BITS rune in [ucast (r1 OR 0xc0), c1])
      else if bytes = 3 then
        (let (c2, r1) = FILL_LOW_BITS rune; (c1, r2) = FILL_LOW_BITS r1
         in [ucast (r2 OR 0xe0), c1, c2])
      else
        (let (c3, r1) = FILL_LOW_BITS rune; (c2, r2) = FILL_LOW_BITS r1;
             (c1, r3) = FILL_LOW_BITS r2
         in [ucast (r3 OR 0xf0), c1, c2, c3]))"

function toutf32_loop ::
  "byte list \<Rightarrow> nat \<Rightarrow> (nat \<rightharpoonup> u32) \<Rightarrow> (nat \<rightharpoonup> u32) \<times> nat option" where
  "toutf32_loop str count t =
     (if str = [] then (t, Some count)
      else (let step = utf8_steps (str ! 0)
            in if step = 0 \<or> length str < step then (t, None)
               else toutf32_loop (drop step str) (count + 1)
                      (t(count + 1 \<mapsto> utf8_decode str step))))"
  by pat_completeness auto
termination
  by (relation "measure (\<lambda>(str, count, t). length str)") auto

definition toutf32 :: "byte list \<Rightarrow> (nat \<rightharpoonup> u32) \<Rightarrow> (nat \<rightharpoonup> u32) \<times> nat option" where
  "toutf32 str t = toutf32_loop str 0 t"

fun toutf8_size :: "int option list \<Rightarrow> nat \<Rightarrow> nat option" where
  "toutf8_size [] sz = Some sz"
| "toutf8_size (None # es) sz = None"
| "toutf8_size (Some n # es) sz =
     (let bytes = utf8_bytes (word_of_int n)
      in if bytes = 0 then None else toutf8_size es (sz + bytes))"

fun toutf8_fill :: "int option list \<Rightarrow> byte list \<Rightarrow> byte list" where
  "toutf8_fill [] str = str"
| "toutf8_fill (e # es) str =
     (let rune = (case e of Some n \<Rightarrow> word_of_int n | None \<Rightarrow> 0)
      in toutf8_fill es (str @ utf8_encode rune (utf8_bytes rune)))"

text \<open>The buffer has the \<open>sz\<close> bytes counted by the first loop; the second loop fills it. A write
  past it, or bytes left unwritten, would show as a length that differs from \<open>sz\<close>.\<close>

definition toutf8 :: "int option list \<Rightarrow> byte list option result" where
  "toutf8 es =
     (case toutf8_size es 0 of None \<Rightarrow> Inr None
      | Some sz \<Rightarrow>
          let str = toutf8_fill es []
          in if length str = sz then Inr (Some str) else Inl OutOfBounds)"

function utf8_len_loop :: "byte list \<Rightarrow> nat \<Rightarrow> nat option" where
  "utf8_len_loop str count =
     (if str = [] then Some count
      else (let step = utf8_steps (str ! 0)
            in if step = 0 \<or> length str < step then None
               else utf8_len_loop (drop step str) (count + 1)))"
  by pat_completeness auto
termination
  by (relation "measure (\<lambda>(str, count). length str)") auto

definition utf8_len :: "byte list \<Rightarrow> nat option" where
  "utf8_len str = utf8_len_loop str 0"

declare toutf32_loop.simps [simp del] utf8_len_loop.simps [simp del]

section \<open>One code point\<close>

lemma uint_low_bits: "uint (ucast ((r AND 0x3f) OR 0x80 :: u32) :: byte) = uint r mod 64 + 128"
proof -
  have "(uint r mod 64) OR 128 = uint r mod 64 + 128"
    using or_add_low [of "uint r mod 64" 7 1] by (simp add: ac_simps)
  then show ?thesis
    by (simp add: unsigned_ucast_eq uint_or uint_and and_0x3f take_bit_eq_mod)
qed

lemma uint_drop6: "uint (drop_bit 6 r :: u32) = uint r div 64"
proof -
  have "take_bit 32 (uint r) = uint r" using uint_range_size [of r] by (simp add: take_bit_int_eq_self word_size)
  then show ?thesis unfolding unsigned_drop_bit_eq by (simp add: drop_bit_eq_div)
qed

lemma uint_shift6:
  assumes "uint (v :: u32) < 2 ^ 26"
  shows "uint (push_bit 6 v OR (ucast (b :: byte) AND 0x3f)) = uint v * 64 + uint b mod 64"
proof -
  have "uint (push_bit 6 v) = uint v * 64"
    unfolding unsigned_push_bit_eq using assms by (simp add: push_bit_eq_mult take_bit_eq_mod)
  moreover have "take_bit 32 (uint b) = uint b"
    using uint_byte_bounds [of b] by (simp add: take_bit_int_eq_self)
  ultimately show ?thesis
    using or_add_low [of "uint b mod 64" 6 "uint v"]
    by (simp add: uint_or uint_and and_0x3f unsigned_ucast_eq)
qed

lemma uint_lead:
  assumes "uint (r :: u32) < 2 ^ k" "k \<le> 7" "h mod 2 ^ k = 0" "0 \<le> h" "h + uint r < 256"
  shows "uint (ucast (r OR word_of_int h) :: byte) = h + uint r"
proof -
  have "h OR uint r = h + uint r"
    using or_add_low [of "uint r" k "h div 2 ^ k"] assms by (auto simp: dvd_eq_mod_eq_0)
  moreover have "h < 4294967296" using assms(5) uint_ge_0 [of r] by linarith
  then have "uint (word_of_int h :: u32) = h"
    using assms(4) by (simp add: uint_word_of_int)
  ultimately show ?thesis
    using assms by (simp add: unsigned_ucast_eq uint_or or.commute take_bit_eq_mod)
qed

lemma FILL_LOW_BITS_values:
  "uint (fst (FILL_LOW_BITS r)) = uint r mod 64 + 128" "uint (snd (FILL_LOW_BITS r)) = uint r div 64"
  unfolding FILL_LOW_BITS_def by (simp_all only: uint_low_bits uint_drop6 fst_conv snd_conv)

lemma uint_leads:
  "uint (r :: u32) < 32 \<Longrightarrow> uint (ucast (r OR 0xc0) :: byte) = 0xc0 + uint r"
  "uint (r :: u32) < 16 \<Longrightarrow> uint (ucast (r OR 0xe0) :: byte) = 0xe0 + uint r"
  "uint (r :: u32) < 8 \<Longrightarrow> uint (ucast (r OR 0xf0) :: byte) = 0xf0 + uint r"
  using uint_lead [of r 5 "0xc0"] uint_lead [of r 4 "0xe0"] uint_lead [of r 3 "0xf0"] by simp_all

lemma utf8_encode_values:
  defines "x \<equiv> \<lambda>r. uint (r :: u32)"
  shows "r < 0x80 \<Longrightarrow> map uint (utf8_encode r 1) = [x r]"
    and "r < 0x800 \<Longrightarrow> map uint (utf8_encode r 2) = [0xc0 + x r div 64, x r mod 64 + 128]"
    and "r < 0x10000 \<Longrightarrow> map uint (utf8_encode r 3) =
       [0xe0 + x r div 4096, x r div 64 mod 64 + 128, x r mod 64 + 128]"
    and "r < 0x110000 \<Longrightarrow> map uint (utf8_encode r 4) =
       [0xf0 + x r div 262144, x r div 4096 mod 64 + 128, x r div 64 mod 64 + 128, x r mod 64 + 128]"
proof -
  note defs = utf8_encode_def split_def Let_def FILL_LOW_BITS_values x_def
  show "map uint (utf8_encode r 1) = [x r]" if "r < 0x80"
    using that by (simp add: defs unsigned_ucast_eq uint_and and_0x7f word_less_def)
      (simp add: take_bit_eq_mod)
  show "map uint (utf8_encode r 2) = [0xc0 + x r div 64, x r mod 64 + 128]" if "r < 0x800"
  proof -
    have "uint (snd (FILL_LOW_BITS r)) < 32"
      using that by (simp add: FILL_LOW_BITS_values word_less_def)
    then show ?thesis using uint_leads(1) [of "snd (FILL_LOW_BITS r)"] by (simp add: defs)
  qed
  show "map uint (utf8_encode r 3) =
       [0xe0 + x r div 4096, x r div 64 mod 64 + 128, x r mod 64 + 128]" if "r < 0x10000"
  proof -
    let ?r = "snd (FILL_LOW_BITS (snd (FILL_LOW_BITS r)))"
    have "uint ?r = x r div 4096" by (simp add: defs zdiv_zmult2_eq [symmetric])
    moreover have "x r div 4096 < 16" using that by (simp add: x_def word_less_def)
    ultimately show ?thesis using uint_leads(2) [of ?r] by (simp add: defs)
  qed
  show "map uint (utf8_encode r 4) =
       [0xf0 + x r div 262144, x r div 4096 mod 64 + 128, x r div 64 mod 64 + 128, x r mod 64 + 128]"
    if "r < 0x110000"
  proof -
    let ?r2 = "snd (FILL_LOW_BITS (snd (FILL_LOW_BITS r)))"
    have r: "uint ?r2 = x r div 4096" "uint (snd (FILL_LOW_BITS ?r2)) = x r div 262144"
      by (simp_all add: defs zdiv_zmult2_eq [symmetric])
    moreover have "x r div 262144 < 8" using that by (simp add: x_def word_less_def)
    ultimately show ?thesis using uint_leads(3) [of "snd (FILL_LOW_BITS ?r2)"] by (simp add: defs)
  qed
qed

lemma decode_lead:
  assumes "k \<le> 8"
  shows "uint (ucast (c :: byte) AND drop_bit k 0xff :: u32) = uint c mod 2 ^ (8 - k)"
proof -
  have m: "(0xff :: u32) = mask 8" by (simp add: mask_eq_exp_minus_1)
  have "drop_bit k (0xff :: u32) = mask (8 - k)"
    unfolding m by (rule bit_word_eqI) (auto simp: bit_drop_bit_eq bit_mask_iff)
  then have "ucast c AND drop_bit k (0xff :: u32) = take_bit (8 - k) (ucast c)"
    by (simp only: take_bit_eq_mask)
  moreover have "take_bit 32 (uint c) = uint c"
    using uint_byte_bounds [of c] by (simp add: take_bit_int_eq_self)
  ultimately show ?thesis
    by (simp only: unsigned_take_bit_eq unsigned_ucast_eq) (simp add: take_bit_eq_mod)
qed

lemma utf8_decode_values:
  "uint (utf8_decode (c # bs) 1) = uint c mod 128"
  "uint (utf8_decode (c # b1 # bs) 2) = uint c mod 64 * 64 + uint b1 mod 64"
  "uint (utf8_decode (c # b1 # b2 # bs) 3) = (uint c mod 32 * 64 + uint b1 mod 64) * 64 + uint b2 mod 64"
  "uint (utf8_decode (c # b1 # b2 # b3 # bs) 4) =
     ((uint c mod 16 * 64 + uint b1 mod 64) * 64 + uint b2 mod 64) * 64 + uint b3 mod 64"
proof -
  define v :: "nat \<Rightarrow> u32" where "v k = ucast c AND drop_bit k 0xff" for k
  define sh :: "u32 \<Rightarrow> byte \<Rightarrow> u32" where "sh w b = push_bit 6 w OR (ucast b AND 0x3f)" for w b
  have d: "utf8_decode (c # bs) k = foldl sh (v k) (take (k - 1) bs)" for bs k
    by (simp add: utf8_decode_def v_def sh_def [abs_def])
  have s: "uint w < 2 ^ 26 \<Longrightarrow> uint (sh w b) = uint w * 64 + uint b mod 64" for w b
    unfolding sh_def by (rule uint_shift6)
  have l: "uint (v k) = uint c mod 2 ^ (8 - k)" if "k \<le> 8" for k
    unfolding v_def by (rule decode_lead [OF that])
  show "uint (utf8_decode (c # bs) 1) = uint c mod 128" using l [of 1] by (simp add: d)
  show "uint (utf8_decode (c # b1 # bs) 2) = uint c mod 64 * 64 + uint b1 mod 64"
    using l [of 2] by (simp add: d s)
  show "uint (utf8_decode (c # b1 # b2 # bs) 3) =
      (uint c mod 32 * 64 + uint b1 mod 64) * 64 + uint b2 mod 64"
    using l [of 3] by (simp add: d s)
  show "uint (utf8_decode (c # b1 # b2 # b3 # bs) 4) =
     ((uint c mod 16 * 64 + uint b1 mod 64) * 64 + uint b2 mod 64) * 64 + uint b3 mod 64"
    using l [of 4] by (simp add: d s)
qed

lemma utf8_bytes_range: "utf8_bytes r = 0 \<longleftrightarrow> 0x110000 \<le> r" "utf8_bytes r \<le> 4"
  by (auto simp: utf8_bytes_def word_less_def word_le_def)

lemma utf8_steps_value:
  "utf8_steps c = (if uint c < 0x80 then 1 else if uint c < 0xc0 then 0 else if uint c < 0xe0 then 2
      else if uint c < 0xf0 then 3 else if uint c < 0xf8 then 4 else 0)"
  by (simp add: utf8_steps_def word_less_def)

lemma split_digits:
  fixes x :: int
  shows "x div 64 * 64 + x mod 64 = x" "(x div 4096 * 64 + x div 64 mod 64) * 64 + x mod 64 = x"
    "((x div 262144 * 64 + x div 4096 mod 64) * 64 + x div 64 mod 64) * 64 + x mod 64 = x"
proof -
  have d: "x div 4096 = x div 64 div 64" "x div 262144 = x div 64 div 64 div 64"
    by (simp_all add: zdiv_zmult2_eq [symmetric])
  show "x div 64 * 64 + x mod 64 = x" "(x div 4096 * 64 + x div 64 mod 64) * 64 + x mod 64 = x"
    "((x div 262144 * 64 + x div 4096 mod 64) * 64 + x div 64 mod 64) * 64 + x mod 64 = x"
    unfolding d by (simp_all only: div_mult_mod_eq)
qed

lemma strip_marks:
  fixes q :: int
  shows "0 \<le> q \<Longrightarrow> q < 32 \<Longrightarrow> (192 + q) mod 64 = q" "0 \<le> q \<Longrightarrow> q < 16 \<Longrightarrow> (224 + q) mod 32 = q"
    "0 \<le> q \<Longrightarrow> q < 8 \<Longrightarrow> (240 + q) mod 16 = q" "(q mod 64 + 128) mod 64 = q mod 64"
  using mod_mult_self1 [of q 3 64] mod_mult_self1 [of q 7 32] mod_mult_self1 [of q 15 16]
    mod_mult_self1 [of "q mod 64" 2 64] by (simp_all add: add.commute)

text \<open>Reading one code point off the front of a string, as both scanning loops do.\<close>

definition utf8_dec :: "byte list \<Rightarrow> (u32 \<times> byte list) option" where
  "utf8_dec str =
     (if str = [] \<or> utf8_steps (str ! 0) = 0 \<or> length str < utf8_steps (str ! 0) then None
      else Some (utf8_decode str (utf8_steps (str ! 0)), drop (utf8_steps (str ! 0)) str))"

lemma utf8_dec_encode:
  assumes "r < 0x110000"
  shows "utf8_dec (utf8_encode r (utf8_bytes r) @ rest) = Some (r, rest)"
proof -
  let ?x = "uint r"
  consider "r < 0x80" | "\<not> r < 0x80" "r < 0x800" | "\<not> r < 0x800" "r < 0x10000"
    | "\<not> r < 0x10000" "r < 0x110000" using assms by blast
  then show ?thesis
  proof cases
    case 1
    then have n: "utf8_bytes r = 1" by (simp add: utf8_bytes_def word_less_def)
    from 1 obtain c where c: "utf8_encode r 1 = [c]" "uint c = ?x"
      using utf8_encode_values(1) [of r] by (auto simp: map_eq_Cons_conv)
    from 1 have "?x < 128" by (simp add: word_less_def)
    with 1 c utf8_decode_values(1) [of c rest] show ?thesis
      by (simp add: utf8_dec_def n utf8_steps_value word_uint_eq_iff)
  next
    case 2
    then have n: "utf8_bytes r = 2" by (simp add: utf8_bytes_def word_less_def)
    from 2 obtain c b1 where c: "utf8_encode r 2 = [c, b1]" "uint c = 0xc0 + ?x div 64"
        "uint b1 = ?x mod 64 + 128"
      using utf8_encode_values(2) [of r] by (auto simp: map_eq_Cons_conv)
    from 2 have "128 \<le> ?x" "?x < 2048" by (simp_all add: word_less_def)
    then have r: "0 \<le> ?x" "0 \<le> ?x div 64" "?x div 64 < 32" by simp_all
    have "uint (utf8_decode (c # b1 # rest) 2) = ?x"
      unfolding utf8_decode_values c(2-) strip_marks(4) strip_marks(1) [OF r(2,3)]
      by (rule split_digits)
    with 2 c(1) r show ?thesis
      by (simp add: utf8_dec_def n utf8_steps_value word_uint_eq_iff c(2))
  next
    case 3
    then have n: "utf8_bytes r = 3" by (simp add: utf8_bytes_def word_less_def)
    from 3 obtain c b1 b2 where c: "utf8_encode r 3 = [c, b1, b2]" "uint c = 0xe0 + ?x div 4096"
        "uint b1 = ?x div 64 mod 64 + 128" "uint b2 = ?x mod 64 + 128"
      using utf8_encode_values(3) [of r] by (auto simp: map_eq_Cons_conv)
    from 3 have "2048 \<le> ?x" "?x < 65536" by (simp_all add: word_less_def)
    then have r: "0 \<le> ?x" "0 \<le> ?x div 4096" "?x div 4096 < 16" by simp_all
    have "uint (utf8_decode (c # b1 # b2 # rest) 3) = ?x"
      unfolding utf8_decode_values c(2-) strip_marks(4) strip_marks(2) [OF r(2,3)]
      by (rule split_digits)
    with 3 c(1) r show ?thesis
      by (simp add: utf8_dec_def n utf8_steps_value word_uint_eq_iff c(2))
  next
    case 4
    then have n: "utf8_bytes r = 4" by (simp add: utf8_bytes_def word_less_def)
    from 4 obtain c b1 b2 b3 where c: "utf8_encode r 4 = [c, b1, b2, b3]"
        "uint c = 0xf0 + ?x div 262144" "uint b1 = ?x div 4096 mod 64 + 128"
        "uint b2 = ?x div 64 mod 64 + 128" "uint b3 = ?x mod 64 + 128"
      using utf8_encode_values(4) [of r] by (auto simp: map_eq_Cons_conv)
    from 4 have "65536 \<le> ?x" "?x < 1114112" by (simp_all add: word_less_def)
    then have r: "0 \<le> ?x" "0 \<le> ?x div 262144" "?x div 262144 < 8" by simp_all
    have "uint (utf8_decode (c # b1 # b2 # b3 # rest) 4) = ?x"
      unfolding utf8_decode_values c(2-) strip_marks(4) strip_marks(3) [OF r(2,3)]
      by (rule split_digits)
    with 4 c(1) r show ?thesis
      by (simp add: utf8_dec_def n utf8_steps_value word_uint_eq_iff c(2))
  qed
qed

interpretation utf8_codec: prefix_codec "\<lambda>r. r < 0x110000" "\<lambda>r. utf8_encode r (utf8_bytes r)" utf8_dec
  by unfold_locales (rule utf8_dec_encode)

section \<open>Whole strings\<close>

lemma toutf32_loop_dec:
  "toutf32_loop str count t =
     (if str = [] then (t, Some count)
      else case utf8_dec str of None \<Rightarrow> (t, None)
        | Some (r, str') \<Rightarrow> toutf32_loop str' (count + 1) (t(count + 1 \<mapsto> r)))"
  by (subst toutf32_loop.simps) (simp add: utf8_dec_def Let_def)

lemma utf8_dec_Nil [simp]: "utf8_dec [] = None"
  by (simp add: utf8_dec_def)

lemma utf8_encode_nonempty: "utf8_encode r n \<noteq> []"
  by (simp add: utf8_encode_def Let_def split_def)

lemma length_utf8_encode: "utf8_bytes r \<noteq> 0 \<Longrightarrow> length (utf8_encode r (utf8_bytes r)) = utf8_bytes r"
proof -
  assume "utf8_bytes r \<noteq> 0"
  then have "utf8_bytes r \<in> {1, 2, 3, 4}" by (simp add: utf8_bytes_def split: if_splits)
  then show ?thesis by (auto simp: utf8_encode_def Let_def split_def)
qed

abbreviation utf8_string :: "u32 list \<Rightarrow> byte list" where
  "utf8_string rs \<equiv> concat (map (\<lambda>r. utf8_encode r (utf8_bytes r)) rs)"

text \<open>The table with a list of code points stored behind position \<open>c\<close>.\<close>

primrec store_from :: "nat \<Rightarrow> (nat \<rightharpoonup> u32) \<Rightarrow> u32 list \<Rightarrow> (nat \<rightharpoonup> u32)" where
  "store_from c t [] = t"
| "store_from c t (r # rs) = store_from (c + 1) (t(c + 1 \<mapsto> r)) rs"

lemma store_from_nth:
  "store_from c t rs k = (if c < k \<and> k \<le> c + length rs then Some (rs ! (k - c - 1)) else t k)"
proof (induction rs arbitrary: c t)
  case (Cons r rs)
  then show ?case by (auto simp: nth_Cons' Suc_le_eq not_less less_Suc_eq)
qed auto

lemma toutf32_loop_string:
  "list_all (\<lambda>r. r < 0x110000) rs \<Longrightarrow>
   toutf32_loop (utf8_string rs) c t = (store_from c t rs, Some (c + length rs))"
proof (induction rs arbitrary: c t)
  case Nil
  then show ?case by (simp add: toutf32_loop.simps)
next
  case (Cons r rs)
  then show ?case
    by (subst toutf32_loop_dec) (simp add: utf8_encode_nonempty utf8_dec_encode)
qed

lemma toutf8_size_runes:
  "list_all (\<lambda>e. e \<noteq> None \<and> utf8_bytes (word_of_int (the e)) \<noteq> 0) es \<Longrightarrow>
   toutf8_size es n = Some (n + length (utf8_string (map (word_of_int \<circ> the) es)))"
  by (induction es n rule: toutf8_size.induct) (simp_all add: Let_def length_utf8_encode)

lemma toutf8_size_None:
  "\<not> list_all (\<lambda>e. e \<noteq> None \<and> utf8_bytes (word_of_int (the e)) \<noteq> 0) es \<Longrightarrow> toutf8_size es n = None"
  by (induction es n rule: toutf8_size.induct) (auto simp: Let_def)

lemma toutf8_fill_runes:
  "list_all (\<lambda>e. e \<noteq> None) es \<Longrightarrow>
   toutf8_fill es str = str @ utf8_string (map (word_of_int \<circ> the) es)"
  by (induction es str rule: toutf8_fill.induct) (auto simp: Let_def)

text \<open>[C35] What \<open>toutf8\<close> returns, for every table: the second pass fills exactly the buffer that the
  first pass sized, and it gives up exactly when an element is no integer or is, truncated to 32
  bits, above U+10FFFF.\<close>

theorem toutf8_exact:
  "toutf8 es =
     Inr (if list_all (\<lambda>e. e \<noteq> None \<and> word_of_int (the e) < (0x110000 :: u32)) es
          then Some (utf8_string (map (word_of_int \<circ> the) es)) else None)"
proof -
  let ?ok = "list_all (\<lambda>e. e \<noteq> None \<and> utf8_bytes (word_of_int (the e)) \<noteq> 0) es"
  have ok: "?ok \<longleftrightarrow> list_all (\<lambda>e. e \<noteq> None \<and> word_of_int (the e) < (0x110000 :: u32)) es"
    by (simp add: utf8_bytes_range linorder_not_le)
  show ?thesis
  proof (cases ?ok)
    case True
    then have "list_all (\<lambda>e. e \<noteq> None) es" by (simp add: list_all_iff)
    from toutf8_fill_runes [OF this, of "[]"] toutf8_size_runes [OF True, of 0]
    have "toutf8 es = Inr (Some (utf8_string (map (word_of_int \<circ> the) es)))"
      by (simp add: toutf8_def Let_def)
    then show ?thesis using True by (simp only: ok if_True)
  next
    case False
    with toutf8_size_None [OF False, of 0] show ?thesis
      by (simp only: toutf8_def ok [symmetric] option.case if_False)
  qed
qed

text \<open>[C16] Round trip: the string \<open>toutf8\<close> makes of code points up to U+10FFFF is read back by
  \<open>toutf32\<close> as the same code points, stored at 1, 2, \<dots>, with their number as the result.\<close>

theorem utf8_roundtrip:
  assumes "list_all (\<lambda>r. r < 0x110000) rs" "list_all2 (\<lambda>e r. e = Some (uint r)) es rs"
  shows "\<exists>str. toutf8 es = Inr (Some str) \<and>
     snd (toutf32 str t) = Some (length rs) \<and>
     (\<forall>k < length rs. fst (toutf32 str t) (k + 1) = Some (rs ! k))"
proof -
  have es: "es = map (Some \<circ> uint) rs"
    using assms(2) by (induction rule: list_all2_induct) simp_all
  have "list_all (\<lambda>e. e \<noteq> None \<and> utf8_bytes (word_of_int (the e)) \<noteq> 0) es"
    using assms(1) by (simp add: es list_all_iff utf8_bytes_range linorder_not_le)
  moreover have "list_all (\<lambda>e. e \<noteq> None) es" by (simp add: es list_all_iff)
  moreover have rs: "map (word_of_int \<circ> the) es = rs" by (simp add: es comp_def)
  ultimately have 1: "toutf8 es = Inr (Some (utf8_string rs))"
    using toutf8_size_runes [of es 0] toutf8_fill_runes [of es "[]"] by (simp add: toutf8_def rs)
  show ?thesis
    using 1 toutf32_loop_string [OF assms(1), of 0 t] by (simp add: toutf32_def store_from_nth)
qed

theorem utf8_roundtrip_witness:
  "\<exists>str. toutf8 [Some 0x20AC, Some 65] = Inr (Some str) \<and>
     snd (toutf32 str Map.empty) = Some (length [0x20AC, 65 :: u32]) \<and>
     (\<forall>k < length [0x20AC, 65 :: u32].
        fst (toutf32 str Map.empty) (k + 1) = Some ([0x20AC, 65 :: u32] ! k))"
  by (rule utf8_roundtrip) simp_all

text \<open>\<open>len\<close> counts what \<open>toutf32\<close> converts: on every string, valid or not, both give up or
  both return the same number.\<close>

theorem utf8_len_counts: "utf8_len str = snd (toutf32 str t)"
proof -
  have "utf8_len_loop str c = snd (toutf32_loop str c t)" for c
  proof (induction str c arbitrary: t rule: utf8_len_loop.induct)
    case (1 str c)
    show ?case
      using 1 by (subst utf8_len_loop.simps, subst toutf32_loop.simps) (simp add: Let_def)
  qed
  then show ?thesis by (simp add: utf8_len_def toutf32_def)
qed

end
