(* ===== verification/Chains.thy ===== *)
theory Chains
  imports Prelude
begin

unbundle bit_operations_syntax

text \<open>
  Chained hash tables with Brent's variation, which the word filter and the area-of-interest map both use: every
  node of a table sits in a slot and has the index of the next node of its chain, -1 at the end. A chain starts at
  the slot that is the home of its keys. The lemmas are about the links alone, given as functions on slots: which
  slots are used, the home of the key in a slot, and the next index.
\<close>

text \<open>The home of a hash code is its lowest bits.\<close>

lemma mask_less:
  fixes k :: u32
  assumes "0 < cap"
  shows "unat (k AND word_of_nat (cap - 1)) < cap"
proof -
  have "unat (k AND word_of_nat (cap - 1)) \<le> unat (word_of_nat (cap - 1) :: u32)"
    by (simp add: word_and_le1 word_le_nat_alt [symmetric])
  also have "\<dots> \<le> cap - 1" by (simp add: unat_of_nat mod_less_eq_dividend)
  finally show ?thesis using assms by simp
qed

lemma find_SomeD: "find P xs = Some a \<Longrightarrow> a \<in> set xs \<and> P a"
  by (auto simp: find_Some_iff)

lemma find_NoneD: "find P xs = None \<Longrightarrow> \<forall>x\<in>set xs. \<not> P x"
  by (auto simp: find_None_iff)

section \<open>Linked slots\<close>

fun linked :: "(nat \<Rightarrow> int) \<Rightarrow> nat list \<Rightarrow> bool" where
  "linked nxt [] \<longleftrightarrow> True"
| "linked nxt [i] \<longleftrightarrow> nxt i = -1"
| "linked nxt (i # j # xs) \<longleftrightarrow> nxt i = int j \<and> linked nxt (j # xs)"

lemma linked_cong: "(\<And>i. i \<in> set xs \<Longrightarrow> nxt i = nxt' i) \<Longrightarrow> linked nxt xs = linked nxt' xs"
  by (induction nxt xs rule: linked.induct) auto

lemma linked_replace:
  assumes "linked nxt (xs @ p # q # ys)" "nxt' p = int n" "nxt' n = nxt q" "\<forall>i\<in>set xs \<union> set ys. nxt' i = nxt i"
  shows "linked nxt' (xs @ p # n # ys)"
  using assms
proof (induction xs)
  case Nil
  then show ?case using linked_cong [of ys nxt' nxt] by (cases ys) auto
next
  case (Cons x xs)
  then show ?case by (cases xs) auto
qed

lemma linked_remove:
  assumes "linked nxt (xs @ p # q # ys)" "nxt' p = nxt q" "\<forall>i\<in>set xs \<union> set ys. nxt' i = nxt i"
  shows "linked nxt' (xs @ p # ys)"
  using assms
proof (induction xs)
  case Nil
  then show ?case using linked_cong [of ys nxt' nxt] by (cases ys) auto
next
  case (Cons x xs)
  then show ?case by (cases xs) auto
qed

lemma linked_insert_second:
  assumes "linked nxt (m # ys)" "nxt' m = int n" "nxt' n = nxt m" "\<forall>i\<in>set ys. nxt' i = nxt i"
  shows "linked nxt' (m # n # ys)"
  using assms linked_cong [of ys nxt' nxt] by (cases ys) auto

lemma linked_suffix: "linked nxt (xs @ ys) \<Longrightarrow> linked nxt ys"
proof (induction xs)
  case (Cons x xs)
  then show ?case by (cases "xs @ ys") auto
qed simp

section \<open>A chain for every slot\<close>

definition chain_of :: "(nat \<Rightarrow> bool) \<Rightarrow> (nat \<Rightarrow> nat) \<Rightarrow> (nat \<Rightarrow> int) \<Rightarrow> nat \<Rightarrow> nat list \<Rightarrow> bool" where
  "chain_of used home nxt m xs \<longleftrightarrow> distinct xs \<and> linked nxt xs \<and> (xs \<noteq> [] \<longrightarrow> hd xs = m) \<and>
     (\<forall>i\<in>set xs. used i \<and> home i = m)"

definition chained :: "(nat \<Rightarrow> bool) \<Rightarrow> (nat \<Rightarrow> nat) \<Rightarrow> (nat \<Rightarrow> int) \<Rightarrow> (nat \<Rightarrow> nat list) \<Rightarrow> bool" where
  "chained used home nxt ch \<longleftrightarrow> (\<forall>m. chain_of used home nxt m (ch m)) \<and> (\<forall>i. used i \<longrightarrow> i \<in> set (ch (home i)))"

lemma chainedD:
  assumes "chained used home nxt ch"
  shows "distinct (ch m)" "linked nxt (ch m)" "ch m \<noteq> [] \<Longrightarrow> hd (ch m) = m" "i \<in> set (ch m) \<Longrightarrow> used i \<and> home i = m"
    "used i \<Longrightarrow> i \<in> set (ch (home i))"
  using assms unfolding chained_def chain_of_def by blast+

lemma chained_head:
  assumes c: "chained used home nxt ch" and i: "used i" "home i = m"
  obtains ys where "ch m = m # ys" "i \<in> set (m # ys)"
proof -
  have "i \<in> set (ch m)" using chainedD(5) [OF c i(1)] i(2) by simp
  then show thesis using that chainedD(3) [OF c, of m] by (cases "ch m") auto
qed

lemma chained_home: "chained used home nxt ch \<Longrightarrow> used i \<Longrightarrow> used (home i) \<and> home (home i) = home i"
  by (rule chained_head [of used home nxt ch i "home i"]) (auto dest: chainedD(4) [of used home nxt ch "home i" "home i"])

lemma chained_empty: "chained used home nxt ch \<Longrightarrow> \<not> (used m \<and> home m = m) \<Longrightarrow> ch m = []"
  using chainedD(3) [of used home nxt ch m] chainedD(4) [of used home nxt ch m m] by (cases "ch m") auto

text \<open>From a used slot, the rest of its chain.\<close>

lemma chained_from:
  assumes c: "chained used home nxt ch" and i: "used i"
  obtains pre suf where "ch (home i) = pre @ i # suf" "linked nxt (i # suf)" "distinct (i # suf)"
    "\<forall>j\<in>set (i # suf). used j \<and> home j = home i" "home i = i \<longrightarrow> pre = []"
proof -
  obtain pre suf where s: "ch (home i) = pre @ i # suf" using chainedD(5) [OF c i] by (meson split_list)
  have e: "home i = i \<longrightarrow> pre = []"
  proof
    assume hi: "home i = i"
    have "distinct (pre @ i # suf)" "hd (pre @ i # suf) = i"
      using chainedD(1) [OF c, of "home i"] chainedD(3) [OF c, of "home i"] unfolding s by (simp_all add: hi)
    then show "pre = []" by (cases pre) auto
  qed
  have l: "linked nxt (i # suf)" using chainedD(2) [OF c, of "home i"] s linked_suffix [of nxt pre] by simp
  have d: "distinct (i # suf)" using chainedD(1) [OF c, of "home i"] s by simp
  have u: "\<forall>j\<in>set (i # suf). used j \<and> home j = home i"   proof
    fix j assume "j \<in> set (i # suf)"
    then have "j \<in> set (ch (home i))" unfolding s by auto
    then show "used j \<and> home j = home i" by (rule chainedD(4) [OF c])
  qed
  show thesis by (rule that [OF s l d u e])
qed

text \<open>The three ways in which a key is inserted. At home, in a free slot:\<close>

lemma chained_place:
  assumes c: "chained used home nxt ch" and m: "\<not> used m" "nxt m = -1"
    "used' m" "home' m = m" "\<And>i. i \<noteq> m \<Longrightarrow> used' i = used i \<and> home' i = home i" "nxt' = nxt"
  shows "chained used' home' nxt' (ch(m := [m]))"
proof -
  have "m \<notin> set (ch h)" for h using chainedD(4) [OF c, of m h] m(1) by auto
  moreover have "chain_of used' home' nxt' h (ch h)" for h
    using chainedD [OF c] m calculation [of h] unfolding chain_of_def by metis
  moreover have "chain_of used' home' nxt' m [m]" using m by (simp add: chain_of_def)
  moreover have "i \<in> set ((ch(m := [m])) (home' i))" if "used' i" for i
  proof (cases "i = m")
    case False
    then have "i \<in> set (ch (home' i))" "used i" using that chainedD(5) [OF c, of i] m(5) by auto
    moreover have "home' i \<noteq> m" using chained_empty [OF c, of m] m(1) \<open>i \<in> set (ch (home' i))\<close> by auto
    ultimately show ?thesis by simp
  qed (use m in simp)
  ultimately show ?thesis unfolding chained_def by simp
qed

text \<open>At home, in a slot taken by a key that is not at home, which is unlinked:\<close>

lemma chained_steal:
  assumes c: "chained used home nxt ch" and s: "used s" "home s \<noteq> s" and p: "ch (home s) = xs @ p # s # ys"
    and n: "nxt' p = nxt s" "nxt' s = -1" "\<And>i. i \<noteq> p \<Longrightarrow> i \<noteq> s \<Longrightarrow> nxt' i = nxt i"
    and h: "used' = used" "home' s = s" "\<And>i. i \<noteq> s \<Longrightarrow> home' i = home i"
  shows "chained used' home' nxt' (ch(home s := xs @ p # ys, s := [s]))"
proof -
  note d = chainedD(1) [OF c, of "home s", unfolded p] and l = chainedD(2) [OF c, of "home s", unfolded p]
  have other: "s \<notin> set (ch m) \<and> p \<notin> set (ch m)" if "m \<noteq> home s" for m
    using chainedD(4) [OF c, of _ m] chainedD(4) [OF c, of p "home s"] p that by auto
  have "chain_of used' home' nxt' (home s) (xs @ p # ys)"
    unfolding chain_of_def
  proof (intro conjI)
    show "linked nxt' (xs @ p # ys)" using d n(1) by (intro linked_remove [OF l]) (auto intro!: n(3))
    show "xs @ p # ys \<noteq> [] \<longrightarrow> hd (xs @ p # ys) = home s" using chainedD(3) [OF c, of "home s"] p by (cases xs) auto
    show "\<forall>i\<in>set (xs @ p # ys). used' i \<and> home' i = home s"
    proof
      fix i assume "i \<in> set (xs @ p # ys)"
      then have "i \<in> set (ch (home s))" "i \<noteq> s" unfolding p using d by auto
      then show "used' i \<and> home' i = home s" using chainedD(4) [OF c, of i "home s"] h by simp
    qed
  qed (use d in auto)
  moreover have "chain_of used' home' nxt' s [s]" using s(1) n h by (simp add: chain_of_def)
  moreover have "chain_of used' home' nxt' m (ch m)" if "m \<noteq> home s" for m
  proof -
    have "linked nxt' (ch m) = linked nxt (ch m)" using other [OF that] n(3) by (intro linked_cong) metis
    then show ?thesis using chainedD [OF c] other [OF that] h unfolding chain_of_def by metis
  qed
  moreover have "i \<in> set ((ch(home s := xs @ p # ys, s := [s])) (home' i))" if "used' i" for i
  proof (cases "i = s")
    case False
    then have i: "i \<in> set (ch (home i))" "home' i = home i" using that chainedD(5) [OF c, of i] h by auto
    have "home i \<noteq> s" using chained_empty [OF c, of s] s(2) i(1) by auto
    then show ?thesis using i False p by auto
  qed (use h in simp)
  ultimately show ?thesis unfolding chained_def by simp
qed

text \<open>In a free slot, behind the key at home:\<close>

lemma chained_second:
  assumes c: "chained used home nxt ch" and m: "used m" "ch m = m # ys" and n: "\<not> used n"
    and x: "nxt' n = nxt m" "nxt' m = int n" "\<And>i. i \<noteq> n \<Longrightarrow> i \<noteq> m \<Longrightarrow> nxt' i = nxt i"
    and h: "used' n" "home' n = m" "\<And>i. i \<noteq> n \<Longrightarrow> used' i = used i \<and> home' i = home i"
  shows "chained used' home' nxt' (ch(m := m # n # ys))"
proof -
  note d = chainedD(1) [OF c, of m, unfolded m] and l = chainedD(2) [OF c, of m, unfolded m(2)]
  have nin: "n \<notin> set (ch k)" for k using chainedD(4) [OF c, of n k] n by auto
  have hm: "home m = m" using chainedD(4) [OF c, of m m] m(2) by simp
  have "chain_of used' home' nxt' m (m # n # ys)"
    unfolding chain_of_def
  proof (intro conjI)
    show "linked nxt' (m # n # ys)" using d nin [of m] x(1,2) m(2) by (intro linked_insert_second [OF l]) (auto intro!: x(3))
    show "\<forall>i\<in>set (m # n # ys). used' i \<and> home' i = m"
    proof
      fix i assume "i \<in> set (m # n # ys)"
      then have "i = n \<or> i \<in> set (ch m) \<and> i \<noteq> n" unfolding m(2) using nin [of m] m(2) by auto
      then show "used' i \<and> home' i = m" using chainedD(4) [OF c, of i m] h by auto
    qed
    show "distinct (m # n # ys)" using d nin [of m] m(2) by auto
  qed simp
  moreover have "chain_of used' home' nxt' k (ch k)" if "k \<noteq> m" for k
  proof -
    have "m \<notin> set (ch k)" using chainedD(4) [OF c, of m k] hm that by auto
    then have "linked nxt' (ch k) = linked nxt (ch k)" using nin x(3) by (intro linked_cong) metis
    then show ?thesis using chainedD [OF c] nin [of k] h unfolding chain_of_def by metis
  qed
  moreover have "i \<in> set ((ch(m := m # n # ys)) (home' i))" if "used' i" for i
  proof (cases "i = n")
    case False
    then show ?thesis using chainedD(5) [OF c, of i] that h(3) [OF False] m(2) by auto
  qed (use h in simp)
  ultimately show ?thesis unfolding chained_def by simp
qed

end
