(* ===== verification/Crab.thy ===== *)
theory Crab
  imports Interfaces Chains
begin

text \<open>
  The dirty-word filter (\<^verbatim>\<open>src/lualib-src/crab/lua-crab.c\<close>): a trie of code points whose levels
  are hash tables with Brent's variation, as in Lua. A \<^verbatim>\<open>TableNode*\<close> is an index into the node
  array, \<^verbatim>\<open>lastfree\<close> the index of the node it points to (-1: before the array). The child tables
  are the values of the nodes, so a table type is generic in its values first (\<open>htable\<close>) and the
  trie ties the knot (\<open>dict\<close>). The loops that follow \<^verbatim>\<open>next\<close> links carry a fuel of as many steps
  as the table has nodes and return \<open>None\<close> when it runs out; \<open>table_newkey\<close>, which calls itself
  through \<open>table_expand\<close>, carries the recursion depth as fuel. The lemmas show that neither runs out.
\<close>

unbundle bit_operations_syntax

section \<open>The hash table\<close>

datatype tflag = Empty | NonTerminator | Terminator

datatype 'v tablenode =
  TableNode (tn_key: u32) (tn_next: int) (tn_flag: tflag) (tn_value: "'v option")

datatype 'v htable =
  Table (capacity: nat) (node: "'v tablenode list") (lastfree: int)

definition set_next :: "int \<Rightarrow> 'v tablenode \<Rightarrow> 'v tablenode" where
  "set_next x n = TableNode (tn_key n) x (tn_flag n) (tn_value n)"

definition set_key :: "u32 \<Rightarrow> 'v tablenode \<Rightarrow> 'v tablenode" where
  "set_key k n = TableNode k (tn_next n) (tn_flag n) (tn_value n)"

definition set_flag :: "tflag \<Rightarrow> 'v tablenode \<Rightarrow> 'v tablenode" where
  "set_flag f n = TableNode (tn_key n) (tn_next n) f (tn_value n)"

definition set_value :: "'v option \<Rightarrow> 'v tablenode \<Rightarrow> 'v tablenode" where
  "set_value v n = TableNode (tn_key n) (tn_next n) (tn_flag n) v"

definition initnode :: "'v tablenode \<Rightarrow> 'v tablenode" where
  "initnode n = TableNode (tn_key n) (-1) Empty None"

definition tisnil :: "'v tablenode \<Rightarrow> bool" where
  "tisnil n \<longleftrightarrow> tn_flag n = Empty"

definition set_node :: "'v htable \<Rightarrow> nat \<Rightarrow> ('v tablenode \<Rightarrow> 'v tablenode) \<Rightarrow> 'v htable" where
  "set_node t i f = Table (capacity t) ((node t)[i := f (node t ! i)]) (lastfree t)"

definition mainposition :: "nat \<Rightarrow> u32 \<Rightarrow> nat" where
  "mainposition cap k = unat (k AND word_of_nat (cap - 1))"

text \<open>The value of \<^verbatim>\<open>lastfree\<close> when the loop of \<^verbatim>\<open>getfreenode\<close> ends; negative means no node.\<close>

function getfreenode :: "'v tablenode list \<Rightarrow> int \<Rightarrow> int" where
  "getfreenode ns lf =
     (if lf \<ge> 0 then (if tisnil (ns ! nat lf) then lf else getfreenode ns (lf - 1)) else lf)"
  by pat_completeness auto
termination
  by (relation "measure (\<lambda>(ns, lf). nat (lf + 1))") auto

declare getfreenode.simps [simp del]

text \<open>The node whose \<^verbatim>\<open>next\<close> is \<open>target\<close>, from \<open>i\<close> on.\<close>

fun find_prev :: "nat \<Rightarrow> 'v tablenode list \<Rightarrow> nat \<Rightarrow> nat \<Rightarrow> nat option" where
  "find_prev 0 ns i target = None"
| "find_prev (Suc f) ns i target =
     (if tn_next (ns ! i) = int target then Some i
      else if tn_next (ns ! i) < 0 \<or> nat (tn_next (ns ! i)) \<ge> length ns then None
      else find_prev f ns (nat (tn_next (ns ! i))) target)"

definition table_alloc :: "nat \<Rightarrow> 'v htable" where
  "table_alloc cap = Table cap (replicate cap (initnode (TableNode 0 0 Empty None))) (int cap - 1)"

fun reinsert ::
  "('v htable \<Rightarrow> u32 \<Rightarrow> ('v htable \<times> nat) option) \<Rightarrow> 'v tablenode list \<Rightarrow> 'v htable \<Rightarrow> 'v htable option"
where
  "reinsert newkey [] t = Some t"
| "reinsert newkey (old # olds) t =
     (if tisnil old then reinsert newkey olds t
      else Option.bind (newkey t (tn_key old)) (\<lambda>(t', i).
             reinsert newkey olds
               (set_node t' i (set_value (tn_value old) \<circ> set_flag (tn_flag old)))))"

text \<open>The capacity is a number without bound here; the \<open>int\<close> of the code holds it, and its doubling, as long as the
  table has fewer than \<open>2^30\<close> slots, that is for any table of at most \<open>2^29\<close> keys. Beyond that the product
  in \<open>table_expand\<close> wraps, which the model does not follow.\<close>

definition table_expand ::
  "('v htable \<Rightarrow> u32 \<Rightarrow> ('v htable \<times> nat) option) \<Rightarrow> 'v htable \<Rightarrow> 'v htable option" where
  "table_expand newkey t = reinsert newkey (node t) (table_alloc (capacity t * 2))"

primrec table_newkey_depth :: "nat \<Rightarrow> 'v htable \<Rightarrow> u32 \<Rightarrow> ('v htable \<times> nat) option" where
  "table_newkey_depth 0 t k = None"
| "table_newkey_depth (Suc d) t k =
     (let mp = mainposition (capacity t) k
      in if tisnil (node t ! mp) then Some (set_node t mp (set_flag NonTerminator \<circ> set_key k), mp)
         else
           (let lf = getfreenode (node t) (lastfree t);
                t1 = Table (capacity t) (node t) lf
            in if lf < 0 then
                 Option.bind (table_expand (table_newkey_depth d) t1) (\<lambda>t2. table_newkey_depth d t2 k)
               else
                 (let n = nat lf;
                      othern = mainposition (capacity t) (tn_key (node t ! mp))
                  in if othern \<noteq> mp then
                       Option.bind (find_prev (capacity t) (node t) othern mp) (\<lambda>p.
                         let t2 = set_node t1 p (set_next (int n));
                             t3 = set_node t2 n (\<lambda>_. node t2 ! mp);
                             t4 = set_node t3 mp initnode
                         in Some (set_node t4 mp (set_flag NonTerminator \<circ> set_key k), mp))
                     else
                       (let t2 = set_node t1 n (set_next (tn_next (node t1 ! mp)));
                            t3 = set_node t2 mp (set_next (int n))
                        in Some (set_node t3 n (set_flag NonTerminator \<circ> set_key k), n)))))"

definition table_newkey :: "'v htable \<Rightarrow> u32 \<Rightarrow> ('v htable \<times> nat) option" where
  "table_newkey = table_newkey_depth 2"

fun table_get_loop :: "nat \<Rightarrow> 'v tablenode list \<Rightarrow> nat \<Rightarrow> u32 \<Rightarrow> nat option option" where
  "table_get_loop 0 ns i k = None"
| "table_get_loop (Suc f) ns i k =
     (if tisnil (ns ! i) then Some None
      else if tn_key (ns ! i) = k then Some (Some i)
      else if tn_next (ns ! i) < 0 then Some None
      else if nat (tn_next (ns ! i)) \<ge> length ns then None
      else table_get_loop f ns (nat (tn_next (ns ! i))) k)"

definition table_get :: "'v htable \<Rightarrow> u32 \<Rightarrow> nat option option" where
  "table_get t k = table_get_loop (capacity t) (node t) (mainposition (capacity t) k) k"

definition table_insert :: "'v htable \<Rightarrow> u32 \<Rightarrow> ('v htable \<times> nat) option" where
  "table_insert t k =
     Option.bind (table_get t k) (\<lambda>r. case r of Some i \<Rightarrow> Some (t, i) | None \<Rightarrow> table_newkey t k)"

definition table_new :: "unit \<Rightarrow> 'v htable" where
  "table_new _ = Table 1 [initnode (TableNode 0 0 Empty None)] 0"

declare table_newkey_depth.simps [simp del]

section \<open>The dictionary\<close>

datatype dict = Dict "dict htable"

text \<open>Inserting the rest of a word into the table of its level. An element of a word is \<open>Some\<close> the
  integer \<^verbatim>\<open>lua_tointegerx\<close> makes of it, or \<open>None\<close>; the Boolean is the C return value. The
  element of the next level is checked before the child table is created.\<close>

fun dict_insert_level :: "dict \<Rightarrow> u32 \<Rightarrow> int option list \<Rightarrow> (dict \<times> bool) option" where
  "dict_insert_level (Dict t) rune es =
     Option.bind (table_insert t rune) (\<lambda>(t', i).
       case es of
         [] \<Rightarrow> Some (Dict (set_node t' i (set_flag Terminator)), True)
       | None # _ \<Rightarrow> Some (Dict t', False)
       | Some r # es' \<Rightarrow>
           let child = (case tn_value (node t' ! i) of None \<Rightarrow> Dict (table_new ()) | Some d \<Rightarrow> d)
           in Option.bind (dict_insert_level child (word_of_int r) es') (\<lambda>(child', ok).
                Some (Dict (set_node t' i (set_value (Some child'))), ok)))"

fun dict_insert :: "dict \<Rightarrow> int option list \<Rightarrow> (dict \<times> bool) option" where
  "dict_insert d [] = Some (d, True)"
| "dict_insert d (None # es) = Some (d, False)"
| "dict_insert d (Some r # es) = dict_insert_level d (word_of_int r) es"

text \<open>\<open>dict_open\<close> returns the new global dictionary, or raises; a word is \<open>None\<close> when the element is no
  table.\<close>

fun dict_open_loop :: "dict \<Rightarrow> int option list option list \<Rightarrow> dict result option" where
  "dict_open_loop d [] = Some (Inr d)"
| "dict_open_loop d (None # ws) = Some (Inl (LuaError ''illegal parameters in table index''))"
| "dict_open_loop d (Some w # ws) =
     Option.bind (dict_insert d w) (\<lambda>(d', ok).
       if ok then dict_open_loop d' ws
       else Some (Inl (LuaError ''illegal parameters in table index'')))"

definition dict_open :: "int option list option list \<Rightarrow> dict result option" where
  "dict_open ws = dict_open_loop (Dict (table_new ())) ws"

text \<open>The inner loop of \<open>dict_filter\<close>: \<open>n\<close> is \<^verbatim>\<open>j - i\<close>.\<close>

fun match_loop :: "dict \<Rightarrow> u32 list \<Rightarrow> nat \<Rightarrow> nat \<Rightarrow> nat option" where
  "match_loop d [] n step = Some step"
| "match_loop (Dict t) (rune # runes) n step =
     Option.bind (table_get t rune) (\<lambda>r.
       case r of None \<Rightarrow> Some step
       | Some i \<Rightarrow>
           let step' = (if tn_flag (node t ! i) = Terminator then n + 1 else step)
           in case tn_value (node t ! i) of None \<Rightarrow> Some step' | Some d' \<Rightarrow> match_loop d' runes (n + 1) step')"

function filter_loop :: "dict \<Rightarrow> int list \<Rightarrow> (int list \<times> bool) option" where
  "filter_loop d msg =
     (if msg = [] then Some ([], False)
      else Option.bind (match_loop d (map word_of_int msg) 0 0) (\<lambda>step.
        if step > 0 then
          Option.bind (filter_loop d (drop step msg)) (\<lambda>(rest, _). Some (replicate step 42 @ rest, True))
        else
          Option.bind (filter_loop d (tl msg)) (\<lambda>(rest, flag). Some (hd msg # rest, flag))))"
  by pat_completeness auto
termination
  by (relation "measure (\<lambda>(d, msg). length msg)") auto

declare filter_loop.simps [simp del]

text \<open>The whole call: \<open>None\<close> for the global is the null pointer. The message is the list of integers
  \<^verbatim>\<open>lua_tointeger\<close> makes of its elements; an element that is no integer is not distinguished from the integer read for it.\<close>

definition dict_filter :: "dict option \<Rightarrow> int list \<Rightarrow> (int list \<times> bool) result option" where
  "dict_filter g_dict msg =
     (case g_dict of
        None \<Rightarrow> Some (Inl (LuaError ''need open first''))
      | Some d \<Rightarrow> map_option Inr (filter_loop d msg))"

section \<open>Chains\<close>

lemma node_update_simps [simp]:
  "tn_key (set_next x n) = tn_key n" "tn_next (set_next x n) = x"
  "tn_flag (set_next x n) = tn_flag n" "tn_value (set_next x n) = tn_value n"
  "tn_key (set_key k n) = k" "tn_next (set_key k n) = tn_next n"
  "tn_flag (set_key k n) = tn_flag n" "tn_value (set_key k n) = tn_value n"
  "tn_key (set_flag f n) = tn_key n" "tn_next (set_flag f n) = tn_next n"
  "tn_flag (set_flag f n) = f" "tn_value (set_flag f n) = tn_value n"
  "tn_key (set_value v n) = tn_key n" "tn_next (set_value v n) = tn_next n"
  "tn_flag (set_value v n) = tn_flag n" "tn_value (set_value v n) = v"
  "tn_key (initnode n) = tn_key n" "tn_next (initnode n) = -1"
  "tn_flag (initnode n) = Empty" "tn_value (initnode n) = None"
  by (simp_all add: set_next_def set_key_def set_flag_def set_value_def initnode_def)

lemma set_node_simps [simp]:
  "capacity (set_node t i f) = capacity t" "lastfree (set_node t i f) = lastfree t"
  "node (set_node t i f) = (node t)[i := f (node t ! i)]"
  by (simp_all add: set_node_def)

lemma mainposition_less: "0 < cap \<Longrightarrow> mainposition cap k < cap"
  unfolding mainposition_def by (rule mask_less)

text \<open>\<open>links ns xs\<close>: the nodes with the indices \<open>xs\<close> are linked in this order and the last ends
  the chain.\<close>

abbreviation links :: "'v tablenode list \<Rightarrow> nat list \<Rightarrow> bool" where
  "links ns \<equiv> linked (\<lambda>i. tn_next (ns ! i))"

lemma find_exact:
  assumes "\<forall>i\<in>set xs. Q i" "\<And>i. Q i \<Longrightarrow> P i \<Longrightarrow> i \<in> set xs"
  shows "case find P xs of Some i \<Rightarrow> Q i \<and> P i | None \<Rightarrow> \<not> (\<exists>i. Q i \<and> P i)"
proof (cases "find P xs")
  case None
  then show ?thesis using find_NoneD [OF None] assms(2) by (simp, blast)
next
  case (Some i)
  then show ?thesis using find_SomeD [OF Some] assms(1) by simp
qed

text \<open>Looking a key up along its chain finds the node that holds it.\<close>

lemma table_get_loop_linked:
  assumes "links ns (i # xs)" "\<forall>j\<in>set (i # xs). j < length ns \<and> \<not> tisnil (ns ! j)"
    "length (i # xs) \<le> f"
  shows "table_get_loop f ns i k = Some (find (\<lambda>j. tn_key (ns ! j) = k) (i # xs))"
  using assms
proof (induction xs arbitrary: i f)
  case Nil
  then obtain f' where "f = Suc f'" by (cases f) auto
  with Nil show ?case by simp
next
  case (Cons j xs)
  then obtain f' where f: "f = Suc f'" by (cases f) auto
  with Cons.IH [of j f'] Cons.prems show ?case by simp
qed

lemma find_prev_linked:
  assumes "links ns (xs @ p # q # ys)" "distinct (xs @ p # q # ys)"
    "\<forall>j\<in>set (xs @ p # q # ys). j < length ns" "length xs < f"
  shows "find_prev f ns (hd (xs @ [p])) q = Some p"
  using assms
proof (induction xs arbitrary: f)
  case Nil
  then obtain f' where "f = Suc f'" by (cases f) auto
  with Nil show ?case by simp
next
  case (Cons x xs)
  then obtain f' where f: "f = Suc f'" by (cases f) auto
  define y where "y = hd (xs @ [p])"
  have y: "xs @ p # q # ys = y # tl (xs @ p # q # ys)" by (cases xs) (simp_all add: y_def)
  have "links ns (x # xs @ p # q # ys)" using Cons.prems(1) by simp
  then have nx: "tn_next (ns ! x) = int y" and l: "links ns (xs @ p # q # ys)"
    using y by (metis linked.simps(3))+
  have "y \<noteq> q" "y < length ns" using Cons.prems(2,3) by (cases xs; auto simp: y_def)+
  then show ?case
    using Cons.IH [OF l, of f'] Cons.prems(2,3,4) f nx by (simp add: y_def)
qed

section \<open>The invariant\<close>

definition occupied :: "'v htable \<Rightarrow> nat \<Rightarrow> bool" where
  "occupied t i \<longleftrightarrow> i < capacity t \<and> \<not> tisnil (node t ! i)"

definition home :: "'v htable \<Rightarrow> nat \<Rightarrow> nat" where
  "home t i = mainposition (capacity t) (tn_key (node t ! i))"

text \<open>A chain for every slot: it starts at the slot, links occupied nodes whose keys belong to the
  slot, and every occupied node is on the chain of its key.\<close>

definition chain_ok :: "'v htable \<Rightarrow> nat \<Rightarrow> nat list \<Rightarrow> bool" where
  "chain_ok t m xs \<longleftrightarrow> distinct xs \<and> links (node t) xs \<and> (xs \<noteq> [] \<longrightarrow> hd xs = m) \<and>
     (\<forall>i\<in>set xs. occupied t i \<and> home t i = m)"

definition chains_ok :: "'v htable \<Rightarrow> (nat \<Rightarrow> nat list) \<Rightarrow> bool" where
  "chains_ok t ch \<longleftrightarrow> (\<forall>m<capacity t. chain_ok t m (ch m)) \<and>
     (\<forall>i. occupied t i \<longrightarrow> i \<in> set (ch (home t i)))"

definition table_wf :: "'v htable \<Rightarrow> bool" where
  "table_wf t \<longleftrightarrow> 0 < capacity t \<and> length (node t) = capacity t \<and>
     -1 \<le> lastfree t \<and> lastfree t < int (capacity t) \<and>
     (\<forall>i. lastfree t < int i \<and> i < capacity t \<longrightarrow> occupied t i) \<and>
     (\<forall>i<capacity t. \<not> occupied t i \<longrightarrow> tn_next (node t ! i) = -1 \<and> tn_value (node t ! i) = None) \<and>
     (\<forall>i j. occupied t i \<and> occupied t j \<and> tn_key (node t ! i) = tn_key (node t ! j) \<longrightarrow> i = j) \<and>
     (\<exists>ch. chains_ok t ch)"

text \<open>What the table holds: the flag and the value stored for a key.\<close>

definition holds :: "'v htable \<Rightarrow> u32 \<Rightarrow> tflag \<times> 'v option \<Rightarrow> bool" where
  "holds t k fv \<longleftrightarrow>
     (\<exists>i. occupied t i \<and> tn_key (node t ! i) = k \<and> fv = (tn_flag (node t ! i), tn_value (node t ! i)))"

lemma table_wfD:
  assumes "table_wf t"
  shows "0 < capacity t" "length (node t) = capacity t" "-1 \<le> lastfree t" "lastfree t < int (capacity t)"
    "\<And>i. lastfree t < int i \<Longrightarrow> i < capacity t \<Longrightarrow> occupied t i"
    "\<And>i. i < capacity t \<Longrightarrow> \<not> occupied t i \<Longrightarrow> tn_next (node t ! i) = -1 \<and> tn_value (node t ! i) = None"
    "\<And>i j. occupied t i \<Longrightarrow> occupied t j \<Longrightarrow> tn_key (node t ! i) = tn_key (node t ! j) \<Longrightarrow> i = j"
    "\<exists>ch. chains_ok t ch"
  using assms unfolding table_wf_def by blast+

lemma table_wfI:
  assumes "0 < capacity t" "length (node t) = capacity t" "-1 \<le> lastfree t" "lastfree t < int (capacity t)"
    "\<And>i. lastfree t < int i \<Longrightarrow> i < capacity t \<Longrightarrow> occupied t i"
    "\<And>i. i < capacity t \<Longrightarrow> \<not> occupied t i \<Longrightarrow> tn_next (node t ! i) = -1 \<and> tn_value (node t ! i) = None"
    "\<And>i j. occupied t i \<Longrightarrow> occupied t j \<Longrightarrow> tn_key (node t ! i) = tn_key (node t ! j) \<Longrightarrow> i = j"
    "chains_ok t ch"
  shows "table_wf t"
  using assms unfolding table_wf_def by blast

lemma occupied_less: "occupied t i \<Longrightarrow> i < capacity t"
  by (simp add: occupied_def)

lemma home_less: "table_wf t \<Longrightarrow> home t i < capacity t"
  by (simp add: home_def mainposition_less table_wfD)

text \<open>A slot that is the home of some key is taken by a node of its own chain.\<close>

lemma chain_head:
  assumes "table_wf t" "chains_ok t ch" "occupied t i" "home t i = m"
  shows "occupied t m" "home t m = m" "\<exists>ys. ch m = m # ys \<and> i \<in> set (m # ys)"
proof -
  have "i \<in> set (ch m)" and c: "chain_ok t m (ch m)"
    using assms home_less by (auto simp: chains_ok_def)
  then obtain ys where ys: "ch m = m # ys"
    by (cases "ch m") (auto simp: chain_ok_def)
  with c \<open>i \<in> set (ch m)\<close> show "occupied t m" "home t m = m" "\<exists>ys. ch m = m # ys \<and> i \<in> set (m # ys)"
    by (auto simp: chain_ok_def)
qed

lemma chain_length:
  assumes "chain_ok t m xs"
  shows "length xs \<le> capacity t"
proof -
  have "length xs = card (set xs)" using assms by (simp add: chain_ok_def distinct_card)
  also have "\<dots> \<le> card {..<capacity t}"
    using assms by (intro card_mono) (auto simp: chain_ok_def occupied_def)
  finally show ?thesis by simp
qed

lemma table_get_correct:
  assumes "table_wf t"
  shows "table_get t k = Some r \<Longrightarrow> (case r of Some i \<Rightarrow> occupied t i \<and> tn_key (node t ! i) = k
      | None \<Rightarrow> \<not> (\<exists>i. occupied t i \<and> tn_key (node t ! i) = k))"
    and "\<exists>r. table_get t k = Some r"
proof -
  let ?m = "mainposition (capacity t) k"
  let ?P = "\<lambda>i. tn_key (node t ! i) = k"
  let ?ok = "\<lambda>r. case r of Some i \<Rightarrow> occupied t i \<and> ?P i | None \<Rightarrow> \<not> (\<exists>i. occupied t i \<and> ?P i)"
  obtain ch where ch: "chains_ok t ch" using table_wfD(8) [OF assms] by blast
  have m: "?m < capacity t" using mainposition_less table_wfD(1) [OF assms] by blast
  have hd: "occupied t ?m" "home t ?m = ?m" "\<exists>ys. ch ?m = ?m # ys \<and> i \<in> set (?m # ys)"
    if "occupied t i" "?P i" for i
    using chain_head [OF assms ch that(1), of ?m] that(2) by (simp_all add: home_def)
  have "\<exists>r. table_get t k = Some r \<and> ?ok r"
  proof (cases "occupied t ?m")
    case False
    moreover obtain f where "capacity t = Suc f" using m by (cases "capacity t") auto
    ultimately have "table_get t k = Some None" using m by (simp add: table_get_def occupied_def)
    with False hd(1) show ?thesis by auto
  next
    case True
    let ?h = "home t ?m"
    have c: "chain_ok t ?h (ch ?h)" and "?m \<in> set (ch ?h)"
      using ch home_less [OF assms] True by (simp_all add: chains_ok_def)
    then obtain pre suf where split: "ch ?h = pre @ ?m # suf" by (meson split_list)
    then have l: "links (node t) (?m # suf)"
      using c linked_suffix by (metis chain_ok_def)
    have oc: "\<forall>i\<in>set (?m # suf). occupied t i" using c split by (simp add: chain_ok_def)
    have "length (?m # suf) \<le> capacity t" using chain_length [OF c] split by simp
    with l oc have "table_get t k = Some (find ?P (?m # suf))"
      unfolding table_get_def using table_wfD(2) [OF assms]
      by (intro table_get_loop_linked) (auto simp: occupied_def)
    moreover have "i \<in> set (?m # suf)" if hold: "occupied t i" "?P i" for i
    proof -
      obtain ys where ys: "ch ?m = ?m # ys" "i \<in> set (?m # ys)" using hd(3) [OF hold] by blast
      then have "pre = []" using split c hd(2) [OF hold]
        by (cases pre) (auto simp: chain_ok_def)
      then show ?thesis using ys split hd(2) [OF hold] by simp
    qed
    ultimately show ?thesis using find_exact [OF oc, of ?P] by blast
  qed
  then show "table_get t k = Some r \<Longrightarrow> ?ok r" "\<exists>r. table_get t k = Some r" by auto
qed

section \<open>Inserting a new key\<close>

text \<open>What a successful \<open>table_newkey\<close> promises: the table stays well-formed, the new key is at the
  index returned with a fresh entry, and nothing else it holds changes.\<close>

definition inserted :: "'v htable \<Rightarrow> u32 \<Rightarrow> 'v htable \<Rightarrow> nat \<Rightarrow> bool" where
  "inserted t k t' i \<longleftrightarrow> table_wf t' \<and> occupied t' i \<and> tn_key (node t' ! i) = k \<and>
     tn_flag (node t' ! i) = NonTerminator \<and> tn_value (node t' ! i) = None \<and>
     (\<forall>k' fv. k' \<noteq> k \<longrightarrow> holds t' k' fv \<longleftrightarrow> holds t k' fv)"

definition absent :: "'v htable \<Rightarrow> u32 \<Rightarrow> bool" where
  "absent t k \<longleftrightarrow> \<not> (\<exists>i. occupied t i \<and> tn_key (node t ! i) = k)"

definition n_occupied :: "'v htable \<Rightarrow> nat" where
  "n_occupied t = card {i. occupied t i}"

lemma finite_occupied [simp]: "finite (Collect (occupied t))"
  by (rule finite_subset [of _ "{..<capacity t}"]) (auto simp: occupied_def)

lemma newkey_free:
  assumes wf: "table_wf t" and ab: "absent t k" and m: "m = mainposition (capacity t) k"
    and nil: "tisnil (node t ! m)"
    and t': "t' = set_node t m (set_flag NonTerminator \<circ> set_key k)"
  shows "inserted t k t' m" "capacity t' = capacity t" "{i. occupied t' i} = insert m {i. occupied t i}"
    "\<not> occupied t m"
proof -
  note D = table_wfD [OF wf]
  obtain ch where ch: "chains_ok t ch" using D(8) by blast
  have ml: "m < capacity t" using mainposition_less D(1) m by blast
  then show no: "\<not> occupied t m" using nil by (simp add: occupied_def)
  have nd: "node t' ! i = (if i = m then set_flag NonTerminator (set_key k (node t ! m)) else node t ! i)" for i
    using ml D(2) by (simp add: t' nth_list_update)
  show cap: "capacity t' = capacity t" by (simp add: t')
  have oc: "occupied t' i \<longleftrightarrow> i = m \<or> occupied t i" for i
    using ml by (auto simp: occupied_def cap nd tisnil_def)
  then show "{i. occupied t' i} = insert m {i. occupied t i}" by auto
  have hm: "home t' i = (if i = m then m else home t i)" for i
    by (simp add: home_def cap nd m)
  have nx: "tn_next (node t' ! i) = tn_next (node t ! i)" for i by (simp add: nd)
  have empty: "ch m = []"
    using ch ml no by (cases "ch m") (auto simp: chains_ok_def chain_ok_def)
  define ch' where "ch' = ch(m := [m])"
  have "chains_ok t' ch'"
    unfolding chains_ok_def cap
  proof (intro conjI allI impI)
    fix x assume "x < capacity t"
    then have c: "chain_ok t x (ch x)" using ch by (simp add: chains_ok_def)
    show "chain_ok t' x (ch' x)"
    proof (cases "x = m")
      case True
      then show ?thesis using D(6) [OF ml no] by (simp add: ch'_def chain_ok_def oc hm nx)
    next
      case False
      have "links (node t') (ch x) = links (node t) (ch x)" by (rule linked_cong) (simp add: nx)
      with c False no show ?thesis by (auto simp: ch'_def chain_ok_def oc hm)
    qed
  next
    fix i assume "occupied t' i"
    then show "i \<in> set (ch' (home t' i))"
      using ch empty by (auto simp: oc hm ch'_def chains_ok_def)
  qed
  moreover have "lastfree t' = lastfree t" "length (node t') = capacity t'" using D(2) by (simp_all add: t')
  ultimately have "table_wf t'"
    unfolding table_wf_def cap using D ab
    by (auto simp: oc nd absent_def nx)
  moreover have "holds t' k' fv \<longleftrightarrow> holds t k' fv" if "k' \<noteq> k" for k' fv
    using that no unfolding holds_def by (auto simp: oc nd)
  ultimately show "inserted t k t' m"
    using D(6) [OF ml no] by (simp add: inserted_def oc nd)
qed

lemma getfreenode_correct:
  assumes "-1 \<le> lf"
  shows "-1 \<le> getfreenode ns lf" "getfreenode ns lf \<le> lf"
    "0 \<le> getfreenode ns lf \<Longrightarrow> tisnil (ns ! nat (getfreenode ns lf))"
    "\<And>i. getfreenode ns lf < int i \<Longrightarrow> int i \<le> lf \<Longrightarrow> \<not> tisnil (ns ! i)"
proof -
  have "-1 \<le> getfreenode ns lf \<and> getfreenode ns lf \<le> lf \<and>
      (0 \<le> getfreenode ns lf \<longrightarrow> tisnil (ns ! nat (getfreenode ns lf))) \<and>
      (\<forall>i. getfreenode ns lf < int i \<and> int i \<le> lf \<longrightarrow> \<not> tisnil (ns ! i))"
    using assms
  proof (induction ns lf rule: getfreenode.induct)
    case (1 ns lf)
    show ?case
    proof (cases "0 \<le> lf \<and> \<not> tisnil (ns ! nat lf)")
      case True
      then have e: "getfreenode ns lf = getfreenode ns (lf - 1)" by (subst getfreenode.simps) simp
      have "\<not> tisnil (ns ! i)" if "getfreenode ns lf < int i" "int i \<le> lf" for i
        using that 1(1) True e by (cases "int i = lf") auto
      with 1(1) True e show ?thesis by auto
    next
      case False
      then show ?thesis using 1(2) by (subst (1 2 3 4 5) getfreenode.simps) auto
    qed
  qed
  then show "-1 \<le> getfreenode ns lf" "getfreenode ns lf \<le> lf"
    "0 \<le> getfreenode ns lf \<Longrightarrow> tisnil (ns ! nat (getfreenode ns lf))"
    "\<And>i. getfreenode ns lf < int i \<Longrightarrow> int i \<le> lf \<Longrightarrow> \<not> tisnil (ns ! i)" by auto
qed

text \<open>A free node for \<open>table_newkey\<close>: unoccupied, and everything behind it is occupied.\<close>

definition free_slot :: "'v htable \<Rightarrow> nat \<Rightarrow> bool" where
  "free_slot t n \<longleftrightarrow> n < capacity t \<and> \<not> occupied t n \<and> (\<forall>i. n < i \<and> i < capacity t \<longrightarrow> occupied t i)"

lemma getfreenode_slot:
  assumes "table_wf t" "0 \<le> getfreenode (node t) (lastfree t)"
  shows "free_slot t (nat (getfreenode (node t) (lastfree t)))"
proof -
  let ?l = "getfreenode (node t) (lastfree t)"
  note D = table_wfD [OF assms(1)] and G = getfreenode_correct [OF table_wfD(3) [OF assms(1)], of "node t"]
  have "occupied t i" if "nat ?l < i" "i < capacity t" for i
  proof (cases "lastfree t < int i")
    case True
    then show ?thesis using D(5) that(2) by blast
  next
    case False
    moreover have "?l < int i" using that(1) assms(2) by linarith
    ultimately have "\<not> tisnil (node t ! i)" by (intro G(4)) simp_all
    then show ?thesis using that(2) by (simp add: occupied_def)
  qed
  moreover have "nat ?l < capacity t" using G(2) D(4) assms(2) by linarith
  ultimately show ?thesis using G(3) [OF assms(2)] by (auto simp: free_slot_def occupied_def)
qed

lemma getfreenode_full:
  assumes "table_wf t" "getfreenode (node t) (lastfree t) < 0" "i < capacity t"
  shows "occupied t i"
proof (cases "lastfree t < int i")
  case True
  then show ?thesis using table_wfD(5) [OF assms(1)] assms(3) by blast
next
  case False
  then have "\<not> tisnil (node t ! i)"
    using assms(2) by (intro getfreenode_correct(4) [OF table_wfD(3) [OF assms(1)]]) simp_all
  then show ?thesis using assms(3) by (simp add: occupied_def)
qed

text \<open>What is held, from one table to another with the nodes renumbered by \<open>g\<close> and one added.\<close>

lemma holds_renumber:
  assumes "\<And>i. occupied t' i \<longleftrightarrow> i = n \<or> (\<exists>j. occupied t j \<and> i = g j)" "tn_key (node t' ! n) = k"
    "\<And>j. occupied t j \<Longrightarrow> tn_key (node t' ! g j) = tn_key (node t ! j) \<and>
       tn_flag (node t' ! g j) = tn_flag (node t ! j) \<and> tn_value (node t' ! g j) = tn_value (node t ! j)"
    "k' \<noteq> k"
  shows "holds t' k' fv \<longleftrightarrow> holds t k' fv"
proof
  assume "holds t' k' fv"
  then obtain i where i: "occupied t' i" "tn_key (node t' ! i) = k'"
      "fv = (tn_flag (node t' ! i), tn_value (node t' ! i))" by (auto simp: holds_def)
  then have "i \<noteq> n" using assms(2,4) by auto
  then obtain j where "occupied t j" "i = g j" using i(1) assms(1) by blast
  then show "holds t k' fv" using i assms(3) [of j] unfolding holds_def by (intro exI [of _ j]) simp
next
  assume "holds t k' fv"
  then obtain j where j: "occupied t j" "tn_key (node t ! j) = k'"
      "fv = (tn_flag (node t ! j), tn_value (node t ! j))" by (auto simp: holds_def)
  then show "holds t' k' fv" using assms(1) assms(3) [of j] unfolding holds_def
    by (intro exI [of _ "g j"]) auto
qed

lemma newkey_append:
  assumes wf: "table_wf t" and ab: "absent t k" and m: "m = mainposition (capacity t) k"
    and om: "occupied t m" and hmm: "home t m = m" and fs: "free_slot t n"
    and t': "t' = set_node (set_node (set_node (Table (capacity t) (node t) (int n)) n
        (set_next (tn_next (node t ! m)))) m (set_next (int n))) n (set_flag NonTerminator \<circ> set_key k)"
  shows "inserted t k t' n" "capacity t' = capacity t" "{i. occupied t' i} = insert n {i. occupied t i}"
proof -
  note D = table_wfD [OF wf]
  obtain ch where ch: "chains_ok t ch" using D(8) by blast
  have n: "n < capacity t" "\<not> occupied t n" "n \<noteq> m" and ml: "m < capacity t"
    using fs om by (auto simp: free_slot_def occupied_def)
  have nd: "node t' ! i = (if i = n then set_flag NonTerminator (set_key k (set_next (tn_next (node t ! m)) (node t ! n)))
      else if i = m then set_next (int n) (node t ! m) else node t ! i)" for i
    using n ml D(2) by (simp add: t' nth_list_update)
  show cap: "capacity t' = capacity t" by (simp add: t')
  have oc: "occupied t' i \<longleftrightarrow> i = n \<or> occupied t i" for i
    using n om by (auto simp: occupied_def cap nd tisnil_def)
  then show "{i. occupied t' i} = insert n {i. occupied t i}" by auto
  have hm: "home t' i = (if i = n then m else home t i)" for i
    by (simp add: home_def cap nd m)
  obtain ys where ys: "ch m = m # ys" using chain_head(3) [OF wf ch om hmm] by blast
  define ch' where "ch' = ch(m := m # n # ys)"
  have "chains_ok t' ch'"
    unfolding chains_ok_def cap
  proof (intro conjI allI impI)
    fix x assume "x < capacity t"
    then have c: "chain_ok t x (ch x)" using ch by (simp add: chains_ok_def)
    show "chain_ok t' x (ch' x)"
    proof (cases "x = m")
      case True
      then have "m \<notin> set ys" "n \<notin> set ys" and l: "links (node t) (m # ys)" using c ys n(2) by (auto simp: chain_ok_def)
      have "links (node t') (m # n # ys)"
        by (rule linked_insert_second [OF l])
          (use n \<open>m \<notin> set ys\<close> \<open>n \<notin> set ys\<close> in \<open>auto simp: nd\<close>)
      then show ?thesis using True c ys n \<open>n \<notin> set ys\<close>
        by (auto simp: ch'_def chain_ok_def oc hm)
    next
      case False
      have "m \<notin> set (ch x)" "n \<notin> set (ch x)" using c False hmm n(2) by (auto simp: chain_ok_def)
      then have "links (node t') (ch x) = links (node t) (ch x)" by (intro linked_cong) (auto simp: nd)
      with c False n(2) show ?thesis by (auto simp: ch'_def chain_ok_def oc hm)
    qed
  next
    fix i assume "occupied t' i"
    then show "i \<in> set (ch' (home t' i))"
      using ch ys by (auto simp: oc hm ch'_def chains_ok_def)
  qed
  moreover have lf: "lastfree t' = int n" and len: "length (node t') = capacity t'"
    using D(2) by (simp_all add: t')
  moreover have ky: "tn_key (node t' ! i) = (if i = n then k else tn_key (node t ! i))" for i
    by (simp add: nd)
  have "i = j" if "occupied t' i" "occupied t' j" "tn_key (node t' ! i) = tn_key (node t' ! j)" for i j
    using that D(7) [of i j] ab by (auto simp: oc ky absent_def split: if_splits)
  moreover have "occupied t' i" if "n < i" "i < capacity t" for i using that fs by (simp add: oc free_slot_def)
  moreover have "tn_next (node t' ! i) = -1 \<and> tn_value (node t' ! i) = None"
    if "i < capacity t" "\<not> occupied t' i" for i
    using that D(6) [of i] om by (auto simp: oc nd)
  ultimately have "table_wf t'"
    using D(1) n(1) by (intro table_wfI [of t' ch']) (simp_all only: cap lf, simp_all)
  moreover have "holds t' k' fv \<longleftrightarrow> holds t k' fv" if "k' \<noteq> k" for k' fv
    by (rule holds_renumber [where g = "\<lambda>i. i" and n = n, OF _ _ _ that])
      (use n(2) in \<open>auto simp: oc nd\<close>)
  ultimately show "inserted t k t' n"
    using D(6) [OF n(1,2)] by (simp add: inserted_def oc nd)
qed

text \<open>The chain that passes through a node outside its home slot, and its predecessor there.\<close>

lemma move_split:
  assumes wf: "table_wf t" and ch: "chains_ok t ch" and oq: "occupied t q" and o: "home t q \<noteq> q"
  obtains xs p ys where "ch (home t q) = xs @ p # q # ys"
    "find_prev (capacity t) (node t) (home t q) q = Some p"
proof -
  let ?o = "home t q"
  obtain zs where zs: "ch ?o = ?o # zs" "q \<in> set zs"
    using chain_head(3) [OF wf ch oq, of ?o] o by auto
  have co: "chain_ok t ?o (ch ?o)" using ch home_less [OF wf] by (simp add: chains_ok_def)
  obtain us ys where "zs = us @ q # ys" using zs(2) by (meson split_list)
  then obtain xs p where sp: "?o # us = xs @ [p]" "ch ?o = xs @ p # q # ys"
    using zs(1) by (metis append_Cons append_Nil append_assoc rev_exhaust list.distinct(1))
  have hp: "hd (xs @ [p]) = ?o" using sp(1) by (metis list.sel(1))
  have "length xs < capacity t" using chain_length [OF co] sp(2) by simp
  then have "find_prev (capacity t) (node t) ?o q = Some p"
    using find_prev_linked [of "node t" xs p q ys "capacity t"] co sp(2) hp table_wfD(2) [OF wf]
    by (auto simp: chain_ok_def occupied_def)
  with sp(2) show thesis by (rule that)
qed

text \<open>The chains after the colliding node \<open>q\<close> moved to the free slot \<open>n\<close>.\<close>

lemma move_chains:
  assumes ch: "chains_ok t ch" and sp: "ch o' = xs @ p # q # ys" and o: "o' = home t q" "o' \<noteq> q"
    and lt: "o' < capacity t" "q < capacity t" and n: "\<not> occupied t n" and cap: "capacity t' = capacity t"
    and nx: "\<And>i. i \<noteq> n \<Longrightarrow> i \<noteq> p \<Longrightarrow> i \<noteq> q \<Longrightarrow> tn_next (node t' ! i) = tn_next (node t ! i)"
      "tn_next (node t' ! p) = int n" "tn_next (node t' ! n) = tn_next (node t ! q)" "tn_next (node t' ! q) = -1"
    and oc: "\<And>i. occupied t' i \<longleftrightarrow> i = n \<or> occupied t i"
    and hm: "\<And>i. home t' i = (if i = q then q else if i = n then o' else home t i)"
  shows "chains_ok t' (ch(o' := xs @ p # n # ys, q := [q]))"
proof -
  have "chain_ok t o' (xs @ p # q # ys)" using ch lt(1) sp unfolding chains_ok_def by metis
  then have co: "distinct (xs @ p # q # ys)" "links (node t) (xs @ p # q # ys)" "hd (xs @ p # q # ys) = o'"
    and mem: "\<And>i. i \<in> set (xs @ p # q # ys) \<Longrightarrow> occupied t i \<and> home t i = o'"
    unfolding chain_ok_def by blast+
  have nn: "n \<notin> set (xs @ p # q # ys)" using mem n by blast
  have noq: "ch q = []" using ch lt(2) o by (cases "ch q") (auto simp: chains_ok_def chain_ok_def)
  have 1: "chain_ok t' q [q]" using mem [of q] nx(4) by (simp add: chain_ok_def oc hm)
  have "links (node t') (xs @ p # n # ys)"
    by (rule linked_replace [OF co(2) nx(2,3)]) (use co(1) nn in \<open>auto intro!: nx(1)\<close>)
  moreover have "hd (xs @ p # n # ys) = o'" using co(3) by (cases xs) auto
  moreover have "occupied t' i \<and> home t' i = o'" if "i \<in> set (xs @ p # n # ys)" for i
    using that mem [of i] co(1) nn by (auto simp: oc hm)
  ultimately have 2: "chain_ok t' o' (xs @ p # n # ys)" using co(1) nn by (auto simp: chain_ok_def)
  have 3: "chain_ok t' x (ch x)" if x: "x < capacity t" "x \<noteq> q" "x \<noteq> o'" for x
  proof -
    have c: "distinct (ch x)" "links (node t) (ch x)" "ch x \<noteq> [] \<Longrightarrow> hd (ch x) = x"
      and m: "\<And>i. i \<in> set (ch x) \<Longrightarrow> occupied t i \<and> home t i = x"
      using ch x(1) by (auto simp: chains_ok_def chain_ok_def)
    have "i \<noteq> n \<and> i \<noteq> p \<and> i \<noteq> q" if "i \<in> set (ch x)" for i
      using m [OF that] mem [of p] mem [of q] n x(3) by auto
    then show ?thesis using c m linked_cong [of "ch x" "\<lambda>i. tn_next (node t' ! i)" "\<lambda>i. tn_next (node t ! i)"] nx(1)
      by (auto simp: chain_ok_def oc hm)
  qed
  have "i \<in> set ((ch(o' := xs @ p # n # ys, q := [q])) (home t' i))" if "occupied t' i" for i
  proof (cases "i = q \<or> i = n")
    case False
    then have "i \<in> set (ch (home t i))" using that oc ch by (simp add: chains_ok_def)
    then show ?thesis using False noq sp by (auto simp: hm)
  qed (use o nn in \<open>auto simp: hm\<close>)
  then show ?thesis using 1 2 3 unfolding chains_ok_def cap by auto
qed

lemma newkey_move:
  assumes wf: "table_wf t" and ab: "absent t k" and q: "q = mainposition (capacity t) k"
    and oq: "occupied t q" and o: "home t q \<noteq> q" and fs: "free_slot t n"
    and fp: "find_prev (capacity t) (node t) (home t q) q = Some p"
    and t2: "t2 = set_node (Table (capacity t) (node t) (int n)) p (set_next (int n))"
    and t': "t' = set_node (set_node (set_node t2 n (\<lambda>_. node t2 ! q)) q initnode) q
              (set_flag NonTerminator \<circ> set_key k)"
  shows "inserted t k t' q" "capacity t' = capacity t" "{i. occupied t' i} = insert n {i. occupied t i}"
proof -
  note D = table_wfD [OF wf]
  obtain ch where ch: "chains_ok t ch" using D(8) by blast
  obtain xs ys where sp: "ch (home t q) = xs @ p # q # ys"
    using move_split [OF wf ch oq o] fp by (metis option.inject)
  have "chain_ok t (home t q) (ch (home t q))" using ch home_less [OF wf] by (simp add: chains_ok_def)
  then have op: "occupied t p" "p \<noteq> q" using sp by (auto simp: chain_ok_def)
  have n: "n < capacity t" "\<not> occupied t n" using fs by (auto simp: free_slot_def)
  then have pq: "p < capacity t" "q < capacity t" "n \<noteq> p" "n \<noteq> q" using op oq by (auto simp: occupied_def)
  have nd: "node t' ! i = (if i = q then set_flag NonTerminator (set_key k (initnode (node t ! q)))
      else if i = n then node t ! q else if i = p then set_next (int n) (node t ! p) else node t ! i)" for i
    using pq op n D(2) by (simp add: t' t2 nth_list_update)
  show cap: "capacity t' = capacity t" by (simp add: t' t2)
  have oc: "occupied t' i \<longleftrightarrow> i = n \<or> occupied t i" for i
    using n pq oq op by (auto simp: occupied_def cap nd tisnil_def)
  then show "{i. occupied t' i} = insert n {i. occupied t i}" by auto
  have "chains_ok t' (ch(home t q := xs @ p # n # ys, q := [q]))"
    by (rule move_chains [OF ch sp refl o home_less [OF wf] pq(2) n(2) cap])
      (use oc pq op in \<open>auto simp: nd home_def cap q\<close>)
  moreover have lf: "lastfree t' = int n" and "length (node t') = capacity t'"
    using D(2) by (simp_all add: t' t2)
  moreover have "i = j"
    if e: "occupied t' i" "occupied t' j" "tn_key (node t' ! i) = tn_key (node t' ! j)" for i j
  proof -
    define h where "h = (\<lambda>i. if i = n then q else i)"
    have h: "occupied t (h i)" "occupied t (h j)" using e oq by (auto simp: oc h_def)
    have ky: "tn_key (node t' ! i) = (if i = q then k else tn_key (node t ! h i))" for i
      using pq by (simp add: nd h_def)
    have "i = q \<longleftrightarrow> j = q" using e(3) h ab by (auto simp: ky absent_def split: if_splits)
    moreover have "h i = h j \<Longrightarrow> i \<noteq> q \<Longrightarrow> j \<noteq> q \<Longrightarrow> i = j" by (auto simp: h_def split: if_splits)
    ultimately show ?thesis using e(3) D(7) [OF h] by (auto simp: ky split: if_splits)
  qed
  moreover have "occupied t' i" if "n < i" "i < capacity t" for i using that fs by (simp add: oc free_slot_def)
  moreover have "tn_next (node t' ! i) = -1 \<and> tn_value (node t' ! i) = None"
    if "i < capacity t" "\<not> occupied t' i" for i
    using that D(6) [of i] oq op by (auto simp: oc nd)
  ultimately have "table_wf t'"
    using D(1) n(1) by (intro table_wfI [of t']) (simp_all only: cap lf, simp_all)
  moreover have "holds t' k' fv \<longleftrightarrow> holds t k' fv" if "k' \<noteq> k" for k' fv
    by (rule holds_renumber [where g = "\<lambda>i. if i = q then n else i" and n = q, OF _ _ _ that])
      (use n(2) pq oq in \<open>auto simp: oc nd\<close>)
  ultimately show "inserted t k t' q" by (auto simp: inserted_def oc nd oq)
qed

lemma newkey_room:
  assumes wf: "table_wf t" and ab: "absent t k" and room: "n_occupied t < capacity t"
  shows "\<exists>t' i. table_newkey_depth (Suc d) t k = Some (t', i) \<and> inserted t k t' i \<and>
    capacity t' = capacity t \<and> n_occupied t' = Suc (n_occupied t)"
proof -
  let ?m = "mainposition (capacity t) k" and ?l = "getfreenode (node t) (lastfree t)"
  have ml: "?m < capacity t" using mainposition_less table_wfD(1) [OF wf] by blast
  show ?thesis
  proof (cases "tisnil (node t ! ?m)")
    case True
    from newkey_free [OF wf ab refl True refl] True show ?thesis
      by (simp add: table_newkey_depth.simps n_occupied_def Let_def)
  next
    case False
    with ml have om: "occupied t ?m" by (simp add: occupied_def)
    have l: "0 \<le> ?l"
    proof (rule ccontr)
      assume "\<not> 0 \<le> ?l"
      then have "{i. occupied t i} = {..<capacity t}"
        using getfreenode_full [OF wf] by (auto simp: occupied_def)
      then show False using room by (simp add: n_occupied_def)
    qed
    define n where "n = nat ?l"
    have ln: "?l = int n" using l by (simp add: n_def)
    have fs: "free_slot t n" using getfreenode_slot [OF wf l] by (simp add: n_def)
    then have nn: "\<not> occupied t n" by (simp add: free_slot_def)
    show ?thesis
    proof (cases "home t ?m = ?m")
      case True
      note I = newkey_append [OF wf ab refl om True fs refl]
      then have "n_occupied (set_node (set_node (set_node (Table (capacity t) (node t) (int n)) n
          (set_next (tn_next (node t ! ?m)))) ?m (set_next (int n))) n
          (set_flag NonTerminator \<circ> set_key k)) = Suc (n_occupied t)"
        using nn by (simp add: n_occupied_def)
      then show ?thesis using I(1,2) False True ln by (simp add: table_newkey_depth.simps home_def Let_def)
    next
      case neq: False
      obtain ch where ch: "chains_ok t ch" using table_wfD(8) [OF wf] by blast
      obtain p where fp: "find_prev (capacity t) (node t) (home t ?m) ?m = Some p"
        using move_split [OF wf ch om neq] by metis
      note I = newkey_move [OF wf ab refl om neq fs fp refl refl]
      then show ?thesis using nn False neq ln fp by (simp add: table_newkey_depth.simps home_def Let_def n_occupied_def)
    qed
  qed
qed

text \<open>Writing the flag and the value of an occupied node, as the callers of \<open>table_newkey\<close> and
  \<open>table_insert\<close> do.\<close>

lemma write_node:
  assumes wf: "table_wf t" and oi: "occupied t i" and f: "f \<noteq> Empty"
    and t': "t' = set_node t i (set_value v \<circ> set_flag f)"
  shows "table_wf t'" "capacity t' = capacity t" "n_occupied t' = n_occupied t"
    "holds t' k fv \<longleftrightarrow> (if k = tn_key (node t ! i) then fv = (f, v) else holds t k fv)"
proof -
  note D = table_wfD [OF wf]
  have il: "i < capacity t" using oi by (simp add: occupied_def)
  have nd: "node t' ! j = (if j = i then set_value v (set_flag f (node t ! i)) else node t ! j)" for j
    using il D(2) by (simp add: t' nth_list_update)
  show cap: "capacity t' = capacity t" by (simp add: t')
  have oc: "occupied t' j \<longleftrightarrow> occupied t j" for j
    using oi f by (auto simp: occupied_def cap nd tisnil_def)
  then show "n_occupied t' = n_occupied t" by (simp add: n_occupied_def)
  have hm: "home t' j = home t j" and nx: "tn_next (node t' ! j) = tn_next (node t ! j)"
    and ky: "tn_key (node t' ! j) = tn_key (node t ! j)" for j
    by (simp_all add: home_def cap nd)
  obtain ch where ch: "chains_ok t ch" using D(8) by blast
  have "chains_ok t' ch"
    using ch linked_cong [of _ "\<lambda>i. tn_next (node t' ! i)" "\<lambda>i. tn_next (node t ! i)"] nx
    by (simp add: chains_ok_def chain_ok_def oc hm cap)
  moreover have "lastfree t' = lastfree t" "length (node t') = length (node t)" by (simp_all add: t')
  moreover have "tn_next (node t' ! j) = -1 \<and> tn_value (node t' ! j) = None"
    if "j < capacity t" "\<not> occupied t' j" for j
    using D(6) [of j] that oi oc by (auto simp: nd)
  ultimately show "table_wf t'"
    using D(1-5,7) by (intro table_wfI [of t' ch]) (simp_all add: cap oc ky)
  show "holds t' k fv \<longleftrightarrow> (if k = tn_key (node t ! i) then fv = (f, v) else holds t k fv)"
  proof (cases "k = tn_key (node t ! i)")
    case True
    have "holds t' k fv \<longleftrightarrow> fv = (tn_flag (node t' ! i), tn_value (node t' ! i))"
      using True oi D(7) unfolding holds_def ky oc by metis
    then show ?thesis using True by (simp add: nd)
  next
    case False
    then show ?thesis unfolding holds_def ky oc by (auto simp: nd)
  qed
qed

lemma holds_newkey:
  assumes "inserted t k t' i" "f \<noteq> Empty"
  shows "holds (set_node t' i (set_value v \<circ> set_flag f)) k' fv \<longleftrightarrow>
     (if k' = k then fv = (f, v) else holds t k' fv)"
    "table_wf (set_node t' i (set_value v \<circ> set_flag f))"
    "n_occupied (set_node t' i (set_value v \<circ> set_flag f)) = n_occupied t'"
  using assms write_node [of t' i f, OF _ _ _ refl] by (cases fv; simp add: inserted_def)+

section \<open>Growing\<close>

definition entry_of :: "'v tablenode list \<Rightarrow> u32 \<Rightarrow> tflag \<times> 'v option \<Rightarrow> bool" where
  "entry_of ns k fv \<longleftrightarrow> (\<exists>n\<in>set ns. \<not> tisnil n \<and> tn_key n = k \<and> fv = (tn_flag n, tn_value n))"

abbreviation live :: "'v tablenode list \<Rightarrow> 'v tablenode list" where
  "live ns \<equiv> filter (\<lambda>n. \<not> tisnil n) ns"

lemma holds_absent: "absent t k \<longleftrightarrow> (\<forall>fv. \<not> holds t k fv)"
  by (auto simp: absent_def holds_def)

lemma reinsert_correct:
  assumes "table_wf t" "distinct (map tn_key (live olds))" "\<forall>n\<in>set (live olds). absent t (tn_key n)"
    "n_occupied t + length (live olds) \<le> capacity t"
  shows "\<exists>t'. reinsert (table_newkey_depth (Suc d)) olds t = Some t' \<and> table_wf t' \<and>
    capacity t' = capacity t \<and> n_occupied t' = n_occupied t + length (live olds) \<and>
    (\<forall>k fv. holds t' k fv \<longleftrightarrow> holds t k fv \<or> entry_of olds k fv)"
  using assms
proof (induction olds arbitrary: t)
  case Nil
  then show ?case by (simp add: entry_of_def)
next
  case (Cons old olds)
  show ?case
  proof (cases "tisnil old")
    case True
    then show ?thesis using Cons.IH [of t] Cons.prems by (simp add: entry_of_def)
  next
    case False
    let ?k = "tn_key old" and ?f = "set_value (tn_value old) \<circ> set_flag (tn_flag old)"
    have ab: "absent t ?k" "n_occupied t < capacity t" using Cons.prems False by auto
    obtain t1 i where t1: "table_newkey_depth (Suc d) t ?k = Some (t1, i)" "inserted t ?k t1 i"
        "capacity t1 = capacity t" "n_occupied t1 = Suc (n_occupied t)"
      using newkey_room [OF Cons.prems(1) ab] by blast
    define t2 where "t2 = set_node t1 i ?f"
    have nE: "tn_flag old \<noteq> Empty" using False by (simp add: tisnil_def)
    have h: "holds t2 k fv \<longleftrightarrow> (if k = ?k then fv = (tn_flag old, tn_value old) else holds t k fv)" for k fv
      unfolding t2_def by (rule holds_newkey(1) [OF t1(2) nE])
    have t2: "table_wf t2" "capacity t2 = capacity t" "n_occupied t2 = Suc (n_occupied t)"
      using holds_newkey(2,3) [OF t1(2) nE] t1(3,4) by (simp_all add: t2_def)
    have "\<forall>n\<in>set (live olds). absent t2 (tn_key n)"
    proof
      fix n assume n: "n \<in> set (live olds)"
      moreover have "?k \<notin> tn_key ` set (live olds)" using Cons.prems(2) False by simp
      ultimately have "tn_key n \<noteq> ?k" by (metis imageI)
      then show "absent t2 (tn_key n)" using Cons.prems(3) n by (simp add: holds_absent h)
    qed
    then obtain t' where t': "reinsert (table_newkey_depth (Suc d)) olds t2 = Some t'" "table_wf t'"
        "capacity t' = capacity t2" "n_occupied t' = n_occupied t2 + length (live olds)"
        "\<forall>k fv. holds t' k fv \<longleftrightarrow> holds t2 k fv \<or> entry_of olds k fv"
      using Cons.IH [OF t2(1)] Cons.prems(2,4) False t2(2,3) by auto
    have "holds t' k fv \<longleftrightarrow> holds t k fv \<or> entry_of (old # olds) k fv" for k fv
      using t'(5) h ab(1) False by (cases fv) (auto simp: entry_of_def holds_absent)
    then show ?thesis using t' t2 t1(1) False by (simp add: t2_def comp_def)
  qed
qed

lemma table_alloc_correct:
  assumes "0 < cap"
  shows "table_wf (table_alloc cap :: 'v htable)" "\<not> holds (table_alloc cap :: 'v htable) k fv"
    "n_occupied (table_alloc cap :: 'v htable) = 0" "capacity (table_alloc cap :: 'v htable) = cap"
proof -
  let ?t = "table_alloc cap :: 'v htable"
  have n: "node ?t ! i = initnode (TableNode 0 0 Empty None)" if "i < cap" for i
    using that by (simp add: table_alloc_def)
  show cap: "capacity ?t = cap" by (simp add: table_alloc_def)
  have oc: "\<not> occupied ?t i" for i using n by (auto simp: occupied_def cap tisnil_def)
  then show "n_occupied ?t = 0" "\<not> holds ?t k fv" by (simp_all add: n_occupied_def holds_def)
  have "chains_ok ?t (\<lambda>_. [])" using oc by (simp add: chains_ok_def chain_ok_def)
  then show "table_wf ?t"
    using assms oc n by (intro table_wfI [of ?t]) (simp_all add: cap, simp_all add: table_alloc_def)
qed

lemma table_new_alloc: "table_new () = table_alloc 1"
  by (simp add: table_new_def table_alloc_def)

lemma holds_entry:
  assumes "length (node t) = capacity t"
  shows "holds t k fv \<longleftrightarrow> entry_of (node t) k fv"
proof -
  have "entry_of (node t) k fv \<longleftrightarrow> (\<exists>i<capacity t. \<not> tisnil (node t ! i) \<and> tn_key (node t ! i) = k \<and>
      fv = (tn_flag (node t ! i), tn_value (node t ! i)))"
    unfolding entry_of_def assms [symmetric] by (metis in_set_conv_nth)
  then show ?thesis by (auto simp: holds_def occupied_def)
qed

lemma distinct_live_keys:
  assumes "table_wf t"
  shows "distinct (map tn_key (live (node t)))"
proof -
  have "distinct (map tn_key (live ns))"
    if "\<forall>i j. i < length ns \<and> j < length ns \<and> \<not> tisnil (ns ! i) \<and> \<not> tisnil (ns ! j) \<and>
      tn_key (ns ! i) = tn_key (ns ! j) \<longrightarrow> i = j" for ns :: "'a tablenode list"
    using that
  proof (induction ns)
    case (Cons n ns)
    have "tn_key n \<notin> tn_key ` set (live ns)" if "\<not> tisnil n"
    proof
      assume "tn_key n \<in> tn_key ` set (live ns)"
      then obtain j where "j < length ns" "\<not> tisnil (ns ! j)" "tn_key (ns ! j) = tn_key n"
        by (auto simp: in_set_conv_nth)
      then show False using Cons.prems [rule_format, of 0 "Suc j"] that by simp
    qed
    moreover have "distinct (map tn_key (live ns))"
      using Cons.prems by (intro Cons.IH) (metis Suc_less_eq length_Cons nth_Cons_Suc old.nat.inject)
    ultimately show ?case by simp
  qed simp
  then show ?thesis using table_wfD(2,7) [OF assms] by (auto simp: occupied_def)
qed

lemma newkey_correct:
  assumes wf: "table_wf t" and ab: "absent t k"
  shows "\<exists>t' i. table_newkey t k = Some (t', i) \<and> inserted t k t' i \<and>
    capacity t' = (if n_occupied t < capacity t then capacity t else 2 * capacity t)"
proof (cases "n_occupied t < capacity t")
  case True
  then show ?thesis
    using newkey_room [OF wf ab True, of 1] by (auto simp: table_newkey_def numeral_2_eq_2)
next
  case False
  note D = table_wfD [OF wf]
  let ?m = "mainposition (capacity t) k" and ?l = "getfreenode (node t) (lastfree t)"
  let ?t1 = "Table (capacity t) (node t) ?l"
  have "{i. occupied t i} = {..<capacity t}"
    using False card_seteq [of "{..<capacity t}" "{i. occupied t i}"]
    by (auto simp: n_occupied_def occupied_def)
  then have full: "i < capacity t \<Longrightarrow> occupied t i" for i by auto
  have "\<not> 0 \<le> ?l"
    using getfreenode_slot [OF wf] full by (auto simp: free_slot_def)
  moreover have "\<not> tisnil (node t ! ?m)"
    using full mainposition_less [OF D(1)] by (simp add: occupied_def)
  ultimately have e: "table_newkey t k =
      Option.bind (table_expand (table_newkey_depth 1) ?t1) (\<lambda>t2. table_newkey_depth 1 t2 k)"
    by (simp add: table_newkey_def numeral_2_eq_2 table_newkey_depth.simps Let_def)
  have cap2: "0 < capacity t * 2" using D(1) by simp
  note A = table_alloc_correct [OF cap2, where ?'v = 'a]
  have "length (live (node t)) \<le> capacity t" using D(2) by (metis length_filter_le)
  then obtain t2 where t2: "table_expand (table_newkey_depth 1) ?t1 = Some t2" "table_wf t2"
      "capacity t2 = capacity t * 2" "n_occupied t2 \<le> capacity t"
      "\<forall>k fv. holds t2 k fv \<longleftrightarrow> entry_of (node t) k fv"
    using reinsert_correct [OF A(1) distinct_live_keys [OF wf], of 0] A(2-4)
    by (auto simp: table_expand_def holds_absent)
  then have h: "holds t2 k fv \<longleftrightarrow> holds t k fv" for k fv using holds_entry [OF D(2)] by blast
  then have "absent t2 k" using ab by (simp add: holds_absent)
  moreover have "n_occupied t2 < capacity t2" using t2(3,4) D(1) by simp
  ultimately obtain t' i where "table_newkey_depth 1 t2 k = Some (t', i)" "inserted t2 k t' i" "capacity t' = capacity t2"
    using newkey_room [OF t2(2), of k 0] by auto
  then show ?thesis using e t2(1,3) h False by (auto simp: inserted_def)
qed

section \<open>The table as a map\<close>

definition table_lookup :: "'v htable \<Rightarrow> u32 \<Rightarrow> (tflag \<times> 'v option) option" where
  "table_lookup t k =
     (case table_get t k of
        Some (Some i) \<Rightarrow> Some (tn_flag (node t ! i), tn_value (node t ! i))
      | _ \<Rightarrow> None)"

definition table_put :: "'v htable \<Rightarrow> u32 \<Rightarrow> tflag \<times> 'v option \<Rightarrow> 'v htable" where
  "table_put t k fv =
     (case table_insert t k of
        Some (t', i) \<Rightarrow> set_node t' i (set_value (snd fv) \<circ> set_flag (fst fv))
      | None \<Rightarrow> t)"

lemma table_lookup_holds:
  assumes "table_wf t"
  shows "table_lookup t k = Some fv \<longleftrightarrow> holds t k fv"
proof -
  obtain r where r: "table_get t k = Some r" using table_get_correct(2) [OF assms] by blast
  show ?thesis
  proof (cases r)
    case None
    then show ?thesis using table_get_correct(1) [OF assms r] r by (auto simp: table_lookup_def holds_def)
  next
    case (Some i)
    then have i: "occupied t i" "tn_key (node t ! i) = k" using table_get_correct(1) [OF assms r] by auto
    then have "holds t k fv \<longleftrightarrow> fv = (tn_flag (node t ! i), tn_value (node t ! i))"
      using table_wfD(7) [OF assms] unfolding holds_def by metis
    then show ?thesis using Some r by (auto simp: table_lookup_def)
  qed
qed

lemma n_occupied_le: "n_occupied t \<le> capacity t"
proof -
  have "{i. occupied t i} \<subseteq> {..<capacity t}" by (auto simp: occupied_def)
  then show ?thesis unfolding n_occupied_def using card_mono [of "{..<capacity t}"] by fastforce
qed

lemma table_insert_correct:
  assumes wf: "table_wf t"
  obtains t' i where "table_insert t k = Some (t', i)" "table_wf t'" "occupied t' i" "tn_key (node t' ! i) = k"
    "\<And>k' fv. k' \<noteq> k \<Longrightarrow> holds t' k' fv \<longleftrightarrow> holds t k' fv"
    "(tn_flag (node t' ! i), tn_value (node t' ! i)) =
       (case table_lookup t k of Some fv \<Rightarrow> fv | None \<Rightarrow> (NonTerminator, None))"
    "capacity t' = (if table_lookup t k = None \<and> n_occupied t = capacity t then 2 * capacity t else capacity t)"
proof -
  obtain r where r: "table_get t k = Some r" using table_get_correct(2) [OF wf] by blast
  have occ: "n_occupied t < capacity t \<longleftrightarrow> n_occupied t \<noteq> capacity t" using n_occupied_le [of t] by linarith
  show thesis
  proof (cases r)
    case None
    then have "absent t k" using table_get_correct(1) [OF wf r] by (simp add: absent_def)
    with newkey_correct [OF wf] obtain t' i where "table_newkey t k = Some (t', i)" "inserted t k t' i"
      "capacity t' = (if n_occupied t < capacity t then capacity t else 2 * capacity t)" by blast
    then show thesis using None r occ
      by (intro that [of t' i]) (auto simp: table_insert_def inserted_def table_lookup_def)
  next
    case (Some i)
    then have "occupied t i" "tn_key (node t ! i) = k" using table_get_correct(1) [OF wf r] by auto
    then show thesis using Some r wf by (intro that [of t i]) (auto simp: table_insert_def table_lookup_def)
  qed
qed

lemma table_put_correct:
  assumes wf: "table_wf t" and f: "fst fv \<noteq> Empty"
  shows "table_wf (table_put t k fv)"
    "table_lookup (table_put t k fv) k' = (if k' = k then Some fv else table_lookup t k')"
proof -
  obtain t' i where t': "table_insert t k = Some (t', i)" "table_wf t'" "occupied t' i"
      "tn_key (node t' ! i) = k" "\<And>k' fv. k' \<noteq> k \<Longrightarrow> holds t' k' fv \<longleftrightarrow> holds t k' fv"
    using table_insert_correct [OF wf] by metis
  have p: "table_put t k fv = set_node t' i (set_value (snd fv) \<circ> set_flag (fst fv))"
    by (simp add: table_put_def t'(1))
  note W = write_node [OF t'(2,3) f refl, of "snd fv", folded p]
  show wf': "table_wf (table_put t k fv)" by (rule W(1))
  have "table_lookup (table_put t k fv) k' = Some x \<longleftrightarrow>
      (if k' = k then Some fv else table_lookup t k') = Some x" for x
    using W(4) [of k' x] t'(4,5) table_lookup_holds [OF wf'] table_lookup_holds [OF wf] by auto
  then show "table_lookup (table_put t k fv) k' = (if k' = k then Some fv else table_lookup t k')"
    by (metis option.exhaust)
qed

interpretation crab_table: keyed_table table_wf "table_new ()"
  "\<lambda>t k. map_option (\<lambda>(f, v). (f = Terminator, v)) (table_lookup t k)"
  "\<lambda>t k bv. table_put t k (if fst bv then Terminator else NonTerminator, snd bv)"
proof
  have A: "table_wf (table_new () :: 'v htable)" "\<not> holds (table_new () :: 'v htable) k fv"
    for k :: u32 and fv :: "tflag \<times> 'v option"
    using table_alloc_correct(1,2) [of 1] by (simp_all add: table_new_alloc)
  show "table_wf (table_new () :: 'v htable)" by (rule A(1))
  fix t :: "'v htable" and k k' :: u32 and bv :: "bool \<times> 'v option"
  have "table_lookup (table_new () :: 'v htable) k = None"
    using table_lookup_holds [OF A(1)] A(2) by (metis option.exhaust)
  then show "map_option (\<lambda>(f, v). (f = Terminator, v)) (table_lookup (table_new () :: 'v htable) k) = None"
    by simp
  assume "table_wf t"
  then show "table_wf (table_put t k (if fst bv then Terminator else NonTerminator, snd bv))"
    "map_option (\<lambda>(f, v). (f = Terminator, v))
       (table_lookup (table_put t k (if fst bv then Terminator else NonTerminator, snd bv)) k') =
     (if k' = k then Some bv else map_option (\<lambda>(f, v). (f = Terminator, v)) (table_lookup t k'))"
    by (cases bv; simp add: table_put_correct)+
qed

text \<open>[C5] The table is a map: after any sequence of insertions and updates, with the growing and the
  moving of colliding nodes they cause, a lookup returns for each key what was stored for it last.\<close>

theorem table_refines_map:
  "map_option (\<lambda>(f, v). (f = Terminator, v))
     (table_lookup (foldl (\<lambda>t (k, bv). table_put t k (if fst bv then Terminator else NonTerminator, snd bv))
        (table_new ()) kvs) k) =
   map_of (rev kvs) k"
  using crab_table.get_built [of kvs k] by (simp add: crab_table.put_all_def)

text \<open>As long as twice the capacity fits the \<open>int\<close> that holds it, an insertion always succeeds, within the links and the
  recursion depth allowed, whatever the keys: the free list, the growth and the reinsertion of all nodes never fail, and the
  table stays well-formed. The capacity doubles exactly when the key is new and no node is free.\<close>

theorem table_insert_total:
  assumes "table_wf t" "2 * int (capacity t) \<le> INT_MAX"
  shows "\<exists>t' i. table_insert t k = Some (t', i) \<and> table_wf t' \<and> i < capacity t' \<and>
     tn_key (node t' ! i) = k \<and> (\<forall>k' \<noteq> k. table_lookup t' k' = table_lookup t k') \<and>
     capacity t' = (if table_lookup t k = None \<and> n_occupied t = capacity t then 2 * capacity t else capacity t) \<and>
     int (capacity t') \<le> INT_MAX"
proof -
  obtain t' i where t': "table_insert t k = Some (t', i)" "table_wf t'" "occupied t' i"
      "tn_key (node t' ! i) = k" "\<And>k' fv. k' \<noteq> k \<Longrightarrow> holds t' k' fv \<longleftrightarrow> holds t k' fv"
      "capacity t' = (if table_lookup t k = None \<and> n_occupied t = capacity t then 2 * capacity t else capacity t)"
    using table_insert_correct [OF assms(1)] by metis
  have "table_lookup t' k' = table_lookup t k'" if "k' \<noteq> k" for k'
    using t'(5) [OF that] table_lookup_holds [OF assms(1)] table_lookup_holds [OF t'(2)]
    by (metis option.exhaust)
  moreover have "int (capacity t') \<le> INT_MAX" using t'(6) assms(2) by simp
  ultimately show ?thesis using t' by (auto simp: occupied_def)
qed

theorem table_insert_total_witness:
  "\<exists>t' i. table_insert (table_new () :: nat htable) 7 = Some (t', i) \<and> table_wf t' \<and>
     i < capacity t' \<and> tn_key (node t' ! i) = 7 \<and> (\<forall>k' \<noteq> 7. table_lookup t' k' = table_lookup (table_new ()) k')"
  using table_insert_total [of "table_new () :: nat htable" 7] crab_table.inv_empty by (auto simp: table_new_def)

section \<open>The dictionary as a set of words\<close>

fun accepts :: "dict \<Rightarrow> u32 list \<Rightarrow> bool" where
  "accepts d [] \<longleftrightarrow> False"
| "accepts (Dict t) (r # rs) \<longleftrightarrow>
     (case table_lookup t r of None \<Rightarrow> False
      | Some (f, v) \<Rightarrow>
          if rs = [] then f = Terminator
          else (case v of None \<Rightarrow> False | Some d' \<Rightarrow> accepts d' rs))"

inductive dict_wf :: "dict \<Rightarrow> bool" where
  dict_wfI: "table_wf t \<Longrightarrow> (\<And>k f d. table_lookup t k = Some (f, Some d) \<Longrightarrow> dict_wf d) \<Longrightarrow> dict_wf (Dict t)"

inductive_cases dict_wfE: "dict_wf (Dict t)"

lemma table_new_lookup: "table_wf (table_new () :: 'v htable)" "table_lookup (table_new () :: 'v htable) k = None"
  using crab_table.inv_empty crab_table.get_empty [of k] by auto

lemma dict_new_wf: "dict_wf (Dict (table_new ()))"
  by (rule dict_wfI) (simp_all add: table_new_lookup)

lemma dict_new_accepts [simp]: "\<not> accepts (Dict (table_new ())) w"
  by (cases w) (simp_all add: table_new_lookup)

lemma lookup_flag: "table_wf t \<Longrightarrow> table_lookup t k = Some (f, v) \<Longrightarrow> f \<noteq> Empty"
  by (auto simp: table_lookup_holds holds_def occupied_def tisnil_def)

definition current :: "'v htable \<Rightarrow> u32 \<Rightarrow> tflag \<times> 'v option" where
  "current t k = (case table_lookup t k of Some fv \<Rightarrow> fv | None \<Rightarrow> (NonTerminator, None))"

lemma current_flag: "table_wf t \<Longrightarrow> fst (current t k) \<noteq> Empty"
  using lookup_flag [of t k] by (cases "table_lookup t k") (auto simp: current_def)

text \<open>One level of an insertion, with every write expressed by \<open>table_put\<close>.\<close>

lemma dict_insert_level_put:
  fixes rune :: u32
  assumes "table_wf t"
  defines "fv \<equiv> current t rune"
  shows "dict_insert_level (Dict t) rune [] = Some (Dict (table_put t rune (Terminator, snd fv)), True)"
    "dict_insert_level (Dict t) rune (None # es) = Some (Dict (table_put t rune fv), False)"
    "dict_insert_level (Dict t) rune (Some r # es) =
       map_option (\<lambda>(child', ok). (Dict (table_put t rune (fst fv, Some child')), ok))
         (dict_insert_level (case snd fv of None \<Rightarrow> Dict (table_new ()) | Some d \<Rightarrow> d) (word_of_int r) es)"
proof -
  obtain t' i where t': "table_insert t rune = Some (t', i)"
      "fv = (tn_flag (node t' ! i), tn_value (node t' ! i))"
    using table_insert_correct [OF assms(1)] unfolding fv_def current_def by metis
  have p: "table_put t rune (f, v) = set_node t' i g" if "g (node t' ! i) = set_value v (set_flag f (node t' ! i))" for f v g
    using that by (simp add: table_put_def t'(1) set_node_def)
  have "t' = set_node t' i (\<lambda>n. n)" by (cases t') (simp add: set_node_def)
  moreover have "table_put t rune fv = set_node t' i (\<lambda>n. n)"
    unfolding t'(2) by (rule p) (simp add: set_value_def set_flag_def)
  ultimately show "dict_insert_level (Dict t) rune (None # es) = Some (Dict (table_put t rune fv), False)"
    by (simp add: t'(1))
  have "table_put t rune (Terminator, snd fv) = set_node t' i (set_flag Terminator)"
    "table_put t rune (fst fv, Some d) = set_node t' i (set_value (Some d))" for d
    by (rule p, simp add: t'(2) set_value_def set_flag_def)+
  then show "dict_insert_level (Dict t) rune [] = Some (Dict (table_put t rune (Terminator, snd fv)), True)"
    "dict_insert_level (Dict t) rune (Some r # es) =
       map_option (\<lambda>(child', ok). (Dict (table_put t rune (fst fv, Some child')), ok))
         (dict_insert_level (case snd fv of None \<Rightarrow> Dict (table_new ()) | Some d \<Rightarrow> d) (word_of_int r) es)"
    by (simp_all add: t'(1) Let_def map_conv_bind_option comp_def split_def) (simp_all add: t'(2))
qed

declare dict_insert_level.simps [simp del]

lemma dict_put_wf:
  assumes "dict_wf (Dict t)" "fst fv \<noteq> Empty" "\<And>d. snd fv = Some d \<Longrightarrow> dict_wf d"
  shows "dict_wf (Dict (table_put t k fv))"
proof -
  have t: "table_wf t" "\<And>k f d. table_lookup t k = Some (f, Some d) \<Longrightarrow> dict_wf d"
    using assms(1) by (auto elim: dict_wfE)
  show ?thesis
    by (rule dict_wfI) (use t assms in \<open>auto simp: table_put_correct split: if_splits\<close>)
qed

lemma dict_insert_level_correct:
  assumes "dict_wf d"
  shows "\<exists>d' ok. dict_insert_level d rune es = Some (d', ok) \<and> dict_wf d' \<and>
     (ok \<longleftrightarrow> None \<notin> set es) \<and>
     (\<forall>w. accepts d' w \<longleftrightarrow> accepts d w \<or> ok \<and> w = rune # map (word_of_int \<circ> the) es)"
  using assms
proof (induction es arbitrary: d rune)
  case Nil
  then obtain t where d: "d = Dict t" and wf: "table_wf t" and ch: "\<And>k f d. table_lookup t k = Some (f, Some d) \<Longrightarrow> dict_wf d"
    by (auto elim: dict_wf.cases)
  let ?t' = "table_put t rune (Terminator, snd (current t rune))"
  have "accepts (Dict ?t') w \<longleftrightarrow> accepts (Dict t) w \<or> w = [rune]" for w
    using wf by (cases w) (auto simp: table_put_correct current_def split: option.splits)
  moreover have "dict_wf (Dict ?t')"
    using Nil d ch by (intro dict_put_wf) (auto simp: current_def split: option.splits)
  ultimately show ?case by (auto simp: d dict_insert_level_put [OF wf])
next
  case (Cons e es)
  then obtain t where d: "d = Dict t" and wf: "table_wf t" and ch: "\<And>k f d. table_lookup t k = Some (f, Some d) \<Longrightarrow> dict_wf d"
    by (auto elim: dict_wf.cases)
  have cf: "fst (current t rune) \<noteq> Empty" by (rule current_flag [OF wf])
  have cw: "snd (current t rune) = Some d' \<Longrightarrow> dict_wf d'" for d'
    using ch by (auto simp: current_def split: option.splits)
  show ?case
  proof (cases e)
    case None
    have "accepts (Dict (table_put t rune (current t rune))) w \<longleftrightarrow> accepts (Dict t) w" for w
      using wf cf by (cases w) (auto simp: table_put_correct current_def split: option.splits)
    then show ?thesis using None Cons.prems cf cw d
      by (auto simp: dict_insert_level_put [OF wf] dict_put_wf)
  next
    case (Some r)
    let ?c = "case snd (current t rune) of None \<Rightarrow> Dict (table_new ()) | Some d \<Rightarrow> d"
    have "dict_wf ?c" using cw dict_new_wf by (auto split: option.splits)
    then obtain c' ok where c': "dict_insert_level ?c (word_of_int r) es = Some (c', ok)" "dict_wf c'"
        "ok \<longleftrightarrow> None \<notin> set es"
        "\<And>w. accepts c' w \<longleftrightarrow> accepts ?c w \<or> ok \<and> w = word_of_int r # map (word_of_int \<circ> the) es"
      using Cons.IH by blast
    let ?t' = "table_put t rune (fst (current t rune), Some c')"
    have "accepts (Dict ?t') w \<longleftrightarrow>
        accepts (Dict t) w \<or> ok \<and> w = rune # map (word_of_int \<circ> the) (e # es)" for w
      using wf cf c'(4) Some
      by (cases w) (auto simp: table_put_correct current_def split: option.splits)
    moreover have "dict_wf (Dict ?t')" using Cons.prems d cf c'(2) by (intro dict_put_wf) auto
    ultimately show ?thesis using c' Some by (simp add: d dict_insert_level_put [OF wf] comp_def)
  qed
qed

lemma dict_insert_correct:
  assumes "dict_wf d"
  shows "\<exists>d' ok. dict_insert d es = Some (d', ok) \<and> dict_wf d' \<and> (ok \<longleftrightarrow> None \<notin> set es) \<and>
     (\<forall>w. accepts d' w \<longleftrightarrow> accepts d w \<or> ok \<and> es \<noteq> [] \<and> w = map (word_of_int \<circ> the) es)"
proof (cases "(d, es)" rule: dict_insert.cases)
  case (3 d' r es')
  then show ?thesis using dict_insert_level_correct [OF assms, of "word_of_int r" es'] by auto
qed (use assms in auto)

text \<open>The words \<open>dict_open\<close> accepts, and their runes.\<close>

definition word_ok :: "int option list option \<Rightarrow> bool" where
  "word_ok w \<longleftrightarrow> w \<noteq> None \<and> None \<notin> set (the w)"

definition word_runes :: "int option list option \<Rightarrow> u32 list" where
  "word_runes w = map (word_of_int \<circ> the) (the w)"

lemma dict_open_loop_ok:
  assumes "dict_wf d" "list_all word_ok ws"
  shows "\<exists>d'. dict_open_loop d ws = Some (Inr d') \<and> dict_wf d' \<and>
     (\<forall>w. accepts d' w \<longleftrightarrow> accepts d w \<or> w \<noteq> [] \<and> w \<in> word_runes ` set ws)"
  using assms
proof (induction d ws rule: dict_open_loop.induct)
  case (3 d w ws)
  then obtain d' where d': "dict_insert d w = Some (d', True)" "dict_wf d'"
      "\<And>v. accepts d' v \<longleftrightarrow> accepts d v \<or> w \<noteq> [] \<and> v = word_runes (Some w)"
    using dict_insert_correct [OF "3.prems"(1), of w] by (auto simp: word_ok_def word_runes_def)
  have "list_all word_ok ws" using "3.prems"(2) by simp
  with "3.IH" [OF d'(1) refl TrueI d'(2)] obtain d'' where d'': "dict_open_loop d' ws = Some (Inr d'')"
      "dict_wf d''" "\<And>v. accepts d'' v \<longleftrightarrow> accepts d' v \<or> v \<noteq> [] \<and> v \<in> word_runes ` set ws"
    by blast
  have "w \<noteq> [] \<longleftrightarrow> word_runes (Some w) \<noteq> []" by (simp add: word_runes_def)
  then have "accepts d'' v \<longleftrightarrow> accepts d v \<or> v \<noteq> [] \<and> v \<in> word_runes ` set (Some w # ws)" for v
    using d''(3) d'(3) by auto
  then show ?case using d' d''(1,2) by simp
qed (auto simp: word_ok_def)

lemma dict_open_loop_error:
  assumes "dict_wf d" "\<not> list_all word_ok ws"
  shows "dict_open_loop d ws = Some (Inl (LuaError ''illegal parameters in table index''))"
  using assms
proof (induction d ws rule: dict_open_loop.induct)
  case (3 d w ws)
  obtain d' ok where d': "dict_insert d w = Some (d', ok)" "dict_wf d'" "ok \<longleftrightarrow> None \<notin> set w"
    using dict_insert_correct [OF "3.prems"(1)] by blast
  then show ?case using "3.IH" [OF d'(1) refl _ d'(2)] "3.prems"(2) by (auto simp: word_ok_def)
qed auto

text \<open>[C20] Opening a dictionary: from tables of integers it always succeeds, and the dictionary then
  contains exactly the given words (as 32-bit runes) that are not empty; any other input raises.\<close>

theorem dict_open_words:
  "if list_all word_ok ws
   then \<exists>d. dict_open ws = Some (Inr d) \<and> dict_wf d \<and>
     (\<forall>w. accepts d w \<longleftrightarrow> w \<noteq> [] \<and> w \<in> word_runes ` set ws)
   else dict_open ws = Some (Inl (LuaError ''illegal parameters in table index''))"
  using dict_open_loop_ok [OF dict_new_wf, of ws] dict_open_loop_error [OF dict_new_wf, of ws]
  by (simp add: dict_open_def)

section \<open>Filtering\<close>

text \<open>The length of the longest word that starts the message, 0 for none; and the reference filter
  that masks the longest word at each position, from left to right.\<close>

definition longest :: "(u32 list \<Rightarrow> bool) \<Rightarrow> u32 list \<Rightarrow> nat" where
  "longest P rs = Max (insert 0 {n. n \<le> length rs \<and> P (take n rs)})"

function mask_words :: "(u32 list \<Rightarrow> bool) \<Rightarrow> int list \<Rightarrow> int list" where
  "mask_words P msg =
     (if msg = [] then []
      else (let n = longest P (map word_of_int msg)
            in if n = 0 then hd msg # mask_words P (tl msg)
               else replicate n 42 @ mask_words P (drop n msg)))"
  by pat_completeness auto
termination
  by (relation "measure (\<lambda>(P, msg). length msg)") auto

declare mask_words.simps [simp del]

lemma finite_matches: "finite {n. n \<le> length rs \<and> P (take n rs)}"
  by (rule finite_subset [of _ "{..length rs}"]) auto

lemma longest_unfold:
  "longest P [] = 0"
  "longest P (r # rs) =
     (let n = longest (\<lambda>w. w \<noteq> [] \<and> P (r # w)) rs in if n > 0 then n + 1 else if P [r] then 1 else 0)"
  if "\<not> P []"
proof -
  show "longest P [] = 0" using that by (simp add: longest_def)
  let ?Q = "\<lambda>w. w \<noteq> [] \<and> P (r # w)"
  let ?A = "insert 0 {n. n \<le> length (r # rs) \<and> P (take n (r # rs))}"
  let ?B = "insert 0 {n. n \<le> length rs \<and> ?Q (take n rs)}"
  have fin: "finite ?A" "finite ?B"
    using finite_matches [of "r # rs" P] finite_matches [of rs ?Q] by simp_all
  have A: "n \<in> ?A \<longleftrightarrow> n = 0 \<or> n = 1 \<and> P [r] \<or> n \<ge> 2 \<and> n - 1 \<in> ?B" for n
  proof (cases n)
    case (Suc m)
    then show ?thesis by (cases m) auto
  qed simp
  have "Max ?A = (if Max ?B > 0 then Max ?B + 1 else if P [r] then 1 else 0)"
  proof (rule Max_eqI [OF fin(1)])
    fix y assume "y \<in> ?A"
    then consider "y = 0" | "y = 1" "P [r]" | "y \<ge> 2" "y - 1 \<le> Max ?B"
      using A [of y] Max_ge [OF fin(2), of "y - 1"] by blast
    then show "y \<le> (if Max ?B > 0 then Max ?B + 1 else if P [r] then 1 else 0)" by cases auto
  next
    have "Max ?B \<in> ?B" using fin(2) by (intro Max_in) auto
    then show "(if Max ?B > 0 then Max ?B + 1 else if P [r] then 1 else 0) \<in> ?A"
      unfolding A by auto
  qed
  then show "longest P (r # rs) =
     (let n = longest ?Q rs in if n > 0 then n + 1 else if P [r] then 1 else 0)"
    unfolding longest_def by simp
qed

lemma longest_none: "longest (\<lambda>w. False) rs = 0"
  by (simp add: longest_def)

lemma match_loop_correct:
  assumes "dict_wf d" "step \<le> n"
  shows "match_loop d rs n step =
     Some (let k = longest (accepts d) rs in if k > 0 then n + k else step)"
  using assms
proof (induction rs arbitrary: d n step)
  case Nil
  then show ?case by (cases d) (simp add: longest_unfold)
next
  case (Cons r rs)
  then obtain t where d: "d = Dict t" and wf: "table_wf t" and ch: "\<And>k f d. table_lookup t k = Some (f, Some d) \<Longrightarrow> dict_wf d"
    by (auto elim: dict_wf.cases)
  obtain x where x: "table_get t r = Some x" using table_get_correct(2) [OF wf] by blast
  have emp: "\<not> accepts d []" by (cases d) simp
  note L = longest_unfold(2) [of "accepts d", OF emp, of r rs]
  show ?case
  proof (cases x)
    case None
    then have "table_lookup t r = None" using x by (simp add: table_lookup_def)
    then show ?thesis using x None L by (simp add: d longest_none)
  next
    case (Some i)
    then have lk: "table_lookup t r = Some (tn_flag (node t ! i), tn_value (node t ! i))"
      using x by (simp add: table_lookup_def)
    show ?thesis
    proof (cases "tn_value (node t ! i)")
      case None
      then show ?thesis using x Some lk L by (simp add: d longest_none Let_def)
    next
      case v: (Some d')
      have e: "(\<lambda>w. w \<noteq> [] \<and> accepts d (r # w)) = accepts d'"
        using lk v by (auto simp: d fun_eq_iff)
      have "dict_wf d'" using ch lk v by auto
      then show ?thesis using x Some lk v L [unfolded e] Cons.IH [of d'] Cons.prems(2)
        by (simp add: Let_def d)
    qed
  qed
qed

text \<open>The message contains a word somewhere.\<close>

definition contains_word :: "(u32 list \<Rightarrow> bool) \<Rightarrow> u32 list \<Rightarrow> bool" where
  "contains_word P rs \<longleftrightarrow> (\<exists>pre w suf. rs = pre @ w @ suf \<and> P w)"

lemma longest_pos:
  assumes "\<not> P []"
  shows "0 < longest P rs \<longleftrightarrow> (\<exists>w suf. rs = w @ suf \<and> P w)"
proof -
  let ?A = "{n. n \<le> length rs \<and> P (take n rs)}"
  have "0 < longest P rs \<longleftrightarrow> (\<exists>n\<in>insert 0 ?A. 0 < n)"
    unfolding longest_def using finite_matches [of rs P] by (intro Max_gr_iff) auto
  also have "\<dots> \<longleftrightarrow> (\<exists>w suf. rs = w @ suf \<and> P w)"
  proof
    assume "\<exists>n\<in>insert 0 ?A. 0 < n"
    then obtain n where "P (take n rs)" by auto
    moreover have "rs = take n rs @ drop n rs" by simp
    ultimately show "\<exists>w suf. rs = w @ suf \<and> P w" by blast
  next
    assume "\<exists>w suf. rs = w @ suf \<and> P w"
    then obtain w suf where w: "rs = w @ suf" "P w" by blast
    moreover from this have "w \<noteq> []" using assms by auto
    ultimately have "length w \<in> ?A" "0 < length w" by auto
    then show "\<exists>n\<in>insert 0 ?A. 0 < n" by blast
  qed
  finally show ?thesis .
qed

lemma contains_word_Cons:
  assumes "\<not> P []"
  shows "\<not> contains_word P []" "contains_word P (r # rs) \<longleftrightarrow> 0 < longest P (r # rs) \<or> contains_word P rs"
proof -
  show "\<not> contains_word P []" using assms by (simp add: contains_word_def)
  show "contains_word P (r # rs) \<longleftrightarrow> 0 < longest P (r # rs) \<or> contains_word P rs"
  proof
    assume "contains_word P (r # rs)"
    then obtain pre w suf where w: "r # rs = pre @ w @ suf" "P w" by (auto simp: contains_word_def)
    show "0 < longest P (r # rs) \<or> contains_word P rs"
    proof (cases pre)
      case Nil
      then show ?thesis using w longest_pos [of P, OF assms] by auto
    next
      case (Cons p pre')
      then have "rs = pre' @ w @ suf" using w(1) by simp
      then show ?thesis using w(2) unfolding contains_word_def by blast
    qed
  next
    assume "0 < longest P (r # rs) \<or> contains_word P rs"
    then consider w suf where "r # rs = w @ suf" "P w" | pre w suf where "rs = pre @ w @ suf" "P w"
      using longest_pos [of P, OF assms] by (auto simp: contains_word_def)
    then show "contains_word P (r # rs)"
    proof cases
      case (1 w suf)
      then show ?thesis unfolding contains_word_def
        by (intro exI [of _ "[]"] exI [of _ w] exI [of _ suf]) simp
    next
      case (2 pre w suf)
      then show ?thesis unfolding contains_word_def
        by (intro exI [of _ "r # pre"] exI [of _ w] exI [of _ suf]) simp
    qed
  qed
qed

text \<open>[C6] Filtering agrees with its specification: on every message it returns, the result is the
  message with the longest dictionary word masked at each position from left to right, and the flag
  says whether the message contains a dictionary word anywhere.\<close>

theorem dict_filter_masks:
  assumes "dict_wf d"
  shows "dict_filter (Some d) msg =
     Some (Inr (mask_words (accepts d) msg, contains_word (accepts d) (map word_of_int msg)))"
proof -
  have emp: "\<not> accepts d []" by (cases d) simp
  note cw = contains_word_Cons [of "accepts d", OF emp]
  have "filter_loop d msg =
      Some (mask_words (accepts d) msg, contains_word (accepts d) (map word_of_int msg))"
  proof (induction msg rule: length_induct)
    case (1 msg)
    let ?n = "longest (accepts d) (map word_of_int msg)"
    have m: "match_loop d (map word_of_int msg) 0 0 = Some ?n"
      using match_loop_correct [OF assms, of 0 0] by (simp add: Let_def)
    show ?case
    proof (cases msg)
      case Nil
      then show ?thesis by (simp add: filter_loop.simps mask_words.simps cw(1))
    next
      case (Cons x xs)
      then have IH: "filter_loop d (drop (Suc k) msg) = Some (mask_words (accepts d) (drop (Suc k) msg),
          contains_word (accepts d) (map word_of_int (drop (Suc k) msg)))" for k
        using 1 by (auto simp: less_Suc_eq_le)
      show ?thesis
      proof (cases "?n")
        case 0
        then show ?thesis
          using Cons m IH [of 0] cw(2) [of "word_of_int x" "map word_of_int xs"]
          by (simp add: filter_loop.simps [of d "x # xs"] mask_words.simps [of _ "x # xs"])
      next
        case (Suc k)
        then show ?thesis
          using Cons m IH [of k] cw(2) [of "word_of_int x" "map word_of_int xs"]
          by (simp add: filter_loop.simps [of d "x # xs"] mask_words.simps [of _ "x # xs"])
      qed
    qed
  qed
  then show ?thesis by (simp add: dict_filter_def)
qed

theorem dict_filter_masks_witness:
  "dict_filter (Some (Dict (table_new ()))) [65, 66] =
     Some (Inr (mask_words (accepts (Dict (table_new ()))) [65, 66],
       contains_word (accepts (Dict (table_new ()))) (map word_of_int [65, 66])))"
  by (rule dict_filter_masks [OF dict_new_wf])

end
