(* ===== verification/CrabWords.thy ===== *)
theory CrabWords
  imports Crab
begin

text \<open>
  The stand-alone word filter (\<^verbatim>\<open>src/lualib-src/crab/crab.c\<close>): words hang in lists, longest
  first, off an array of 65536 buckets indexed by a hash of their first character. A \<^verbatim>\<open>wchar_t\<close>
  string is the list of its characters without the terminating zero; a comparison of the message
  with a word that runs past the message meets that zero and fails. The conversions through
  \<^verbatim>\<open>iconv\<close>, which is not part of the sources, are parameters.
\<close>

unbundle bit_operations_syntax

section \<open>Operations\<close>

type_synonym word_lists = "u32 \<Rightarrow> u32 list list"

definition crab_hash :: "u32 \<Rightarrow> u32" where
  "crab_hash c = (let low = c AND 0xFFFF; high = drop_bit 16 c AND 0xFFFF in high XOR low)"

fun insert_word :: "u32 list \<Rightarrow> u32 list list \<Rightarrow> u32 list list" where
  "insert_word w [] = [w]"
| "insert_word w (v # vs) = (if length v \<ge> length w then v # insert_word w vs else w # v # vs)"

definition add_word :: "word_lists \<Rightarrow> u32 list \<Rightarrow> word_lists" where
  "add_word words w =
     (if w = [] then words
      else (let h = crab_hash (hd w) in words(h := insert_word w (words h))))"

definition find_word :: "word_lists \<Rightarrow> u32 \<Rightarrow> u32 list list" where
  "find_word words wc = words (crab_hash wc)"

text \<open>The first word of a list that starts the message.\<close>

fun first_match :: "u32 list list \<Rightarrow> u32 list \<Rightarrow> u32 list option" where
  "first_match [] msg = None"
| "first_match (w # ws) msg = (if take (length w) msg = w then Some w else first_match ws msg)"

function crab_loop :: "word_lists \<Rightarrow> u32 list \<Rightarrow> bool \<Rightarrow> u32 list \<times> bool" where
  "crab_loop words msg crabbed =
     (if msg = [] then ([], crabbed)
      else (case first_match (find_word words (hd msg)) msg of
          Some w \<Rightarrow>
            (let n = length w; (rest, c) = crab_loop words (drop (n - 1 + 1) msg) True
             in (replicate n 42 @ rest, c))
        | None \<Rightarrow>
            (let (rest, c) = crab_loop words (tl msg) crabbed in (hd msg # rest, c))))"
  by pat_completeness auto
termination
  by (relation "measure (\<lambda>(words, msg, c). length msg)") (simp_all add: diff_less)

declare crab_loop.simps [simp del]

definition crab :: "word_lists \<Rightarrow> u32 list option \<Rightarrow> u32 list option \<times> bool" where
  "crab words wmsg =
     (case wmsg of None \<Rightarrow> (None, False)
      | Some msg \<Rightarrow> (let (m, c) = crab_loop words msg False in (Some m, c)))"

definition crab_filter ::
  "(byte list \<Rightarrow> u32 list option) \<Rightarrow> (u32 list \<Rightarrow> byte list) \<Rightarrow> word_lists \<Rightarrow> byte list \<Rightarrow> byte list option"
where
  "crab_filter utf82wc wc2utf8 words msg =
     (let (wmsg, crabbed) = crab words (utf82wc msg)
      in case wmsg of None \<Rightarrow> None | Some m \<Rightarrow> if crabbed then Some (wc2utf8 m) else None)"

section \<open>Correctness\<close>

text \<open>Every list is sorted by decreasing length and holds words of its own bucket only.\<close>

definition words_ok :: "word_lists \<Rightarrow> bool" where
  "words_ok words \<longleftrightarrow> (\<forall>h. sorted_wrt (\<lambda>v w. length v \<ge> length w) (words h) \<and>
     (\<forall>w\<in>set (words h). w \<noteq> [] \<and> crab_hash (hd w) = h))"

definition in_words :: "word_lists \<Rightarrow> u32 list \<Rightarrow> bool" where
  "in_words words w \<longleftrightarrow> w \<noteq> [] \<and> w \<in> set (words (crab_hash (hd w)))"

lemma set_insert_word [simp]: "set (insert_word w vs) = insert w (set vs)"
  by (induction vs) auto

lemma sorted_insert_word:
  "sorted_wrt (\<lambda>v w. length v \<ge> length w) vs \<Longrightarrow>
   sorted_wrt (\<lambda>v w. length v \<ge> length w) (insert_word w vs)"
  by (induction vs) auto

lemma add_word_ok:
  assumes "words_ok words"
  shows "words_ok (add_word words w)"
    "in_words (add_word words w) v \<longleftrightarrow> in_words words v \<or> w \<noteq> [] \<and> v = w"
  using assms by (auto simp: words_ok_def add_word_def in_words_def Let_def sorted_insert_word)

lemma first_match_SomeD: "first_match ws msg = Some w \<Longrightarrow> w \<in> set ws \<and> take (length w) msg = w"
  by (induction ws msg rule: first_match.induct) (auto split: if_splits)

lemma first_match_None: "first_match ws msg = None \<longleftrightarrow> (\<forall>w\<in>set ws. take (length w) msg \<noteq> w)"
  by (induction ws msg rule: first_match.induct) auto

lemma first_match_longest:
  "sorted_wrt (\<lambda>v w. length v \<ge> length w) ws \<Longrightarrow> first_match ws msg = Some w \<Longrightarrow>
   v \<in> set ws \<Longrightarrow> take (length v) msg = v \<Longrightarrow> length v \<le> length w"
  by (induction ws msg rule: first_match.induct) (auto split: if_splits)

text \<open>What the bucket search finds is the longest word that starts the message.\<close>

lemma search_longest:
  assumes ok: "words_ok words" and msg: "msg \<noteq> []"
  shows "longest (in_words words) msg =
     (case first_match (find_word words (hd msg)) msg of Some w \<Rightarrow> length w | None \<Rightarrow> 0)"
proof -
  let ?ws = "find_word words (hd msg)"
  let ?A = "insert 0 {n. n \<le> length msg \<and> in_words words (take n msg)}"
  have fin: "finite ?A" using finite_matches [of msg "in_words words"] by simp
  have mem: "in_words words (take n msg) \<longleftrightarrow> 0 < n \<and> take n msg \<in> set ?ws" for n
    using msg by (cases n; cases msg) (auto simp: in_words_def find_word_def)
  have srt: "sorted_wrt (\<lambda>v w. length v \<ge> length w) ?ws" using ok by (simp add: words_ok_def find_word_def)
  show ?thesis
  proof (cases "first_match ?ws msg")
    case None
    have "\<not> (n \<le> length msg \<and> in_words words (take n msg))" for n
      using None mem [of n] by (auto simp: first_match_None)
    then have "?A = {0}" by blast
    then have "longest (in_words words) msg = 0" unfolding longest_def by (simp only: Max_singleton)
    then show ?thesis using None by simp
  next
    case (Some w)
    have w: "w \<in> set ?ws" "take (length w) msg = w" using first_match_SomeD [OF Some] by auto
    then have "w \<noteq> []" using ok by (auto simp: words_ok_def find_word_def)
    have "length w \<le> length msg" using w(2) by (metis length_take min.cobounded1)
    have "Max ?A = length w"
    proof (rule Max_eqI [OF fin])
      fix n assume "n \<in> ?A"
      then consider "n = 0" | "n \<le> length msg" "take n msg \<in> set ?ws" using mem by auto
      then show "n \<le> length w"
      proof cases
        case 2
        then show ?thesis using first_match_longest [OF srt Some 2(2)] by simp
      qed simp
    next
      show "length w \<in> ?A" using mem [of "length w"] w \<open>w \<noteq> []\<close> \<open>length w \<le> length msg\<close> by simp
    qed
    then show ?thesis using Some by (simp add: longest_def)
  qed
qed

lemma crab_loop_masks:
  assumes ok: "words_ok words"
  shows "map uint (fst (crab_loop words msg c)) = mask_words (in_words words) (map uint msg) \<and>
     snd (crab_loop words msg c) = (c \<or> contains_word (in_words words) msg)"
proof (induction msg arbitrary: c rule: length_induct)
  case (1 msg)
  have emp: "\<not> in_words words []" by (simp add: in_words_def)
  note cw = contains_word_Cons [of "in_words words", OF emp]
  show ?case
  proof (cases msg)
    case Nil
    then show ?thesis by (simp add: crab_loop.simps mask_words.simps cw(1))
  next
    case (Cons x xs)
    have L: "longest (in_words words) (x # xs) =
        (case first_match (find_word words x) (x # xs) of Some w \<Rightarrow> length w | None \<Rightarrow> 0)"
      using search_longest [OF ok, of "x # xs"] by simp
    have m: "map word_of_int (map uint (x # xs)) = x # xs" by (simp add: comp_def)
    show ?thesis
    proof (cases "first_match (find_word words x) (x # xs)")
      case None
      then show ?thesis using 1 [rule_format, of xs c] Cons L cw(2) [of x xs] m
        by (simp add: crab_loop.simps [of words "x # xs"] mask_words.simps [of _ "uint x # map uint xs"]
            split_def)
    next
      case (Some w)
      then have "w \<noteq> []" using first_match_SomeD [OF Some] ok by (auto simp: words_ok_def find_word_def)
      then obtain k where k: "length w = Suc k" by (cases w) auto
      then show ?thesis using 1 [rule_format, of "drop k xs" True] Cons L Some cw(2) [of x xs] m
        by (simp add: crab_loop.simps [of words "x # xs"] mask_words.simps [of _ "uint x # map uint xs"]
            split_def drop_map Let_def)
    qed
  qed
qed

definition loaded :: "u32 list list \<Rightarrow> u32 list \<Rightarrow> bool" where
  "loaded ws w \<longleftrightarrow> w \<noteq> [] \<and> w \<in> set ws"

lemma load_words:
  assumes "words_ok words"
  shows "words_ok (foldl add_word words ws)"
    "in_words (foldl add_word words ws) v \<longleftrightarrow> in_words words v \<or> loaded ws v"
  using assms by (induction ws arbitrary: words) (auto simp: add_word_ok loaded_def)

text \<open>[C19] The stand-alone filter implements the same specification as the trie: loading words and
  filtering a converted message masks the longest word at each position from left to right, and the
  filter returns a new message exactly when the message contains one of the words.\<close>

theorem crab_filter_masks:
  assumes "utf82wc bytes = Some msg"
  shows "\<exists>m. map uint m = mask_words (loaded ws) (map uint msg) \<and>
    crab_filter utf82wc wc2utf8 (foldl add_word (\<lambda>_. []) ws) bytes =
      (if contains_word (loaded ws) msg then Some (wc2utf8 m) else None)"
proof -
  have "words_ok (\<lambda>_. [])" "\<not> in_words (\<lambda>_. []) v" for v by (simp_all add: words_ok_def in_words_def)
  then have ok: "words_ok (foldl add_word (\<lambda>_. []) ws)"
    and P: "in_words (foldl add_word (\<lambda>_. []) ws) = loaded ws"
    by (simp_all add: load_words fun_eq_iff)
  show ?thesis
    using crab_loop_masks [OF ok, of msg False] assms
    by (auto simp: crab_filter_def crab_def split_def P)
qed

theorem crab_filter_masks_witness:
  "\<exists>m :: u32 list. map uint m = mask_words (loaded [[66]]) (map uint [65, 66 :: u32]) \<and>
    crab_filter (\<lambda>b. Some (map ucast b)) (map ucast) (foldl add_word (\<lambda>_. []) [[66]]) [65, 66] =
      (if contains_word (loaded [[66]]) [65, 66] then Some (map ucast m) else None)"
  by (rule crab_filter_masks [where utf82wc = "\<lambda>b. Some (map ucast b)" and ws = "[[66]]"
        and bytes = "[65, 66]" and msg = "[65, 66]"]) simp

end
