(* ===== verification/Websocket.thy ===== *)
theory Websocket
  imports Interfaces
begin

text \<open>
  The websocket packet splitter (\<^verbatim>\<open>src/lualib-src/websocketnetpack/lua-websocketnetpack.c\<close>): it
  cuts the byte stream of each connection into frames, unmasks them and queues them for the Lua
  side. The userdata in Lua slot 1 is \<open>queue option\<close>, \<open>None\<close> for nil. The ring buffer keeps its
  capacity, head, tail and cells; the hash array of half-received frames maps a bucket to its
  linked list. Of the 1024-byte \<^verbatim>\<open>header\<close> array only the first \<^verbatim>\<open>header_size\<close> bytes are ever read,
  and of a frame buffer only the \<^verbatim>\<open>read\<close> bytes received so far, so both are byte lists of that
  length. A write behind the header array, or an allocation of a negative size, is the fault
  \<open>OutOfBounds\<close>. Multi-byte loads are those of a little-endian host. The definitions follow the
  order of the source.
\<close>

unbundle bit_operations_syntax

section \<open>Data\<close>

definition QUEUESIZE :: nat where "QUEUESIZE = 1024"
definition HASHSIZE :: int where "HASHSIZE = 4096"
definition HEADERSIZE :: nat where "HEADERSIZE = 1024"
definition WEBSOCKET_HEADER_LEN :: nat where "WEBSOCKET_HEADER_LEN = 2"
definition WEBSOCKET_MASK_LEN :: nat where "WEBSOCKET_MASK_LEN = 4"
definition MAX_PACKSIZE :: int where "MAX_PACKSIZE = 10 * 1024"

record netpack =
  np_id :: int
  np_size :: int
  np_buffer :: "byte list"

record uncomplete =
  uc_id :: int
  uc_size :: int
  uc_buffer :: "byte list"
  uc_header :: "byte list"
  uc_read :: int
  uc_mask :: "byte list"
  uc_ismask :: bool
  uc_hasunmask_size :: int

text \<open>The capacity is an \<^verbatim>\<open>int\<close> in the code, here a number without bound.\<close>

record queue =
  q_cap :: nat
  q_head :: nat
  q_tail :: nat
  q_hash :: "nat \<Rightarrow> uncomplete list"
  q_queue :: "netpack list"

section \<open>The queue and the half-received frames\<close>

definition lclear :: "queue option \<Rightarrow> queue option" where
  "lclear qo = map_option (\<lambda>q. q\<lparr>q_hash := (\<lambda>_. []), q_head := 0, q_tail := 0\<rparr>) qo"

definition hash_fd :: "int \<Rightarrow> nat" where
  "hash_fd fd = (let a = drop_bit 24 fd; b = drop_bit 12 fd; c = fd
                 in nat (((a + b + c) mod 2 ^ 32) mod HASHSIZE))"

text \<open>Unlinking the first entry of a bucket with the given id.\<close>

fun unlink :: "int \<Rightarrow> uncomplete list \<Rightarrow> (uncomplete \<times> uncomplete list) option" where
  "unlink fd [] = None"
| "unlink fd (uc # ucs) =
     (if uc_id uc = fd then Some (uc, ucs)
      else map_option (\<lambda>(u, rest). (u, uc # rest)) (unlink fd ucs))"

definition find_uncomplete :: "queue option \<Rightarrow> int \<Rightarrow> uncomplete option \<times> queue option" where
  "find_uncomplete qo fd =
     (case qo of None \<Rightarrow> (None, None)
      | Some q \<Rightarrow>
          (case unlink fd (q_hash q (hash_fd fd)) of
             None \<Rightarrow> (None, Some q)
           | Some (uc, rest) \<Rightarrow> (Some uc, Some (q\<lparr>q_hash := (q_hash q)(hash_fd fd := rest)\<rparr>))))"

definition np_zero :: netpack where
  "np_zero = \<lparr> np_id = 0, np_size = 0, np_buffer = [] \<rparr>"

definition get_queue :: "queue option \<Rightarrow> queue" where
  "get_queue qo =
     (case qo of Some q \<Rightarrow> q
      | None \<Rightarrow> \<lparr> q_cap = QUEUESIZE, q_head = 0, q_tail = 0, q_hash = (\<lambda>_. []),
                  q_queue = replicate QUEUESIZE np_zero \<rparr>)"

definition expand_queue :: "queue \<Rightarrow> queue" where
  "expand_queue q =
     \<lparr> q_cap = q_cap q + QUEUESIZE, q_head = 0, q_tail = q_cap q, q_hash = q_hash q,
       q_queue = map (\<lambda>i. q_queue q ! ((q_head q + i) mod q_cap q)) [0..<q_cap q]
                 @ replicate QUEUESIZE np_zero \<rparr>"

definition push_data :: "queue option \<Rightarrow> int \<Rightarrow> byte list \<Rightarrow> int \<Rightarrow> queue" where
  "push_data qo fd buffer sz =
     (let q = get_queue qo;
          np = \<lparr> np_id = fd, np_size = sz, np_buffer = buffer \<rparr>;
          tail = (if q_tail q + 1 \<ge> q_cap q then q_tail q + 1 - q_cap q else q_tail q + 1);
          q1 = q\<lparr>q_queue := (q_queue q)[q_tail q := np], q_tail := tail\<rparr>
      in if q_head q1 = q_tail q1 then expand_queue q1 else q1)"

text \<open>The zeroed structure of \<^verbatim>\<open>memset\<close> with the id set; linking it into its bucket.\<close>

definition uc_new :: "int \<Rightarrow> uncomplete" where
  "uc_new fd = \<lparr> uc_id = fd, uc_size = 0, uc_buffer = [], uc_header = [], uc_read = 0,
                 uc_mask = replicate WEBSOCKET_MASK_LEN 0, uc_ismask = False, uc_hasunmask_size = 0 \<rparr>"

definition link_uncomplete :: "queue \<Rightarrow> int \<Rightarrow> uncomplete \<Rightarrow> queue" where
  "link_uncomplete q fd uc = q\<lparr>q_hash := (q_hash q)(hash_fd fd := uc # q_hash q (hash_fd fd))\<rparr>"

definition save_uncomplete :: "queue option \<Rightarrow> uncomplete \<Rightarrow> queue" where
  "save_uncomplete qo uc = link_uncomplete (get_queue qo) (uc_id uc) uc"

section \<open>Frame headers\<close>

definition ntoh64 :: "int \<Rightarrow> int" where
  "ntoh64 host =
     (let low = host AND 0xFFFFFFFF; high = drop_bit 32 host AND 0xFFFFFFFF
      in push_bit 32 (ntohl low) OR ntohl high)"

text \<open>The return value, the header length and the mask, which are set only when the header is
  complete.\<close>

definition read_size :: "byte list \<Rightarrow> int \<times> nat \<times> byte list option" where
  "read_size buffer =
     (let sz = length buffer in
      if sz < 2 then (-1, 0, None)
      else
        let fin = drop_bit 7 (buffer ! 0) AND 1;
            rsv1 = drop_bit 6 (buffer ! 0) AND 1;
            rsv2 = drop_bit 5 (buffer ! 0) AND 1;
            rsv3 = drop_bit 4 (buffer ! 0) AND 1;
            opcode = buffer ! 0 AND 0xf;
            is_mask = drop_bit 7 (buffer ! 1) AND 1;
            len = buffer ! 1 AND 0x7f
        in if rsv1 \<noteq> 0 \<or> rsv2 \<noteq> 0 \<or> rsv3 \<noteq> 0 then (-2, 0, None)
           else if fin = 0 \<or> opcode = 0 then (-2, 0, None)
           else if opcode = 8 then (-3, 0, None)
           else
             let finish = (\<lambda>pack_size offset.
                   if is_mask \<noteq> 0 then
                     (if offset + WEBSOCKET_MASK_LEN > sz then (-1, 0, None)
                      else (pack_size, offset + WEBSOCKET_MASK_LEN,
                            Some (take WEBSOCKET_MASK_LEN (drop offset buffer))))
                   else (pack_size, offset, None))
             in if len < 0x7E then finish (uint len) WEBSOCKET_HEADER_LEN
                else if len = 0x7E then
                  (if sz < WEBSOCKET_HEADER_LEN + 2 then (-1, 0, None)
                   else finish (ntohs (load_le (take 2 (drop WEBSOCKET_HEADER_LEN buffer))))
                          (WEBSOCKET_HEADER_LEN + 2))
                else
                  (if sz < WEBSOCKET_HEADER_LEN + 8 then (-1, 0, None)
                   else finish (s32 (ntoh64 (load_le (take 8 (drop WEBSOCKET_HEADER_LEN buffer)))))
                          (WEBSOCKET_HEADER_LEN + 8)))"

text \<open>Unmasking the first \<open>sz\<close> bytes of the buffer, in place.\<close>

definition xor_mask :: "byte list \<Rightarrow> int \<Rightarrow> byte list \<Rightarrow> byte list" where
  "xor_mask masks from bs =
     map (\<lambda>(i, b). b XOR masks ! nat ((int i + from) mod int WEBSOCKET_MASK_LEN)) (zip [0..<length bs] bs)"

definition decode_wsmask_data :: "byte list \<Rightarrow> int \<Rightarrow> uncomplete \<Rightarrow> byte list \<times> uncomplete" where
  "decode_wsmask_data buffer sz uc =
     (if \<not> uc_ismask uc then (buffer, uc)
      else (xor_mask (uc_mask uc) (uc_hasunmask_size uc) (take (nat sz) buffer) @ drop (nat sz) buffer,
            uc\<lparr>uc_hasunmask_size := uc_hasunmask_size uc + sz\<rparr>))"

fun websocket_strnpos :: "byte list \<Rightarrow> byte list \<Rightarrow> int \<Rightarrow> int" where
  "websocket_strnpos [] needle i = -1"
| "websocket_strnpos (c # cs) needle i =
     (if length (c # cs) < length needle then -1
      else if take (length needle) (c # cs) = needle then i
      else websocket_strnpos cs needle (i + 1))"

definition get_http_header :: "byte list \<Rightarrow> int" where
  "get_http_header buffer =
     (let n = websocket_strnpos buffer [13, 10, 13, 10] 0 in if n < 0 then n else n + 4)"

section \<open>Cutting the stream\<close>

text \<open>What is pushed on the Lua stack: the queue alone, or the queue with a tag and its values.\<close>

datatype ws_result =
    WsQueue
  | WsMore
  | WsData int "byte list" int
  | WsClose int
  | WsOpen int "byte list"
  | WsError int "byte list"
  | WsWarning int int

lemma read_size_fail: "length buffer < 2 \<Longrightarrow> read_size buffer = (-1, 0, None)"
  by (simp add: read_size_def)

lemma read_size_head:
  assumes "read_size buffer = (n, h, m)" "n \<noteq> -1" "n \<noteq> -2" "n \<noteq> -3"
  shows "2 \<le> h" "h \<le> length buffer"
  using assms
  by (auto simp: read_size_def Let_def WEBSOCKET_HEADER_LEN_def WEBSOCKET_MASK_LEN_def split: if_splits)

text \<open>The loops that throw invalid frame heads away, two bytes at a time: with \<open>all\<close> for every
  return value up to -2 (\<^verbatim>\<open>push_more\<close>), else for -2 only (\<^verbatim>\<open>filter_data_\<close>).\<close>

definition bad_frame :: "bool \<Rightarrow> int \<Rightarrow> bool" where
  "bad_frame all n \<longleftrightarrow> (if all then n \<le> -2 else n = -2)"

function skip_frames :: "bool \<Rightarrow> byte list \<Rightarrow> (int \<times> nat \<times> byte list option) \<times> byte list" where
  "skip_frames all buffer =
     (let r = read_size buffer
      in if bad_frame all (fst r)
         then skip_frames all (drop WEBSOCKET_HEADER_LEN buffer)
         else (r, buffer))"
  by pat_completeness auto
termination
proof (relation "measure (\<lambda>(a, b). length b)", goal_cases)
  case (2 all buffer x)
  then have "\<not> length buffer < 2" using read_size_fail [of buffer] by (auto simp: bad_frame_def split: if_splits)
  then show ?case by (simp add: WEBSOCKET_HEADER_LEN_def)
qed simp

declare skip_frames.simps [simp del]

definition clamp_pack :: "int \<Rightarrow> int" where
  "clamp_pack n = (if n > MAX_PACKSIZE then MAX_PACKSIZE else n)"

text \<open>The size of the next frame, its head length and mask, and the buffer that is left: the start
  of \<^verbatim>\<open>push_more\<close> and of the second half of \<^verbatim>\<open>filter_data_\<close>.\<close>

definition next_frame :: "bool \<Rightarrow> bool \<Rightarrow> byte list \<Rightarrow> int \<times> nat \<times> byte list option \<times> byte list" where
  "next_frame all handshake buffer =
     (if handshake then (get_http_header buffer, 0, None, buffer)
      else (case skip_frames all buffer of ((n, h, m), b) \<Rightarrow> (clamp_pack n, h, m, b)))"

definition uc_masked :: "int \<Rightarrow> byte list option \<Rightarrow> uncomplete" where
  "uc_masked fd m =
     (case m of None \<Rightarrow> uc_new fd | Some mk \<Rightarrow> (uc_new fd)\<lparr>uc_mask := mk, uc_ismask := True\<rparr>)"

text \<open>Keeping an incomplete head.\<close>

definition save_header :: "queue option \<Rightarrow> int \<Rightarrow> byte list \<Rightarrow> bool \<Rightarrow> queue result" where
  "save_header qo fd buffer handshake =
     (let uc = (uc_new fd)\<lparr>uc_read := -1\<rparr>
      in if handshake \<and> length buffer > HEADERSIZE then
           Inr (save_uncomplete qo (uc\<lparr>uc_header := take HEADERSIZE buffer\<rparr>))
         else if length buffer > HEADERSIZE then Inl OutOfBounds
         else Inr (save_uncomplete qo (uc\<lparr>uc_header := buffer\<rparr>)))"

text \<open>Keeping a frame whose payload has not arrived completely.\<close>

definition save_partial :: "queue option \<Rightarrow> int \<Rightarrow> byte list \<Rightarrow> int \<Rightarrow> byte list option \<Rightarrow> queue" where
  "save_partial qo fd buffer pack_size m =
     (let uc = (uc_masked fd m)\<lparr>uc_read := int (length buffer), uc_size := pack_size\<rparr>;
          (buffer', uc') = decode_wsmask_data buffer (int (length buffer)) uc
      in save_uncomplete qo (uc'\<lparr>uc_buffer := buffer'\<rparr>))"

lemma length_xor_mask [simp]: "length (xor_mask ms k bs) = length bs"
  by (simp add: xor_mask_def)

lemma length_decode [simp]: "length (fst (decode_wsmask_data b n uc)) = length b"
  by (auto simp: decode_wsmask_data_def min_def)

lemma strnpos_range: "websocket_strnpos cs nd i = -1 \<or> websocket_strnpos cs nd i \<ge> i"
  by (induction cs nd i rule: websocket_strnpos.induct) (auto split: if_splits)

lemma get_http_header_range: "get_http_header b = -1 \<or> get_http_header b \<ge> 4 \<and> b \<noteq> []"
  using strnpos_range [of b "[13, 10, 13, 10]" 0] by (auto simp: get_http_header_def Let_def)

lemma skip_frames_length: "skip_frames a b = (r, b') \<Longrightarrow> length b' \<le> length b"
proof (induction a b rule: skip_frames.induct)
  case (1 a b)
  show ?case
  proof (cases "bad_frame a (fst (read_size b))")
    case True
    then show ?thesis using 1 by (subst (asm) (2) skip_frames.simps) (auto simp: Let_def)
  next
    case False
    then show ?thesis using 1(2) by (subst (asm) skip_frames.simps) (simp add: Let_def)
  qed
qed

lemma skip_frames_stops:
  "skip_frames a b = (r, b') \<Longrightarrow> r = read_size b' \<and> fst r \<noteq> -2 \<and> (a \<longrightarrow> fst r \<ge> -1)"
proof (induction a b rule: skip_frames.induct)
  case (1 a b)
  show ?case
  proof (cases "bad_frame a (fst (read_size b))")
    case True
    then show ?thesis using 1 by (subst (asm) (2) skip_frames.simps) (auto simp: Let_def)
  next
    case False
    then show ?thesis using 1(2) by (subst (asm) skip_frames.simps) (auto simp: Let_def bad_frame_def split: if_splits)
  qed
qed

lemma next_frame_progress:
  assumes "next_frame True hs buffer = (n, h, m, b)" "n \<noteq> -1"
  shows "n \<ge> 0" "length (drop (nat n) (drop h b)) < length buffer"
proof -
  have "n \<ge> 0 \<and> length (drop (nat n) (drop h b)) < length buffer"
  proof (cases hs)
    case True
    then show ?thesis using assms get_http_header_range [of buffer] by (auto simp: next_frame_def)
  next
    case False
    then obtain k where k: "skip_frames True buffer = ((k, h, m), b)" "n = clamp_pack k"
      using assms(1) by (auto simp: next_frame_def split: prod.splits)
    note S = skip_frames_stops [OF k(1)]
    have "k \<noteq> -1" using k(2) assms(2) by (auto simp: clamp_pack_def MAX_PACKSIZE_def)
    with S have "k \<ge> 0" by auto
    moreover have "2 \<le> h" "h \<le> length b" using S \<open>k \<ge> 0\<close> read_size_head [of b k h m] by auto
    ultimately show ?thesis using skip_frames_length [OF k(1)] k(2)
      by (auto simp: clamp_pack_def MAX_PACKSIZE_def)
  qed
  then show "n \<ge> 0" "length (drop (nat n) (drop h b)) < length buffer" by auto
qed

function push_more :: "queue option \<Rightarrow> int \<Rightarrow> byte list \<Rightarrow> bool \<Rightarrow> queue result" where
  "push_more qo fd buffer handshake =
     (case next_frame True handshake buffer of (pack_size, pack_head_length, mk, buf) \<Rightarrow>
        if pack_size = -1 then save_header qo fd buf handshake
        else
          (let b = drop pack_head_length buf
           in if int (length b) < pack_size \<and> \<not> handshake then Inr (save_partial qo fd b pack_size mk)
              else
                (let b' = fst (decode_wsmask_data b pack_size (uc_masked 0 mk));
                     q1 = push_data qo fd (take (nat pack_size) b') pack_size;
                     rest = drop (nat pack_size) b'
                 in if rest \<noteq> [] then push_more (Some q1) fd rest handshake else Inr q1)))"
  by pat_completeness auto
termination
proof (relation "measure (\<lambda>(q, fd, b, h). length b)", goal_cases)
  case (2 qo fd buffer handshake)
  then show ?case using next_frame_progress(2) [of handshake buffer] by (auto simp: add.commute dest: sym)
qed simp

declare push_more.simps [simp del]

definition close_uncomplete :: "queue option \<Rightarrow> int \<Rightarrow> queue option" where
  "close_uncomplete qo fd = snd (find_uncomplete qo fd)"

text \<open>Completing a frame head byte by byte: the size found or an error code, the mask, the new
  contents of the header array and the bytes not consumed.\<close>

fun fill_head ::
  "bool \<Rightarrow> byte list \<Rightarrow> byte list \<Rightarrow> (int \<times> byte list option \<times> byte list \<times> byte list) result" where
  "fill_head handshake hdr [] = Inr (0, None, hdr, [])"
| "fill_head handshake hdr (c # cs) =
     (if length hdr \<ge> HEADERSIZE then Inl OutOfBounds
      else
        (let hdr1 = hdr @ [c];
             (n, m, hdr2) =
               (if handshake then (get_http_header hdr1, None, hdr1)
                else (case skip_frames False hdr1 of ((n, h, m), b) \<Rightarrow> (clamp_pack n, m, b)))
         in if n \<ge> 0 \<or> cs = [] then Inr (n, m, hdr2, cs)
            else fill_head handshake hdr2 cs))"

text \<open>The record once the size of the frame is known.\<close>

definition start_payload :: "uncomplete \<Rightarrow> bool \<Rightarrow> int \<Rightarrow> byte list option \<Rightarrow> byte list \<Rightarrow> uncomplete" where
  "start_payload uc handshake pack_size m hdr =
     (let uc1 = uc\<lparr>uc_size := pack_size, uc_header := hdr, uc_hasunmask_size := 0,
                   uc_mask := (case m of Some mk \<Rightarrow> mk | None \<Rightarrow> replicate WEBSOCKET_MASK_LEN 0),
                   uc_ismask := (m \<noteq> None)\<rparr>
      in if handshake then
           uc1\<lparr>uc_read := min (int (length hdr)) pack_size, uc_buffer := take (nat pack_size) hdr\<rparr>
         else uc1\<lparr>uc_read := 0, uc_buffer := []\<rparr>)"

text \<open>Filling the payload of an incomplete frame and going on with what follows it.\<close>

definition fill_payload ::
  "queue option \<Rightarrow> int \<Rightarrow> uncomplete \<Rightarrow> byte list \<Rightarrow> bool \<Rightarrow> (queue option \<times> ws_result) result" where
  "fill_payload qo fd uc buffer handshake =
     (let need = uc_size uc - uc_read uc
      in if int (length buffer) < need then
           (let (b, uc1) = decode_wsmask_data buffer (int (length buffer)) uc;
                uc2 = uc1\<lparr>uc_buffer := uc_buffer uc @ b, uc_read := uc_read uc + int (length buffer)\<rparr>
            in Inr (Some (link_uncomplete (get_queue qo) fd uc2), WsQueue))
         else
           (let b = fst (decode_wsmask_data buffer need uc);
                full = uc_buffer uc @ take (nat need) b;
                rest = drop (nat need) b
            in if rest = [] then Inr (qo, WsData fd full (uc_size uc))
               else rbind (push_more (Some (push_data qo fd full (uc_size uc))) fd rest handshake)
                      (\<lambda>q. Inr (Some q, WsMore))))"

text \<open>A buffer for a connection with nothing pending: the second half of \<^verbatim>\<open>filter_data_\<close>.\<close>

definition filter_fresh ::
  "queue option \<Rightarrow> int \<Rightarrow> byte list \<Rightarrow> bool \<Rightarrow> (queue option \<times> ws_result) result" where
  "filter_fresh qo fd buffer handshake =
     (case next_frame False handshake buffer of (pack_size, pack_head_length, m, buf) \<Rightarrow>
        if pack_size = -1 then
          rbind (save_header qo fd buf handshake) (\<lambda>q. Inr (Some q, WsQueue))
        else if pack_size = -3 then Inr (close_uncomplete qo fd, WsClose fd)
        else if pack_size < 0 then Inl OutOfBounds
        else
          (let b = drop pack_head_length buf
           in if int (length b) < pack_size \<and> \<not> handshake then
                Inr (Some (save_partial qo fd b pack_size m), WsQueue)
              else
                (let b' = fst (decode_wsmask_data b pack_size (uc_masked 0 m))
                 in if int (length b) = pack_size then Inr (qo, WsData fd b' pack_size)
                    else
                      rbind (push_more
                          (Some (push_data qo fd (take (nat pack_size) b') pack_size))
                          fd (drop (nat pack_size) b') handshake)
                        (\<lambda>q. Inr (Some q, WsMore)))))"

definition filter_data ::
  "queue option \<Rightarrow> int \<Rightarrow> byte list \<Rightarrow> bool \<Rightarrow> (queue option \<times> ws_result) result" where
  "filter_data qo0 fd buffer handshake =
     (case find_uncomplete qo0 fd of
        (Some uc, qo) \<Rightarrow>
          (if uc_read uc < 0 then
             rbind (fill_head handshake (uc_header uc) buffer) (\<lambda>(n, m, hdr, rest).
               if n = -1 then
                 Inr (Some (link_uncomplete (get_queue qo) fd (uc\<lparr>uc_header := hdr\<rparr>)), WsQueue)
               else if n = -3 then Inr (close_uncomplete qo fd, WsClose fd)
               else if n < 0 then Inl OutOfBounds
               else fill_payload qo fd (start_payload uc handshake n m hdr) rest handshake)
           else fill_payload qo fd uc buffer handshake)
      | (None, qo) \<Rightarrow> filter_fresh qo fd buffer handshake)"

text \<open>The messages of the socket layer, whose type and structure come from the host: a data message
  carries its bytes in a buffer of its own, the others are padded with a string.\<close>

datatype socket_type = SKYNET_SOCKET_TYPE_DATA | SKYNET_SOCKET_TYPE_CONNECT | SKYNET_SOCKET_TYPE_CLOSE
  | SKYNET_SOCKET_TYPE_ACCEPT | SKYNET_SOCKET_TYPE_ERROR | SKYNET_SOCKET_TYPE_WARNING
  | SKYNET_SOCKET_TYPE_OTHER

record socket_message =
  sm_type :: socket_type
  sm_id :: int
  sm_ud :: int
  sm_buffer :: "byte list option"
  sm_padding :: "byte list"

text \<open>\<^verbatim>\<open>pushstring\<close> of the padding; with a buffer of its own the size is -1 and the read leaves
  the buffer.\<close>

definition pushstring :: "socket_message \<Rightarrow> byte list result" where
  "pushstring msg = (case sm_buffer msg of None \<Rightarrow> Inr (sm_padding msg) | Some _ \<Rightarrow> Inl OutOfBounds)"

definition lfilter :: "queue option \<Rightarrow> socket_message \<Rightarrow> bool \<Rightarrow> (queue option \<times> ws_result) result" where
  "lfilter qo msg handshake =
     (case sm_type msg of
        SKYNET_SOCKET_TYPE_DATA \<Rightarrow>
          (case sm_buffer msg of
             None \<Rightarrow> Inl AssertFailed
           | Some buffer \<Rightarrow>
               if sm_ud msg > int (length buffer) then Inl OutOfBounds
               else filter_data qo (sm_id msg) (take (nat (sm_ud msg)) buffer) handshake)
      | SKYNET_SOCKET_TYPE_CONNECT \<Rightarrow> Inr (qo, WsQueue)
      | SKYNET_SOCKET_TYPE_CLOSE \<Rightarrow> Inr (close_uncomplete qo (sm_id msg), WsClose (sm_id msg))
      | SKYNET_SOCKET_TYPE_ACCEPT \<Rightarrow> rbind (pushstring msg) (\<lambda>s. Inr (qo, WsOpen (sm_ud msg) s))
      | SKYNET_SOCKET_TYPE_ERROR \<Rightarrow>
          rbind (pushstring msg) (\<lambda>s. Inr (close_uncomplete qo (sm_id msg), WsError (sm_id msg) s))
      | SKYNET_SOCKET_TYPE_WARNING \<Rightarrow> Inr (qo, WsWarning (sm_id msg) (sm_ud msg))
      | SKYNET_SOCKET_TYPE_OTHER \<Rightarrow> Inr (qo, WsQueue))"

definition lpop :: "queue option \<Rightarrow> (netpack \<times> queue) option" where
  "lpop qo =
     (case qo of None \<Rightarrow> None
      | Some q \<Rightarrow>
          if q_head q = q_tail q then None
          else Some (q_queue q ! q_head q,
                     q\<lparr>q_head := (if q_head q + 1 \<ge> q_cap q then 0 else q_head q + 1)\<rparr>))"

definition FRAME_SET_LENGTH :: "int \<Rightarrow> nat \<Rightarrow> byte" where
  "FRAME_SET_LENGTH x idx = word_of_int (drop_bit (idx * 8) x AND 0xFF)"

definition lpack :: "byte list \<Rightarrow> byte list" where
  "lpack ptr =
     (let len = int (length ptr);
          b0 = push_bit 7 (1 AND 1) OR (2 AND 0x0F);
          frame_header =
            [b0] @
            (if len < 126 then [FRAME_SET_LENGTH len 0]
             else
               (if len < 65536 then [126]
                else [127] @ map (FRAME_SET_LENGTH len) [7, 6, 5, 4, 3, 2])
               @ map (FRAME_SET_LENGTH len) [1, 0])
      in frame_header @ ptr)"

section \<open>The ring buffer is a queue\<close>

definition q_wf :: "queue \<Rightarrow> bool" where
  "q_wf q \<longleftrightarrow> 0 < q_cap q \<and> length (q_queue q) = q_cap q \<and> q_head q < q_cap q \<and> q_tail q < q_cap q"

definition q_count :: "queue \<Rightarrow> nat" where
  "q_count q = (if q_head q \<le> q_tail q then q_tail q - q_head q else q_tail q + q_cap q - q_head q)"

definition q_items :: "queue \<Rightarrow> netpack list" where
  "q_items q = map (\<lambda>i. q_queue q ! ((q_head q + i) mod q_cap q)) [0..<q_count q]"

lemma mod_once: "(k :: nat) < 2 * c \<Longrightarrow> k mod c = (if k < c then k else k - c)"
  by (simp add: mod_if)

lemma get_queue_wf: "q_wf (get_queue None)" "q_items (get_queue None) = []"
  by (simp_all add: get_queue_def q_wf_def q_items_def q_count_def QUEUESIZE_def)

lemma push_data_correct:
  assumes wf: "q_wf (get_queue qo)"
  shows "q_wf (push_data qo fd b n)"
    "q_items (push_data qo fd b n) =
       q_items (get_queue qo) @ [\<lparr> np_id = fd, np_size = n, np_buffer = b \<rparr>]"
    "q_hash (push_data qo fd b n) = q_hash (get_queue qo)"
proof -
  define q where "q = get_queue qo"
  define np where "np = \<lparr> np_id = fd, np_size = n, np_buffer = b \<rparr>"
  define tl' where "tl' = (if q_tail q + 1 \<ge> q_cap q then q_tail q + 1 - q_cap q else q_tail q + 1)"
  define q1 where "q1 = q\<lparr>q_queue := (q_queue q)[q_tail q := np], q_tail := tl'\<rparr>"
  have P: "push_data qo fd b n = (if q_head q1 = q_tail q1 then expand_queue q1 else q1)"
    by (simp add: push_data_def q_def np_def tl'_def q1_def Let_def)
  have w: "0 < q_cap q" "length (q_queue q) = q_cap q" "q_head q < q_cap q" "q_tail q < q_cap q"
    using wf by (simp_all add: q_wf_def q_def)
  have tl: "tl' < q_cap q" using w by (auto simp: tl'_def)
  have cnt: "q_count q < q_cap q" "(q_head q + q_count q) mod q_cap q = q_tail q"
    using w by (auto simp: q_count_def mod_once)
  have cell: "q_queue q1 ! ((q_head q + i) mod q_cap q) =
      (if i = q_count q then np else q_queue q ! ((q_head q + i) mod q_cap q))" if "i < q_cap q" for i
  proof -
    have "(q_head q + i) mod q_cap q = q_tail q \<longleftrightarrow> i = q_count q"
      using w that by (auto simp: q_count_def mod_once)
    then show ?thesis using w by (auto simp: q1_def nth_list_update)
  qed
  have items: "map (\<lambda>i. q_queue q1 ! ((q_head q + i) mod q_cap q)) [0..<q_count q + 1] = q_items q @ [np]"
    using cnt(1) by (simp add: q_items_def cell)
  have full: "q_head q1 = q_tail q1 \<longleftrightarrow> q_count q + 1 = q_cap q"
    using w by (auto simp: q1_def tl'_def q_count_def)
  have nofull: "q_count q1 = q_count q + 1" if "q_head q1 \<noteq> q_tail q1"
    using that w by (auto simp: q1_def tl'_def q_count_def)
  have ex: "q_items (expand_queue q1) = map (\<lambda>i. q_queue q1 ! ((q_head q + i) mod q_cap q)) [0..<q_cap q]"
    by (rule nth_equalityI) (simp_all add: q_items_def q_count_def expand_queue_def q1_def QUEUESIZE_def nth_append)
  have "q_wf (if q_head q1 = q_tail q1 then expand_queue q1 else q1)"
    using w tl by (auto simp: q_wf_def expand_queue_def q1_def QUEUESIZE_def)
  moreover have "q_items (if q_head q1 = q_tail q1 then expand_queue q1 else q1) = q_items q @ [np]"
  proof (cases "q_head q1 = q_tail q1")
    case True
    then show ?thesis using ex items full by simp
  next
    case False
    then show ?thesis using items nofull by (simp add: q_items_def [of q1]) (simp add: q1_def)
  qed
  ultimately show "q_wf (push_data qo fd b n)"
    "q_items (push_data qo fd b n) = q_items (get_queue qo) @ [\<lparr> np_id = fd, np_size = n, np_buffer = b \<rparr>]"
    by (simp_all add: P q_def np_def)
  show "q_hash (push_data qo fd b n) = q_hash (get_queue qo)"
    by (simp add: P expand_queue_def q1_def q_def)
qed

lemma lpop_correct:
  assumes wf: "q_wf q"
  shows "q_items q = [] \<Longrightarrow> lpop (Some q) = None"
    "q_items q = np # nps \<Longrightarrow> \<exists>q'. lpop (Some q) = Some (np, q') \<and> q_wf q' \<and> q_items q' = nps \<and> q_hash q' = q_hash q"
proof -
  have w: "0 < q_cap q" "q_head q < q_cap q" "q_tail q < q_cap q" using wf by (simp_all add: q_wf_def)
  have emp: "q_items q = [] \<longleftrightarrow> q_head q = q_tail q" using w by (auto simp: q_items_def q_count_def)
  then show "q_items q = [] \<Longrightarrow> lpop (Some q) = None" by (simp add: lpop_def)
  assume it: "q_items q = np # nps"
  define h' where "h' = (if q_head q + 1 \<ge> q_cap q then 0 else q_head q + 1)"
  let ?q = "q\<lparr>q_head := h'\<rparr>"
  have ne: "q_head q \<noteq> q_tail q" using it emp by auto
  have c: "q_count q = Suc (q_count ?q)" using ne w by (auto simp: q_count_def h'_def)
  have sh: "(h' + i) mod q_cap q = (q_head q + Suc i) mod q_cap q" for i
  proof (cases "q_head q + 1 \<ge> q_cap q")
    case True
    then have "q_head q + Suc i = i + q_cap q" using w by simp
    then show ?thesis using True by (simp only: h'_def if_True mod_add_self2 add_0)
  qed (simp add: h'_def)
  have "q_items q = q_queue q ! q_head q # q_items ?q"
    unfolding q_items_def c upt_conv_Cons [OF zero_less_Suc] map_Suc_upt [symmetric]
    using w sh by simp
  then show "\<exists>q'. lpop (Some q) = Some (np, q') \<and> q_wf q' \<and> q_items q' = nps \<and> q_hash q' = q_hash q"
    using it ne wf by (auto simp: lpop_def h'_def [symmetric] q_wf_def) (simp_all add: h'_def)
qed

definition slot_wf :: "queue option \<Rightarrow> bool" where "slot_wf qo \<longleftrightarrow> q_wf (get_queue qo)"
definition slot_items :: "queue option \<Rightarrow> netpack list" where "slot_items qo = q_items (get_queue qo)"
definition slot_push :: "queue option \<Rightarrow> netpack \<Rightarrow> queue option" where
  "slot_push qo np = Some (push_data qo (np_id np) (np_buffer np) (np_size np))"
definition slot_pop :: "queue option \<Rightarrow> (netpack \<times> queue option) option" where
  "slot_pop qo = map_option (\<lambda>(np, q). (np, Some q)) (lpop qo)"

lemma get_queue_Some [simp]: "get_queue (Some q) = q"
  by (simp add: get_queue_def)

interpretation ws_queue: fifo slot_wf slot_items slot_push slot_pop
proof
  fix qo :: "queue option" and np :: netpack and nps
  assume wf: "slot_wf qo"
  show "slot_wf (slot_push qo np)" "slot_items (slot_push qo np) = slot_items qo @ [np]"
    using wf push_data_correct [of qo] by (simp_all add: slot_wf_def slot_items_def slot_push_def)
  show "slot_items qo = [] \<Longrightarrow> slot_pop qo = None"
    using wf lpop_correct(1) by (cases qo) (simp_all add: slot_wf_def slot_items_def slot_pop_def lpop_def)
  show "\<exists>s'. slot_pop qo = Some (np, s') \<and> slot_wf s' \<and> slot_items s' = nps" if "slot_items qo = np # nps"
  proof (cases qo)
    case None
    then show ?thesis using that by (simp add: slot_items_def get_queue_wf)
  next
    case (Some q)
    then show ?thesis using that wf lpop_correct(2) [of q np nps]
      by (auto simp: slot_wf_def slot_items_def slot_pop_def)
  qed
qed

section \<open>Masking\<close>

lemma xor_mask_nth: "i < length bs \<Longrightarrow>
   xor_mask ms k bs ! i = bs ! i XOR ms ! nat ((int i + k) mod int WEBSOCKET_MASK_LEN)"
  by (simp add: xor_mask_def)

lemma xor_mask_append: "xor_mask ms k (xs @ ys) = xor_mask ms k xs @ xor_mask ms (k + int (length xs)) ys"
  by (rule nth_equalityI) (auto simp: xor_mask_nth nth_append algebra_simps of_nat_diff)

lemma xor_mask_involution: "xor_mask ms k (xor_mask ms k bs) = bs"
  by (rule nth_equalityI) (simp_all add: xor_mask_nth xor.assoc)

lemma xor_mask_Nil [simp]: "xor_mask ms k [] = []"
  by (simp add: xor_mask_def)

lemma xor_mask_take: "take n (xor_mask ms k bs) = xor_mask ms k (take n bs)"
  by (rule nth_equalityI) (simp_all add: xor_mask_nth)

lemma xor_mask_drop: "drop n (xor_mask ms k bs) = xor_mask ms (k + int n) (drop n bs)"
  by (rule nth_equalityI) (simp_all add: xor_mask_nth algebra_simps)

section \<open>Frames\<close>

text \<open>A frame on the wire, by RFC 6455: the FIN bit and an opcode, the mask bit and the length in one
  of its three forms, the mask, and the payload with the mask applied.\<close>

definition be_bytes :: "nat \<Rightarrow> int \<Rightarrow> byte list" where
  "be_bytes n x = map (\<lambda>i. word_of_int (x div 256 ^ i)) (rev [0..<n])"

definition mask_bit :: "byte list option \<Rightarrow> byte" where
  "mask_bit m = (if m = None then 0 else 0x80)"

definition ws_head :: "byte \<Rightarrow> byte list option \<Rightarrow> int \<Rightarrow> byte list" where
  "ws_head opc m n =
     [0x80 OR opc] @
     (if n < 126 then [mask_bit m OR word_of_int n]
      else if n < 65536 then (mask_bit m OR 126) # be_bytes 2 n
      else (mask_bit m OR 127) # be_bytes 8 n) @
     (case m of None \<Rightarrow> [] | Some mk \<Rightarrow> mk)"

definition ws_body :: "byte list option \<Rightarrow> byte list \<Rightarrow> byte list" where
  "ws_body m p = (case m of None \<Rightarrow> p | Some mk \<Rightarrow> xor_mask mk 0 p)"

definition ws_frame :: "byte \<Rightarrow> byte list option \<Rightarrow> byte list \<Rightarrow> byte list" where
  "ws_frame opc m p = ws_head opc m (int (length p)) @ ws_body m p"

text \<open>The opcodes that reach the application, and a mask of the right length.\<close>

definition op_ok :: "byte \<Rightarrow> bool" where
  "op_ok opc \<longleftrightarrow> opc \<in> {1, 2, 3, 4, 5, 6, 7, 9, 10, 11, 12, 13, 14, 15}"

definition mask_ok :: "byte list option \<Rightarrow> bool" where
  "mask_ok m \<longleftrightarrow> (\<forall>mk. m = Some mk \<longrightarrow> length mk = WEBSOCKET_MASK_LEN)"

lemma first_byte:
  assumes "op_ok opc"
  shows "drop_bit 7 (0x80 OR opc) AND 1 = 1" "drop_bit 6 (0x80 OR opc) AND 1 = 0"
    "drop_bit 5 (0x80 OR opc) AND 1 = 0" "drop_bit 4 (0x80 OR opc) AND 1 = 0"
    "(0x80 OR opc) AND 0xf = opc"
  using assms by (auto simp: op_ok_def drop_bit_or)

lemma second_byte:
  assumes "l < (128 :: byte)"
  shows "drop_bit 7 (mask_bit m OR l) AND 1 = (if m = None then 0 else 1)"
    "(mask_bit m OR l) AND 0x7f = l"
proof -
  have l: "take_bit 7 l = l"
    using assms by (simp add: word_uint_eq_iff unsigned_take_bit_eq word_less_def)
      (simp add: take_bit_eq_mod)
  have m: "(0x7f :: byte) = mask 7" by (simp add: mask_eq_exp_minus_1)
  have "drop_bit 7 l = 0" using l by (metis drop_bit_take_bit take_bit_0 diff_self_eq_0)
  then show "drop_bit 7 (mask_bit m OR l) AND 1 = (if m = None then 0 else 1)"
    by (simp add: mask_bit_def drop_bit_or)
  have "(0x80 :: byte) AND 0x7f = 0" by simp
  then have "mask_bit m AND 0x7f = 0" by (simp add: mask_bit_def)
  then show "(mask_bit m OR l) AND 0x7f = l"
    using l by (simp add: bit.conj_disj_distrib2 m take_bit_eq_mask)
qed

lemma load_le_8:
  "0 \<le> load_le bs"
  by (induction bs) (simp_all add: load_le_def)

lemma and_0xffffffff: "(x :: int) AND 0xFFFFFFFF = x mod 2 ^ 32"
  using take_bit_eq_mask [of 32 x] by (simp add: take_bit_eq_mod mask_eq_exp_minus_1)

lemma ntoh64_load:
  "ntoh64 (load_le [a, b, c, d, e, f, g, h]) =
     uint a * 2 ^ 56 + uint b * 2 ^ 48 + uint c * 2 ^ 40 + uint d * 2 ^ 32 +
     uint e * 2 ^ 24 + uint f * 2 ^ 16 + uint g * 256 + uint h"
proof -
  let ?y = "load_le [a, b, c, d, e, f, g, h]"
  have l: "ntohl (?y AND 0xFFFFFFFF) = uint a * 2 ^ 24 + uint b * 2 ^ 16 + uint c * 256 + uint d"
    by (rule ntohl_load [of _ a b c d "[e, f, g, h]"]) (simp_all add: and_0xffffffff)
  have "?y div 2 ^ 32 = ?y div 256 div 256 div 256 div 256" by (simp add: zdiv_zmult2_eq [symmetric])
  then have s: "drop_bit 32 ?y = load_le [e, f, g, h]" unfolding drop_bit_eq_div load_le_digits .
  have h: "ntohl (drop_bit 32 ?y AND 0xFFFFFFFF) = uint e * 2 ^ 24 + uint f * 2 ^ 16 + uint g * 256 + uint h"
    unfolding s by (rule ntohl_load [of _ e f g h "[]"]) (simp_all add: and_0xffffffff)
  let ?h = "uint e * 2 ^ 24 + uint f * 2 ^ 16 + uint g * 256 + uint h"
  have "0 \<le> ?h" by simp
  have "?h \<le> 255 * 2 ^ 24 + 255 * 2 ^ 16 + 255 * 256 + 255"
    by (intro add_mono mult_right_mono uint_byte_bounds) simp_all
  then have "?h < 2 ^ 32" by simp
  show ?thesis
    unfolding ntoh64_def Let_def l h push_bit_eq_mult or_add_low [OF \<open>0 \<le> ?h\<close> \<open>?h < 2 ^ 32\<close>]
    by simp
qed

lemma be_bytes_simps:
  "be_bytes 2 n = [word_of_int (n div 256), word_of_int n]"
  "be_bytes 8 n = [word_of_int (n div 256 ^ 7), word_of_int (n div 256 ^ 6), word_of_int (n div 256 ^ 5),
     word_of_int (n div 256 ^ 4), word_of_int (n div 256 ^ 3), word_of_int (n div 256 ^ 2),
     word_of_int (n div 256), word_of_int n]"
  by (simp_all add: be_bytes_def upt_conv_Cons numeral_eq_Suc)

lemma ntohs_be: "0 \<le> n \<Longrightarrow> n < 65536 \<Longrightarrow> ntohs (load_le (be_bytes 2 n)) = n"
  by (simp add: be_bytes_simps ntohs_load uint_byte_of_int)

lemma ntoh64_be:
  assumes "0 \<le> n" "n < 2 ^ 64"
  shows "ntoh64 (load_le (be_bytes 8 n)) = n"
proof -
  define D where "D k = n div 256 ^ k" for k
  have "D (Suc k) = D k div 256" for k unfolding D_def power_Suc2 by (rule zdiv_zmult2_eq) simp
  then have D: "D k = 256 * D (Suc k) + D k mod 256" for k by simp
  have u: "uint (word_of_int (D k) :: byte) = D k mod 256" for k by (simp add: uint_byte_of_int)
  have "D 7 < 256" "0 \<le> D 7" using assms by (simp_all add: D_def)
  then have t: "D 7 mod 256 = D 7" by simp
  have "n = D 0" by (simp add: D_def)
  have "ntoh64 (load_le (be_bytes 8 n)) =
     D 7 mod 256 * 2 ^ 56 + D 6 mod 256 * 2 ^ 48 + D 5 mod 256 * 2 ^ 40 + D 4 mod 256 * 2 ^ 32 +
     D 3 mod 256 * 2 ^ 24 + D 2 mod 256 * 2 ^ 16 + D 1 mod 256 * 256 + D 0 mod 256"
    unfolding be_bytes_simps ntoh64_load u [symmetric] by (simp add: D_def)
  also have "\<dots> = D 0"
  proof -
    have e: "D 0 = 256 * D 1 + D 0 mod 256" "D 1 = 256 * D 2 + D 1 mod 256" "D 2 = 256 * D 3 + D 2 mod 256"
      "D 3 = 256 * D 4 + D 3 mod 256" "D 4 = 256 * D 5 + D 4 mod 256" "D 5 = 256 * D 6 + D 5 mod 256"
      "D 6 = 256 * D 7 + D 6 mod 256"
      using D [of 0] D [of 1] D [of 2] D [of 3] D [of 4] D [of 5] D [of 6] by (simp_all only: eval_nat_numeral One_nat_def BitM.simps)
    have "a7 * 2 ^ 56 + a6 * 2 ^ 48 + a5 * 2 ^ 40 + a4 * 2 ^ 32 + a3 * 2 ^ 24 + a2 * 2 ^ 16 + a1 * 256 + a0 = x"
      if "x = 256 * x1 + a0" "x1 = 256 * x2 + a1" "x2 = 256 * x3 + a2" "x3 = 256 * x4 + a3"
        "x4 = 256 * x5 + a4" "x5 = 256 * x6 + a5" "x6 = 256 * a7 + a6"
      for a0 a1 a2 a3 a4 a5 a6 a7 x x1 x2 x3 x4 x5 x6 :: int
      unfolding that by simp
    from this [OF e(1-6)] e(7) t show ?thesis by simp
  qed
  finally show ?thesis using \<open>n = D 0\<close> by simp
qed

text \<open>A valid first pair of bytes leaves only the length form and the mask to be read.\<close>

definition finish_head :: "byte list option \<Rightarrow> byte list \<Rightarrow> int \<Rightarrow> nat \<Rightarrow> int \<times> nat \<times> byte list option" where
  "finish_head m buffer n offset =
     (if m = None then (n, offset, None)
      else if offset + WEBSOCKET_MASK_LEN > length buffer then (-1, 0, None)
      else (n, offset + WEBSOCKET_MASK_LEN, Some (take WEBSOCKET_MASK_LEN (drop offset buffer))))"

lemma read_size_valid:
  assumes "op_ok opc" "l < 128" "buffer = (0x80 OR opc) # (mask_bit m OR l) # bs"
  shows "read_size buffer =
     (if l < 126 then finish_head m buffer (uint l) 2
      else if l = 126 then
        (if length buffer < 4 then (-1, 0, None)
         else finish_head m buffer (ntohs (load_le (take 2 bs))) 4)
      else
        (if length buffer < 10 then (-1, 0, None)
         else finish_head m buffer (s32 (ntoh64 (load_le (take 8 bs)))) 10))"
proof -
  have nth: "buffer ! 0 = 0x80 OR opc" "buffer ! 1 = mask_bit m OR l" "\<not> length buffer < 2"
      "take k (drop 2 buffer) = take k bs" for k
    by (simp_all add: assms(3))
  have opc: "opc \<noteq> 0" "opc \<noteq> 8" using assms(1) by (auto simp: op_ok_def)
  show ?thesis
    unfolding read_size_def Let_def nth first_byte [OF assms(1)] second_byte [OF assms(2)]
      WEBSOCKET_HEADER_LEN_def finish_head_def
    using opc nth(3,4) by (simp add: assms(3))
qed

lemma be_bytes_length [simp]: "length (be_bytes k n) = k"
  by (simp add: be_bytes_def)

lemma ws_head_form:
  assumes "0 \<le> n"
  obtains l bs where "ws_head opc m n = (0x80 OR opc) # (mask_bit m OR l) # bs @ (case m of None \<Rightarrow> [] | Some mk \<Rightarrow> mk)"
    "l < 128" "n < 126 \<Longrightarrow> l = word_of_int n \<and> bs = [] \<and> uint l = n \<and> l < 126"
    "126 \<le> n \<Longrightarrow> n < 65536 \<Longrightarrow> l = 126 \<and> bs = be_bytes 2 n" "65536 \<le> n \<Longrightarrow> l = 127 \<and> bs = be_bytes 8 n"
proof -
  consider "n < 126" | "126 \<le> n" "n < 65536" | "65536 \<le> n" by linarith
  then show thesis
  proof cases
    case 1
    then have "uint (word_of_int n :: byte) = n" using assms by (simp add: uint_byte_of_int)
    with 1 show thesis
      by (intro that [of "word_of_int n" "[]"]) (simp_all add: ws_head_def word_less_def)
  next
    case 2
    then show thesis by (intro that [of 126 "be_bytes 2 n"]) (simp_all add: ws_head_def)
  next
    case 3
    then show thesis by (intro that [of 127 "be_bytes 8 n"]) (simp_all add: ws_head_def)
  qed
qed

lemma read_size_frame:
  assumes "op_ok opc" "mask_ok m" "0 \<le> n" "n < 2 ^ 31"
  shows "read_size (ws_head opc m n @ rest) = (n, length (ws_head opc m n), m)"
proof -
  obtain l bs where h: "ws_head opc m n = (0x80 OR opc) # (mask_bit m OR l) # bs @ (case m of None \<Rightarrow> [] | Some mk \<Rightarrow> mk)"
      "l < 128" "n < 126 \<Longrightarrow> l = word_of_int n \<and> bs = [] \<and> uint l = n \<and> l < 126"
      "126 \<le> n \<Longrightarrow> n < 65536 \<Longrightarrow> l = 126 \<and> bs = be_bytes 2 n" "65536 \<le> n \<Longrightarrow> l = 127 \<and> bs = be_bytes 8 n"
    using ws_head_form [OF assms(3), of opc m] by blast
  let ?m = "case m of None \<Rightarrow> [] | Some mk \<Rightarrow> mk"
  have fin: "finish_head m (ws_head opc m n @ rest) n (length bs + 2) = (n, length (ws_head opc m n), m)"
    using assms(2) unfolding h(1) by (cases m) (simp_all add: finish_head_def mask_ok_def)
  have R: "read_size (ws_head opc m n @ rest) =
     (if l < 126 then finish_head m (ws_head opc m n @ rest) (uint l) 2
      else if l = 126 then
        (if length (ws_head opc m n @ rest) < 4 then (-1, 0, None)
         else finish_head m (ws_head opc m n @ rest) (ntohs (load_le (take 2 (bs @ ?m @ rest)))) 4)
      else
        (if length (ws_head opc m n @ rest) < 10 then (-1, 0, None)
         else finish_head m (ws_head opc m n @ rest) (s32 (ntoh64 (load_le (take 8 (bs @ ?m @ rest))))) 10))"
    by (rule read_size_valid [OF assms(1) h(2)]) (simp add: h(1))
  consider "n < 126" | "126 \<le> n" "n < 65536" | "65536 \<le> n" by linarith
  then show ?thesis
  proof cases
    case 1
    then have l: "l < 126" "uint l = n" "length bs = 0" using h(3) by auto
    then show ?thesis using R fin by (simp only: if_True add_0)
  next
    case 2
    then have l: "l = 126" "bs = be_bytes 2 n" using h(4) by auto
    have "ntohs (load_le (take 2 (bs @ ?m @ rest))) = n" using ntohs_be [OF assms(3) 2(2)] by (simp add: l)
    then show ?thesis using R fin by (simp add: l h(1))
  next
    case 3
    then have l: "l = 127" "bs = be_bytes 8 n" using h(5) by auto
    have "ntoh64 (load_le (take 8 (bs @ ?m @ rest))) = n" using ntoh64_be [of n] assms(3,4) by (simp add: l)
    moreover have "s32 n = n" using assms(3,4) by (simp add: s32_id)
    ultimately show ?thesis using R fin by (simp add: l h(1))
  qed
qed

lemma read_size_prefix:
  assumes "op_ok opc" "mask_ok m" "0 \<le> n" "k < length (ws_head opc m n)"
  shows "read_size (take k (ws_head opc m n)) = (-1, 0, None)"
proof (cases "k < 2")
  case True
  then show ?thesis by (intro read_size_fail) simp
next
  case False
  then obtain j where j: "k = Suc (Suc j)" by (metis Suc_1 add_2_eq_Suc le_add_diff_inverse not_less)
  obtain l bs where h: "ws_head opc m n = (0x80 OR opc) # (mask_bit m OR l) # bs @ (case m of None \<Rightarrow> [] | Some mk \<Rightarrow> mk)"
      "l < 128" "n < 126 \<Longrightarrow> l = word_of_int n \<and> bs = [] \<and> uint l = n \<and> l < 126"
      "126 \<le> n \<Longrightarrow> n < 65536 \<Longrightarrow> l = 126 \<and> bs = be_bytes 2 n" "65536 \<le> n \<Longrightarrow> l = 127 \<and> bs = be_bytes 8 n"
    using ws_head_form [OF assms(3), of opc m] by blast
  let ?m = "case m of None \<Rightarrow> [] | Some mk \<Rightarrow> mk" and ?t = "take k (ws_head opc m n)"
  have t: "?t = (0x80 OR opc) # (mask_bit m OR l) # take j (bs @ ?m)" by (simp add: h(1) j)
  have len: "length ?t = k" using assms(4) by simp
  have ml: "length ?m = (if m = None then 0 else 4)"
    using assms(2) by (cases m) (simp_all add: mask_ok_def WEBSOCKET_MASK_LEN_def)
  have kl: "k < length bs + length ?m + 2" using assms(4) by (simp add: h(1))
  have fin: "finish_head m ?t x (length bs + 2) = (-1, 0, None)" if "length bs + 2 \<le> k" for x
    using kl that len ml by (cases m) (simp_all add: finish_head_def WEBSOCKET_MASK_LEN_def)
  note R = read_size_valid [OF assms(1) h(2) t]
  consider "n < 126" | "126 \<le> n" "n < 65536" | "65536 \<le> n" by linarith
  then show ?thesis
  proof cases
    case 1
    then have l: "l < 126" "length bs = 0" using h(3) by auto
    then show ?thesis using R fin False by (simp only: if_True add_0 not_less)
  next
    case 2
    then have l: "l = 126" "length bs = 2" using h(4) by auto
    then show ?thesis using R fin len by (cases "k < 4") simp_all
  next
    case 3
    then have l: "l = 127" "length bs = 8" using h(5) by auto
    then show ?thesis using R fin len by (cases "k < 10") simp_all
  qed
qed

section \<open>Reassembling a frame from chunks\<close>

text \<open>The half-received frames of a connection.\<close>

definition pending :: "queue option \<Rightarrow> int \<Rightarrow> uncomplete list" where
  "pending qo fd = filter (\<lambda>uc. uc_id uc = fd) (q_hash (get_queue qo) (hash_fd fd))"

text \<open>Two slots with the same queued packets.\<close>

definition same_items :: "queue option \<Rightarrow> queue option \<Rightarrow> bool" where
  "same_items qo qo' \<longleftrightarrow> slot_items qo' = slot_items qo \<and> (slot_wf qo \<longrightarrow> slot_wf qo')"

lemma slot_hash_update [simp]:
  "slot_items (Some (q\<lparr>q_hash := h\<rparr>)) = q_items q" "slot_wf (Some (q\<lparr>q_hash := h\<rparr>)) = q_wf q"
  by (simp_all add: slot_items_def slot_wf_def q_items_def q_count_def q_wf_def)

lemma same_items_link: "same_items qo (Some (link_uncomplete (get_queue qo) fd uc))"
  by (simp add: same_items_def link_uncomplete_def) (simp add: slot_items_def slot_wf_def)

lemma same_items_save: "same_items qo (Some (save_uncomplete qo uc))"
  unfolding save_uncomplete_def by (rule same_items_link)

lemma same_items_trans: "same_items a b \<Longrightarrow> same_items b c \<Longrightarrow> same_items a c"
  by (simp add: same_items_def)

lemma pending_link:
  "uc_id uc = fd \<Longrightarrow> pending (Some (link_uncomplete q fd uc)) fd = uc # pending (Some q) fd"
  by (simp add: pending_def link_uncomplete_def)

lemma pending_get [simp]: "pending (Some (get_queue qo)) fd = pending qo fd"
  by (simp add: pending_def)

lemma pending_save: "uc_id uc = fd \<Longrightarrow> pending (Some (save_uncomplete qo uc)) fd = uc # pending qo fd"
  by (simp add: save_uncomplete_def pending_link)

lemma unlink_none: "filter (\<lambda>u. uc_id u = fd) us = [] \<Longrightarrow> unlink fd us = None"
  by (induction us) auto

lemma unlink_some:
  "filter (\<lambda>u. uc_id u = fd) us = uc # ucs \<Longrightarrow>
   \<exists>rest. unlink fd us = Some (uc, rest) \<and> filter (\<lambda>u. uc_id u = fd) rest = ucs"
proof (induction us)
  case (Cons u us)
  then show ?case by (cases "uc_id u = fd") auto
qed simp

lemma find_none: "pending qo fd = [] \<Longrightarrow> find_uncomplete qo fd = (None, qo)"
  by (cases qo) (simp_all add: pending_def find_uncomplete_def unlink_none)

lemma find_some:
  assumes "pending qo fd = [uc]"
  shows "\<exists>qo'. find_uncomplete qo fd = (Some uc, qo') \<and> pending qo' fd = [] \<and> same_items qo qo'"
proof (cases qo)
  case None
  then show ?thesis using assms by (simp add: pending_def get_queue_def)
next
  case (Some q)
  then obtain rest where "unlink fd (q_hash q (hash_fd fd)) = Some (uc, rest)"
      "filter (\<lambda>u. uc_id u = fd) rest = []"
    using assms unlink_some [of fd "q_hash q (hash_fd fd)" uc "[]"] by (auto simp: pending_def)
  then show ?thesis using Some
    by (simp add: find_uncomplete_def pending_def same_items_def) (simp add: slot_items_def slot_wf_def)
qed

lemma skip_frames_stop: "\<not> bad_frame a (fst (read_size b)) \<Longrightarrow> skip_frames a b = (read_size b, b)"
  by (subst skip_frames.simps) (simp add: Let_def)

text \<open>A frame that fits: valid opcode and mask, and a payload the splitter does not cut off.\<close>

definition frame_fits :: "byte \<Rightarrow> byte list option \<Rightarrow> byte list \<Rightarrow> bool" where
  "frame_fits opc m p \<longleftrightarrow> op_ok opc \<and> mask_ok m \<and> int (length p) \<le> MAX_PACKSIZE"

lemma next_frame_complete:
  assumes "frame_fits opc m p"
  shows "next_frame a False (ws_head opc m (int (length p)) @ rest) =
     (int (length p), length (ws_head opc m (int (length p))), m, ws_head opc m (int (length p)) @ rest)"
proof -
  have "read_size (ws_head opc m (int (length p)) @ rest) =
      (int (length p), length (ws_head opc m (int (length p))), m)"
    using assms by (intro read_size_frame) (auto simp: frame_fits_def MAX_PACKSIZE_def)
  then show ?thesis
    using assms skip_frames_stop [of a "ws_head opc m (int (length p)) @ rest"]
    by (simp add: next_frame_def bad_frame_def clamp_pack_def frame_fits_def)
qed

lemma next_frame_partial:
  assumes "frame_fits opc m p" "k < length (ws_head opc m (int (length p)))"
  shows "next_frame a False (take k (ws_head opc m (int (length p)))) =
     (-1, 0, None, take k (ws_head opc m (int (length p))))"
proof -
  have "read_size (take k (ws_head opc m (int (length p)))) = (-1, 0, None)"
    using assms by (intro read_size_prefix) (auto simp: frame_fits_def)
  then show ?thesis
    using skip_frames_stop [of a "take k (ws_head opc m (int (length p)))"]
    by (simp add: next_frame_def bad_frame_def clamp_pack_def MAX_PACKSIZE_def)
qed

lemma length_ws_head:
  assumes "mask_ok m" "0 \<le> n"
  shows "2 \<le> length (ws_head opc m n)" "length (ws_head opc m n) \<le> 14"
  using assms by (auto simp: ws_head_def mask_ok_def WEBSOCKET_MASK_LEN_def split: option.splits)

lemma length_ws_body [simp]: "length (ws_body m p) = length p"
  by (simp add: ws_body_def split: option.splits)

text \<open>Unmasking a piece of the body that starts at offset \<open>i\<close>.\<close>

lemma decode_piece:
  assumes "uc_ismask uc \<longleftrightarrow> m \<noteq> None" "\<And>mk. m = Some mk \<Longrightarrow> uc_mask uc = mk \<and> uc_hasunmask_size uc = int i"
  shows "fst (decode_wsmask_data (take j (drop i (ws_body m p)) @ rest) (int (length (take j (drop i (ws_body m p))))) uc) =
     take j (drop i p) @ rest"
proof (cases m)
  case None
  then show ?thesis using assms(1) by (simp add: decode_wsmask_data_def ws_body_def)
next
  case (Some mk)
  then have "take j (drop i (ws_body m p)) = xor_mask mk (int i) (take j (drop i p))"
    by (simp add: ws_body_def xor_mask_drop xor_mask_take)
  then show ?thesis using assms Some
    by (simp add: decode_wsmask_data_def xor_mask_involution)
qed

text \<open>What the record of a connection says after the first \<open>k\<close> bytes of a frame.\<close>

definition head_state :: "byte \<Rightarrow> byte list option \<Rightarrow> byte list \<Rightarrow> nat \<Rightarrow> uncomplete \<Rightarrow> bool" where
  "head_state opc m p k uc \<longleftrightarrow>
     k < length (ws_head opc m (int (length p))) \<and> uc_read uc = -1 \<and>
     uc_header uc = take k (ws_head opc m (int (length p)))"

definition body_state :: "byte list option \<Rightarrow> byte list \<Rightarrow> nat \<Rightarrow> uncomplete \<Rightarrow> bool" where
  "body_state m p i uc \<longleftrightarrow>
     i \<le> length p \<and> uc_size uc = int (length p) \<and> uc_read uc = int i \<and> uc_buffer uc = take i p \<and>
     (uc_ismask uc \<longleftrightarrow> m \<noteq> None) \<and> (\<forall>mk. m = Some mk \<longrightarrow> uc_mask uc = mk \<and> uc_hasunmask_size uc = int i)"

definition frame_state :: "int \<Rightarrow> byte \<Rightarrow> byte list option \<Rightarrow> byte list \<Rightarrow> nat \<Rightarrow> uncomplete \<Rightarrow> bool" where
  "frame_state fd opc m p k uc \<longleftrightarrow> uc_id uc = fd \<and>
     (head_state opc m p k uc \<or>
      length (ws_head opc m (int (length p))) \<le> k \<and>
      body_state m p (k - length (ws_head opc m (int (length p)))) uc)"

lemma decode_piece':
  assumes "body_state m p i uc"
  shows "fst (decode_wsmask_data (take j (drop i (ws_body m p)) @ rest)
       (int (length (take j (drop i (ws_body m p))))) uc) = take j (drop i p) @ rest"
  using assms by (intro decode_piece) (auto simp: body_state_def)

lemma take_take_drop: "i \<le> length p \<Longrightarrow> take i p @ take j (drop i p) = take (i + j) p"
  by (simp add: take_add)

text \<open>Payload bytes that do not complete the frame are kept; the ones that do deliver it.\<close>

lemma fill_payload_partial:
  assumes st: "body_state m p i uc" "uc_id uc = fd" and j: "i + j < length p" and pe: "pending qo fd = []"
  shows "\<exists>qo' uc'. fill_payload qo fd uc (take j (drop i (ws_body m p))) False = Inr (qo', WsQueue) \<and>
     pending qo' fd = [uc'] \<and> uc_id uc' = fd \<and> body_state m p (i + j) uc' \<and> same_items qo qo'"
proof -
  let ?b = "take j (drop i (ws_body m p))"
  have l: "length ?b = j" using j by simp
  define uc' where "uc' = (snd (decode_wsmask_data ?b (int j) uc))
      \<lparr>uc_buffer := uc_buffer uc @ fst (decode_wsmask_data ?b (int j) uc), uc_read := uc_read uc + int j\<rparr>"
  have "fst (decode_wsmask_data ?b (int j) uc) = take j (drop i p)"
    using decode_piece' [OF st(1), of j "[]"] l by simp
  then have "body_state m p (i + j) uc'" "uc_id uc' = fd"
    using st j by (auto simp: body_state_def uc'_def decode_wsmask_data_def take_take_drop)
  moreover have "fill_payload qo fd uc ?b False = Inr (Some (link_uncomplete (get_queue qo) fd uc'), WsQueue)"
    using st(1) j l unfolding fill_payload_def uc'_def
    by (simp add: body_state_def split_def Let_def)
  moreover have "pending (Some (link_uncomplete (get_queue qo) fd uc')) fd = [uc']"
    using pending_link [of uc' fd "get_queue qo"] \<open>uc_id uc' = fd\<close> pe by simp
  ultimately show ?thesis using same_items_link by blast
qed

lemma fill_payload_complete:
  assumes st: "body_state m p i uc"
  shows "fill_payload qo fd uc (drop i (ws_body m p)) False = Inr (qo, WsData fd p (int (length p)))"
proof -
  let ?b = "drop i (ws_body m p)"
  have i: "i \<le> length p" using st by (simp add: body_state_def)
  have "fst (decode_wsmask_data ?b (int (length ?b)) uc) = drop i p"
    using decode_piece' [OF st, of "length p - i" "[]"] by simp
  moreover have "uc_size uc - uc_read uc = int (length ?b)" using st i by (simp add: body_state_def of_nat_diff)
  moreover have "nat (int (length p) - int i) = length p - i" by simp
  ultimately show ?thesis using st i by (simp add: fill_payload_def body_state_def Let_def)
qed

text \<open>Head bytes, one at a time.\<close>

lemma fill_head_partial:
  assumes "frame_fits opc m p" "hdr = ws_head opc m (int (length p))" "k + length b < length hdr"
    "b = take (length b) (drop k hdr)" "b \<noteq> []"
  shows "fill_head False (take k hdr) b = Inr (-1, None, take (k + length b) hdr, [])"
  using assms(3-5)
proof (induction b arbitrary: k)
  case (Cons c cs)
  have kl: "k < length hdr" "Suc k < length hdr" using Cons.prems(1) by auto
  then have tk: "take k hdr @ [c] = take (Suc k) hdr" "cs = take (length cs) (drop (Suc k) hdr)"
    using Cons.prems(2) by (auto simp: take_Suc_conv_app_nth Cons_nth_drop_Suc [symmetric])
  have "length hdr \<le> 14" using assms(1,2) length_ws_head by (auto simp: frame_fits_def)
  then have "\<not> HEADERSIZE \<le> length (take k hdr)" using kl by (simp add: HEADERSIZE_def)
  moreover have "skip_frames False (take (Suc k) hdr) = ((-1, 0, None), take (Suc k) hdr)"
    using next_frame_partial [OF assms(1), of "Suc k" False] kl(2) assms(2)
    by (auto simp: next_frame_def clamp_pack_def MAX_PACKSIZE_def split: prod.splits if_splits)
  ultimately show ?case
    using Cons.IH [of "Suc k"] Cons.prems(1) tk
    by (cases "cs = []") (simp_all add: clamp_pack_def MAX_PACKSIZE_def)
qed simp

lemma fill_head_complete:
  assumes "frame_fits opc m p" "hdr = ws_head opc m (int (length p))" "k < length hdr"
  shows "fill_head False (take k hdr) (drop k hdr @ rest) = Inr (int (length p), m, hdr, rest)"
  using assms(3)
proof (induction "length hdr - k" arbitrary: k)
  case (Suc n)
  have d: "drop k hdr = hdr ! k # drop (Suc k) hdr" "take k hdr @ [hdr ! k] = take (Suc k) hdr"
    using Suc.prems by (simp_all add: Cons_nth_drop_Suc take_Suc_conv_app_nth)
  have "length hdr \<le> 14" using assms(1,2) length_ws_head by (auto simp: frame_fits_def)
  then have hs: "\<not> HEADERSIZE \<le> length (take k hdr)" using Suc.prems by (simp add: HEADERSIZE_def)
  show ?case
  proof (cases "Suc k < length hdr")
    case True
    then have "skip_frames False (take (Suc k) hdr) = ((-1, 0, None), take (Suc k) hdr)"
      using next_frame_partial [OF assms(1), of "Suc k" False] assms(2)
      by (auto simp: next_frame_def clamp_pack_def MAX_PACKSIZE_def split: prod.splits if_splits)
    then show ?thesis using Suc True hs by (simp add: d clamp_pack_def MAX_PACKSIZE_def)
  next
    case False
    then have "take (Suc k) hdr = hdr" "drop (Suc k) hdr = []" by simp_all
    moreover have "case skip_frames False hdr of ((n, h, m'), b) \<Rightarrow>
        clamp_pack n = int (length p) \<and> m' = m \<and> b = hdr"
      using next_frame_complete [OF assms(1), of False "[]"] assms(2)
      by (auto simp: next_frame_def split: prod.splits)
    ultimately show ?thesis using hs by (auto simp: d split: prod.splits)
  qed
qed simp

text \<open>The state after a head was read: the payload starts empty.\<close>

lemma start_payload_state:
  "body_state m p 0 (start_payload uc False (int (length p)) m hdr)"
  "uc_id (start_payload uc False (int (length p)) m hdr) = uc_id uc"
  by (auto simp: body_state_def start_payload_def Let_def)

lemma uc_masked_simps [simp]:
  "uc_id (uc_masked fd m) = fd" "uc_ismask (uc_masked fd m) \<longleftrightarrow> m \<noteq> None"
  "m = Some mk \<Longrightarrow> uc_mask (uc_masked fd m) = mk" "uc_hasunmask_size (uc_masked fd m) = 0"
  by (simp_all add: uc_masked_def uc_new_def split: option.splits)

lemma save_partial_state:
  assumes "j < length p" "pending qo fd = []"
  shows "\<exists>uc. pending (Some (save_partial qo fd (take j (ws_body m p)) (int (length p)) m)) fd = [uc] \<and>
     uc_id uc = fd \<and> body_state m p j uc"
    "same_items qo (Some (save_partial qo fd (take j (ws_body m p)) (int (length p)) m))"
proof -
  let ?b = "take j (ws_body m p)"
  define uc0 where "uc0 = (uc_masked fd m)\<lparr>uc_read := int j, uc_size := int (length p)\<rparr>"
  define uc where "uc = (snd (decode_wsmask_data ?b (int j) uc0))\<lparr>uc_buffer := fst (decode_wsmask_data ?b (int j) uc0)\<rparr>"
  have l: "length ?b = j" using assms(1) by simp
  have "fst (decode_wsmask_data ?b (int j) uc0) = take j p"
    using decode_piece [of uc0 m 0 j p "[]"] l by (auto simp: uc0_def)
  then have st: "body_state m p j uc" "uc_id uc = fd"
    using assms(1) by (auto simp: body_state_def uc_def decode_wsmask_data_def uc0_def)
  have e: "save_partial qo fd ?b (int (length p)) m = save_uncomplete qo uc"
    using l by (simp add: save_partial_def uc_def uc0_def split_def Let_def)
  show "\<exists>uc. pending (Some (save_partial qo fd ?b (int (length p)) m)) fd = [uc] \<and> uc_id uc = fd \<and> body_state m p j uc"
    unfolding e using pending_save [OF st(2), of qo] st assms(2) by auto
  show "same_items qo (Some (save_partial qo fd ?b (int (length p)) m))" unfolding e by (rule same_items_save)
qed

text \<open>What one chunk of the frame does: \<open>F\<close> is the frame, \<open>k\<close> the bytes seen before the chunk.\<close>

definition chunk_result ::
  "int \<Rightarrow> byte \<Rightarrow> byte list option \<Rightarrow> byte list \<Rightarrow> nat \<Rightarrow> queue option \<Rightarrow> (queue option \<times> ws_result) result \<Rightarrow> bool" where
  "chunk_result fd opc m p k qo res \<longleftrightarrow>
     (\<exists>qo' r. res = Inr (qo', r) \<and> same_items qo qo' \<and>
        (if k = length (ws_frame opc m p)
         then r = WsData fd p (int (length p)) \<and> pending qo' fd = []
         else r = WsQueue \<and> (\<exists>uc. pending qo' fd = [uc] \<and> frame_state fd opc m p k uc)))"

lemma first_chunk:
  assumes fit: "frame_fits opc m p" and pe: "pending qo fd = []" and k: "k \<le> length (ws_frame opc m p)"
  shows "chunk_result fd opc m p k qo (filter_data qo fd (take k (ws_frame opc m p)) False)"
proof -
  let ?h = "ws_head opc m (int (length p))" and ?F = "ws_frame opc m p"
  have F: "?F = ?h @ ws_body m p" "length ?F = length ?h + length p" by (simp_all add: ws_frame_def)
  have refl_items: "same_items qo qo" by (simp add: same_items_def)
  show ?thesis
  proof (cases "k < length ?h")
    case True
    have "length ?h \<le> 14" using fit length_ws_head(2) by (auto simp: frame_fits_def)
    then have "length (take k ?h) \<le> HEADERSIZE" using True by (simp add: HEADERSIZE_def)
    then have "filter_data qo fd (take k ?F) False =
        Inr (Some (save_uncomplete qo ((uc_new fd)\<lparr>uc_read := -1, uc_header := take k ?h\<rparr>)), WsQueue)"
      using True next_frame_partial [OF fit True, of False]
      by (simp add: F filter_data_def filter_fresh_def find_none [OF pe] save_header_def)
    moreover have "frame_state fd opc m p k ((uc_new fd)\<lparr>uc_read := -1, uc_header := take k ?h\<rparr>)"
      using True by (simp add: frame_state_def head_state_def uc_new_def)
    ultimately show ?thesis
      using pending_save [of "(uc_new fd)\<lparr>uc_read := -1, uc_header := take k ?h\<rparr>" fd qo] pe same_items_save True F(2)
      by (auto simp: chunk_result_def uc_new_def)
  next
    case False
    define j where "j = k - length ?h"
    have kj: "k = length ?h + j" "j \<le> length p" using False k F(2) by (simp_all add: j_def)
    have t: "take k ?F = ?h @ take j (ws_body m p)" by (simp add: F kj(1))
    note N = next_frame_complete [OF fit, of False "take j (ws_body m p)"]
    show ?thesis
    proof (cases "j < length p")
      case True
      have fl: "filter_data qo fd (take k ?F) False =
          Inr (Some (save_partial qo fd (take j (ws_body m p)) (int (length p)) m), WsQueue)"
        using True by (simp add: t N filter_data_def filter_fresh_def find_none [OF pe])
      obtain uc where uc: "pending (Some (save_partial qo fd (take j (ws_body m p)) (int (length p)) m)) fd = [uc]"
          "uc_id uc = fd" "body_state m p j uc"
        using save_partial_state(1) [OF True pe] by blast
      then have "frame_state fd opc m p k uc" by (simp add: frame_state_def kj(1))
      then show ?thesis using True fl uc(1) save_partial_state(2) [OF True pe] F(2) kj(1)
        by (simp add: chunk_result_def)
    next
      case False
      then have jl: "j = length p" using kj by simp
      have "fst (decode_wsmask_data (ws_body m p) (int (length p)) (uc_masked 0 m)) = p"
        using decode_piece [of "uc_masked 0 m" m 0 "length p" p "[]"] by simp
      then have "filter_data qo fd (take k ?F) False = Inr (qo, WsData fd p (int (length p)))"
        using N by (simp add: t jl filter_data_def filter_fresh_def find_none [OF pe])
      then show ?thesis using jl kj F(2) pe refl_items by (simp add: chunk_result_def)
    qed
  qed
qed

lemma body_chunk:
  assumes st: "body_state m p i uc" "uc_id uc = fd" and j: "i + j \<le> length p" and pe: "pending qo fd = []"
    and k: "k = length (ws_head opc m (int (length p))) + i + j"
  shows "chunk_result fd opc m p k qo (fill_payload qo fd uc (take j (drop i (ws_body m p))) False)"
proof (cases "i + j < length p")
  case True
  then obtain qo' uc' where q: "fill_payload qo fd uc (take j (drop i (ws_body m p))) False = Inr (qo', WsQueue)"
      "pending qo' fd = [uc']" "uc_id uc' = fd" "body_state m p (i + j) uc'" "same_items qo qo'"
    using fill_payload_partial [OF st True pe] by blast
  moreover have "frame_state fd opc m p k uc'" using q(3,4) k by (simp add: frame_state_def)
  moreover have "k \<noteq> length (ws_frame opc m p)" using True k by (simp add: ws_frame_def)
  ultimately show ?thesis by (simp add: chunk_result_def)
next
  case False
  then have e: "take j (drop i (ws_body m p)) = drop i (ws_body m p)" and "k = length (ws_frame opc m p)"
    using j k by (simp_all add: ws_frame_def)
  then show ?thesis unfolding e using fill_payload_complete [OF st(1)] pe
    by (simp add: chunk_result_def same_items_def)
qed

lemma chunk_result_trans:
  "same_items qo qo1 \<Longrightarrow> chunk_result fd opc m p k qo1 res \<Longrightarrow> chunk_result fd opc m p k qo res"
  unfolding chunk_result_def using same_items_trans by blast

lemma next_chunk:
  assumes fit: "frame_fits opc m p" and pe: "pending qo fd = [uc]" and st: "frame_state fd opc m p k uc"
    and b: "b = take (length b) (drop k (ws_frame opc m p))" "b \<noteq> []" "k + length b \<le> length (ws_frame opc m p)"
  shows "chunk_result fd opc m p (k + length b) qo (filter_data qo fd b False)"
proof -
  let ?h = "ws_head opc m (int (length p))" and ?F = "ws_frame opc m p"
  have F: "?F = ?h @ ws_body m p" "length ?F = length ?h + length p" by (simp_all add: ws_frame_def)
  obtain qo1 where q1: "find_uncomplete qo fd = (Some uc, qo1)" "pending qo1 fd = []" "same_items qo qo1"
    using find_some [OF pe] by blast
  have id: "uc_id uc = fd" using st by (simp add: frame_state_def)
  show ?thesis
  proof (cases "head_state opc m p k uc")
    case True
    then have hs: "k < length ?h" "uc_read uc = -1" "uc_header uc = take k ?h" by (simp_all add: head_state_def)
    show ?thesis
    proof (cases "k + length b < length ?h")
      case True
      then have "b = take (length b) (drop k ?h)" using b(1) F(1) by simp
      from fill_head_partial [OF fit refl True this b(2)]
      have "filter_data qo fd b False = Inr (Some (link_uncomplete (get_queue qo1) fd
          (uc\<lparr>uc_header := take (k + length b) ?h\<rparr>)), WsQueue)"
        by (simp add: filter_data_def q1 hs)
      moreover have "frame_state fd opc m p (k + length b) (uc\<lparr>uc_header := take (k + length b) ?h\<rparr>)"
        using True hs id by (simp add: frame_state_def head_state_def)
      ultimately have "chunk_result fd opc m p (k + length b) qo1 (filter_data qo fd b False)"
        using True F(2) q1(2) id pending_link [of "uc\<lparr>uc_header := take (k + length b) ?h\<rparr>" fd "get_queue qo1"]
          same_items_link by (auto simp: chunk_result_def)
      then show ?thesis using chunk_result_trans q1(3) by blast
    next
      case False
      define j where "j = k + length b - length ?h"
      have kj: "k + length b = length ?h + j" "j \<le> length p" using False b(3) F(2) by (simp_all add: j_def)
      have "b = drop k ?h @ take j (ws_body m p)"
        using b(1) hs(1) kj(1) F(1) by (simp add: j_def add.commute [of k])
      then have "fill_head False (uc_header uc) b = Inr (int (length p), m, ?h, take j (ws_body m p))"
        using fill_head_complete [OF fit refl hs(1)] hs(3) by simp
      then have "filter_data qo fd b False = fill_payload qo1 fd
          (start_payload uc False (int (length p)) m ?h) (take j (drop 0 (ws_body m p))) False"
        using hs(2) by (simp add: filter_data_def q1)
      moreover have "uc_id (start_payload uc False (int (length p)) m ?h) = fd"
        using id by (simp add: start_payload_state(2))
      ultimately show ?thesis
        using body_chunk [OF start_payload_state(1), where fd = fd and j = j and qo = qo1
            and k = "k + length b" and opc = opc] kj q1(2,3) chunk_result_trans by simp
    qed
  next
    case False
    then have bs: "length ?h \<le> k" "body_state m p (k - length ?h) uc" using st by (simp_all add: frame_state_def)
    then have "uc_read uc \<ge> 0" by (simp add: body_state_def)
    then have f: "filter_data qo fd b False = fill_payload qo1 fd uc b False" by (simp add: filter_data_def q1)
    have eq: "b = take (length b) (drop (k - length ?h) (ws_body m p))" using b(1) bs(1) F(1) by simp
    have "k - length ?h + length b \<le> length p" "k + length b = length ?h + (k - length ?h) + length b"
      using b(3) F(2) bs(1) by linarith+
    from body_chunk [OF bs(2) id this(1) q1(2) this(2)]
    have "chunk_result fd opc m p (k + length b) qo1 (fill_payload qo1 fd uc b False)"
      unfolding eq [symmetric] .
    then show ?thesis unfolding f by (rule chunk_result_trans [OF q1(3)])
  qed
qed

text \<open>Feeding chunks one after the other, with the results of each call.\<close>

fun feed :: "queue option \<Rightarrow> int \<Rightarrow> byte list list \<Rightarrow> (queue option \<times> ws_result list) result" where
  "feed qo fd [] = Inr (qo, [])"
| "feed qo fd (c # cs) =
     rbind (filter_data qo fd c False) (\<lambda>(qo', r).
       rbind (feed qo' fd cs) (\<lambda>(qo'', rs). Inr (qo'', r # rs)))"

lemma feed_rest:
  assumes fit: "frame_fits opc m p"
  shows "pending qo fd = [uc] \<Longrightarrow> frame_state fd opc m p k uc \<Longrightarrow> cs \<noteq> [] \<Longrightarrow> [] \<notin> set cs \<Longrightarrow>
     concat cs = drop k (ws_frame opc m p) \<Longrightarrow> k \<le> length (ws_frame opc m p) \<Longrightarrow>
     \<exists>qo'. feed qo fd cs = Inr (qo', replicate (length cs - 1) WsQueue @ [WsData fd p (int (length p))]) \<and>
       pending qo' fd = [] \<and> same_items qo qo'"
proof (induction cs arbitrary: qo uc k)
  case (Cons c cs)
  let ?F = "ws_frame opc m p"
  have e: "drop k ?F = c @ concat cs" using Cons.prems(5) by simp
  have c: "c = take (length c) (drop k ?F)" "c \<noteq> []" using Cons.prems(4) by (auto simp: e)
  have d: "concat cs = drop (k + length c) ?F"
    unfolding add.commute [of k] drop_drop [symmetric] e by simp
  have "length c \<le> length ?F - k" using arg_cong [OF e, of length] by simp
  then have kl: "k + length c \<le> length ?F" using Cons.prems(6) by linarith
  note R = next_chunk [OF fit Cons.prems(1,2) c(1,2) kl]
  show ?case
  proof (cases "cs = []")
    case True
    then have "k + length c = length ?F" using d kl by simp
    with R show ?thesis using True by (auto simp: chunk_result_def)
  next
    case False
    have "concat cs \<noteq> []" using False Cons.prems(4) by (cases cs) auto
    then have ne: "k + length c \<noteq> length ?F" using d by auto
    then obtain qo1 uc1 where q: "filter_data qo fd c False = Inr (qo1, WsQueue)" "same_items qo qo1"
        "pending qo1 fd = [uc1]" "frame_state fd opc m p (k + length c) uc1"
      using R by (auto simp: chunk_result_def)
    obtain n where n: "length cs = Suc n" using False by (cases cs) auto
    show ?thesis
      using Cons.IH [OF q(3,4) False _ d kl] Cons.prems(4) q(1,2) n same_items_trans by fastforce
  qed
qed simp

text \<open>[C2] Reassembly: a frame with a payload of at most 10240 bytes, masked or not, cut into any
  non-empty chunks and fed to a connection with nothing pending, is delivered exactly once, by the
  call that gets its last byte and with its unmasked payload; the earlier calls deliver nothing, and
  nothing stays pending.\<close>

theorem chunked_delivery:
  assumes "frame_fits opc m p" "pending qo fd = []" "concat cs = ws_frame opc m p" "[] \<notin> set cs"
  shows "\<exists>qo'. feed qo fd cs = Inr (qo', replicate (length cs - 1) WsQueue @ [WsData fd p (int (length p))]) \<and>
     pending qo' fd = [] \<and> slot_items qo' = slot_items qo"
proof -
  have "ws_frame opc m p \<noteq> []" by (simp add: ws_frame_def ws_head_def)
  then obtain c cs' where cs: "cs = c # cs'" using assms(3) by (cases cs) auto
  have k: "take (length c) (ws_frame opc m p) = c" "length c \<le> length (ws_frame opc m p)"
    "concat cs' = drop (length c) (ws_frame opc m p)"
    by (simp_all add: assms(3) [symmetric] cs)
  have R: "chunk_result fd opc m p (length c) qo (filter_data qo fd c False)"
    using first_chunk [OF assms(1,2) k(2)] k(1) by simp
  show ?thesis
  proof (cases "cs' = []")
    case True
    then have "length c = length (ws_frame opc m p)" using k(2,3) by simp
    then show ?thesis using R cs True by (auto simp: chunk_result_def same_items_def)
  next
    case False
    have "concat cs' \<noteq> []" using False assms(4) cs by (cases cs') auto
    then have "length c \<noteq> length (ws_frame opc m p)" using k(3) by auto
    then obtain qo1 uc1 where q: "filter_data qo fd c False = Inr (qo1, WsQueue)" "same_items qo qo1"
        "pending qo1 fd = [uc1]" "frame_state fd opc m p (length c) uc1"
      using R by (auto simp: chunk_result_def)
    obtain n where n: "length cs' = Suc n" using False by (cases cs') auto
    show ?thesis
      using feed_rest [OF assms(1) q(3,4) False _ k(3,2)] assms(4) cs q(1,2) n
      by (fastforce simp: same_items_def)
  qed
qed

theorem chunked_delivery_witness:
  "\<exists>qo'. feed None 7 [[0x81], [0x82, 1, 2], [3, 4, 0x48, 0x6b]] = Inr (qo', replicate (3 - 1) WsQueue @ [WsData 7 [0x49, 0x69] (int 2)]) \<and>
     pending qo' 7 = [] \<and> slot_items qo' = slot_items None"
  using chunked_delivery [of 1 "Some [1, 2, 3, 4]" "[0x49, 0x69]" None 7 "[[0x81], [0x82, 1, 2], [3, 4, 0x48, 0x6b]]"]
  by (simp add: frame_fits_def op_ok_def mask_ok_def WEBSOCKET_MASK_LEN_def MAX_PACKSIZE_def pending_def
      get_queue_def ws_frame_def ws_head_def ws_body_def mask_bit_def xor_mask_def eval_nat_numeral)

section \<open>Several frames in one buffer\<close>

lemma push_more_frame:
  assumes fit: "frame_fits opc m p"
  shows "push_more qo fd (ws_frame opc m p @ rest) False =
     (let q1 = push_data qo fd p (int (length p)) in if rest = [] then Inr q1 else push_more (Some q1) fd rest False)"
proof -
  let ?b = "ws_body m p @ rest"
  note N = next_frame_complete [OF fit, of True ?b]
  have "fst (decode_wsmask_data ?b (int (length p)) (uc_masked 0 m)) = p @ rest"
    using decode_piece [of "uc_masked 0 m" m 0 "length p" p rest] by simp
  then show ?thesis
    by (subst push_more.simps) (simp add: ws_frame_def N Let_def)
qed

abbreviation frame_bytes :: "byte \<times> byte list option \<times> byte list \<Rightarrow> byte list" where
  "frame_bytes f \<equiv> (case f of (opc, m, p) \<Rightarrow> ws_frame opc m p)"

abbreviation frame_pack :: "int \<Rightarrow> byte \<times> byte list option \<times> byte list \<Rightarrow> netpack" where
  "frame_pack fd f \<equiv> (case f of (opc, m, p) \<Rightarrow> \<lparr> np_id = fd, np_size = int (length p), np_buffer = p \<rparr>)"

lemma frame_nonempty [simp]: "ws_frame opc m p \<noteq> []"
  by (simp add: ws_frame_def ws_head_def)

lemma push_more_frames:
  assumes "\<forall>(opc, m, p)\<in>set fs. frame_fits opc m p" "slot_wf qo" "fs \<noteq> []"
  shows "\<exists>q. push_more qo fd (concat (map frame_bytes fs)) False = Inr q \<and> q_wf q \<and>
     q_items q = slot_items qo @ map (frame_pack fd) fs"
  using assms
proof (induction fs arbitrary: qo)
  case (Cons f fs)
  obtain opc m p where f: "f = (opc, m, p)" by (cases f)
  have fit: "frame_fits opc m p" using Cons.prems(1) f by simp
  define q1 where "q1 = push_data qo fd p (int (length p))"
  have q1: "q_wf q1" "q_items q1 = slot_items qo @ [frame_pack fd f]"
    using push_data_correct(1,2) [of qo] Cons.prems(2) f by (simp_all add: q1_def slot_wf_def slot_items_def)
  define R where "R = concat (map frame_bytes fs)"
  have P: "push_more qo fd (concat (map frame_bytes (f # fs))) False =
      (if R = [] then Inr q1 else push_more (Some q1) fd R False)"
    using push_more_frame [OF fit, of qo fd R] f by (simp add: q1_def Let_def R_def)
  show ?case
  proof (cases fs)
    case Nil
    then have "R = []" by (simp add: R_def)
    then show ?thesis using Nil P q1 by simp
  next
    case (Cons g gs)
    then have "R \<noteq> []" by (auto simp: R_def split: prod.splits)
    moreover have "\<exists>q. push_more (Some q1) fd R False = Inr q \<and> q_wf q \<and>
        q_items q = slot_items (Some q1) @ map (frame_pack fd) fs"
      unfolding R_def using Cons.IH [of "Some q1"] Cons.prems q1 Cons by (simp add: slot_wf_def)
    moreover have "slot_items (Some q1) @ map (frame_pack fd) fs = slot_items qo @ map (frame_pack fd) (f # fs)"
      using q1(2) by (simp add: slot_items_def)
    ultimately show ?thesis unfolding P by simp
  qed
qed simp

text \<open>[C17] Several frames at once: a buffer of two or more whole frames, on a connection with nothing
  pending, queues the unmasked payload of every frame, in order, behind what was queued before.\<close>

theorem buffered_frames:
  assumes "\<forall>(opc, m, p)\<in>set fs. frame_fits opc m p" "length fs \<ge> 2" "pending qo fd = []" "slot_wf qo"
  shows "\<exists>qo'. filter_data qo fd (concat (map frame_bytes fs)) False = Inr (qo', WsMore) \<and>
     slot_wf qo' \<and> slot_items qo' = slot_items qo @ map (frame_pack fd) fs"
proof -
  have "fs \<noteq> []" "tl fs \<noteq> []" using assms(2) by (cases fs; auto)+
  then obtain f fs' where fs: "fs = f # fs'" "fs' \<noteq> []" by (cases fs) auto
  obtain opc m p where f: "f = (opc, m, p)" by (cases f)
  define rest where "rest = concat (map frame_bytes fs')"
  have fit: "frame_fits opc m p" using assms(1) fs f by simp
  define q1 where "q1 = push_data qo fd p (int (length p))"
  have q1: "slot_wf (Some q1)" "slot_items (Some q1) = slot_items qo @ [frame_pack fd f]"
    using push_data_correct(1,2) [of qo] assms(4) f by (simp_all add: q1_def slot_wf_def slot_items_def)
  obtain q where q: "push_more (Some q1) fd rest False = Inr q" "q_wf q"
      "q_items q = slot_items (Some q1) @ map (frame_pack fd) fs'"
    using push_more_frames [of fs' "Some q1" fd] assms(1) fs q1(1) by (auto simp: rest_def)
  have ne: "rest \<noteq> []" using fs(2) by (cases fs') (auto simp: rest_def split: prod.splits)
  have "fst (decode_wsmask_data (ws_body m p @ rest) (int (length p)) (uc_masked 0 m)) = p @ rest"
    using decode_piece [of "uc_masked 0 m" m 0 "length p" p rest] by simp
  moreover have bytes: "concat (map frame_bytes fs) = ws_head opc m (int (length p)) @ ws_body m p @ rest"
    by (simp add: fs f ws_frame_def [of opc] rest_def)
  ultimately have "filter_data qo fd (concat (map frame_bytes fs)) False = Inr (Some q, WsMore)"
    using next_frame_complete [OF fit, of False "ws_body m p @ rest"] q(1) ne
    by (simp add: bytes filter_data_def filter_fresh_def find_none [OF assms(3)] q1_def Let_def)
  then show ?thesis using q q1 fs f by (simp add: slot_wf_def slot_items_def)
qed

theorem buffered_frames_witness:
  "\<exists>qo'. filter_data None 7 (concat (map frame_bytes [(1, None, [65]), (2, None, [66, 67])])) False = Inr (qo', WsMore) \<and>
     slot_wf qo' \<and> slot_items qo' = slot_items None @ map (frame_pack 7) [(1, None, [65]), (2, None, [66, 67])]"
  by (rule buffered_frames)
    (simp_all add: frame_fits_def op_ok_def mask_ok_def MAX_PACKSIZE_def pending_def slot_wf_def get_queue_wf,
     simp add: get_queue_def)

section \<open>The queue, the packer and the limits\<close>

primrec drain :: "nat \<Rightarrow> queue option \<Rightarrow> netpack list \<times> queue option" where
  "drain 0 qo = ([], qo)"
| "drain (Suc k) qo =
     (case lpop qo of None \<Rightarrow> ([], qo)
      | Some (np, q) \<Rightarrow> (let (nps, qo') = drain k (Some q) in (np # nps, qo')))"

lemma drain_pop_n: "drain k qo = ws_queue.pop_n k qo"
proof (induction k arbitrary: qo)
  case (Suc k)
  have "slot_pop qo = map_option (\<lambda>(np, q). (np, Some q)) (lpop qo)" by (simp add: slot_pop_def)
  then show ?case using Suc by (cases "lpop qo") (simp_all add: split_def)
qed simp

text \<open>[C13] The ring buffer is a first-in first-out queue of unlimited length: whatever is pushed, with
  the wrap-around and the growth this causes, \<open>lpop\<close> returns in the order of pushing, after what was
  queued before.\<close>

theorem ws_fifo:
  assumes "slot_wf qo"
  shows "fst (drain k (foldl (\<lambda>qo (fd, b). Some (push_data qo fd b (int (length b)))) qo bs)) =
     take k (slot_items qo @ map (\<lambda>(fd, b). \<lparr> np_id = fd, np_size = int (length b), np_buffer = b \<rparr>) bs)"
proof -
  let ?np = "\<lambda>(fd, b). \<lparr> np_id = fd, np_size = int (length b), np_buffer = b \<rparr>"
  have f: "(\<lambda>qo (fd, b). Some (push_data qo fd b (int (length b)))) = (\<lambda>qo x. slot_push qo (?np x))"
    by (simp add: fun_eq_iff slot_push_def split_def)
  have "foldl (\<lambda>qo x. slot_push qo (?np x)) qo bs = foldl slot_push qo (map ?np bs)"
    by (induction bs arbitrary: qo) simp_all
  then show ?thesis
    using ws_queue.pop_n_items [OF ws_queue.inv_push_all [OF assms]] ws_queue.items_push_all [OF assms]
    by (simp add: f drain_pop_n)
qed

theorem ws_fifo_witness:
  "fst (drain 1 (foldl (\<lambda>qo (fd, b). Some (push_data qo fd b (int (length b)))) None [(3, [1]), (4, [2 :: byte])])) =
   take 1 (slot_items None @ map (\<lambda>(fd, b). \<lparr> np_id = fd, np_size = int (length b), np_buffer = b \<rparr>) [(3, [1]), (4, [2 :: byte])])"
  by (rule ws_fifo) (simp add: slot_wf_def get_queue_wf)

lemma FRAME_SET_LENGTH_digit: "FRAME_SET_LENGTH x k = word_of_int (x div 256 ^ k)"
proof -
  have "drop_bit (k * 8) x = x div 256 ^ k"
    by (simp add: drop_bit_eq_div power_mult [symmetric] mult.commute [of k])
      (simp add: power_mult)
  then show ?thesis by (simp add: FRAME_SET_LENGTH_def and_0xff word_uint_eq_iff uint_byte_of_int)
qed

lemma lpack_frame: "lpack p = ws_frame 2 None p"
  by (simp add: lpack_def ws_frame_def ws_head_def ws_body_def mask_bit_def FRAME_SET_LENGTH_digit
      be_bytes_simps Let_def)

text \<open>What the server packs, the reader of frame heads takes apart: for every payload below 2 GiB
  the size found is its length, there is no mask, and the payload is what follows the head.\<close>

theorem lpack_roundtrip:
  assumes "int (length p) < 2 ^ 31"
  shows "\<exists>h. read_size (lpack p @ rest) = (int (length p), h, None) \<and> drop h (lpack p @ rest) = p @ rest"
proof -
  have "read_size (ws_head 2 None (int (length p)) @ p @ rest) =
      (int (length p), length (ws_head 2 None (int (length p))), None)"
    using assms by (intro read_size_frame) (simp_all add: op_ok_def mask_ok_def)
  then show ?thesis by (simp add: lpack_frame ws_frame_def ws_body_def)
qed

theorem lpack_roundtrip_witness:
  "\<exists>h. read_size (lpack [1, 2] @ [9]) = (int (length [1, 2 :: byte]), h, None) \<and>
     drop h (lpack [1, 2] @ [9]) = [1, 2] @ [9]"
  by (rule lpack_roundtrip) simp

text \<open>[C37] A frame above the limit corrupts the stream: of an unmasked frame of more than 10240 bytes only
  the first 10240 are delivered as a packet, and the rest of its payload is parsed as if frames
  followed.\<close>

theorem oversized_frame_split:
  assumes "pending qo fd = []" "MAX_PACKSIZE < int (length p)" "int (length p) < 2 ^ 31"
  shows "filter_data qo fd (lpack p) False =
     rbind (push_more (Some (push_data qo fd (take (nat MAX_PACKSIZE) p) MAX_PACKSIZE)) fd
              (drop (nat MAX_PACKSIZE) p) False)
       (\<lambda>q. Inr (Some q, WsMore))"
proof -
  let ?h = "ws_head 2 None (int (length p))"
  have r: "read_size (?h @ p) = (int (length p), length ?h, None)"
    using assms(3) by (intro read_size_frame) (simp_all add: op_ok_def mask_ok_def)
  have "next_frame False False (?h @ p) = (MAX_PACKSIZE, length ?h, None, ?h @ p)"
    using skip_frames_stop [of False "?h @ p"] r assms(2)
    by (simp add: next_frame_def bad_frame_def clamp_pack_def)
  moreover have "MAX_PACKSIZE = 10240" by (simp add: MAX_PACKSIZE_def)
  ultimately show ?thesis
    using assms(2) by (simp add: lpack_frame ws_frame_def ws_body_def filter_data_def filter_fresh_def
        find_none [OF assms(1)] decode_wsmask_data_def)
qed

theorem oversized_frame_split_witness:
  "filter_data None 7 (lpack (replicate 10241 0)) False =
     rbind (push_more (Some (push_data None 7 (take (nat MAX_PACKSIZE) (replicate 10241 0)) MAX_PACKSIZE)) 7
              (drop (nat MAX_PACKSIZE) (replicate 10241 0)) False)
       (\<lambda>q. Inr (Some q, WsMore))"
  by (rule oversized_frame_split) (simp_all add: pending_def get_queue_def MAX_PACKSIZE_def)

text \<open>[C38] A 64-bit length of 0xFFFFFFFF is truncated to -1, the code for an incomplete head: the whole
  buffer is then copied into the 1024-byte header array, past its end when the buffer is longer.\<close>

theorem long_length_overflow:
  assumes "pending qo fd = []" "length rest \<ge> 1015"
  shows "filter_data qo fd ([0x82, 0x7f, 0, 0, 0, 0, 0xff, 0xff, 0xff, 0xff] @ rest) False = Inl OutOfBounds"
proof -
  let ?b = "[0x82, 0x7f, 0, 0, 0, 0, 0xff, 0xff, 0xff, 0xff] @ rest"
  have "ntoh64 (load_le [0, 0, 0, 0, 0xff, 0xff, 0xff, 0xff]) = 0xFFFFFFFF"
    unfolding ntoh64_load by simp
  moreover have "?b = (0x80 OR 2) # (mask_bit None OR 127) # [0, 0, 0, 0, 0xff, 0xff, 0xff, 0xff] @ rest"
    by (simp add: mask_bit_def)
  ultimately have r: "read_size ?b = (-1, 10, None)"
    using read_size_valid [of 2 127 ?b None "[0, 0, 0, 0, 0xff, 0xff, 0xff, 0xff] @ rest"]
    by (simp add: op_ok_def finish_head_def s32_def)
  have "next_frame False False ?b = (-1, 10, None, ?b)"
    using skip_frames_stop [of False ?b] r
    by (simp add: next_frame_def bad_frame_def clamp_pack_def MAX_PACKSIZE_def)
  moreover have "length ?b > HEADERSIZE" using assms(2) by (simp add: HEADERSIZE_def)
  ultimately show ?thesis
    by (simp add: filter_data_def filter_fresh_def find_none [OF assms(1)] save_header_def)
qed

theorem long_length_overflow_witness:
  "filter_data None 7 ([0x82, 0x7f, 0, 0, 0, 0, 0xff, 0xff, 0xff, 0xff] @ replicate 1015 0) False = Inl OutOfBounds"
  by (rule long_length_overflow) (simp_all add: pending_def get_queue_def)

end
