(* ===== verification/Xxhash.thy ===== *)
theory Xxhash
  imports Interfaces
begin

text \<open>
  The 32-bit xxHash of \<^verbatim>\<open>src/lualib-src/lua-xxhash/xxhash.c\<close> and its Lua binding
  \<^verbatim>\<open>lua-xxhash.c\<close>: the one-shot function, the streaming object, and the Lua object around it, on a
  little-endian machine (\<^verbatim>\<open>XXH_BIG_ENDIAN\<close> 0). Hash values are 32-bit words, so every addition and
  multiplication wraps as in the source; the \<^verbatim>\<open>int\<close> lengths are integers narrowed by \<open>s32\<close>.

  The streaming object is shown to be an incremental hash whose digest is the one-shot hash of
  all the bytes fed to it, however they were cut into pieces.
\<close>

section \<open>Constants and macros\<close>

definition PRIME32_1 :: u32 where "PRIME32_1 = 2654435761"
definition PRIME32_2 :: u32 where "PRIME32_2 = 2246822519"
definition PRIME32_3 :: u32 where "PRIME32_3 = 3266489917"
definition PRIME32_4 :: u32 where "PRIME32_4 = 668265263"
definition PRIME32_5 :: u32 where "PRIME32_5 = 374761393"

definition XXH_rotl32 :: "u32 \<Rightarrow> nat \<Rightarrow> u32" where
  "XXH_rotl32 x r = push_bit r x OR drop_bit (32 - r) x"

definition XXH_LE32 :: "byte list \<Rightarrow> u32" where
  "XXH_LE32 p = word_of_int (load_le (take 4 p))"

section \<open>The one-shot hash\<close>

type_synonym lanes = "u32 \<times> u32 \<times> u32 \<times> u32"

definition start_lanes :: "u32 \<Rightarrow> lanes" where
  "start_lanes sd = (sd + PRIME32_1 + PRIME32_2, sd + PRIME32_2, sd + 0, sd - PRIME32_1)"

definition lane_round :: "u32 \<Rightarrow> byte list \<Rightarrow> u32" where
  "lane_round v p = XXH_rotl32 (v + XXH_LE32 p * PRIME32_2) 13 * PRIME32_1"

definition stripe :: "lanes \<Rightarrow> byte list \<Rightarrow> lanes" where
  "stripe = (\<lambda>(v1, v2, v3, v4) p.
     (lane_round v1 p, lane_round v2 (drop 4 p), lane_round v3 (drop 8 p), lane_round v4 (drop 12 p)))"

text \<open>The loop over 16-byte stripes: the lanes, and the bytes from where \<^verbatim>\<open>p\<close> stops.\<close>

fun stripes :: "lanes \<Rightarrow> byte list \<Rightarrow> lanes \<times> byte list" where
  "stripes v p = (if 16 \<le> length p then stripes (stripe v p) (drop 16 p) else (v, p))"

declare stripes.simps [simp del]

definition merge_lanes :: "lanes \<Rightarrow> u32" where
  "merge_lanes = (\<lambda>(v1, v2, v3, v4).
     XXH_rotl32 v1 1 + XXH_rotl32 v2 7 + XXH_rotl32 v3 12 + XXH_rotl32 v4 18)"

fun tail_words :: "u32 \<Rightarrow> byte list \<Rightarrow> u32 \<times> byte list" where
  "tail_words h p =
     (if 4 \<le> length p
      then tail_words (XXH_rotl32 (h + XXH_LE32 p * PRIME32_3) 17 * PRIME32_4) (drop 4 p)
      else (h, p))"

declare tail_words.simps [simp del]

fun tail_bytes :: "u32 \<Rightarrow> byte list \<Rightarrow> u32" where
  "tail_bytes h [] = h"
| "tail_bytes h (b # p) = tail_bytes (XXH_rotl32 (h + ucast b * PRIME32_5) 11 * PRIME32_1) p"

definition avalanche :: "u32 \<Rightarrow> u32" where
  "avalanche h0 =
     (let h1 = h0 XOR drop_bit 15 h0;
          h2 = h1 * PRIME32_2;
          h3 = h2 XOR drop_bit 13 h2;
          h4 = h3 * PRIME32_3
      in h4 XOR drop_bit 16 h4)"

definition finish_hash :: "u32 \<Rightarrow> byte list \<Rightarrow> u32" where
  "finish_hash h p = (let (h', p') = tail_words h p in avalanche (tail_bytes h' p'))"

text \<open>The pointer range from \<^verbatim>\<open>p\<close> to \<^verbatim>\<open>bEnd\<close> is empty for a negative length.\<close>

definition XXH32 :: "byte list \<Rightarrow> int \<Rightarrow> u32 \<Rightarrow> u32" where
  "XXH32 input len sd =
     (let p = take (nat len) input;
          (h, p') = (if len \<ge> 16
                     then (let (v, r) = stripes (start_lanes sd) p in (merge_lanes v, r))
                     else (sd + PRIME32_5, p))
      in finish_hash (h + word_of_int len) p')"

section \<open>The streaming hash\<close>

record XXH_state32_t =
  xs_seed :: u32
  xs_v :: lanes
  total_len :: u64
  memory :: "byte list"
  memsize :: int

definition XXH32_resetState :: "XXH_state32_t \<Rightarrow> u32 \<Rightarrow> XXH_state32_t" where
  "XXH32_resetState st sd =
     st\<lparr>xs_seed := sd, xs_v := start_lanes sd, total_len := 0, memsize := 0\<rparr>"

text \<open>The argument stands for the contents \<^verbatim>\<open>malloc\<close> returns, an object with 16 bytes of
  \<^verbatim>\<open>memory\<close> and nothing else known.\<close>

definition XXH32_init :: "XXH_state32_t \<Rightarrow> u32 \<Rightarrow> XXH_state32_t" where
  "XXH32_init raw sd = XXH32_resetState raw sd"

text \<open>The three parts of an update: completing a stripe left from before, the whole stripes of the
  input, and storing what remains.\<close>

definition flush_memory :: "XXH_state32_t \<Rightarrow> byte list \<Rightarrow> (XXH_state32_t \<times> byte list) result" where
  "flush_memory st p =
     (if memsize st \<noteq> 0
      then (let n = nat (16 - memsize st) in
            rbind (mem_write (memory st) (nat (memsize st)) (take n p))
              (\<lambda>m. Inr (st\<lparr>memory := m, xs_v := stripe (xs_v st) m, memsize := 0\<rparr>, drop n p)))
      else Inr (st, p))"

definition whole_stripes :: "XXH_state32_t \<Rightarrow> byte list \<Rightarrow> XXH_state32_t \<times> byte list" where
  "whole_stripes st p = (let (v, p') = stripes (xs_v st) p in (st\<lparr>xs_v := v\<rparr>, p'))"

definition store_rest :: "XXH_state32_t \<Rightarrow> byte list \<Rightarrow> XXH_state32_t result" where
  "store_rest st p =
     (if p \<noteq> []
      then rbind (mem_write (memory st) 0 p)
             (\<lambda>m. Inr (st\<lparr>memory := m, memsize := s32 (int (length p))\<rparr>))
      else Inr st)"

definition XXH32_update :: "XXH_state32_t \<Rightarrow> byte list \<Rightarrow> int \<Rightarrow> XXH_state32_t result" where
  "XXH32_update st0 input len =
     (let p = take (nat len) input;
          st = st0\<lparr>total_len := total_len st0 + word_of_int len\<rparr>
      in if s32 (memsize st + len) < 16
         then (if len < 0 then Inl OutOfBounds
               else rbind (mem_write (memory st) (nat (memsize st)) p)
                      (\<lambda>m. Inr (st\<lparr>memory := m, memsize := s32 (memsize st + len)\<rparr>)))
         else rbind (flush_memory st p)
                (\<lambda>(st1, p1). let (st2, p2) = whole_stripes st1 p1 in store_rest st2 p2))"

definition XXH32_intermediateDigest :: "XXH_state32_t \<Rightarrow> u32" where
  "XXH32_intermediateDigest st =
     (let p = take (nat (memsize st)) (memory st);
          h = (if total_len st \<ge> 16 then merge_lanes (xs_v st) else xs_seed st + PRIME32_5)
      in finish_hash (h + ucast (total_len st)) p)"

text \<open>The state after \<^verbatim>\<open>XXH32_digest\<close> is freed.\<close>

definition XXH32_digest :: "XXH_state32_t option \<Rightarrow> u32 result \<times> XXH_state32_t option" where
  "XXH32_digest so =
     (case so of None \<Rightarrow> (Inl OutOfBounds, None) | Some st \<Rightarrow> (Inr (XXH32_intermediateDigest st), None))"

section \<open>The Lua object\<close>

record xxhash_t =
  xh_state :: XXH_state32_t
  xh_seed :: u32

text \<open>A Lua string is its bytes; its \<^verbatim>\<open>size_t\<close> length is narrowed to the \<^verbatim>\<open>int\<close> parameter. A Lua
  integer becomes an unsigned 32-bit seed.\<close>

definition xxh32_lua :: "byte list \<Rightarrow> int \<Rightarrow> int" where
  "xxh32_lua data sd = uint (XXH32 data (s32 (int (length data))) (word_of_int sd))"

definition init_lua :: "XXH_state32_t \<Rightarrow> int \<Rightarrow> xxhash_t" where
  "init_lua raw sd =
     \<lparr>xh_state = XXH32_init raw (word_of_int sd), xh_seed = word_of_int sd\<rparr>"

definition update_lua :: "xxhash_t \<Rightarrow> byte list \<Rightarrow> xxhash_t result" where
  "update_lua xh data =
     rbind (XXH32_update (xh_state xh) data (s32 (int (length data))))
       (\<lambda>st. Inr (xh\<lparr>xh_state := st\<rparr>))"

definition digest_lua :: "xxhash_t \<Rightarrow> int" where
  "digest_lua xh = uint (XXH32_intermediateDigest (xh_state xh))"

definition reset_lua :: "xxhash_t \<Rightarrow> int option \<Rightarrow> xxhash_t" where
  "reset_lua xh arg =
     (let sd = (case arg of None \<Rightarrow> xh_seed xh | Some s \<Rightarrow> word_of_int s)
      in xh\<lparr>xh_seed := sd, xh_state := XXH32_resetState (xh_state xh) sd\<rparr>)"

text \<open>A session of method calls on one object, with the hashes that the digest calls return.\<close>

datatype xxh_call = Update "byte list" | Digest | Reset "int option"

fun run_calls :: "xxhash_t \<Rightarrow> xxh_call list \<Rightarrow> int list result" where
  "run_calls xh [] = Inr []"
| "run_calls xh (Update data # cs) = rbind (update_lua xh data) (\<lambda>xh'. run_calls xh' cs)"
| "run_calls xh (Digest # cs) = rbind (run_calls xh cs) (\<lambda>hs. Inr (digest_lua xh # hs))"
| "run_calls xh (Reset arg # cs) = run_calls (reset_lua xh arg) cs"

section \<open>Stripes\<close>

lemma stripes_append:
  "stripes v xs = (w, r) \<Longrightarrow> stripes v (xs @ ys) = stripes w (r @ ys)"
proof (induction v xs arbitrary: w r rule: stripes.induct)
  case (1 v p)
  show ?case
  proof (cases "16 \<le> length p")
    case True
    have "stripe v (p @ ys) = stripe v p"
      using True by (simp add: stripe_def lane_round_def XXH_LE32_def split_def)
    with True 1 show ?thesis by (simp add: stripes.simps [of v])
  next
    case False
    with 1 show ?thesis by (simp add: stripes.simps [of v p])
  qed
qed

lemma stripes_rest: "length (snd (stripes v xs)) < 16"
  by (induction v xs rule: stripes.induct) (simp add: stripes.simps)

lemma stripes_rest_length: "length (snd (stripes v xs)) = length xs mod 16"
proof (induction v xs rule: stripes.induct)
  case (1 v p)
  then show ?case by (simp add: stripes.simps [of v p] le_mod_geq)
qed

lemma stripes_short: "length xs < 16 \<Longrightarrow> stripes v xs = (v, xs)"
  by (simp add: stripes.simps)

lemma stripes_step: "16 \<le> length xs \<Longrightarrow> stripes v xs = stripes (stripe v (take 16 xs)) (drop 16 xs)"
  by (simp add: stripes.simps [of v xs] stripe_def lane_round_def XXH_LE32_def split_def drop_take)

section \<open>What a streaming state stands for\<close>

definition xxh_holds :: "u32 \<Rightarrow> XXH_state32_t \<Rightarrow> byte list \<Rightarrow> bool" where
  "xxh_holds sd st xs \<longleftrightarrow>
     xs_seed st = sd \<and> length (memory st) = 16 \<and> 0 \<le> memsize st \<and> memsize st < 16 \<and>
     stripes (start_lanes sd) xs = (xs_v st, take (nat (memsize st)) (memory st)) \<and>
     total_len st = of_nat (length xs)"

definition xxh_fits :: "byte list \<Rightarrow> bool" where
  "xxh_fits xs \<longleftrightarrow> int (length xs) \<le> INT_MAX"

lemma reset_holds:
  "length (memory st) = 16 \<Longrightarrow> xxh_holds sd (XXH32_resetState st sd) []"
  by (simp add: xxh_holds_def XXH32_resetState_def stripes_short)

text \<open>The part of an update after the input has been joined with the remembered bytes.\<close>

lemma store_after_stripes:
  assumes "length (memory st) = 16" "memsize st = 0"
  shows "\<exists>m n. (let (st2, p2) = whole_stripes st p in store_rest st2 p2) =
      Inr (st\<lparr>xs_v := fst (stripes (xs_v st) p), memory := m, memsize := n\<rparr>) \<and>
    length m = 16 \<and> 0 \<le> n \<and> n < 16 \<and> take (nat n) m = snd (stripes (xs_v st) p)"
proof -
  obtain v r where vr: "stripes (xs_v st) p = (v, r)" by fastforce
  then have r: "length r < 16" using stripes_rest [of "xs_v st" p] by simp
  show ?thesis
  proof (cases "r = []")
    case True
    then show ?thesis using assms vr
      by (intro exI [of _ "memory st"] exI [of _ 0]) (simp add: whole_stripes_def store_rest_def)
  next
    case False
    let ?m = "r @ drop (length r) (memory st)"
    show ?thesis using assms vr r False
      by (intro exI [of _ ?m] exI [of _ "int (length r)"])
        (simp add: whole_stripes_def store_rest_def mem_write_fits s32_id)
  qed
qed

lemma update_holds:
  assumes h: "xxh_holds sd st xs" and f: "xxh_fits (xs @ ys)"
  shows "\<exists>st'. XXH32_update st ys (int (length ys)) = Inr st' \<and> xxh_holds sd st' (xs @ ys)"
proof -
  define st1 where "st1 = st\<lparr>total_len := total_len st + word_of_int (int (length ys))\<rparr>"
  define r where "r = take (nat (memsize st)) (memory st)"
  have r: "length r = nat (memsize st)" "stripes (start_lanes sd) xs = (xs_v st, r)"
    using h by (auto simp: xxh_holds_def r_def)
  then have "length r \<le> length xs" using stripes_rest_length [of "start_lanes sd" xs] by simp
  then have s: "s32 (memsize st + int (length ys)) = memsize st + int (length ys)"
    using f h r(1) by (intro s32_id) (auto simp: xxh_fits_def xxh_holds_def)
  have tl: "total_len st1 = of_nat (length (xs @ ys))"
    using h by (simp add: st1_def xxh_holds_def)
  have app: "stripes (start_lanes sd) (xs @ ys) = stripes (xs_v st) (r @ ys)"
    using r(2) by (rule stripes_append)
  show ?thesis
  proof (cases "memsize st + int (length ys) < 16")
    case True
    let ?m = "r @ ys @ drop (nat (memsize st) + length ys) (memory st)"
    have "mem_write (memory st) (nat (memsize st)) ys = Inr ?m"
      using True h by (subst mem_write_fits) (auto simp: xxh_holds_def r_def)
    then have "XXH32_update st ys (int (length ys)) =
        Inr (st1\<lparr>memory := ?m, memsize := memsize st + int (length ys)\<rparr>)"
      using True s by (simp add: XXH32_update_def st1_def)
    moreover have "xxh_holds sd (st1\<lparr>memory := ?m, memsize := memsize st + int (length ys)\<rparr>) (xs @ ys)"
      using True h r app tl
      by (auto simp: xxh_holds_def st1_def stripes_short nat_add_distrib)
    ultimately show ?thesis by blast
  next
    case False
    obtain st2 p where fl: "flush_memory st1 ys = Inr (st2, p)"
      "stripes (xs_v st) (r @ ys) = stripes (xs_v st2) p" "length (memory st2) = 16" "memsize st2 = 0"
      "xs_seed st2 = xs_seed st1" "total_len st2 = total_len st1"
    proof (cases "memsize st = 0")
      case True
      then show thesis using that [of st1 ys] h r
        by (simp add: flush_memory_def st1_def xxh_holds_def)
    next
      case nz: False
      let ?n = "nat (16 - memsize st)"
      let ?m = "r @ take ?n ys"
      have n: "?n \<le> length ys" "nat (memsize st) + ?n = 16"
        using False h by (auto simp: xxh_holds_def)
      have w: "mem_write (memory st) (nat (memsize st)) (take ?n ys) = Inr ?m"
        using n h by (subst mem_write_fits) (auto simp: xxh_holds_def r_def)
      have sp: "stripes (xs_v st) (r @ ys) = stripes (stripe (xs_v st) ?m) (drop ?n ys)"
        using n r(1) by (subst stripes_step) (auto simp: nat_diff_distrib)
      show thesis using that [of "st1\<lparr>memory := ?m, xs_v := stripe (xs_v st) ?m, memsize := 0\<rparr>" "drop ?n ys"]
        w nz n sp r(1) by (simp add: flush_memory_def st1_def Let_def)
    qed
    from store_after_stripes [OF fl(3,4), of p] obtain m k where sr:
      "(let (st3, p2) = whole_stripes st2 p in store_rest st3 p2) =
         Inr (st2\<lparr>xs_v := fst (stripes (xs_v st2) p), memory := m, memsize := k\<rparr>)"
      "length m = 16" "0 \<le> k" "k < 16" "take (nat k) m = snd (stripes (xs_v st2) p)" by blast
    have "XXH32_update st ys (int (length ys)) =
        Inr (st2\<lparr>xs_v := fst (stripes (xs_v st2) p), memory := m, memsize := k\<rparr>)"
      using False s fl(1) sr(1) by (simp add: XXH32_update_def st1_def)
    moreover have "xxh_holds sd (st2\<lparr>xs_v := fst (stripes (xs_v st2) p), memory := m, memsize := k\<rparr>) (xs @ ys)"
      using sr(2-5) fl h app tl by (simp add: xxh_holds_def st1_def)
    ultimately show ?thesis by blast
  qed
qed

lemma digest_holds:
  assumes "xxh_holds sd st xs" "xxh_fits xs"
  shows "XXH32_intermediateDigest st = XXH32 xs (int (length xs)) sd"
proof -
  have l: "total_len st \<ge> 16 \<longleftrightarrow> length xs \<ge> 16"
    using assms by (simp add: xxh_holds_def xxh_fits_def word_le_nat_alt unat_of_nat take_bit_nat_eq_self_iff)
  have u: "ucast (total_len st) = (of_nat (length xs) :: u32)"
    using assms(1) by (simp add: xxh_holds_def unsigned_of_nat word_of_nat_eq_iff)
  show ?thesis
  proof (cases "16 \<le> length xs")
    case True
    then show ?thesis using assms(1) l u
      by (simp add: XXH32_intermediateDigest_def XXH32_def xxh_holds_def)
  next
    case False
    then have "stripes (start_lanes sd) xs = (start_lanes sd, xs)" by (simp add: stripes_short)
    then show ?thesis using assms(1) False l u
      by (simp add: XXH32_intermediateDigest_def XXH32_def xxh_holds_def)
  qed
qed

interpretation xxh: hash_sink "xxh_holds sd" xxh_fits "\<lambda>st ys. XXH32_update st ys (int (length ys))"
    XXH32_intermediateDigest "\<lambda>xs. XXH32 xs (int (length xs)) sd" for sd
  by unfold_locales (use update_holds digest_holds in \<open>auto simp: xxh_fits_def\<close>)

section \<open>Correctness of the Lua object\<close>

text \<open>What the object promises: it remembers a seed and the bytes since the last reset, and a
  digest is the one-shot hash of those bytes. The length that \<^verbatim>\<open>XXH32\<close> takes is an \<^verbatim>\<open>int\<close>.\<close>

fun expected_hashes :: "int \<Rightarrow> byte list \<Rightarrow> xxh_call list \<Rightarrow> int list" where
  "expected_hashes sd xs [] = []"
| "expected_hashes sd xs (Update ys # cs) = expected_hashes sd (xs @ ys) cs"
| "expected_hashes sd xs (Digest # cs) = xxh32_lua xs sd # expected_hashes sd xs cs"
| "expected_hashes sd xs (Reset None # cs) = expected_hashes sd [] cs"
| "expected_hashes sd xs (Reset (Some s) # cs) = expected_hashes s [] cs"

fun calls_fit :: "byte list \<Rightarrow> xxh_call list \<Rightarrow> bool" where
  "calls_fit xs [] \<longleftrightarrow> True"
| "calls_fit xs (Update ys # cs) \<longleftrightarrow> xxh_fits (xs @ ys) \<and> calls_fit (xs @ ys) cs"
| "calls_fit xs (Digest # cs) \<longleftrightarrow> calls_fit xs cs"
| "calls_fit xs (Reset arg # cs) \<longleftrightarrow> calls_fit [] cs"

lemma xxh_fits_s32: "xxh_fits xs \<Longrightarrow> s32 (int (length xs)) = int (length xs)"
  by (simp add: xxh_fits_def s32_id)

lemma xxh_fits_append: "xxh_fits (xs @ ys) \<Longrightarrow> xxh_fits xs" "xxh_fits (xs @ ys) \<Longrightarrow> xxh_fits ys"
  by (simp_all add: xxh_fits_def)

lemma holds_memory: "xxh_holds sd st xs \<Longrightarrow> length (memory st) = 16"
  by (simp add: xxh_holds_def)

lemma run_calls_expected:
  assumes "xxh_holds (word_of_int sd) (xh_state xh) xs" "xh_seed xh = word_of_int sd" "xxh_fits xs"
    "calls_fit xs cs"
  shows "run_calls xh cs = Inr (expected_hashes sd xs cs)"
  using assms
proof (induction sd xs cs arbitrary: xh rule: expected_hashes.induct)
  case (2 sd xs ys cs)
  have f: "xxh_fits (xs @ ys)" using 2(5) by simp
  obtain st where "XXH32_update (xh_state xh) ys (int (length ys)) = Inr st"
    and st: "xxh_holds (word_of_int sd) st (xs @ ys)"
    using xxh.put_holds [OF 2(2) f] by blast
  moreover have "s32 (int (length ys)) = int (length ys)"
    using xxh_fits_s32 [OF xxh_fits_append(2) [OF f]] .
  ultimately have "update_lua xh ys = Inr (xh\<lparr>xh_state := st\<rparr>)" by (simp only: update_lua_def rbind_simps)
  moreover have "run_calls (xh\<lparr>xh_state := st\<rparr>) cs = Inr (expected_hashes sd (xs @ ys) cs)"
    using st 2(3,5) f by (intro 2(1)) simp_all
  ultimately show ?case by simp
next
  case (3 sd xs cs)
  have "digest_lua xh = xxh32_lua xs sd"
    unfolding digest_lua_def xxh32_lua_def xxh_fits_s32 [OF 3(4)] xxh.digest_holds [OF 3(2,4)] ..
  moreover have "run_calls xh cs = Inr (expected_hashes sd xs cs)" using 3(5) by (intro 3(1) 3(2-4)) simp
  ultimately show ?case by simp
next
  case (4 sd xs cs)
  have "run_calls (reset_lua xh None) cs = Inr (expected_hashes sd [] cs)"
    using 4(3,5) holds_memory [OF 4(2)]
    by (intro 4(1)) (simp_all add: reset_lua_def Let_def reset_holds xxh_fits_def)
  then show ?case by simp
next
  case (5 sd xs s cs)
  have "run_calls (reset_lua xh (Some s)) cs = Inr (expected_hashes s [] cs)"
    using 5(5) holds_memory [OF 5(2)]
    by (intro 5(1)) (simp_all add: reset_lua_def Let_def reset_holds xxh_fits_def)
  then show ?case by simp
qed simp

text \<open>[C7] For any sequence of updates, digests and resets on a fresh hash object, in which no more than
  2147483647 bytes are fed between resets, every digest call returns what the one-shot function returns
  for the bytes fed since the last reset, under the seed then in force. No call fails, and neither
  the way the bytes were cut into updates nor the contents of the freshly allocated state
  matter.\<close>

theorem xxhash_object:
  assumes "length (memory raw) = 16" "calls_fit [] cs"
  shows "run_calls (init_lua raw sd) cs = Inr (expected_hashes sd [] cs)"
  using assms by (intro run_calls_expected)
    (simp_all add: init_lua_def XXH32_init_def reset_holds xxh_fits_def)

theorem xxhash_object_witness:
  "run_calls (init_lua \<lparr>xs_seed = 1, xs_v = (2, 3, 4, 5), total_len = 6, memory = replicate 16 7, memsize = 8\<rparr> 9)
     [Update [1, 2, 3], Update (replicate 20 4), Digest, Reset (Some 1), Update [5], Digest] =
   Inr [xxh32_lua ([1, 2, 3] @ replicate 20 4) 9, xxh32_lua [5] 1]"
  by (subst xxhash_object) (simp_all add: xxh_fits_def)

text \<open>A string of 2147483648 to 4294967295 bytes has a negative length for the C functions: the one-shot hash then does not
  look at its contents at all, and an update of a fresh object copies it over the 16 bytes of
  \<^verbatim>\<open>memory\<close>.\<close>

lemma huge_string:
  assumes "INT_MAX < int (length xs)" "int (length xs) < 4294967296"
  shows "xxh32_lua xs sd = uint (avalanche (word_of_int sd + PRIME32_5 + of_nat (length xs))) \<and>
         update_lua (init_lua raw sd) xs = Inl OutOfBounds"
proof -
  let ?n = "s32 (int (length xs))"
  have n: "?n = int (length xs) - 4294967296"
    using assms s32_id [of "int (length xs) - 4294967296"] s32_cong [of "int (length xs)" "int (length xs) - 4294967296"]
    by simp
  then have "?n < 0" using assms by simp
  moreover have "word_of_int ?n = (of_nat (length xs) :: u32)"
    unfolding n by simp
  moreover have "s32 ?n = ?n" unfolding n using assms by (intro s32_id) simp_all
  ultimately show ?thesis
    by (simp add: xxh32_lua_def XXH32_def finish_hash_def tail_words.simps update_lua_def XXH32_update_def
        init_lua_def XXH32_init_def XXH32_resetState_def)
qed

lemma huge_string_example:
  "xxh32_lua (replicate 2147483648 0) 5 = uint (avalanche (5 + PRIME32_5 + of_nat 2147483648)) \<and>
   update_lua (init_lua \<lparr>xs_seed = 1, xs_v = (2, 3, 4, 5), total_len = 6, memory = replicate 16 7, memsize = 8\<rparr> 5)
     (replicate 2147483648 0) = Inl OutOfBounds"
proof -
  have "INT_MAX < int 2147483648" "int 2147483648 < 4294967296" by simp_all
  then show ?thesis
    using huge_string [of "replicate 2147483648 0" 5] by (simp only: length_replicate) simp
qed

end
