(* ===== verification/Strbuf.thy ===== *)
theory Strbuf
  imports Interfaces "HOL-Library.Signed_Division"
begin

text \<open>
  The growing string buffer of \<^verbatim>\<open>src/lualib-src/lua-cjson/strbuf.c\<close> and \<^verbatim>\<open>strbuf.h\<close>, in which the JSON
  encoder builds its output. The buffer is the allocated block with the C fields beside it; the
  contents of freshly allocated bytes are an argument \<open>fresh\<close>, since \<^verbatim>\<open>malloc\<close> and \<^verbatim>\<open>realloc\<close> leave them
  undefined. Writes outside the block are faults, \<^verbatim>\<open>die\<close> is a fault, and the growth loop is a partial
  function because its product can wrap. Requests of a size that is not positive fail; others
  succeed.

  Under exponential growth every sequence of appends is shown to build the concatenation of what was appended; under
  linear growth an append can write past the block.
\<close>

section \<open>The buffer\<close>

record strbuf_t =
  buf :: "byte list option"
  sb_size :: int
  sb_length :: int
  increment :: int
  dynamic :: bool
  reallocs :: int

definition STRBUF_DEFAULT_SIZE :: int where "STRBUF_DEFAULT_SIZE = 1023"
definition STRBUF_DEFAULT_INCREMENT :: int where "STRBUF_DEFAULT_INCREMENT = -2"

text \<open>Writing through \<^verbatim>\<open>s->buf + s->length\<close>.\<close>

definition write_at :: "strbuf_t \<Rightarrow> int \<Rightarrow> byte list \<Rightarrow> strbuf_t result" where
  "write_at s i bs =
     (case buf s of None \<Rightarrow> Inl OutOfBounds
      | Some b \<Rightarrow> if i < 0 then Inl OutOfBounds
                  else rbind (mem_write b (nat i) bs) (\<lambda>b'. Inr (s\<lparr>buf := Some b'\<rparr>)))"

definition strbuf_ensure_null :: "strbuf_t \<Rightarrow> strbuf_t result" where
  "strbuf_ensure_null s = write_at s (sb_length s) [0]"

definition strbuf_init :: "(nat \<Rightarrow> byte) \<Rightarrow> int \<Rightarrow> strbuf_t result" where
  "strbuf_init fresh len =
     (let sz = (if len \<le> 0 then STRBUF_DEFAULT_SIZE else s32 (len + 1))
      in if sz \<le> 0 then Inl (Die ''Out of memory'')
         else strbuf_ensure_null
           \<lparr>buf = Some (map fresh [0..<nat sz]), sb_size = sz, sb_length = 0,
            increment = STRBUF_DEFAULT_INCREMENT, dynamic = False, reallocs = 0\<rparr>)"

definition strbuf_new :: "(nat \<Rightarrow> byte) \<Rightarrow> int \<Rightarrow> strbuf_t result" where
  "strbuf_new fresh len = rbind (strbuf_init fresh len) (\<lambda>s. Inr (s\<lparr>dynamic := True\<rparr>))"

definition strbuf_set_increment :: "strbuf_t \<Rightarrow> int \<Rightarrow> strbuf_t result" where
  "strbuf_set_increment s inc =
     (if inc = 0 \<or> inc = -1 then Inl (Die ''BUG: Invalid string increment'')
      else Inr (s\<lparr>increment := inc\<rparr>))"

text \<open>After \<^verbatim>\<open>strbuf_free\<close> a dynamic buffer is gone, a static one can be initialised again.\<close>

definition strbuf_free :: "strbuf_t \<Rightarrow> strbuf_t option" where
  "strbuf_free s = (if dynamic s then None else Some (s\<lparr>buf := None\<rparr>))"

definition strbuf_free_to_string :: "strbuf_t \<Rightarrow> (byte list option \<times> int) result" where
  "strbuf_free_to_string s = rbind (strbuf_ensure_null s) (\<lambda>s'. Inr (buf s', sb_length s'))"

definition strbuf_reset :: "strbuf_t \<Rightarrow> strbuf_t" where
  "strbuf_reset s = s\<lparr>sb_length := 0\<rparr>"

definition strbuf_allocated :: "strbuf_t \<Rightarrow> bool" where
  "strbuf_allocated s \<longleftrightarrow> buf s \<noteq> None"

definition strbuf_empty_length :: "strbuf_t \<Rightarrow> int" where
  "strbuf_empty_length s = s32 (s32 (sb_size s - sb_length s) - 1)"

section \<open>Growing\<close>

text \<open>The loop \<^verbatim>\<open>while (newsize < reqsize) newsize *= -s->increment\<close>.\<close>

partial_function (option) grow :: "int \<Rightarrow> int \<Rightarrow> int \<Rightarrow> int option" where
  "grow factor reqsize newsize =
     (if newsize < reqsize then grow factor reqsize (s32 (newsize * factor)) else Some newsize)"

definition calculate_new_size :: "strbuf_t \<Rightarrow> int \<Rightarrow> int result" where
  "calculate_new_size s len =
     (if len \<le> 0 then Inl (Die ''BUG: Invalid strbuf length requested'')
      else let reqsize = s32 (len + 1) in
        if sb_size s > reqsize then Inr reqsize
        else if increment s < 0
        then (case grow (s32 (- increment s)) reqsize (sb_size s) of None \<Rightarrow> Inl Diverges | Some n \<Rightarrow> Inr n)
        else Inr (s32 (s32 (s32 (sb_size s + increment s) - 1) sdiv increment s * increment s)))"

definition strbuf_resize :: "(nat \<Rightarrow> byte) \<Rightarrow> strbuf_t \<Rightarrow> int \<Rightarrow> strbuf_t result" where
  "strbuf_resize fresh s len =
     rbind (calculate_new_size s len) (\<lambda>newsize.
       if newsize \<le> 0 then Inl (Die ''Out of memory'')
       else let old = (case buf s of None \<Rightarrow> [] | Some b \<Rightarrow> b);
                b' = take (nat newsize) old @ map fresh [length old..<nat newsize]
            in Inr (s\<lparr>sb_size := newsize, buf := Some b', reallocs := s32 (reallocs s + 1)\<rparr>))"

definition strbuf_ensure_empty_length :: "(nat \<Rightarrow> byte) \<Rightarrow> strbuf_t \<Rightarrow> int \<Rightarrow> strbuf_t result" where
  "strbuf_ensure_empty_length fresh s len =
     (if len > strbuf_empty_length s then strbuf_resize fresh s (s32 (sb_length s + len)) else Inr s)"

section \<open>Appending\<close>

definition strbuf_extend_length :: "strbuf_t \<Rightarrow> int \<Rightarrow> strbuf_t" where
  "strbuf_extend_length s len = s\<lparr>sb_length := s32 (sb_length s + len)\<rparr>"

definition strbuf_append_char_unsafe :: "strbuf_t \<Rightarrow> byte \<Rightarrow> strbuf_t result" where
  "strbuf_append_char_unsafe s c =
     rbind (write_at s (sb_length s) [c]) (\<lambda>s'. Inr (s'\<lparr>sb_length := s32 (sb_length s + 1)\<rparr>))"

definition strbuf_append_char :: "(nat \<Rightarrow> byte) \<Rightarrow> strbuf_t \<Rightarrow> byte \<Rightarrow> strbuf_t result" where
  "strbuf_append_char fresh s c =
     rbind (strbuf_ensure_empty_length fresh s 1) (\<lambda>s1.
       rbind (write_at s1 (sb_length s1) [c]) (\<lambda>s2. Inr (s2\<lparr>sb_length := s32 (sb_length s2 + 1)\<rparr>)))"

text \<open>The source of the copy is the list of its \<^verbatim>\<open>len\<close> bytes.\<close>

definition strbuf_append_mem_unsafe :: "strbuf_t \<Rightarrow> byte list \<Rightarrow> strbuf_t result" where
  "strbuf_append_mem_unsafe s c =
     rbind (write_at s (sb_length s) c) (\<lambda>s'. Inr (s'\<lparr>sb_length := s32 (sb_length s' + int (length c))\<rparr>))"

definition strbuf_append_mem :: "(nat \<Rightarrow> byte) \<Rightarrow> strbuf_t \<Rightarrow> byte list \<Rightarrow> strbuf_t result" where
  "strbuf_append_mem fresh s c =
     rbind (strbuf_ensure_empty_length fresh s (int (length c))) (\<lambda>s1.
       rbind (write_at s1 (sb_length s1) c)
         (\<lambda>s2. Inr (s2\<lparr>sb_length := s32 (sb_length s2 + int (length c))\<rparr>)))"

fun append_string_loop :: "(nat \<Rightarrow> byte) \<Rightarrow> strbuf_t \<Rightarrow> int \<Rightarrow> byte list \<Rightarrow> strbuf_t result" where
  "append_string_loop fresh s space [] = Inr s"
| "append_string_loop fresh s space (c # str) =
     (if c = 0 then Inr s
      else rbind (if space < 1
                  then rbind (strbuf_resize fresh s (s32 (sb_length s + 1))) (\<lambda>s'. Inr (s', strbuf_empty_length s'))
                  else Inr (s, space))
        (\<lambda>(s1, space1). rbind (write_at s1 (sb_length s1) [c]) (\<lambda>s2.
           append_string_loop fresh (s2\<lparr>sb_length := s32 (sb_length s2 + 1)\<rparr>) (space1 - 1) str)))"

definition strbuf_append_string :: "(nat \<Rightarrow> byte) \<Rightarrow> strbuf_t \<Rightarrow> byte list \<Rightarrow> strbuf_t result" where
  "strbuf_append_string fresh s str = append_string_loop fresh s (strbuf_empty_length s) str"

text \<open>\<^verbatim>\<open>vsnprintf\<close> writes at most \<^verbatim>\<open>n - 1\<close> bytes of the formatted output and a terminator, and returns
  the length of the whole output, or a negative number when it cannot format (\<open>None\<close>). The size
  argument is a \<^verbatim>\<open>size_t\<close>, so a negative one is no bound.\<close>

definition vsnprintf :: "strbuf_t \<Rightarrow> int \<Rightarrow> byte list option \<Rightarrow> (strbuf_t \<times> int) result" where
  "vsnprintf s n out =
     (case out of None \<Rightarrow> Inr (s, -1)
      | Some bs \<Rightarrow>
          rbind (write_at s (sb_length s)
                   (if n < 0 then bs @ [0] else if n = 0 then [] else take (nat (n - 1)) bs @ [0]))
            (\<lambda>s'. Inr (s', int (length bs))))"

definition strbuf_append_fmt :: "(nat \<Rightarrow> byte) \<Rightarrow> strbuf_t \<Rightarrow> int \<Rightarrow> byte list option \<Rightarrow> strbuf_t result" where
  "strbuf_append_fmt fresh s len out =
     rbind (strbuf_ensure_empty_length fresh s len) (\<lambda>s1.
       rbind (vsnprintf s1 len out) (\<lambda>(s2, fmt_len).
         if fmt_len < 0 then Inl (Die ''BUG: Unable to convert number'')
         else Inr (s2\<lparr>sb_length := s32 (sb_length s2 + fmt_len)\<rparr>)))"

text \<open>The body of the retry loop gives the buffer and \<^verbatim>\<open>fmt_len\<close>; a second failure ends the process.\<close>

function append_fmt_attempt :: "(nat \<Rightarrow> byte) \<Rightarrow> strbuf_t \<Rightarrow> byte list option \<Rightarrow> nat \<Rightarrow> (strbuf_t \<times> int) result" where
  "append_fmt_attempt fresh s out t =
     (let empty_len = strbuf_empty_length s in
      rbind (vsnprintf s (s32 (empty_len + 1)) out) (\<lambda>(s1, fmt_len).
        if fmt_len \<le> empty_len then Inr (s1, fmt_len)
        else if t > 0 then Inl (Die ''BUG: length of formatted string changed'')
        else rbind (strbuf_resize fresh s1 (s32 (sb_length s1 + fmt_len)))
               (\<lambda>s2. append_fmt_attempt fresh s2 out (t + 1))))"
  by pat_completeness auto
termination by (relation "measure (\<lambda>(_, _, _, t). 1 - t)") auto

declare append_fmt_attempt.simps [simp del]

definition strbuf_append_fmt_retry :: "(nat \<Rightarrow> byte) \<Rightarrow> strbuf_t \<Rightarrow> byte list option \<Rightarrow> strbuf_t result" where
  "strbuf_append_fmt_retry fresh s out =
     rbind (append_fmt_attempt fresh s out 0)
       (\<lambda>(s', fmt_len). Inr (s'\<lparr>sb_length := s32 (sb_length s' + fmt_len)\<rparr>))"

definition strbuf_string :: "strbuf_t \<Rightarrow> byte list option \<times> int" where
  "strbuf_string s = (buf s, sb_length s)"

section \<open>What a buffer holds\<close>

text \<open>A buffer with exponential growth by the factor \<open>k\<close> whose contents are \<open>xs\<close>, with room for a
  terminator; and the contents for which growth stays within \<^verbatim>\<open>int\<close>.\<close>

definition sb_holds :: "int \<Rightarrow> strbuf_t \<Rightarrow> byte list \<Rightarrow> bool" where
  "sb_holds k s xs \<longleftrightarrow> 2 \<le> k \<and> increment s = - k \<and> sb_length s = int (length xs) \<and>
     sb_length s < sb_size s \<and> sb_size s \<le> INT_MAX \<and>
     (\<exists>b. buf s = Some b \<and> int (length b) = sb_size s \<and> take (length xs) b = xs)"

definition sb_fits :: "int \<Rightarrow> byte list \<Rightarrow> bool" where
  "sb_fits k xs \<longleftrightarrow> (int (length xs) + 1) * k \<le> INT_MAX"

lemma sb_holdsE:
  assumes "sb_holds k s xs"
  obtains b where "2 \<le> k" "increment s = - k" "sb_length s = int (length xs)" "sb_length s < sb_size s"
    "sb_size s \<le> INT_MAX" "buf s = Some b" "int (length b) = sb_size s" "take (length xs) b = xs"
  using assms by (auto simp: sb_holds_def)

lemma sb_fits_bounds:
  assumes "2 \<le> k" "sb_fits k xs"
  shows "k \<le> INT_MAX" "2 * (int (length xs) + 1) \<le> INT_MAX" "(int (length xs) + 1) * k \<le> INT_MAX"
proof -
  show f: "(int (length xs) + 1) * k \<le> INT_MAX" using assms by (simp add: sb_fits_def)
  have "1 * k \<le> (int (length xs) + 1) * k" using assms by (intro mult_right_mono) simp_all
  with f show "k \<le> INT_MAX" by linarith
  have "(int (length xs) + 1) * 2 \<le> (int (length xs) + 1) * k" using assms by (intro mult_left_mono) simp_all
  with f show "2 * (int (length xs) + 1) \<le> INT_MAX" by linarith
qed

lemma sb_fits_prefix: "2 \<le> k \<Longrightarrow> sb_fits k (xs @ ys) \<Longrightarrow> sb_fits k xs"
proof -
  assume "2 \<le> k" "sb_fits k (xs @ ys)"
  moreover from \<open>2 \<le> k\<close> have "(int (length xs) + 1) * k \<le> (int (length (xs @ ys)) + 1) * k"
    by (intro mult_right_mono) simp_all
  ultimately show ?thesis unfolding sb_fits_def by linarith
qed

lemma grow_reaches:
  assumes "2 \<le> k" "0 < n" "n \<le> INT_MAX" "req * k \<le> INT_MAX"
  shows "\<exists>m. grow k req n = Some m \<and> req \<le> m \<and> n \<le> m \<and> m \<le> INT_MAX"
  using assms(2,3)
proof (induction "nat (req - n)" arbitrary: n rule: less_induct)
  case less
  show ?case
  proof (cases "n < req")
    case True
    have "n * 2 \<le> n * k" using assms(1) less.prems by (intro mult_left_mono) simp_all
    moreover have "n * k \<le> req * k" using True assms(1) by (intro mult_right_mono) simp_all
    ultimately have nk: "n < n * k" "n * k \<le> INT_MAX" using less.prems assms(4) by linarith+
    then have "s32 (n * k) = n * k" using less.prems by (intro s32_id) linarith+
    moreover have "\<exists>m. grow k req (n * k) = Some m \<and> req \<le> m \<and> n * k \<le> m \<and> m \<le> INT_MAX"
      using nk less.prems True by (intro less.hyps) auto
    ultimately show ?thesis using True nk by (auto simp: grow.simps [of k req n])
  next
    case False
    then show ?thesis using less.prems by (simp add: grow.simps)
  qed
qed

lemma resize_holds:
  assumes h: "sb_holds k s xs" and f: "sb_fits k (xs @ ys)" and n: "int (length (xs @ ys)) \<ge> sb_size s"
  shows "\<exists>s'. strbuf_resize fresh s (int (length (xs @ ys))) = Inr s' \<and> sb_holds k s' xs \<and>
              int (length (xs @ ys)) < sb_size s'"
proof -
  obtain b where b: "2 \<le> k" "increment s = - k" "sb_length s = int (length xs)" "sb_length s < sb_size s"
    "sb_size s \<le> INT_MAX" "buf s = Some b" "int (length b) = sb_size s" "take (length xs) b = xs"
    using h by (rule sb_holdsE)
  let ?r = "int (length (xs @ ys)) + 1"
  note kb = sb_fits_bounds [OF b(1) f]
  obtain m where m: "grow k ?r (sb_size s) = Some m" "?r \<le> m" "sb_size s \<le> m" "m \<le> INT_MAX"
    using grow_reaches [OF b(1) _ b(5) kb(3)] b(3,4) by auto
  have "s32 ?r = ?r" "s32 k = k" using kb b(1) by (auto intro!: s32_id)
  then have c: "calculate_new_size s (int (length (xs @ ys))) = Inr m"
    using b n m by (simp add: calculate_new_size_def Let_def)
  let ?s = "s\<lparr>sb_size := m, buf := Some (take (nat m) b @ map fresh [length b..<nat m]),
              reallocs := s32 (reallocs s + 1)\<rparr>"
  have "strbuf_resize fresh s (int (length (xs @ ys))) = Inr ?s"
    using c m(2) b(6) by (simp add: strbuf_resize_def Let_def)
  moreover have "length xs \<le> length b" "length b \<le> nat m" using b m by linarith+
  then have "sb_holds k ?s xs"
    using b m by (auto simp: sb_holds_def)
  ultimately show ?thesis using m(2) by auto
qed

lemma empty_length:
  assumes "sb_holds k s xs"
  shows "strbuf_empty_length s = sb_size s - int (length xs) - 1"
proof -
  have "s32 (sb_size s - sb_length s) = sb_size s - sb_length s"
    using assms by (intro s32_id) (auto simp: sb_holds_def)
  then show ?thesis using assms
    by (auto simp: strbuf_empty_length_def sb_holds_def intro!: s32_id)
qed

lemma ensure_holds:
  assumes h: "sb_holds k s xs" and f: "sb_fits k (xs @ ys)"
  shows "\<exists>s'. strbuf_ensure_empty_length fresh s (int (length ys)) = Inr s' \<and> sb_holds k s' xs \<and>
              int (length (xs @ ys)) < sb_size s'"
proof (cases "int (length ys) > strbuf_empty_length s")
  case True
  have "2 \<le> k" "sb_length s = int (length xs)" using h by (auto simp: sb_holds_def)
  moreover have "s32 (int (length (xs @ ys))) = int (length (xs @ ys))"
    using sb_fits_bounds(2) [OF \<open>2 \<le> k\<close> f] by (intro s32_id) simp_all
  moreover have "int (length (xs @ ys)) \<ge> sb_size s" using True by (simp add: empty_length [OF h])
  from resize_holds [OF h f this, of fresh] obtain s' where
    "strbuf_resize fresh s (int (length (xs @ ys))) = Inr s'" "sb_holds k s' xs"
    "int (length (xs @ ys)) < sb_size s'" by blast
  ultimately show ?thesis using True by (auto simp: strbuf_ensure_empty_length_def)
next
  case False
  then show ?thesis using h by (simp add: strbuf_ensure_empty_length_def empty_length [OF h])
qed

lemma write_holds:
  assumes h: "sb_holds k s xs" and n: "int (length (xs @ zs)) \<le> sb_size s"
  obtains s' where "write_at s (sb_length s) zs = Inr s'" "sb_length s' = int (length xs)" "sb_size s' = sb_size s"
    "sb_holds k s' xs"
    "\<And>ys. zs = ys @ drop (length ys) zs \<Longrightarrow> int (length (xs @ ys)) < sb_size s \<Longrightarrow>
       sb_holds k (s'\<lparr>sb_length := int (length (xs @ ys))\<rparr>) (xs @ ys)"
proof -
  obtain b where b: "2 \<le> k" "increment s = - k" "sb_length s = int (length xs)" "sb_length s < sb_size s"
    "sb_size s \<le> INT_MAX" "buf s = Some b" "int (length b) = sb_size s" "take (length xs) b = xs"
    using h by (rule sb_holdsE)
  let ?b = "xs @ zs @ drop (length xs + length zs) b"
  let ?s = "s\<lparr>buf := Some ?b\<rparr>"
  have l: "length xs + length zs \<le> length b" using n b(7) by simp
  then have "write_at s (sb_length s) zs = Inr ?s"
    using b by (simp add: write_at_def mem_write_fits)
  moreover have "int (length ?b) = sb_size s" using l b(7) by simp
  then have "sb_holds k ?s xs" using b by (simp add: sb_holds_def)
  moreover have "sb_holds k (?s\<lparr>sb_length := int (length (xs @ ys))\<rparr>) (xs @ ys)"
    if "zs = ys @ drop (length ys) zs" "int (length (xs @ ys)) < sb_size s" for ys
  proof -
    have "take (length (xs @ ys)) ?b = xs @ ys" using that(1) by (metis append_assoc append_eq_conv_conj length_append)
    then show ?thesis using that(2) b \<open>int (length ?b) = sb_size s\<close> by (simp add: sb_holds_def)
  qed
  ultimately show thesis using b(3) by (intro that [of ?s]) simp_all
qed

lemma s32_length_append:
  assumes "2 \<le> k" "sb_fits k (xs @ ys)"
  shows "s32 (int (length xs) + int (length ys)) = int (length (xs @ ys))"
  using sb_fits_bounds(2) [OF assms] by (subst s32_id) simp_all

lemma append_mem_holds:
  assumes h: "sb_holds k s xs" and f: "sb_fits k (xs @ ys)"
  shows "\<exists>s'. strbuf_append_mem fresh s ys = Inr s' \<and> sb_holds k s' (xs @ ys)"
proof -
  have k: "2 \<le> k" using h by (simp add: sb_holds_def)
  obtain s1 where s1: "strbuf_ensure_empty_length fresh s (int (length ys)) = Inr s1" "sb_holds k s1 xs"
    "int (length (xs @ ys)) < sb_size s1" using ensure_holds [OF h f] by blast
  obtain s2 where "write_at s1 (sb_length s1) ys = Inr s2" "sb_length s2 = int (length xs)"
    "sb_holds k (s2\<lparr>sb_length := int (length (xs @ ys))\<rparr>) (xs @ ys)"
    using write_holds [OF s1(2), of ys] s1(3) by (metis append_Nil2 drop_all le_refl less_imp_le)
  then show ?thesis using s1(1) s32_length_append [OF k f] by (simp add: strbuf_append_mem_def)
qed

interpretation sb: sink "sb_holds k" "sb_fits (max 2 k)" "strbuf_append_mem fresh" for k fresh
proof unfold_locales
  show "sb_fits (max 2 k) xs" if "sb_fits (max 2 k) (xs @ ys)" for xs ys
    using that by (rule sb_fits_prefix [rotated]) simp
  show "\<exists>s'. strbuf_append_mem fresh s ys = Inr s' \<and> sb_holds k s' (xs @ ys)"
    if "sb_holds k s xs" "sb_fits (max 2 k) (xs @ ys)" for s xs ys
  proof -
    have "max 2 k = k" using that(1) by (simp add: sb_holds_def)
    then show ?thesis using that append_mem_holds by simp
  qed
qed


lemma append_char_mem: "strbuf_append_char fresh s c = strbuf_append_mem fresh s [c]"
  by (simp add: strbuf_append_char_def strbuf_append_mem_def)

text \<open>Appending a C string appends the bytes before its terminator.\<close>

lemma append_string_loop_holds:
  "sb_holds k s xs \<Longrightarrow> sb_fits k (xs @ takeWhile (\<lambda>c. c \<noteq> 0) str) \<Longrightarrow> space = strbuf_empty_length s \<Longrightarrow>
   \<exists>s'. append_string_loop fresh s space str = Inr s' \<and> sb_holds k s' (xs @ takeWhile (\<lambda>c. c \<noteq> 0) str)"
proof (induction str arbitrary: s xs space)
  case (Cons c str)
  let ?w = "takeWhile (\<lambda>c. c \<noteq> 0) str"
  show ?case
  proof (cases "c = 0")
    case False
    have k: "2 \<le> k" using Cons.prems(1) by (simp add: sb_holds_def)
    have f: "sb_fits k ((xs @ [c]) @ ?w)" using Cons.prems(2) False by simp
    have f1: "sb_fits k (xs @ [c])" using k f by (rule sb_fits_prefix)
    note l = s32_length_append [OF k f1]
    let ?room = "if space < 1
       then rbind (strbuf_resize fresh s (s32 (sb_length s + 1))) (\<lambda>s'. Inr (s', strbuf_empty_length s'))
       else Inr (s, space)"
    obtain s1 where s1: "?room = Inr (s1, strbuf_empty_length s1)" "sb_holds k s1 xs"
      "int (length (xs @ [c])) < sb_size s1"
    proof (cases "space < 1")
      case True
      have "sb_length s = int (length xs)" using Cons.prems(1) by (simp add: sb_holds_def)
      moreover have "int (length (xs @ [c])) \<ge> sb_size s"
        using True Cons.prems(3) by (simp add: empty_length [OF Cons.prems(1)])
      ultimately show thesis using resize_holds [OF Cons.prems(1) f1, of fresh] l True by (auto intro: that)
    next
      case False
      then show thesis using Cons.prems(1,3) by (intro that [of s]) (simp_all add: empty_length)
    qed
    obtain s2 where s2: "write_at s1 (sb_length s1) [c] = Inr s2" "sb_length s2 = int (length xs)"
      "sb_size s2 = sb_size s1" "sb_holds k (s2\<lparr>sb_length := int (length (xs @ [c]))\<rparr>) (xs @ [c])"
      using write_holds [OF s1(2), of "[c]"] s1(3) by (metis append_Nil2 drop_all le_refl less_imp_le)
    let ?s3 = "s2\<lparr>sb_length := int (length (xs @ [c]))\<rparr>"
    have e: "strbuf_empty_length s1 - 1 = strbuf_empty_length ?s3"
      unfolding empty_length [OF s1(2)] empty_length [OF s2(4)] using s2(3) by simp
    obtain s4 where "append_string_loop fresh ?s3 (strbuf_empty_length s1 - 1) str = Inr s4"
      "sb_holds k s4 ((xs @ [c]) @ ?w)" using Cons.IH [OF s2(4) f e] by blast
    moreover have "append_string_loop fresh s space (c # str) =
        append_string_loop fresh ?s3 (strbuf_empty_length s1 - 1) str"
      unfolding append_string_loop.simps s1(1) using False s2(1,2) l by simp
    ultimately show ?thesis using False by simp
  qed (use Cons.prems in simp)
qed simp

lemma append_string_holds:
  "sb_holds k s xs \<Longrightarrow> sb_fits k (xs @ takeWhile (\<lambda>c. c \<noteq> 0) str) \<Longrightarrow>
   \<exists>s'. strbuf_append_string fresh s str = Inr s' \<and> sb_holds k s' (xs @ takeWhile (\<lambda>c. c \<noteq> 0) str)"
  by (simp add: strbuf_append_string_def append_string_loop_holds)

text \<open>One attempt to print: it succeeds when the output and its terminator fit, and leaves the
  contents alone otherwise.\<close>

lemma vsnprintf_room:
  assumes "sb_holds k s xs" "sb_fits k (xs @ out)" "int (length out) \<le> strbuf_empty_length s"
  shows "\<exists>s'. vsnprintf s (s32 (strbuf_empty_length s + 1)) (Some out) = Inr (s', int (length out)) \<and>
     sb_length s' = int (length xs) \<and> sb_holds k (s'\<lparr>sb_length := int (length (xs @ out))\<rparr>) (xs @ out)"
proof -
  have e: "strbuf_empty_length s = sb_size s - int (length xs) - 1" using empty_length [OF assms(1)] .
  have n: "s32 (strbuf_empty_length s + 1) = strbuf_empty_length s + 1"
    unfolding e using assms(1) by (intro s32_id) (auto simp: sb_holds_def)
  have i: "int (length (xs @ (out @ [0]))) \<le> sb_size s" using assms(3) by (simp add: e)
  have o: "out @ [0] = out @ drop (length out) (out @ [0])" by simp
  have l: "int (length (xs @ out)) < sb_size s" using i by simp
  obtain s' where "write_at s (sb_length s) (out @ [0]) = Inr s'" "sb_length s' = int (length xs)"
    "sb_holds k (s'\<lparr>sb_length := int (length (xs @ out))\<rparr>) (xs @ out)"
    using write_holds [OF assms(1) i] o l by metis
  then show ?thesis using assms(3) n by (simp add: vsnprintf_def)
qed

lemma vsnprintf_no_room:
  assumes "sb_holds k s xs" "int (length out) > strbuf_empty_length s"
  shows "\<exists>s'. vsnprintf s (s32 (strbuf_empty_length s + 1)) (Some out) = Inr (s', int (length out)) \<and>
     sb_length s' = int (length xs) \<and> sb_size s' = sb_size s \<and> sb_holds k s' xs"
proof -
  have e: "strbuf_empty_length s = sb_size s - int (length xs) - 1" using empty_length [OF assms(1)] .
  have n: "s32 (strbuf_empty_length s + 1) = strbuf_empty_length s + 1"
    unfolding e using assms(1) by (intro s32_id) (auto simp: sb_holds_def)
  let ?z = "take (nat (strbuf_empty_length s)) out @ [0]"
  have p: "0 \<le> strbuf_empty_length s" using assms(1) e by (simp add: sb_holds_def)
  have i: "int (length (xs @ ?z)) \<le> sb_size s" using assms(2) p by (simp add: e)
  obtain s' where "write_at s (sb_length s) ?z = Inr s'" "sb_length s' = int (length xs)"
    "sb_size s' = sb_size s" "sb_holds k s' xs"
    using write_holds [OF assms(1) i] by metis
  then show ?thesis using n p by (simp add: vsnprintf_def)
qed

lemma append_fmt_retry_holds:
  assumes h: "sb_holds k s xs" and f: "sb_fits k (xs @ out)"
  shows "\<exists>s'. strbuf_append_fmt_retry fresh s (Some out) = Inr s' \<and> sb_holds k s' (xs @ out)"
proof -
  have k: "2 \<le> k" using h by (simp add: sb_holds_def)
  note l = s32_length_append [OF k f]
  have one: "\<exists>s'. append_fmt_attempt fresh r (Some out) t = Inr (s', int (length out)) \<and>
      sb_length s' = int (length xs) \<and> sb_holds k (s'\<lparr>sb_length := int (length (xs @ out))\<rparr>) (xs @ out)"
    if "sb_holds k r xs" "int (length out) \<le> strbuf_empty_length r" for r t
    using vsnprintf_room [OF that(1) f that(2)] that(2)
    by (auto simp: append_fmt_attempt.simps [of fresh r])
  have "\<exists>s'. append_fmt_attempt fresh s (Some out) 0 = Inr (s', int (length out)) \<and>
      sb_length s' = int (length xs) \<and> sb_holds k (s'\<lparr>sb_length := int (length (xs @ out))\<rparr>) (xs @ out)"
  proof (cases "int (length out) \<le> strbuf_empty_length s")
    case False
    then obtain s1 where s1: "vsnprintf s (s32 (strbuf_empty_length s + 1)) (Some out) = Inr (s1, int (length out))"
      "sb_length s1 = int (length xs)" "sb_size s1 = sb_size s" "sb_holds k s1 xs"
      using vsnprintf_no_room [OF h, of out] by force
    have "int (length (xs @ out)) \<ge> sb_size s1" using False s1(3) by (simp add: empty_length [OF h])
    from resize_holds [OF s1(4) f this, of fresh] obtain s2 where
      s2: "strbuf_resize fresh s1 (int (length (xs @ out))) = Inr s2" "sb_holds k s2 xs"
      "int (length (xs @ out)) < sb_size s2" by blast
    have "append_fmt_attempt fresh s (Some out) 0 = append_fmt_attempt fresh s2 (Some out) 1"
      using False s1 s2(1) l by (subst append_fmt_attempt.simps) simp
    then show ?thesis using one [OF s2(2), of 1] s2(3) by (simp add: empty_length [OF s2(2)])
  qed (use one [OF h] in simp)
  then show ?thesis using l by (auto simp: strbuf_append_fmt_retry_def)
qed


text \<open>Printing with a known bound: the output must be shorter than the bound.\<close>

lemma append_fmt_holds:
  assumes h: "sb_holds k s xs" and f: "sb_fits k (xs @ replicate n 0)" and o: "length out < n"
  shows "\<exists>s'. strbuf_append_fmt fresh s (int n) (Some out) = Inr s' \<and> sb_holds k s' (xs @ out)"
proof -
  have k: "2 \<le> k" using h by (simp add: sb_holds_def)
  obtain s1 where s1: "strbuf_ensure_empty_length fresh s (int n) = Inr s1" "sb_holds k s1 xs"
    "int (length xs + n) < sb_size s1"
    using ensure_holds [OF h f, of fresh] by auto
  have i: "int (length (xs @ (out @ [0]))) \<le> sb_size s1" "int (length (xs @ out)) < sb_size s1"
    using s1(3) o by simp_all
  have d: "out @ [0] = out @ drop (length out) (out @ [0])" by simp
  obtain s2 where s2: "write_at s1 (sb_length s1) (out @ [0]) = Inr s2" "sb_length s2 = int (length xs)"
    "sb_holds k (s2\<lparr>sb_length := int (length (xs @ out))\<rparr>) (xs @ out)"
    using write_holds [OF s1(2) i(1)] i(2) d by metis
  have "s32 (int (length xs) + int (length out)) = int (length (xs @ out))"
    using sb_fits_bounds(2) [OF k f] o by (subst s32_id) simp_all
  moreover have "take (nat (int n - 1)) out = out" using o by simp
  ultimately show ?thesis using s1(1) s2 o
    by (simp add: strbuf_append_fmt_def vsnprintf_def)
qed

section \<open>Correctness\<close>

text \<open>The appending operations of the encoder, and what each adds to the contents.\<close>

datatype sb_op = SbMem "byte list" | SbChar byte | SbString "byte list" | SbPrint nat "byte list"
  | SbPrintRetry "byte list" | SbReset

fun sb_run :: "(nat \<Rightarrow> byte) \<Rightarrow> sb_op \<Rightarrow> strbuf_t \<Rightarrow> strbuf_t result" where
  "sb_run fresh (SbMem c) s = strbuf_append_mem fresh s c"
| "sb_run fresh (SbChar c) s = strbuf_append_char fresh s c"
| "sb_run fresh (SbString str) s = strbuf_append_string fresh s str"
| "sb_run fresh (SbPrint n out) s = strbuf_append_fmt fresh s (int n) (Some out)"
| "sb_run fresh (SbPrintRetry out) s = strbuf_append_fmt_retry fresh s (Some out)"
| "sb_run fresh SbReset s = Inr (strbuf_reset s)"

fun sb_run_all :: "(nat \<Rightarrow> byte) \<Rightarrow> sb_op list \<Rightarrow> strbuf_t \<Rightarrow> strbuf_t result" where
  "sb_run_all fresh [] s = Inr s"
| "sb_run_all fresh (p # ps) s = rbind (sb_run fresh p s) (sb_run_all fresh ps)"

fun sb_contents :: "byte list \<Rightarrow> sb_op \<Rightarrow> byte list" where
  "sb_contents xs (SbMem c) = xs @ c"
| "sb_contents xs (SbChar c) = xs @ [c]"
| "sb_contents xs (SbString str) = xs @ takeWhile (\<lambda>c. c \<noteq> 0) str"
| "sb_contents xs (SbPrint n out) = xs @ out"
| "sb_contents xs (SbPrintRetry out) = xs @ out"
| "sb_contents xs SbReset = []"

text \<open>The contents stay below the limit of growth, and a printing bound is kept.\<close>

fun sb_op_fits :: "int \<Rightarrow> byte list \<Rightarrow> sb_op \<Rightarrow> bool" where
  "sb_op_fits k xs (SbPrint n out) \<longleftrightarrow> length out < n \<and> sb_fits k (xs @ replicate n 0)"
| "sb_op_fits k xs p \<longleftrightarrow> sb_fits k (sb_contents xs p)"

fun sb_ops_fit :: "int \<Rightarrow> byte list \<Rightarrow> sb_op list \<Rightarrow> bool" where
  "sb_ops_fit k xs [] \<longleftrightarrow> True"
| "sb_ops_fit k xs (p # ps) \<longleftrightarrow> sb_op_fits k xs p \<and> sb_ops_fit k (sb_contents xs p) ps"

lemma sb_run_holds:
  assumes "sb_holds k s xs" "sb_op_fits k xs p"
  shows "\<exists>s'. sb_run fresh p s = Inr s' \<and> sb_holds k s' (sb_contents xs p)"
proof (cases p)
  case SbReset
  then show ?thesis using assms(1) by (auto simp: strbuf_reset_def sb_holds_def)
qed (use assms in \<open>simp_all add: append_char_mem append_mem_holds append_string_holds append_fmt_holds
  append_fmt_retry_holds\<close>)

lemma sb_run_all_holds:
  "sb_holds k s xs \<Longrightarrow> sb_ops_fit k xs ps \<Longrightarrow>
   \<exists>s'. sb_run_all fresh ps s = Inr s' \<and> sb_holds k s' (foldl sb_contents xs ps)"
proof (induction ps arbitrary: s xs)
  case (Cons p ps)
  then show ?case using sb_run_holds [of k s xs p fresh] by auto
qed simp

lemma strbuf_new_holds:
  assumes "len < INT_MAX"
  shows "\<exists>s. strbuf_new fresh len = Inr s \<and> sb_holds 2 s []"
proof -
  let ?n = "if len \<le> 0 then STRBUF_DEFAULT_SIZE else s32 (len + 1)"
  have n: "0 < ?n" "?n \<le> INT_MAX" using assms by (auto simp: STRBUF_DEFAULT_SIZE_def s32_id)
  then have "length (map fresh [0..<nat ?n]) \<ge> 1" by simp
  then show ?thesis using n
    by (simp add: strbuf_new_def strbuf_init_def Let_def strbuf_ensure_null_def write_at_def mem_write_fits
        sb_holds_def STRBUF_DEFAULT_INCREMENT_def)
qed

text \<open>[C8] A new buffer, with any exponential growth factor, takes any sequence of appends of memory,
  characters, strings and printed numbers and of resets, as long as the contents times the factor
  fit in an \<^verbatim>\<open>int\<close> and bounded prints keep their bound: no write leaves the block, no
  operation ends the process, every growth loop ends, and the string handed out holds exactly
  what was appended since the last reset, with a terminator after it.\<close>

theorem strbuf_contents:
  assumes "len < INT_MAX" "2 \<le> k" "sb_ops_fit k [] ps"
  shows "\<exists>b. rbind (strbuf_new fresh len) (\<lambda>s. rbind (strbuf_set_increment s (- k)) (\<lambda>s'.
           rbind (sb_run_all fresh ps s') strbuf_free_to_string)) =
         Inr (Some (foldl sb_contents [] ps @ 0 # b), int (length (foldl sb_contents [] ps)))"
proof -
  let ?xs = "foldl sb_contents [] ps"
  obtain s where s: "strbuf_new fresh len = Inr s" "sb_holds 2 s []"
    using strbuf_new_holds [OF assms(1)] by blast
  have "strbuf_set_increment s (- k) = Inr (s\<lparr>increment := - k\<rparr>)" "sb_holds k (s\<lparr>increment := - k\<rparr>) []"
    using assms(2) s(2) by (simp_all add: strbuf_set_increment_def sb_holds_def)
  moreover then obtain s' where s': "sb_run_all fresh ps (s\<lparr>increment := - k\<rparr>) = Inr s'" "sb_holds k s' ?xs"
    using sb_run_all_holds [OF _ assms(3)] by blast
  moreover obtain b where b: "buf s' = Some b" "int (length b) = sb_size s'" "take (length ?xs) b = ?xs"
      "sb_length s' = int (length ?xs)" "sb_length s' < sb_size s'"
    using s'(2) by (auto simp: sb_holds_def)
  have "strbuf_free_to_string s' = Inr (Some (?xs @ 0 # drop (length ?xs + 1) b), int (length ?xs))"
    using b by (simp add: strbuf_free_to_string_def strbuf_ensure_null_def write_at_def mem_write_fits)
  ultimately show ?thesis using s by auto
qed

theorem strbuf_contents_witness:
  "\<exists>b. rbind (strbuf_new (\<lambda>_. 7) 3) (\<lambda>s. rbind (strbuf_set_increment s (- 3)) (\<lambda>s'.
      rbind (sb_run_all (\<lambda>_. 7) [SbMem [1, 2], SbReset, SbChar 3, SbString [4, 0, 9], SbPrint 5 [5, 6],
        SbPrintRetry [7, 8, 9]] s') strbuf_free_to_string)) =
    Inr (Some ([3, 4, 5, 6, 7, 8, 9] @ 0 # b), 7)"
  using strbuf_contents [of 3 3 "[SbMem [1, 2], SbReset, SbChar 3, SbString [4, 0, 9], SbPrint 5 [5, 6],
        SbPrintRetry [7, 8, 9]]" "\<lambda>_. 7"]
  by (simp add: sb_fits_def)

text \<open>[C39] With a linear increment the new size is the old size rounded up, whatever was asked for: if the
  size already is a multiple of the increment, an append that does not fit is not given any more room and
  writes past the end of the block.\<close>

theorem strbuf_linear_overflow:
  assumes "buf s = Some b" "int (length b) = sb_size s" "0 \<le> sb_length s" "sb_length s < sb_size s"
    and "0 < increment s" "increment s dvd sb_size s" "sb_size s + increment s \<le> INT_MAX"
    and "sb_size s < sb_length s + int (length c)" "sb_length s + int (length c) < INT_MAX"
  shows "strbuf_append_mem fresh s c = Inl OutOfBounds"
proof -
  let ?i = "increment s" and ?n = "sb_size s"
  obtain q where q: "?n = ?i * q" using assms(6) by blast
  have "s32 (?n + ?i) = ?n + ?i" "s32 (?n + ?i - 1) = ?n + ?i - 1" using assms by (auto intro!: s32_id)
  moreover have "(?n + ?i - 1) sdiv ?i = q"
  proof -
    have "?n + ?i - 1 = (?i - 1) + ?i * q" using q by simp
    then have "(?n + ?i - 1) div ?i = q"
      using assms(5) div_mult_self2 [of ?i "?i - 1" q] by (simp only:) simp
    moreover have "0 \<le> ?n + ?i - 1" using assms by linarith
    ultimately show ?thesis using assms(5)
      by (cases "?n + ?i - 1 = 0") (auto simp: signed_divide_int_def sgn_if)
  qed
  moreover have "s32 (q * ?i) = ?n" using q assms by (subst s32_id) (simp_all add: mult.commute)
  moreover have r: "s32 (sb_length s + int (length c)) = sb_length s + int (length c)"
    "s32 (sb_length s + int (length c) + 1) = sb_length s + int (length c) + 1" using assms by (auto intro!: s32_id)
  ultimately have "calculate_new_size s (sb_length s + int (length c)) = Inr ?n"
    using assms by (simp add: calculate_new_size_def Let_def)
  then have "strbuf_resize fresh s (sb_length s + int (length c)) =
      Inr (s\<lparr>sb_size := ?n, buf := Some b, reallocs := s32 (reallocs s + 1)\<rparr>)"
    using assms(1-4) by (simp add: strbuf_resize_def Let_def)
  moreover have "strbuf_empty_length s = ?n - sb_length s - 1"
  proof -
    have "s32 (?n - sb_length s) = ?n - sb_length s" using assms by (intro s32_id) simp_all
    moreover have "s32 (?n - sb_length s - 1) = ?n - sb_length s - 1" using assms by (intro s32_id) simp_all
    ultimately show ?thesis by (simp add: strbuf_empty_length_def)
  qed
  moreover have "\<not> nat (sb_length s) + length c \<le> length b" using assms by linarith
  ultimately show ?thesis using assms r
    by (simp add: strbuf_append_mem_def strbuf_ensure_empty_length_def write_at_def mem_write_def)
qed

theorem strbuf_linear_overflow_witness:
  "rbind (strbuf_new (\<lambda>_. 0) 3) (\<lambda>s. rbind (strbuf_set_increment s 2) (\<lambda>s'.
     strbuf_append_mem (\<lambda>_. 0) s' [1, 2, 3, 4, 5])) = Inl OutOfBounds"
proof -
  have "strbuf_new (\<lambda>_. 0) 3 = Inr \<lparr>buf = Some [0, 0, 0, 0], sb_size = 4, sb_length = 0, increment = -2,
      dynamic = True, reallocs = 0\<rparr>"
    by (simp add: strbuf_new_def strbuf_init_def strbuf_ensure_null_def write_at_def mem_write_def s32_def
        STRBUF_DEFAULT_INCREMENT_def Let_def numeral_eq_Suc upt_conv_Cons)
  then show ?thesis by (simp add: strbuf_set_increment_def strbuf_linear_overflow)
qed

text \<open>The growth loop does not end once its product has wrapped to zero.\<close>

lemma grow_Some_zero: "grow k req n = Some m \<Longrightarrow> n = 0 \<longrightarrow> req \<le> 0"
  by (rule grow.raw_induct [where P = "\<lambda>k req n m. n = 0 \<longrightarrow> req \<le> 0"])
    (auto simp: s32_def split: if_splits)

lemma grow_zero: "0 < req \<Longrightarrow> grow k req 0 = None"
  using grow_Some_zero [of k req 0] by fastforce

text \<open>A doubling buffer whose size is a power of two cannot grow past 1073741824 bytes: the product
  in the growth loop wraps to a negative number and then to zero, and the loop never ends.\<close>

lemma strbuf_growth_hangs:
  assumes "increment s = -2" "sb_size s = 2 ^ j" "j \<le> 30" "1073741824 \<le> len" "len < INT_MAX"
  shows "calculate_new_size s len = Inl Diverges"
proof -
  have min: "grow 2 (len + 1) INT_MIN = None"
    using assms(4) grow_zero [of "len + 1" 2] by (simp add: grow.simps [of 2 _ INT_MIN] s32_def)
  have "grow 2 (len + 1) (2 ^ j) = None" using assms(3)
  proof (induction "30 - j" arbitrary: j)
    case 0
    then have "j = 30" by simp
    then show ?case using assms(4) min by (simp add: grow.simps [of 2 _ 1073741824] s32_def)
  next
    case (Suc d)
    then have j: "Suc j \<le> 30" "d = 30 - Suc j" by simp_all
    have "(2 :: int) ^ Suc j \<le> 2 ^ 30" using j(1) by (intro power_increasing) simp_all
    then have p: "2 * (2 :: int) ^ j \<le> 1073741824" "0 < (2 :: int) ^ j" by simp_all
    then have "2 ^ j < len + 1" using assms(4) by linarith
    moreover have "s32 (2 ^ j * 2) = 2 ^ j * 2" using p by (intro s32_id) linarith+
    ultimately have "2 ^ j < len + 1" "s32 (2 ^ j * 2) = 2 ^ Suc j" by simp_all
    then show ?case using Suc.hyps(1) [OF j(2) j(1)] by (simp add: grow.simps [of 2 _ "2 ^ j"])
  qed
  moreover have "(2 :: int) ^ j \<le> 2 ^ 30" using assms(3) by (intro power_increasing) simp_all
  moreover have "s32 (len + 1) = len + 1" "s32 2 = 2" using assms by (auto intro!: s32_id)
  ultimately show ?thesis using assms by (simp add: calculate_new_size_def Let_def)
qed

lemma strbuf_growth_hangs_example:
  "calculate_new_size \<lparr>buf = None, sb_size = 1024, sb_length = 0, increment = -2, dynamic = True, reallocs = 0\<rparr>
     1073741824 = Inl Diverges"
  by (rule strbuf_growth_hangs [where j = 10]) simp_all

end
