(* ===== verification/Bpack.thy ===== *)
theory Bpack
  imports Interfaces
begin

text \<open>
  The binary codecs of \<^verbatim>\<open>src/lualib-src/thrift/lua-bpack.c\<close>, used by the Thrift protocols: fixed-size
  integers and doubles in network order, zigzag numbers and varints.

  A Lua number is a 64-bit integer or a double given by its bit pattern. Most functions of the
  file pass their integers through doubles, so the conversions are modelled bit by bit, with
  rounding to 53 significant bits; a conversion of a double to an integer type that cannot hold it is
  undefined in C and is a fault here.
\<close>

section \<open>Lua numbers\<close>

datatype lua_number = LuaInt int | LuaFloat u64

text \<open>The number of binary digits.\<close>

fun bits :: "nat \<Rightarrow> nat" where
  "bits n = (if n = 0 then 0 else Suc (bits (n div 2)))"

declare bits.simps [simp del]

text \<open>The significand of the nearest double, ties to even, as an integer of 53 bits (or \<open>2 ^ 53\<close>
  after a carry), and the bit pattern: adding the significand with its leading one carries into
  the exponent.\<close>

definition significand :: "nat \<Rightarrow> nat" where
  "significand n =
     (if bits n \<le> 53 then n * 2 ^ (53 - bits n)
      else let e = bits n - 53; q = n div 2 ^ e; r = n mod 2 ^ e; half = 2 ^ (e - 1)
           in if r > half \<or> (r = half \<and> odd q) then q + 1 else q)"

definition double_of_int :: "int \<Rightarrow> u64" where
  "double_of_int i =
     (if i = 0 then 0
      else (if i < 0 then 2 ^ 63 else 0) +
           of_nat ((bits (nat \<bar>i\<bar>) + 1021) * 2 ^ 52 + significand (nat \<bar>i\<bar>)))"

text \<open>Truncation towards zero; no value for infinities and NaNs.\<close>

definition double_trunc :: "u64 \<Rightarrow> int option" where
  "double_trunc d =
     (let u = uint d; m = u mod 2 ^ 52; e = nat (u div 2 ^ 52 mod 2 ^ 11); neg = u div 2 ^ 63 = 1;
          v = (if e = 0 then 0
               else if e \<ge> 1075 then (2 ^ 52 + m) * 2 ^ (e - 1075)
               else (2 ^ 52 + m) div 2 ^ (1075 - e))
      in if e = 2047 then None else Some (if neg then - v else v))"

definition luaL_checknumber :: "lua_number \<Rightarrow> u64" where
  "luaL_checknumber x = (case x of LuaInt i \<Rightarrow> double_of_int i | LuaFloat d \<Rightarrow> d)"

text \<open>A float is accepted as an integer when it has an integral value in range.\<close>

definition luaL_checkinteger :: "lua_number \<Rightarrow> int result" where
  "luaL_checkinteger x =
     (case x of LuaInt i \<Rightarrow> Inr i
      | LuaFloat d \<Rightarrow>
          (case double_trunc d of
             Some i \<Rightarrow> if double_of_int i = d \<and> -(2 ^ 63) \<le> i \<and> i < 2 ^ 63 then Inr i
                      else Inl (LuaError ''number has no integer representation'')
           | None \<Rightarrow> Inl (LuaError ''number has no integer representation'')))"

text \<open>Converting a double to an integer type.\<close>

definition double_to :: "int \<Rightarrow> int \<Rightarrow> u64 \<Rightarrow> int result" where
  "double_to lo hi d =
     (case double_trunc d of None \<Rightarrow> Inl Undefined
      | Some i \<Rightarrow> if lo \<le> i \<and> i \<le> hi then Inr i else Inl Undefined)"

abbreviation to_int8 :: "u64 \<Rightarrow> int result" where "to_int8 \<equiv> double_to (-128) 127"
abbreviation to_uint8 :: "u64 \<Rightarrow> int result" where "to_uint8 \<equiv> double_to 0 255"
abbreviation to_int16 :: "u64 \<Rightarrow> int result" where "to_int16 \<equiv> double_to (-32768) 32767"
abbreviation to_int32 :: "u64 \<Rightarrow> int result" where "to_int32 \<equiv> double_to INT_MIN INT_MAX"
abbreviation to_int64 :: "u64 \<Rightarrow> int result" where "to_int64 \<equiv> double_to (-(2 ^ 63)) (2 ^ 63 - 1)"
abbreviation to_uint64 :: "u64 \<Rightarrow> int result" where "to_uint64 \<equiv> double_to 0 (2 ^ 64 - 1)"

definition lua_pushnumber :: "int \<Rightarrow> lua_number" where
  "lua_pushnumber v = LuaFloat (double_of_int v)"

definition s8 :: "int \<Rightarrow> int" where "s8 x = (x + 128) mod 256 - 128"
definition s16 :: "int \<Rightarrow> int" where "s16 x = (x + 32768) mod 65536 - 32768"
definition s64 :: "int \<Rightarrow> int" where "s64 x = (x + 2 ^ 63) mod 2 ^ 64 - 2 ^ 63"

section \<open>Fixed-size values\<close>

definition T_htonll :: "int \<Rightarrow> int" where
  "T_htonll data =
     (let d1 = ntohl (data mod 2 ^ 32); d2 = ntohl (data div 2 ^ 32 mod 2 ^ 32)
      in s64 (d1 * 2 ^ 32 + d2))"

definition T_ntohll :: "int \<Rightarrow> int" where
  "T_ntohll data =
     (let d1 = ntohl (data mod 2 ^ 32); d2 = ntohl (data div 2 ^ 32 mod 2 ^ 32)
      in s64 (d1 * 2 ^ 32 + d2))"

text \<open>The format code is the string of the first argument. \<^verbatim>\<open>code[1]\<close> of an empty string is outside it.\<close>

definition check_code :: "string \<Rightarrow> char result" where
  "check_code code =
     (case code of [] \<Rightarrow> Inl OutOfBounds
      | c # rest \<Rightarrow> if rest = [] \<or> hd rest = CHR 0x00 then Inr c
                     else Inl (LuaError ''Format code must be one character.''))"

definition l_bpack :: "string \<Rightarrow> lua_number \<Rightarrow> byte list result" where
  "l_bpack code x =
     rbind (check_code code) (\<lambda>c.
       if c = CHR ''c'' then rbind (to_int8 (luaL_checknumber x)) (\<lambda>data. Inr (store_le 1 data))
       else if c = CHR ''s''
       then rbind (to_int16 (luaL_checknumber x)) (\<lambda>data. Inr (store_le 2 (s16 (ntohs (data mod 2 ^ 16)))))
       else if c = CHR ''i''
       then rbind (luaL_checkinteger x) (\<lambda>i.
              let data = s32 i in Inr (store_le 4 (s32 (ntohl (data mod 2 ^ 32)))))
       else if c = CHR ''l''
       then rbind (to_int64 (luaL_checknumber x)) (\<lambda>data. Inr (store_le 8 (T_htonll (data mod 2 ^ 64))))
       else if c = CHR ''d'' then Inr (store_le 8 (uint (luaL_checknumber x)))
       else Inl (LuaError ''Invalid format code.''))"

text \<open>The integer in the bytes of \<^verbatim>\<open>data\<close>, for a string of the right size.\<close>

definition read_sized :: "nat \<Rightarrow> byte list \<Rightarrow> int result" where
  "read_sized n data =
     (if length data = n then Inr (load_le data) else Inl (LuaError ''Invalid input string size.''))"

definition l_bunpack :: "string \<Rightarrow> byte list \<Rightarrow> lua_number result" where
  "l_bunpack code data =
     rbind (check_code code) (\<lambda>c.
       if c = CHR ''c'' then rbind (read_sized 1 data) (\<lambda>v. Inr (lua_pushnumber (s8 v)))
       else if c = CHR ''C'' then rbind (read_sized 1 data) (\<lambda>v. Inr (lua_pushnumber v))
       else if c = CHR ''s''
       then rbind (read_sized 2 data) (\<lambda>v. Inr (lua_pushnumber (s16 (ntohs (s16 v mod 2 ^ 16)))))
       else if c = CHR ''i''
       then rbind (read_sized 4 data) (\<lambda>v. Inr (lua_pushnumber (s32 (ntohl (s32 v mod 2 ^ 32)))))
       else if c = CHR ''l''
       then rbind (read_sized 8 data) (\<lambda>v. Inr (lua_pushnumber (T_ntohll (s64 v mod 2 ^ 64))))
       else if c = CHR ''d'' then rbind (read_sized 8 data) (\<lambda>v. Inr (LuaFloat (word_of_int v)))
       else Inl (LuaError ''Invalid format code.''))"

section \<open>Zigzag numbers\<close>

definition l_i64ToZigzag :: "lua_number \<Rightarrow> lua_number result" where
  "l_i64ToZigzag x =
     rbind (to_int64 (luaL_checknumber x)) (\<lambda>n.
       Inr (lua_pushnumber (s64 (push_bit 1 n) XOR drop_bit 63 n)))"

definition l_i32ToZigzag :: "lua_number \<Rightarrow> lua_number result" where
  "l_i32ToZigzag x =
     rbind (luaL_checkinteger x) (\<lambda>i. let n = s32 i in
       Inr (lua_pushnumber ((s32 (push_bit 1 n) mod 2 ^ 32) XOR (drop_bit 31 n mod 2 ^ 32))))"

definition l_zigzagToI32 :: "lua_number \<Rightarrow> lua_number result" where
  "l_zigzagToI32 x =
     rbind (luaL_checkinteger x) (\<lambda>i. let n = i mod 2 ^ 32 in
       Inr (lua_pushnumber (s32 (drop_bit 1 n XOR (- (n AND 1)) mod 2 ^ 32))))"

definition l_zigzagToI64 :: "lua_number \<Rightarrow> lua_number result" where
  "l_zigzagToI64 x =
     rbind (to_int64 (luaL_checknumber x)) (\<lambda>n.
       Inr (lua_pushnumber (s64 ((drop_bit 1 n) mod 2 ^ 64 XOR (- (n AND 1)) mod 2 ^ 64))))"

section \<open>Varints\<close>

text \<open>The loop that fills the \<open>room\<close>-byte buffer from index \<open>wsize\<close> on, with the bytes written so far
  in \<open>out\<close>; a write past the buffer is a fault. The number is shifted arithmetically, which for
  an unsigned number is a logical shift.\<close>

function varint_loop :: "nat \<Rightarrow> int \<Rightarrow> byte list \<Rightarrow> byte list result" where
  "varint_loop room n out =
     (if length out \<ge> room then Inl OutOfBounds
      else if n AND NOT 127 = 0 then Inr (out @ [word_of_int n])
      else varint_loop room (drop_bit 7 n) (out @ [word_of_int ((n AND 127) OR 128)]))"
  by pat_completeness auto
termination by (relation "measure (\<lambda>(room, n, out). room - length out)") auto

declare varint_loop.simps [simp del]

definition l_toVarint32 :: "lua_number \<Rightarrow> byte list result" where
  "l_toVarint32 x = rbind (luaL_checkinteger x) (\<lambda>i. varint_loop 5 (i mod 2 ^ 32) [])"

definition l_toVarint64 :: "lua_number \<Rightarrow> byte list result" where
  "l_toVarint64 x = rbind (to_int64 (luaL_checknumber x)) (\<lambda>n. varint_loop 10 n [])"

text \<open>One step of reading a varint: the end flag and the number so far, or the decoded zigzag number
  after the last byte. A shift by 64 or more is undefined.\<close>

definition l_fromVarint64 :: "lua_number \<Rightarrow> lua_number \<Rightarrow> lua_number \<Rightarrow> (lua_number \<times> lua_number) result" where
  "l_fromVarint64 x1 x2 x3 =
     rbind (to_uint8 (luaL_checknumber x1)) (\<lambda>b.
     rbind (to_int32 (luaL_checknumber x2)) (\<lambda>shift.
     rbind (to_uint64 (luaL_checknumber x3)) (\<lambda>n0.
       if shift < 0 \<or> 64 \<le> shift then Inl Undefined
       else let n = n0 OR push_bit (nat shift) (b AND 127) mod 2 ^ 64
            in if b AND 128 = 0
               then Inr (lua_pushnumber 0, lua_pushnumber (s64 (drop_bit 1 n XOR (- (n AND 1)) mod 2 ^ 64)))
               else Inr (lua_pushnumber 1, lua_pushnumber (s64 n)))))"

definition l_packMesgType :: "int \<Rightarrow> int \<Rightarrow> int \<Rightarrow> int \<Rightarrow> int \<Rightarrow> lua_number result" where
  "l_packMesgType version_n version_mask messagetype type_shift_amount type_mask =
     (let sh = s32 type_shift_amount
      in if sh < 0 \<or> 32 \<le> sh then Inl Undefined
         else Inr (lua_pushnumber
                ((s32 version_n AND s32 version_mask) OR
                 (s32 (push_bit (nat sh) (s32 messagetype)) AND s32 type_mask))))"

section \<open>Integers survive the conversion to a double\<close>

lemma bits_bounds: "0 < n \<Longrightarrow> 2 ^ (bits n - 1) \<le> n \<and> n < 2 ^ bits n \<and> 0 < bits n"
proof (induction n rule: bits.induct)
  case (1 n)
  show ?case
  proof (cases "n div 2 = 0")
    case True
    with 1 have "n = 1" by simp
    then show ?thesis by (simp add: bits.simps)
  next
    case False
    with 1 have h: "2 ^ (bits (n div 2) - 1) \<le> n div 2" "n div 2 < 2 ^ bits (n div 2)" "0 < bits (n div 2)"
      by simp_all
    have b: "bits n = Suc (bits (n div 2))" using 1 by (simp add: bits.simps [of n])
    have "2 ^ bits (n div 2) = 2 * (2 :: nat) ^ (bits (n div 2) - 1)"
      using h(3) by (simp add: power_eq_if)
    moreover define p :: nat where "p = 2 ^ (bits (n div 2) - 1)"
    ultimately have "2 * p \<le> n \<and> n < 2 * (2 * p)" using h by linarith
    then show ?thesis using \<open>2 ^ bits (n div 2) = 2 * (2 :: nat) ^ (bits (n div 2) - 1)\<close>
      unfolding b p_def by simp
  qed
qed

lemma significand_exact:
  assumes "0 < n" "n < 2 ^ 53"
  shows "bits n \<le> 53" "2 ^ 52 \<le> significand n" "significand n < 2 ^ 53"
    "significand n = n * 2 ^ (53 - bits n)"
proof -
  note b = bits_bounds [OF assms(1)]
  have "(2 :: nat) ^ (bits n - 1) < 2 ^ 53" using b assms(2) by linarith
  then have "bits n - 1 < 53" by (rule power_less_imp_less_exp [rotated]) simp
  then show k: "bits n \<le> 53" by simp
  then show s: "significand n = n * 2 ^ (53 - bits n)" by (simp add: significand_def)
  have "2 ^ 52 = 2 ^ (bits n - 1) * (2 :: nat) ^ (53 - bits n)" using b k by (simp flip: power_add)
  then show "2 ^ 52 \<le> significand n" unfolding s using b by (metis mult_le_mono1)
  have "n * 2 ^ (53 - bits n) < 2 ^ bits n * 2 ^ (53 - bits n)" using b by simp
  also have "\<dots> = (2 :: nat) ^ 53" using k by (simp flip: power_add)
  finally show "significand n < 2 ^ 53" unfolding s .
qed

lemma double_fields:
  fixes m e g :: int
  assumes "0 \<le> m" "m < 2 ^ 52" "0 \<le> e" "e < 2047" "g = 0 \<or> g = 1"
  shows "double_trunc (word_of_int (g * 2 ^ 63 + e * 2 ^ 52 + m)) =
    Some ((if g = 1 then -1 else 1) *
      (if e = 0 then 0 else if e \<ge> 1075 then (2 ^ 52 + m) * 2 ^ (nat e - 1075)
       else (2 ^ 52 + m) div 2 ^ (1075 - nat e)))"
proof -
  let ?u = "(g * 2 ^ 11 + e) * 2 ^ 52 + m"
  have "?u < (1 * 2 ^ 11 + 2047 + 1) * 2 ^ 52" using assms by auto
  then have u: "uint (word_of_int ?u :: u64) = ?u"
    using assms by (subst uint_word_of_int) (auto intro!: mod_pos_pos_trivial)
  have d: "(x * 2 ^ 52 + m) div 2 ^ 52 = x" "(x * 2 ^ 52 + m) mod 2 ^ 52 = m" for x :: int
    using assms(1,2) by simp_all
  have "?u mod 2 ^ 52 = m" by (rule d)
  moreover have "?u div 2 ^ 52 mod 2 ^ 11 = e" unfolding d using assms by simp
  moreover have "?u div 2 ^ 63 = g"
  proof -
    have "?u div 2 ^ 63 = ?u div 2 ^ 52 div 2 ^ 11" by (simp flip: zdiv_zmult2_eq)
    also have "\<dots> = g" unfolding d using assms by simp
    finally show ?thesis .
  qed
  moreover have "nat e = 0 \<longleftrightarrow> e = 0" "nat e = 2047 \<longleftrightarrow> e = 2047" "nat e \<ge> 1075 \<longleftrightarrow> e \<ge> 1075"
    using assms by auto
  moreover have "g * 2 ^ 63 + e * 2 ^ 52 + m = ?u" by (simp add: algebra_simps)
  ultimately show ?thesis using assms(4,5) unfolding double_trunc_def Let_def by (simp only: u) auto
qed

lemma double_of_int_exact:
  assumes "\<bar>i\<bar> < 2 ^ 53"
  shows "double_trunc (double_of_int i) = Some i"
proof (cases "i = 0")
  case True
  then show ?thesis by (simp add: double_of_int_def double_trunc_def)
next
  case False
  define n where "n = nat \<bar>i\<bar>"
  have n: "0 < n" "n < 2 ^ 53" using False assms by (simp_all add: n_def nat_less_iff)
  note s = significand_exact [OF n]
  define m where "m = int (significand n) - 2 ^ 52"
  define g :: int where "g = (if i < 0 then 1 else 0)"
  have m: "0 \<le> m" "m < 2 ^ 52" using s(2,3) by (simp_all add: m_def)
  have k: "0 < bits n" using bits_bounds [OF n(1)] by simp
  have w: "double_of_int i = word_of_int (g * 2 ^ 63 + int (bits n + 1022) * 2 ^ 52 + m)"
    using False by (simp add: double_of_int_def n_def [symmetric] g_def m_def algebra_simps)
  have v: "(if int (bits n + 1022) = 0 then 0
      else if int (bits n + 1022) \<ge> 1075 then (2 ^ 52 + m) * 2 ^ (nat (int (bits n + 1022)) - 1075)
       else (2 ^ 52 + m) div 2 ^ (1075 - nat (int (bits n + 1022)))) = int n"
  proof (cases "bits n = 53")
    case True
    then show ?thesis using s(4) by (simp add: m_def)
  next
    case False
    have "1075 - nat (int (bits n + 1022)) = 53 - bits n" by simp
    then show ?thesis using False s(1,4) by (simp add: m_def)
  qed
  have "double_trunc (double_of_int i) = Some ((if g = 1 then -1 else 1) * int n)"
    unfolding w by (subst double_fields [OF m]) (use s(1) in \<open>auto simp only: v, auto simp: g_def\<close>)
  then show ?thesis by (simp add: g_def n_def)
qed


lemma double_to_exact [simp]:
  "\<bar>i\<bar> < 2 ^ 53 \<Longrightarrow> double_to lo hi (double_of_int i) = (if lo \<le> i \<and> i \<le> hi then Inr i else Inl Undefined)"
  by (simp add: double_to_def double_of_int_exact)

lemma checknumber_simps [simp]:
  "luaL_checknumber (LuaInt i) = double_of_int i" "luaL_checknumber (LuaFloat d) = d"
  "luaL_checknumber (lua_pushnumber i) = double_of_int i" "luaL_checkinteger (LuaInt i) = Inr i"
  by (simp_all add: luaL_checknumber_def lua_pushnumber_def luaL_checkinteger_def)

lemma checkinteger_pushnumber [simp]: "\<bar>i\<bar> < 2 ^ 53 \<Longrightarrow> luaL_checkinteger (lua_pushnumber i) = Inr i"
  by (auto simp: luaL_checkinteger_def lua_pushnumber_def double_of_int_exact)

section \<open>Byte order\<close>

lemma signed_mod [simp]:
  "s8 x mod 256 = x mod 256" "s16 x mod 65536 = x mod 65536"
  "s32 x mod 4294967296 = x mod 4294967296" "s64 x mod 18446744073709551616 = x mod 18446744073709551616"
  by (simp_all add: s8_def s16_def s32_def s64_def mod_simps)

lemma signed_of_mod:
  "-128 \<le> x \<Longrightarrow> x \<le> 127 \<Longrightarrow> s8 (x mod 2 ^ 8) = x"
  "-32768 \<le> x \<Longrightarrow> x \<le> 32767 \<Longrightarrow> s16 (x mod 2 ^ 16) = x"
  "INT_MIN \<le> x \<Longrightarrow> x \<le> INT_MAX \<Longrightarrow> s32 (x mod 2 ^ 32) = x"
  "-(2 ^ 63) \<le> x \<Longrightarrow> x < 2 ^ 63 \<Longrightarrow> s64 (x mod 2 ^ 64) = x"
  by (simp_all add: s8_def s16_def s32_def s64_def mod_simps)

lemma list_of_length:
  "length xs = 2 \<Longrightarrow> \<exists>a b. xs = [a, b]" "length xs = 4 \<Longrightarrow> \<exists>a b c d. xs = [a, b, c, d]"
  by (auto simp: numeral_eq_Suc length_Suc_conv)

lemma ntohs_rev: "length bs = 2 \<Longrightarrow> ntohs (load_le bs) = load_le (rev bs)"
  by (auto dest!: list_of_length simp: ntohs_load) (simp add: load_le_def)

lemma ntohl_rev: "length bs = 4 \<Longrightarrow> ntohl (load_le bs) = load_le (rev bs)"
proof -
  assume "length bs = 4"
  then obtain a b c d where bs: "bs = [a, b, c, d]" using list_of_length(2) by blast
  have "ntohl (load_le [a, b, c, d]) = uint a * 2 ^ 24 + uint b * 2 ^ 16 + uint c * 256 + uint d"
    by (rule ntohl_load [of _ a b c d "[]"]) (use load_le_bounds [of "[a, b, c, d]"] in simp_all)
  then show ?thesis unfolding bs by (simp add: load_le_def)
qed

lemma T_htonll_rev: "length bs = 8 \<Longrightarrow> T_htonll (load_le bs) = s64 (load_le (rev bs))"
proof -
  assume l: "length bs = 8"
  define xs where "xs = take 4 bs"
  define ys where "ys = drop 4 bs"
  have xy: "bs = xs @ ys" "length xs = 4" "length ys = 4" using l by (simp_all add: xs_def ys_def)
  have b: "load_le bs = load_le xs + 2 ^ 32 * load_le ys" "0 \<le> load_le xs" "load_le xs < 2 ^ 32"
    "0 \<le> load_le ys" "load_le ys < 2 ^ 32"
    using load_le_bounds [of xs] load_le_bounds [of ys] xy by (simp_all add: load_le_append)
  then have "load_le bs mod 2 ^ 32 = load_le xs" "load_le bs div 2 ^ 32 mod 2 ^ 32 = load_le ys" by simp_all
  moreover have "load_le (rev xs) * 2 ^ 32 + load_le (rev ys) = load_le (rev bs)"
    using xy by (simp add: load_le_append)
  ultimately show ?thesis using xy(2,3) by (simp add: T_htonll_def Let_def ntohl_rev)
qed

lemma T_ntohll_eq: "T_ntohll = T_htonll"
  by (rule ext) (simp add: T_ntohll_def T_htonll_def)

lemma store_le_bytes: "x mod 256 ^ length bs = load_le bs \<Longrightarrow> store_le (length bs) x = bs"
  by (rule load_le_eqI) (simp_all add: load_store_le)

lemma load_le_mod: "load_le bs mod 256 ^ length bs = load_le bs"
  using load_le_bounds [of bs] by simp

lemma store_signed:
  "length bs = 2 \<Longrightarrow> store_le 2 (s16 (load_le bs)) = bs"
  "length bs = 4 \<Longrightarrow> store_le 4 (s32 (load_le bs)) = bs"
  "length bs = 8 \<Longrightarrow> store_le 8 (s64 (load_le bs)) = bs"
  using store_le_bytes [of "s16 (load_le bs)" bs] store_le_bytes [of "s32 (load_le bs)" bs]
    store_le_bytes [of "s64 (load_le bs)" bs] load_le_mod [of bs]
  by (simp_all add: s16_def s32_def s64_def mod_simps)

definition bpack_size :: "char \<Rightarrow> nat" where
  "bpack_size c = (if c = CHR ''c'' then 1 else if c = CHR ''s'' then 2 else if c = CHR ''i'' then 4 else 8)"

definition bpack_range :: "char \<Rightarrow> int \<Rightarrow> bool" where
  "bpack_range c v \<longleftrightarrow>
     c = CHR ''c'' \<and> -128 \<le> v \<and> v \<le> 127 \<or> c = CHR ''s'' \<and> -32768 \<le> v \<and> v \<le> 32767 \<or>
     c = CHR ''i'' \<and> INT_MIN \<le> v \<and> v \<le> INT_MAX \<or> c = CHR ''l'' \<and> \<bar>v\<bar> < 2 ^ 53"

lemma mod_load: "v mod 2 ^ 16 = load_le (store_le 2 v)" "v mod 2 ^ 32 = load_le (store_le 4 v)"
  "v mod 2 ^ 64 = load_le (store_le 8 v)" "v mod 2 ^ 8 = load_le (store_le 1 v)"
  by (simp_all add: load_store_le)

lemma bpack_bytes:
  assumes "bpack_range c v"
  shows "l_bpack [c] (LuaInt v) = Inr (rev (store_le (bpack_size c) v))"
proof -
  have "store_le 2 (s16 (ntohs (v mod 2 ^ 16))) = rev (store_le 2 v)"
    "store_le 4 (s32 (ntohl (v mod 2 ^ 32))) = rev (store_le 4 v)"
    "store_le 8 (T_htonll (v mod 2 ^ 64)) = rev (store_le 8 v)"
    unfolding mod_load by (simp_all add: ntohs_rev ntohl_rev T_htonll_rev store_signed)
  moreover have "rev (store_le 1 v) = store_le 1 v" by (simp add: store_le_def)
  moreover have "s32 v = v" if "c = CHR ''i''" using assms that by (simp add: bpack_range_def s32_id)
  moreover have "\<bar>v\<bar> < 2 ^ 53" using assms by (auto simp: bpack_range_def)
  ultimately show ?thesis using assms
    by (auto simp: l_bpack_def check_code_def bpack_range_def bpack_size_def)
qed

lemma bunpack_bytes:
  assumes "bpack_range c v"
  shows "l_bunpack [c] (rev (store_le (bpack_size c) v)) = Inr (lua_pushnumber v)"
proof -
  have "s16 (ntohs (s16 (load_le (rev (store_le 2 v))) mod 2 ^ 16)) = v" if "c = CHR ''s''"
    using assms that load_le_mod [of "rev (store_le 2 v)"] signed_of_mod(2) [of v]
    by (simp add: bpack_range_def ntohs_rev load_store_le)
  moreover have "s32 (ntohl (s32 (load_le (rev (store_le 4 v))) mod 2 ^ 32)) = v" if "c = CHR ''i''"
    using assms that load_le_mod [of "rev (store_le 4 v)"] signed_of_mod(3) [of v]
    by (simp add: bpack_range_def ntohl_rev load_store_le)
  moreover have "T_ntohll (s64 (load_le (rev (store_le 8 v))) mod 2 ^ 64) = v" if "c = CHR ''l''"
    using assms that load_le_mod [of "rev (store_le 8 v)"] signed_of_mod(4) [of v]
    by (simp add: bpack_range_def T_ntohll_eq T_htonll_rev load_store_le)
  moreover have "s8 (load_le (rev (store_le 1 v))) = v" if "c = CHR ''c''"
    using assms that signed_of_mod(1) [of v] by (simp add: bpack_range_def store_le_def load_le_def uint_byte_of_int)
  ultimately show ?thesis using assms
    by (auto simp: l_bunpack_def check_code_def bpack_range_def bpack_size_def read_sized_def)
qed

text \<open>Packing an integer in the range of its format code gives its two's complement in network
  order, with the size of the code, and unpacking gives the number back; a packed double, whatever its
  bits, is unpacked to the same bits.\<close>

theorem bpack_roundtrip:
  "(bpack_range c v \<longrightarrow>
     l_bpack [c] (LuaInt v) = Inr (rev (store_le (bpack_size c) v)) \<and>
     rbind (l_bpack [c] (LuaInt v)) (l_bunpack [c]) = Inr (lua_pushnumber v)) \<and>
   rbind (l_bpack ''d'' (LuaFloat d)) (l_bunpack ''d'') = Inr (LuaFloat d)"
proof -
  have "uint d < 256 ^ 8" using uint_lt2p [of d] by simp
  then have "word_of_int (load_le (store_le 8 (uint d))) = d" by (simp add: load_store_le)
  then have "rbind (l_bpack ''d'' (LuaFloat d)) (l_bunpack ''d'') = Inr (LuaFloat d)"
    by (simp add: l_bpack_def l_bunpack_def check_code_def read_sized_def)
  then show ?thesis using bpack_bytes bunpack_bytes by simp
qed

theorem bpack_roundtrip_witness:
  "l_bpack ''s'' (LuaInt (-2)) = Inr [-1, -2] \<and>
   rbind (l_bpack ''l'' (LuaInt (-1234567890123))) (l_bunpack ''l'') = Inr (lua_pushnumber (-1234567890123)) \<and>
   rbind (l_bpack ''d'' (LuaFloat 0x7FF8000000000000)) (l_bunpack ''d'') = Inr (LuaFloat 0x7FF8000000000000)"
proof -
  have "rev (store_le 2 (-2)) = [-1, -2]" by (simp add: store_le_def upt_conv_Cons numeral_2_eq_2)
  then have "l_bpack ''s'' (LuaInt (-2)) = Inr [-1, -2]"
    using bpack_roundtrip [of "CHR ''s''" "-2" 0] by (simp add: bpack_range_def bpack_size_def)
  moreover have "rbind (l_bpack ''l'' (LuaInt (-1234567890123))) (l_bunpack ''l'') = Inr (lua_pushnumber (-1234567890123))"
  proof -
    have "bpack_range (CHR ''l'') (-1234567890123)" by (simp add: bpack_range_def)
    then show ?thesis using bpack_roundtrip [of "CHR ''l''" "-1234567890123" 0] by blast
  qed
  ultimately show ?thesis using bpack_roundtrip [of "CHR ''s''" 0 "0x7FF8000000000000"] by blast
qed


section \<open>Zigzag and varint numbers\<close>

definition zigzag :: "int \<Rightarrow> int" where
  "zigzag n = (if n \<ge> 0 then 2 * n else -2 * n - 1)"

definition unzigzag :: "int \<Rightarrow> int" where
  "unzigzag z = (if even z then z div 2 else - (z div 2) - 1)"

lemma unzigzag_zigzag: "unzigzag (zigzag n) = n"
  unfolding zigzag_def unzigzag_def by presburger

lemma zigzag_bounds: "0 \<le> zigzag n" "\<bar>n\<bar> < b \<Longrightarrow> zigzag n < 2 * b" "-b \<le> n \<Longrightarrow> n < b \<Longrightarrow> zigzag n < 2 * b"
  by (auto simp: zigzag_def)

lemma drop_bit_sign:
  fixes n :: int
  assumes "- (2 ^ k) \<le> n" "n < 2 ^ k"
  shows "drop_bit k n = (if n \<ge> 0 then 0 else -1)"
proof (cases "n \<ge> 0")
  case False
  have "(n + 2 ^ k) div 2 ^ k = 0" using assms False by simp
  moreover have "(n + 2 ^ k) div 2 ^ k = n div 2 ^ k + 1" by (rule div_add_self2) simp
  ultimately have "n div 2 ^ k = -1" by linarith
  then show ?thesis using False by (simp add: drop_bit_eq_div)
qed (use assms in \<open>simp add: drop_bit_eq_div\<close>)

lemma mod_xor:
  fixes x y :: int
  shows "(x mod 2 ^ k) XOR (y mod 2 ^ k) = (x XOR y) mod 2 ^ k"
  by (simp flip: take_bit_eq_mod)

lemma unzigzag_bits:
  fixes n :: int
  shows "drop_bit 1 n XOR - (n AND 1) = unzigzag n"
  by (cases "even n") (simp_all add: drop_bit_eq_div and_one_eq mod_2_eq_odd unzigzag_def not_int_def)

lemma i32_zigzag:
  assumes "INT_MIN \<le> n" "n \<le> INT_MAX"
  shows "l_i32ToZigzag (LuaInt n) = Inr (lua_pushnumber (zigzag n))"
proof -
  have "s32 (push_bit 1 n) mod 2 ^ 32 XOR drop_bit 31 n mod 2 ^ 32 =
      (2 * n XOR drop_bit 31 n) mod 2 ^ 32"
    by (simp add: push_bit_eq_mult mult.commute flip: mod_xor [of _ 32, simplified])
  also have "\<dots> = zigzag n mod 2 ^ 32"
    using assms drop_bit_sign [of 31 n] by (simp add: zigzag_def not_int_def)
  also have "\<dots> = zigzag n" using assms by (auto simp: zigzag_def)
  finally show ?thesis using assms by (simp add: l_i32ToZigzag_def s32_id Let_def)
qed

lemma i32_unzigzag:
  assumes "0 \<le> z" "z < 2 ^ 32"
  shows "l_zigzagToI32 (lua_pushnumber z) = Inr (lua_pushnumber (unzigzag z))"
proof -
  have "(0 :: int) \<le> drop_bit 1 z" "drop_bit 1 z < 2 ^ 32" using assms by (simp_all add: drop_bit_eq_div)
  then have "drop_bit 1 z XOR (- (z AND 1)) mod 2 ^ 32 = unzigzag z mod 2 ^ 32"
    using mod_xor [of "drop_bit 1 z" 32 "- (z AND 1)"] unzigzag_bits [of z] by simp
  moreover have "INT_MIN \<le> unzigzag z" "unzigzag z \<le> INT_MAX" using assms by (auto simp: unzigzag_def)
  then have "s32 (unzigzag z mod 2 ^ 32) = unzigzag z" by (rule signed_of_mod)
  ultimately show ?thesis using assms by (simp add: l_zigzagToI32_def Let_def)
qed

lemma i64_zigzag:
  assumes "\<bar>n\<bar> < 2 ^ 52"
  shows "l_i64ToZigzag (LuaInt n) = Inr (lua_pushnumber (zigzag n))"
proof -
  have "s64 (push_bit 1 n) = 2 * n" using assms by (simp add: s64_def push_bit_eq_mult)
  moreover have "drop_bit 63 n = (if n \<ge> 0 then 0 else -1)"
    using assms by (intro drop_bit_sign) simp_all
  ultimately show ?thesis using assms
    by (auto simp: l_i64ToZigzag_def zigzag_def not_int_def)
qed

lemma i64_unzigzag:
  assumes "0 \<le> z" "z < 2 ^ 63"
  shows "s64 (drop_bit 1 z XOR (- (z AND 1)) mod 2 ^ 64) = unzigzag z"
proof -
  have "(0 :: int) \<le> drop_bit 1 z" "drop_bit 1 z < 2 ^ 64" using assms by (simp_all add: drop_bit_eq_div)
  then have "drop_bit 1 z XOR (- (z AND 1)) mod 2 ^ 64 = unzigzag z mod 2 ^ 64"
    using mod_xor [of "drop_bit 1 z" 64 "- (z AND 1)"] unzigzag_bits [of z] by simp
  moreover have "-(2 ^ 63) \<le> unzigzag z" "unzigzag z < 2 ^ 63" using assms by (auto simp: unzigzag_def)
  ultimately show ?thesis by (simp only: signed_of_mod)
qed

text \<open>Zigzag numbers map the signed integers to the unsigned ones of twice the size, small
  absolute values to small numbers, and back: for every 32-bit integer, and for 64-bit integers of less
  than 53 bits, above which the doubles the values pass through lose digits.\<close>

theorem zigzag_roundtrip:
  "(INT_MIN \<le> n \<and> n \<le> INT_MAX \<longrightarrow>
      l_i32ToZigzag (LuaInt n) = Inr (lua_pushnumber (zigzag n)) \<and>
      rbind (l_i32ToZigzag (LuaInt n)) l_zigzagToI32 = Inr (lua_pushnumber n)) \<and>
   (\<bar>n\<bar> < 2 ^ 52 \<longrightarrow>
      l_i64ToZigzag (LuaInt n) = Inr (lua_pushnumber (zigzag n)) \<and>
      rbind (l_i64ToZigzag (LuaInt n)) l_zigzagToI64 = Inr (lua_pushnumber n))"
proof -
  have "l_zigzagToI64 (lua_pushnumber (zigzag n)) = Inr (lua_pushnumber n)" if "\<bar>n\<bar> < 2 ^ 52"
  proof -
    have z: "0 \<le> zigzag n" "zigzag n < 2 ^ 53" using that zigzag_bounds(1) zigzag_bounds(2) [OF that] by simp_all
    then have "drop_bit 1 (zigzag n) mod 2 ^ 64 = drop_bit 1 (zigzag n)" by (simp add: drop_bit_eq_div)
    then show ?thesis using z i64_unzigzag [of "zigzag n"]
      by (simp add: l_zigzagToI64_def unzigzag_zigzag)
  qed
  moreover have "l_zigzagToI32 (lua_pushnumber (zigzag n)) = Inr (lua_pushnumber n)"
    if "INT_MIN \<le> n" "n \<le> INT_MAX"
    using that zigzag_bounds(1) zigzag_bounds(3) [of "2 ^ 31" n] by (simp add: i32_unzigzag unzigzag_zigzag)
  ultimately show ?thesis by (simp add: i32_zigzag i64_zigzag)
qed

theorem zigzag_roundtrip_witness:
  "l_i32ToZigzag (LuaInt (-3)) = Inr (lua_pushnumber 5) \<and>
   rbind (l_i64ToZigzag (LuaInt (-3000000000))) l_zigzagToI64 = Inr (lua_pushnumber (-3000000000))"
proof -
  have "l_i32ToZigzag (LuaInt (-3)) = Inr (lua_pushnumber 5)"
    using zigzag_roundtrip [of "-3"] by (simp add: zigzag_def)
  moreover have "\<bar>- 3000000000 :: int\<bar> < 2 ^ 52" by simp
  ultimately show ?thesis using zigzag_roundtrip [of "-3000000000"] by blast
qed


text \<open>The varint of a number: seven bits a byte, the low ones first, the top bit set on all bytes
  but the last.\<close>

fun varint :: "nat \<Rightarrow> byte list" where
  "varint n = (if n < 128 then [of_nat n] else of_nat (n mod 128 + 128) # varint (n div 128))"

declare varint.simps [simp del]

lemma varint_length: "n < 128 ^ Suc k \<Longrightarrow> length (varint n) \<le> Suc k"
proof (induction k arbitrary: n)
  case (Suc k)
  have "n div 128 < 128 ^ Suc k" using Suc.prems by (simp add: less_mult_imp_div_less mult.commute)
  then show ?case using Suc.IH [of "n div 128"] by (simp add: varint.simps [of n])
qed (simp add: varint.simps)

lemma and_not_127: "(n :: int) AND NOT 127 = n - n mod 128"
proof -
  have "n = (n AND 127) OR (n AND NOT 127)" by (simp flip: bit.conj_disj_distrib)
  also have "\<dots> = (n AND 127) + (n AND NOT 127)"
    by (rule disjunctive_add_eq_or [symmetric]) (simp add: ac_simps)
  finally show ?thesis by (simp add: and_0x7f)
qed

lemma varint_loop_step:
  "varint_loop room n out =
     (if length out \<ge> room then Inl OutOfBounds
      else if 0 \<le> n \<and> n < 128 then Inr (out @ [word_of_int n])
      else varint_loop room (n div 128) (out @ [word_of_int (n mod 128 + 128)]))"
proof -
  have "n - n mod 128 = 0 \<longleftrightarrow> 0 \<le> n \<and> n < 128"
    using pos_mod_bound [of 128 n] pos_mod_sign [of 128 n] by (auto simp: mod_pos_pos_trivial)
  moreover have "(n mod 128) OR 128 = n mod 128 + 128"
    using or_add_low [of "n mod 128" 7 1] by (simp add: or.commute)
  ultimately show ?thesis
    unfolding varint_loop.simps [of room n out] and_not_127 and_0x7f drop_bit_eq_div by simp
qed

lemma varint_loop_nat:
  "length out + length (varint n) \<le> room \<Longrightarrow> varint_loop room (int n) out = Inr (out @ varint n)"
proof (induction n arbitrary: out rule: varint.induct)
  case (1 n)
  show ?case
  proof (cases "n < 128")
    case True
    then show ?thesis using 1(2) by (simp add: varint.simps varint_loop_step)
  next
    case False
    have "word_of_int (int n mod 128 + 128) = (of_nat (n mod 128 + 128) :: byte)"
      by (metis of_int_of_nat_eq of_nat_add of_nat_mod of_nat_numeral)
    then have "varint_loop room (int n) out =
        varint_loop room (int (n div 128)) (out @ [of_nat (n mod 128 + 128)])"
      using False 1(2) by (subst varint_loop_step) (simp add: varint.simps [of n] zdiv_int)
    also have "\<dots> = Inr ((out @ [of_nat (n mod 128 + 128)]) @ varint (n div 128))"
      using False 1(2) by (intro 1(1)) (simp_all add: varint.simps [of n])
    finally show ?thesis using False by (simp add: varint.simps [of n])
  qed
qed

lemma varint_loop_negative: "n < 0 \<Longrightarrow> varint_loop room n out = Inl OutOfBounds"
proof (induction "room - length out" arbitrary: n out)
  case 0
  then show ?case by (simp add: varint_loop_step)
next
  case (Suc k)
  have "n div 128 < 0" using Suc.prems by (simp add: neg_imp_zdiv_neg_iff)
  then show ?case using Suc.hyps(1) [of "out @ _" "n div 128"] Suc.hyps(2) Suc.prems
    by (subst varint_loop_step) auto
qed

text \<open>The loop of \<^verbatim>\<open>readVarint64\<close> (\<^verbatim>\<open>src/lualib/thrift/TCompactProtocol.lua\<close>) around \<^verbatim>\<open>fromVarint64\<close>, over the bytes of the transport:
  it ends at the byte whose flag is zero and returns the number and the bytes left. Each byte is read with \<^verbatim>\<open>bunpack\<close>: with the
  signed code \<^verbatim>\<open>c\<close> in \<^verbatim>\<open>readByte\<close>, which the loop uses, and with the unsigned \<^verbatim>\<open>C\<close> in its twin \<^verbatim>\<open>readSignByte\<close>.\<close>

fun read_varint64 :: "string \<Rightarrow> byte list \<Rightarrow> int \<Rightarrow> lua_number \<Rightarrow> (lua_number \<times> byte list) result" where
  "read_varint64 code [] shift data = Inl (LuaError ''no more data'')"
| "read_varint64 code (b # bs) shift data =
     rbind (l_bunpack code [b]) (\<lambda>v. rbind (l_fromVarint64 v (LuaInt shift) data) (\<lambda>(flag, data').
       if flag = lua_pushnumber 0 then Inr (data', bs) else read_varint64 code bs (shift + 7) data'))"

definition readVarint64 :: "byte list \<Rightarrow> (lua_number \<times> byte list) result" where
  "readVarint64 bs = read_varint64 ''c'' bs 0 (LuaInt 0)"

lemma bunpack_byte:
  "l_bunpack ''C'' [b] = Inr (lua_pushnumber (uint b))" "l_bunpack ''c'' [b] = Inr (lua_pushnumber (s8 (uint b)))"
  by (simp_all add: l_bunpack_def check_code_def read_sized_def load_le_def)

lemma from_varint_pushed: "l_fromVarint64 (lua_pushnumber v) = l_fromVarint64 (LuaInt v)"
  by (simp add: l_fromVarint64_def lua_pushnumber_def fun_eq_iff)

lemma from_varint_negative:
  assumes "-128 \<le> v" "v < 0"
  shows "l_fromVarint64 (LuaInt v) s n = Inl Undefined"
proof -
  have "double_trunc (double_of_int v) = Some v" using assms by (intro double_of_int_exact) simp
  then show ?thesis using assms by (simp add: l_fromVarint64_def double_to_def)
qed

lemma from_varint_byte:
  assumes "0 \<le> n0" "n0 < 2 ^ k" "c < 128" "n0 + int c * 2 ^ k < 2 ^ 53" "k < 53"
  shows "l_fromVarint64 (LuaInt (int (c + 128))) (LuaInt (int k)) (lua_pushnumber n0) =
      Inr (lua_pushnumber 1, lua_pushnumber (n0 + int c * 2 ^ k))"
    "l_fromVarint64 (LuaInt (int c)) (LuaInt (int k)) (lua_pushnumber n0) =
      Inr (lua_pushnumber 0, lua_pushnumber (unzigzag (n0 + int c * 2 ^ k)))"
proof -
  let ?n = "n0 + int c * 2 ^ k"
  have "int c * 2 ^ k < 2 ^ 64" using assms(1,4) by simp
  then have "push_bit k (int c) mod 2 ^ 64 = int c * 2 ^ k" by (simp add: push_bit_eq_mult)
  moreover have "n0 OR int c * 2 ^ k = ?n"
    using or_add_low [OF assms(1,2), of "int c"] by (simp add: or.commute add.commute)
  ultimately have n: "n0 OR push_bit k (int c) mod 2 ^ 64 = ?n" by simp
  have "(int c + 128) AND 128 = 128" "int c AND 128 = 0"
  proof -
    have "\<not> bit (int c) 7" using assms(3) by (simp add: bit_iff_odd)
    then show z: "int c AND 128 = 0" using and_exp_eq_0_iff_not_bit [of "int c" 7] by simp
    have "int c + 128 = int c OR 128" using z by (simp add: disjunctive_add_eq_or)
    then show "(int c + 128) AND 128 = 128" using z by (simp add: bit.conj_disj_distrib2)
  qed
  moreover have "(int c + 128) AND 127 = int c" "int c AND 127 = int c"
    using assms(3) by (simp_all add: and_0x7f)
  moreover have "0 \<le> int c * 2 ^ k" by simp
  then have "n0 < 2 ^ 53" "0 \<le> ?n" using assms(1,4) by linarith+
  moreover have "s64 ?n = ?n" using calculation assms(4) by (simp add: s64_def)
  ultimately show "l_fromVarint64 (LuaInt (int (c + 128))) (LuaInt (int k)) (lua_pushnumber n0) =
      Inr (lua_pushnumber 1, lua_pushnumber ?n)"
    "l_fromVarint64 (LuaInt (int c)) (LuaInt (int k)) (lua_pushnumber n0) =
      Inr (lua_pushnumber 0, lua_pushnumber (unzigzag ?n))"
    using assms n i64_unzigzag [of ?n]
    by (simp_all add: l_fromVarint64_def Let_def del: push_bit_and drop_bit_or)
qed


lemma uint_of_nat_byte: "n < 256 \<Longrightarrow> uint (of_nat n :: byte) = int n"
  by (simp add: unsigned_of_nat take_bit_nat_eq_self)

lemma read_varint:
  assumes "0 \<le> n0" "n0 < 2 ^ k" "n0 + int y * 2 ^ k < 2 ^ 53" "k < 53"
  shows "read_varint64 ''C'' (varint y @ rest) (int k) (lua_pushnumber n0) =
    Inr (lua_pushnumber (unzigzag (n0 + int y * 2 ^ k)), rest)"
  using assms
proof (induction y arbitrary: n0 k rule: varint.induct)
  case (1 y)
  have "lua_pushnumber 1 \<noteq> lua_pushnumber 0"
    using double_of_int_exact [of 0] double_of_int_exact [of 1] by (auto simp: lua_pushnumber_def)
  note flag = this
  show ?case
  proof (cases "y < 128")
    case True
    then show ?thesis using from_varint_byte(2) [of n0 k y] 1(2-5)
      by (simp add: varint.simps [of y] uint_of_nat_byte bunpack_byte from_varint_pushed)
  next
    case False
    let ?c = "y mod 128" and ?q = "y div 128" and ?p = "(2 :: int) ^ k"
    let ?n = "n0 + int ?c * ?p"
    have y: "int y = int ?c + 128 * int ?q" by (simp add: zdiv_int zmod_int)
    have p: "0 < ?p" "(2 :: int) ^ (k + 7) = 128 * ?p" by (simp_all add: power_add)
    have e: "n0 + int y * ?p = ?n + int ?q * 2 ^ (k + 7)" unfolding p(2) y by (simp add: algebra_simps)
    have c: "?c < 128" "0 \<le> int ?c * ?p" "0 \<le> int ?q * 2 ^ (k + 7)" by simp_all
    have "int ?c * ?p \<le> 127 * ?p" using p(1) by (intro mult_right_mono) auto
    then have n: "0 \<le> ?n" "?n < 2 ^ (k + 7)" "?n < 2 ^ 53" using 1(2-4) c e p by linarith+
    have "1 * (2 :: int) ^ (k + 7) \<le> int ?q * 2 ^ (k + 7)" using False by (intro mult_right_mono) auto
    then have "(2 :: int) ^ (k + 7) < 2 ^ 53" using 1(4) e n(1) by linarith
    then have k: "k + 7 < 53" by (rule power_less_imp_less_exp [rotated]) simp
    have "read_varint64 ''C'' (varint ?q @ rest) (int (k + 7)) (lua_pushnumber ?n) =
        Inr (lua_pushnumber (unzigzag (n0 + int y * ?p)), rest)"
      unfolding e using False n k 1(4) e by (intro 1(1)) simp_all
    moreover have "l_fromVarint64 (LuaInt (uint (of_nat (?c + 128) :: byte))) (LuaInt (int k)) (lua_pushnumber n0) =
        Inr (lua_pushnumber 1, lua_pushnumber ?n)"
      using from_varint_byte(1) [OF 1(2,3) c(1) n(3) 1(5)] c(1) by (subst uint_of_nat_byte) simp_all
    moreover have "varint y = of_nat (?c + 128) # varint ?q" using False by (subst varint.simps) simp
    ultimately show ?thesis using flag 
      by (simp only: append_Cons read_varint64.simps bunpack_byte from_varint_pushed rbind_simps prod.case) simp
  qed
qed

lemma varint_bound: "int n < 2 ^ 63 \<Longrightarrow> length (varint n) \<le> 9"
  using varint_length [of n 8] by simp

text \<open>The loop of the repository stops at the first continuation byte: it is negative, and its conversion to \<^verbatim>\<open>uint8_t\<close> is
  undefined.\<close>

lemma readVarint64_varint:
  "readVarint64 (varint y @ rest) =
    (if y < 128 then Inr (lua_pushnumber (unzigzag (int y)), rest) else Inl Undefined)"
proof (cases "y < 128")
  case True
  have "s8 (int y) = int y" using True by (simp add: s8_def)
  moreover have "l_fromVarint64 (LuaInt (int y)) (LuaInt 0) (LuaInt 0) = l_fromVarint64 (LuaInt (int y)) (LuaInt 0) (lua_pushnumber 0)"
    by (simp add: l_fromVarint64_def)
  ultimately show ?thesis using True from_varint_byte(2) [of 0 0 y]
    by (simp add: readVarint64_def varint.simps [of y] uint_of_nat_byte bunpack_byte from_varint_pushed)
next
  case False
  let ?b = "of_nat (y mod 128 + 128) :: byte"
  have u: "uint ?b = int (y mod 128 + 128)" by (rule uint_of_nat_byte) (simp add: add_strict_mono)
  have "s8 (int (y mod 128 + 128)) = int (y mod 128) - 128"
    using mod_less_divisor [of 128 y] by (simp add: s8_def del: mod_less_divisor)
  then have "l_fromVarint64 (LuaInt (s8 (uint ?b))) (LuaInt 0) (LuaInt 0) = Inl Undefined"
    unfolding u by (intro from_varint_negative) (use mod_less_divisor [of 128 y] in linarith)+
  moreover have "varint y = ?b # varint (y div 128)" using False by (subst varint.simps) simp
  ultimately show ?thesis using False by (simp add: readVarint64_def bunpack_byte from_varint_pushed)
qed

text \<open>[C32] A 64-bit number of less than 53 bits is written as a zigzag varint that the same loop reads back exactly,
  whatever follows, when it reads unsigned bytes. The repository's \<^verbatim>\<open>readVarint64\<close> reads signed ones: the numbers of one byte,
  from -64 to 63, are read back, and every other one ends in the undefined conversion of a negative byte. A 32-bit number written
  as a varint takes at most five bytes, the ones of its unsigned value, seven bits each.\<close>

theorem varint_wire:
  "(\<bar>v\<bar> < 2 ^ 52 \<longrightarrow>
      (\<exists>bs. rbind (l_i64ToZigzag (LuaInt v)) l_toVarint64 = Inr bs \<and>
        read_varint64 ''C'' (bs @ rest) 0 (LuaInt 0) = Inr (lua_pushnumber v, rest) \<and>
        readVarint64 (bs @ rest) = (if -64 \<le> v \<and> v < 64 then Inr (lua_pushnumber v, rest) else Inl Undefined))) \<and>
   l_toVarint32 (LuaInt w) = Inr (varint (nat (w mod 2 ^ 32))) \<and> length (varint (nat (w mod 2 ^ 32))) \<le> 5"
proof -
  have "\<exists>bs. rbind (l_i64ToZigzag (LuaInt v)) l_toVarint64 = Inr bs \<and>
        read_varint64 ''C'' (bs @ rest) 0 (LuaInt 0) = Inr (lua_pushnumber v, rest) \<and>
        readVarint64 (bs @ rest) = (if -64 \<le> v \<and> v < 64 then Inr (lua_pushnumber v, rest) else Inl Undefined)"
    if v: "\<bar>v\<bar> < 2 ^ 52"
  proof -
    define n where "n = nat (zigzag v)"
    have n: "int n = zigzag v" "int n < 2 ^ 53" using zigzag_bounds(1) zigzag_bounds(2) [OF v] by (auto simp: n_def)
    have "l_toVarint64 (lua_pushnumber (int n)) = Inr (varint n)"
      using n(2) varint_loop_nat [of "[]" n 10] varint_bound [of n] by (simp add: l_toVarint64_def)
    then have "rbind (l_i64ToZigzag (LuaInt v)) l_toVarint64 = Inr (varint n)"
      using i64_zigzag [OF v] n(1) by simp
    moreover have "read_varint64 ''C'' (varint n @ rest) 0 (LuaInt 0) = read_varint64 ''C'' (varint n @ rest) 0 (lua_pushnumber 0)"
      by (cases "varint n @ rest") (simp_all add: l_fromVarint64_def)
    then have "read_varint64 ''C'' (varint n @ rest) 0 (LuaInt 0) = Inr (lua_pushnumber v, rest)"
      using read_varint [of 0 0 n rest] n by (simp add: unzigzag_zigzag)
    moreover have "n < 128 \<longleftrightarrow> -64 \<le> v \<and> v < 64" using n(1) by (auto simp: zigzag_def split: if_splits)
    then have "readVarint64 (varint n @ rest) = (if -64 \<le> v \<and> v < 64 then Inr (lua_pushnumber v, rest) else Inl Undefined)"
      unfolding readVarint64_varint n(1) by (simp add: unzigzag_zigzag)
    ultimately show ?thesis by blast
  qed
  moreover have l: "length (varint (nat (w mod 2 ^ 32))) \<le> 5"
    using varint_length [of "nat (w mod 2 ^ 32)" 4] by (simp add: nat_less_iff)
  then have "l_toVarint32 (LuaInt w) = Inr (varint (nat (w mod 2 ^ 32)))"
    using varint_loop_nat [of "[]" "nat (w mod 2 ^ 32)" 5] by (simp add: l_toVarint32_def)
  ultimately show ?thesis using l by blast
qed

theorem varint_wire_witness:
  "(\<exists>bs. rbind (l_i64ToZigzag (LuaInt (-300))) l_toVarint64 = Inr bs \<and>
      read_varint64 ''C'' (bs @ [1, 2]) 0 (LuaInt 0) = Inr (lua_pushnumber (-300), [1, 2]) \<and>
      readVarint64 (bs @ [1, 2]) = Inl Undefined) \<and>
   l_toVarint32 (LuaInt 300) = Inr [172, 2]"
proof -
  have "varint 300 = [172, 2]" by (simp add: varint.simps)
  then have "l_toVarint32 (LuaInt 300) = Inr [172, 2]" using varint_wire [of 0 "[]" 300] by simp
  then show ?thesis using varint_wire [of "-300" "[1, 2]" 0] by simp
qed

text \<open>A negative number given to \<^verbatim>\<open>toVarint64\<close> is shifted arithmetically and never becomes small:
  the loop writes past the ten bytes of its buffer.\<close>

lemma varint64_negative:
  assumes "to_int64 (luaL_checknumber x) = Inr n" "n < 0"
  shows "l_toVarint64 x = Inl OutOfBounds"
  using assms by (simp add: l_toVarint64_def varint_loop_negative)

lemma varint64_negative_example: "l_toVarint64 (LuaInt (-1)) = Inl OutOfBounds"
  by (rule varint64_negative [where n = "-1"]) simp_all

end
