(* ===== verification/Hash.thy ===== *)
theory Hash
  imports Bpack "HOL-Library.Multiset"
begin

text \<open>
  Hash codes of Lua values, \<^verbatim>\<open>src/lualib-src/hash/lua-hash.c\<close>, and the string helper of the hashids
  library, \<^verbatim>\<open>lua-hashids.c\<close>. A Lua value is a tree; a table is the list of its pairs in the order \<^verbatim>\<open>lua_next\<close>
  visits them, and a table with a \<^verbatim>\<open>__pairs\<close> metamethod is the list of the pairs its iterator
  returns. Every hash is an \<^verbatim>\<open>int\<close>, with wrap-around.
\<close>

section \<open>Hash codes\<close>

datatype lua_value = LNumber lua_number | LBoolean bool | LString "byte list"
  | LTable "(lua_value \<times> lua_value) list" | LPairs "(lua_value \<times> lua_value) list" | LOther string

definition MAX_DEPTH :: int where "MAX_DEPTH = 16"

definition fold64 :: "int \<Rightarrow> int" where
  "fold64 v = s32 (v XOR drop_bit 32 v)"

definition hash_number :: "lua_number \<Rightarrow> int" where
  "hash_number x =
     (case x of LuaInt v \<Rightarrow> if v \<noteq> s32 v then fold64 (v mod 2 ^ 64) else v
      | LuaFloat d \<Rightarrow> fold64 (uint d))"

definition hash_boolean :: "bool \<Rightarrow> int" where
  "hash_boolean v = (if v then 1231 else 1237)"

text \<open>The index is an \<^verbatim>\<open>int\<close> that is compared with a \<^verbatim>\<open>size_t\<close>: after 2147483648 characters it is negative,
  so larger than any length, and the loop ends.\<close>

definition hash_string :: "byte list \<Rightarrow> int" where
  "hash_string str = foldl (\<lambda>h c. s32 (31 * h + sint c)) 0 (take 2147483648 str)"

text \<open>A C function is given \<^verbatim>\<open>LUA_MINSTACK\<close> free stack slots, and nothing here asks for more with \<^verbatim>\<open>luaL_checkstack\<close>. \<open>used\<close> counts
  the slots taken since \<^verbatim>\<open>lhash_table\<close> was entered: a table keeps its current key and value on the stack while they are
  hashed; one with a \<^verbatim>\<open>__pairs\<close> metamethod keeps the iterator and its state below them, and holds five slots just before the
  iterator is called. An empty table without a metatable needs one
  slot only, which makes no difference as the number in use is even. Using more slots than there are is undefined in Lua, here the error \<open>OutOfBounds\<close>.\<close>

definition LUA_MINSTACK :: nat where "LUA_MINSTACK = 20"

function hash_one :: "int \<Rightarrow> nat \<Rightarrow> lua_value \<Rightarrow> int result"
  and hash_table :: "int \<Rightarrow> nat \<Rightarrow> bool \<Rightarrow> (lua_value \<times> lua_value) list \<Rightarrow> int result"
  and hash_pairs :: "int \<Rightarrow> nat \<Rightarrow> int \<Rightarrow> (lua_value \<times> lua_value) list \<Rightarrow> int result" where
  "hash_one depth used v =
     (if depth > MAX_DEPTH then Inl (LuaError ''Can't hash too depth table'')
      else case v of
        LNumber x \<Rightarrow> Inr (hash_number x)
      | LBoolean b \<Rightarrow> Inr (hash_boolean b)
      | LString s \<Rightarrow> Inr (hash_string s)
      | LTable es \<Rightarrow> hash_table (depth + 1) used False es
      | LPairs es \<Rightarrow> hash_table (depth + 1) used True es
      | LOther ty \<Rightarrow> Inl (LuaError (''Wrong type '' @ ty @ '' to evaluate hash code'')))"
| "hash_table depth used meta es =
     (if used + (if meta then 5 else 2) > LUA_MINSTACK then Inl OutOfBounds
      else rbind (hash_pairs depth (used + (if meta then 4 else 2)) 0 es) (\<lambda>h. Inr (s32 (h * depth))))"
| "hash_pairs depth used h [] = Inr h"
| "hash_pairs depth used h ((k, v) # es) =
     rbind (hash_one depth used k) (\<lambda>kh. rbind (hash_one depth used v) (\<lambda>vh.
       hash_pairs depth used (s32 (h + (kh XOR vh))) es))"
  by pat_completeness auto
termination
  by (relation "measure (case_sum (\<lambda>(_, _, v). 3 * size v) (case_sum (\<lambda>(_, _, _, es). 3 * size_list (size_prod size size) es + 1)
      (\<lambda>(_, _, _, es). 3 * size_list (size_prod size size) es)))") auto

declare hash_one.simps [simp del] hash_table.simps [simp del]

definition lhash_table :: "lua_value \<Rightarrow> int result" where
  "lhash_table v =
     (case v of LTable es \<Rightarrow> hash_table 1 0 False es | LPairs es \<Rightarrow> hash_table 1 0 True es
      | _ \<Rightarrow> Inl (LuaError ''Argument must be table''))"

section \<open>Switching two characters\<close>

text \<open>\<^verbatim>\<open>strdup\<close> copies up to the first zero byte, so the copy may be shorter than the length of the
  string; the positions are not checked.\<close>

definition str_switch_pos :: "byte list \<Rightarrow> int \<Rightarrow> int \<Rightarrow> byte list result" where
  "str_switch_pos str pos1 pos2 =
     (let nstr = takeWhile (\<lambda>c. c \<noteq> 0) str @ [0]; mem = str @ [0] in
      if pos1 < 0 \<or> pos2 < 0 \<or> nat pos1 \<ge> length nstr \<or> nat pos2 \<ge> length nstr then Inl OutOfBounds
      else let nstr' = nstr[nat pos1 := mem ! nat pos2, nat pos2 := mem ! nat pos1]
           in if length str > length nstr' then Inl OutOfBounds else Inr (take (length str) nstr'))"

section \<open>The order of the pairs does not matter\<close>

definition pair_hash :: "int \<Rightarrow> nat \<Rightarrow> lua_value \<times> lua_value \<Rightarrow> int result" where
  "pair_hash depth u p = rbind (hash_one depth u (fst p)) (\<lambda>kh. rbind (hash_one depth u (snd p)) (\<lambda>vh. Inr (kh XOR vh)))"

text \<open>Hashing the pairs succeeds if every pair has a hash, with the wrapped sum of the hashes.\<close>

lemma s32_s32_add: "s32 (s32 x + y) = s32 (x + y)"
  by (rule s32_cong) (metis mod_add_left_eq signed_mod(3))

lemma hash_pairs_eq:
  "in_s32 h \<Longrightarrow> hash_pairs d u h es = Inr r \<longleftrightarrow>
     (\<forall>p \<in> set es. \<exists>x. pair_hash d u p = Inr x) \<and> r = s32 (h + sum_list (map (projr \<circ> pair_hash d u) es))"
proof (induction es arbitrary: h)
  case Nil
  then show ?case by (auto simp: s32_id in_s32_def)
next
  case (Cons p es)
  obtain k v where p: "p = (k, v)" by fastforce
  have "hash_pairs d u h (p # es) = rbind (pair_hash d u p) (\<lambda>x. hash_pairs d u (s32 (h + x)) es)"
    by (cases "hash_one d u k"; cases "hash_one d u v") (simp_all add: p pair_hash_def)
  then show ?case
    using Cons.IH [OF s32_in_range] by (cases "pair_hash d u p") (auto simp: s32_s32_add add.assoc)
qed

lemma hash_pairs_mset:
  assumes "mset es = mset fs" "in_s32 h"
  shows "hash_pairs d u h es = Inr r \<longleftrightarrow> hash_pairs d u h fs = Inr r"
proof -
  have "sum_list (map (projr \<circ> pair_hash d u) es) = sum_list (map (projr \<circ> pair_hash d u) fs)"
    using assms(1) by (metis mset_map sum_mset_sum_list)
  then show ?thesis using assms by (simp add: hash_pairs_eq mset_eq_setD [OF assms(1)])
qed

lemma hash_pairs_cong:
  assumes "list_all2 (\<lambda>p q. \<forall>x. pair_hash d u p = Inr x \<longleftrightarrow> pair_hash d u q = Inr x) es fs" "in_s32 h"
  shows "hash_pairs d u h es = Inr r \<longleftrightarrow> hash_pairs d u h fs = Inr r"
  using assms
proof (induction es fs arbitrary: h rule: list_all2_induct)
  case (Cons p es q fs)
  have e: "hash_pairs d u h (p # es) = rbind (pair_hash d u p) (\<lambda>x. hash_pairs d u (s32 (h + x)) es)" for p h es
    by (cases p; cases "hash_one d u (fst p)"; cases "hash_one d u (snd p)") (simp_all add: pair_hash_def)
  show ?case using Cons.hyps(1) Cons.IH [OF s32_in_range]
    by (auto simp: e rbind_eq_Inr_iff)
qed simp

text \<open>The same value up to the order of the pairs, at every level.\<close>

inductive same_value :: "lua_value \<Rightarrow> lua_value \<Rightarrow> bool" where
  same_refl: "same_value v v"
| same_table: "list_all2 (\<lambda>p q. same_value (fst p) (fst q) \<and> same_value (snd p) (snd q)) es gs \<Longrightarrow>
    mset gs = mset fs \<Longrightarrow> same_value (LTable es) (LTable fs)"
| same_pairs: "list_all2 (\<lambda>p q. same_value (fst p) (fst q) \<and> same_value (snd p) (snd q)) es gs \<Longrightarrow>
    mset gs = mset fs \<Longrightarrow> same_value (LPairs es) (LPairs fs)"

lemma in_s32_0: "in_s32 0"
  by (simp add: in_s32_def)

lemma hash_pairs_same:
  assumes "list_all2 (\<lambda>p q. (\<forall>d u h. hash_one d u (fst p) = Inr h \<longleftrightarrow> hash_one d u (fst q) = Inr h) \<and>
      (\<forall>d u h. hash_one d u (snd p) = Inr h \<longleftrightarrow> hash_one d u (snd q) = Inr h)) es gs" "mset gs = mset fs"
  shows "hash_pairs d u 0 es = Inr r \<longleftrightarrow> hash_pairs d u 0 fs = Inr r"
proof -
  have "list_all2 (\<lambda>p q. \<forall>x. pair_hash d u p = Inr x \<longleftrightarrow> pair_hash d u q = Inr x) es gs"
    using assms(1) by (rule list_all2_mono) (simp add: pair_hash_def rbind_eq_Inr_iff)
  from hash_pairs_cong [OF this in_s32_0, of r] show ?thesis
    using hash_pairs_mset [OF assms(2) in_s32_0, of d u r] by simp
qed

lemma hash_one_same: "same_value v w \<Longrightarrow> hash_one d u v = Inr h \<longleftrightarrow> hash_one d u w = Inr h"
proof (induction arbitrary: d u h rule: same_value.induct)
  case (same_table es gs fs)
  have "hash_pairs (d + 1) u 0 es = Inr r \<longleftrightarrow> hash_pairs (d + 1) u 0 fs = Inr r" for u r
    using same_table by (intro hash_pairs_same [of es gs fs]) (auto elim: list_all2_mono)
  then show ?case by (simp add: hash_one.simps hash_table.simps rbind_eq_Inr_iff)
next
  case (same_pairs es gs fs)
  have "hash_pairs (d + 1) u 0 es = Inr r \<longleftrightarrow> hash_pairs (d + 1) u 0 fs = Inr r" for u r
    using same_pairs by (intro hash_pairs_same [of es gs fs]) (auto elim: list_all2_mono)
  then show ?case by (simp add: hash_one.simps hash_table.simps rbind_eq_Inr_iff)
qed simp

text \<open>[C34] The hash code of a table does not depend on the order in which its pairs, or the pairs of the
  tables inside it, are visited: two such tables have the same hash code or both have none.\<close>

theorem hash_order_independent:
  assumes "same_value v w"
  shows "lhash_table v = Inr h \<longleftrightarrow> lhash_table w = Inr h"
  using assms
proof (cases rule: same_value.cases)
  case (same_table es gs fs)
  have "hash_pairs 1 u 0 es = Inr r \<longleftrightarrow> hash_pairs 1 u 0 fs = Inr r" for u r
    using same_table by (intro hash_pairs_same [of es gs fs]) (auto elim: list_all2_mono simp: hash_one_same)
  then show ?thesis using same_table by (simp add: lhash_table_def hash_table.simps rbind_eq_Inr_iff)
next
  case (same_pairs es gs fs)
  have "hash_pairs 1 u 0 es = Inr r \<longleftrightarrow> hash_pairs 1 u 0 fs = Inr r" for u r
    using same_pairs by (intro hash_pairs_same [of es gs fs]) (auto elim: list_all2_mono simp: hash_one_same)
  then show ?thesis using same_pairs by (simp add: lhash_table_def hash_table.simps rbind_eq_Inr_iff)
qed simp

theorem hash_order_independent_witness:
  "lhash_table (LTable [(LBoolean True, LString [97]), (LNumber (LuaInt 2), LBoolean False)]) = Inr 2437"
proof -
  let ?a = "(LBoolean True, LString [97])" and ?b = "(LNumber (LuaInt 2), LBoolean False)"
  have "lhash_table (LTable [?b, ?a]) = Inr 2437"
    by (simp add: lhash_table_def hash_table.simps hash_one.simps hash_number_def hash_boolean_def
        hash_string_def MAX_DEPTH_def LUA_MINSTACK_def s32_def)
  moreover have "same_value (LTable [?a, ?b]) (LTable [?b, ?a])"
    by (rule same_table [where gs = "[?a, ?b]"]) (simp_all add: same_refl)
  ultimately show ?thesis using hash_order_independent by blast
qed

section \<open>When a hash code exists\<close>

text \<open>The stack slots a value needs while it is hashed, and whether it is made of numbers, booleans, strings and tables only.\<close>

fun slots :: "lua_value \<Rightarrow> nat" where
  "slots (LTable es) = 2 + Max (insert 0 (\<Union>(k, v) \<in> set es. {slots k, slots v}))"
| "slots (LPairs es) = max 5 (4 + Max (insert 0 (\<Union>(k, v) \<in> set es. {slots k, slots v})))"
| "slots v = 0"

fun plain :: "lua_value \<Rightarrow> bool" where
  "plain (LTable es) \<longleftrightarrow> (\<forall>(k, v) \<in> set es. plain k \<and> plain v)"
| "plain (LPairs es) \<longleftrightarrow> (\<forall>(k, v) \<in> set es. plain k \<and> plain v)"
| "plain (LOther ty) \<longleftrightarrow> False"
| "plain v \<longleftrightarrow> True"

lemma slots_within:
  "Max (insert 0 (\<Union>(k, v) \<in> set es. {slots k, slots v})) \<le> n \<longleftrightarrow> (\<forall>(k, v) \<in> set es. slots k \<le> n \<and> slots v \<le> n)"
proof -
  have "finite (\<Union>(k, v) \<in> set es. {slots k, slots v})" by (auto split: prod.splits)
  then show ?thesis by (subst Max_le_iff) auto
qed

lemma pair_hash_ok:
  "(\<exists>x. pair_hash d u p = Inr x) \<longleftrightarrow> (\<exists>h. hash_one d u (fst p) = Inr h) \<and> (\<exists>h. hash_one d u (snd p) = Inr h)"
  by (auto simp: pair_hash_def rbind_eq_Inr_iff)

lemma hash_pairs_ok:
  "(\<exists>r. hash_pairs d u 0 es = Inr r) \<longleftrightarrow>
     (\<forall>(k, v) \<in> set es. (\<exists>h. hash_one d u k = Inr h) \<and> (\<exists>h. hash_one d u v = Inr h))"
  by (auto simp: hash_pairs_eq in_s32_0 pair_hash_ok)

text \<open>The depth is at most half of the slots in use, so that the limit on the slots is reached first.\<close>

lemma hash_table_ok:
  assumes IH: "\<And>k v d u. (k, v) \<in> set es \<Longrightarrow> 2 * d \<le> int u \<Longrightarrow> u \<le> LUA_MINSTACK \<Longrightarrow>
      ((\<exists>h. hash_one d u k = Inr h) \<longleftrightarrow> plain k \<and> u + slots k \<le> LUA_MINSTACK) \<and>
      ((\<exists>h. hash_one d u v = Inr h) \<longleftrightarrow> plain v \<and> u + slots v \<le> LUA_MINSTACK)"
    and d: "2 * (d - 1) \<le> int u"
  shows "(\<exists>h. hash_table d u meta es = Inr h) \<longleftrightarrow>
    plain (LTable es) \<and> u + slots (if meta then LPairs es else LTable es) \<le> LUA_MINSTACK"
proof -
  let ?u = "u + (if meta then 4 else 2)" and ?m = "Max (insert 0 (\<Union>(k, v) \<in> set es. {slots k, slots v}))"
  have t: "(\<exists>h. hash_table d u meta es = Inr h) \<longleftrightarrow>
      u + (if meta then 5 else 2) \<le> LUA_MINSTACK \<and> (\<exists>r. hash_pairs d ?u 0 es = Inr r)"
    by (auto simp: hash_table.simps rbind_eq_Inr_iff)
  have s: "u + slots (if meta then LPairs es else LTable es) \<le> LUA_MINSTACK \<longleftrightarrow>
      u + (if meta then 5 else 2) \<le> LUA_MINSTACK \<and> ?m \<le> LUA_MINSTACK - ?u" by auto
  show ?thesis
  proof (cases "u + (if meta then 5 else 2) \<le> LUA_MINSTACK")
    case True
    then have u: "?u \<le> LUA_MINSTACK" "2 * d \<le> int ?u" using d by (auto split: if_splits)
    have "(\<exists>r. hash_pairs d ?u 0 es = Inr r) \<longleftrightarrow>
        (\<forall>(k, v) \<in> set es. (plain k \<and> ?u + slots k \<le> LUA_MINSTACK) \<and> (plain v \<and> ?u + slots v \<le> LUA_MINSTACK))"
      unfolding hash_pairs_ok by (rule ball_cong [OF refl], clarsimp simp only: split_paired_all prod.case) (metis IH u)
    also have "\<dots> \<longleftrightarrow> plain (LTable es) \<and> ?m \<le> LUA_MINSTACK - ?u"
      unfolding slots_within using u(1) by (auto simp: le_diff_conv2 add.commute)
    finally show ?thesis unfolding t s using True by blast
  qed (simp only: t s simp_thms)
qed

lemma hash_one_ok:
  assumes "2 * d \<le> int u" "u \<le> LUA_MINSTACK"
  shows "(\<exists>h. hash_one d u v = Inr h) \<longleftrightarrow> plain v \<and> u + slots v \<le> LUA_MINSTACK"
  using assms
proof (induction v arbitrary: d u)
  case (LTable es)
  have "d \<le> MAX_DEPTH" using LTable.prems by (simp add: MAX_DEPTH_def LUA_MINSTACK_def)
  moreover have "(\<exists>h. hash_table (d + 1) u False es = Inr h) \<longleftrightarrow> plain (LTable es) \<and> u + slots (LTable es) \<le> LUA_MINSTACK"
    using hash_table_ok [of es "d + 1" u False] LTable by (simp add: fsts.simps snds.simps)
  ultimately show ?case by (simp add: hash_one.simps)
next
  case (LPairs es)
  have "d \<le> MAX_DEPTH" using LPairs.prems by (simp add: MAX_DEPTH_def LUA_MINSTACK_def)
  moreover have "(\<exists>h. hash_table (d + 1) u True es = Inr h) \<longleftrightarrow> plain (LPairs es) \<and> u + slots (LPairs es) \<le> LUA_MINSTACK"
    using hash_table_ok [of es "d + 1" u True] LPairs by (simp add: fsts.simps snds.simps)
  ultimately show ?case by (simp add: hash_one.simps)
qed (auto simp: hash_one.simps MAX_DEPTH_def LUA_MINSTACK_def)

text \<open>The error of the depth limit never comes.\<close>

abbreviation too_deep :: "int result" where
  "too_deep \<equiv> Inl (LuaError ''Can't hash too depth table'')"

lemma never_too_deep:
  shows "2 * d \<le> int u \<Longrightarrow> u \<le> LUA_MINSTACK \<Longrightarrow> hash_one d u v \<noteq> too_deep"
    and "2 * (d - 1) \<le> int u \<Longrightarrow> hash_table d u meta es \<noteq> too_deep"
    and "2 * d \<le> int u \<Longrightarrow> u \<le> LUA_MINSTACK \<Longrightarrow> hash_pairs d u h es \<noteq> too_deep"
proof (induction d u v and d u meta es and d u h es rule: hash_one_hash_table_hash_pairs.induct)
  case (1 depth used v)
  then have "\<not> depth > MAX_DEPTH" by (simp add: MAX_DEPTH_def LUA_MINSTACK_def)
  with 1 show ?case by (auto simp: hash_one.simps [of depth used v] split: lua_value.split)
next
  case (2 depth used meta es)
  then show ?case by (auto simp: hash_table.simps [of depth used meta es] rbind_def split: sum.split)
next
  case (4 depth used h k v es)
  then show ?case by (auto simp: rbind_def split: sum.split)
qed simp

text \<open>A value has a hash code exactly if it is a table, everything inside it is a number, a boolean, a string or a
  table, and hashing it needs no more than the 20 stack slots a C function is given: two for each level of plain tables, so ten
  levels. The limit of sixteen levels that the code checks is never reached: deeper tables overrun the stack before. A hash
  code is an \<^verbatim>\<open>int\<close>.\<close>

theorem hash_defined:
  "((\<exists>h. lhash_table v = Inr h) \<longleftrightarrow>
     ((\<exists>es. v = LTable es) \<or> (\<exists>es. v = LPairs es)) \<and> plain v \<and> slots v \<le> LUA_MINSTACK) \<and>
   lhash_table v \<noteq> too_deep \<and> (\<forall>h. lhash_table v = Inr h \<longrightarrow> in_s32 h)"
proof -
  have t: "(\<exists>h. hash_table 1 0 meta es = Inr h) \<longleftrightarrow>
      plain (LTable es) \<and> slots (if meta then LPairs es else LTable es) \<le> LUA_MINSTACK" for meta es
    using hash_table_ok [of es 1 0 meta] hash_one_ok by simp
  have "in_s32 h" if "hash_table 1 0 meta es = Inr h" for meta es h
    using that by (auto simp: hash_table.simps rbind_eq_Inr_iff s32_in_range split: if_splits)
  then show ?thesis
    by (cases v) (simp_all add: lhash_table_def t never_too_deep(2) del: slots.simps)
qed

text \<open>Tables inside tables.\<close>

primrec nested :: "nat \<Rightarrow> lua_value" where
  "nested 0 = LTable []"
| "nested (Suc n) = LTable [(LBoolean True, nested n)]"

theorem hash_defined_witness:
  "(\<exists>h. lhash_table (nested 9) = Inr h) \<and> \<not> (\<exists>h. lhash_table (nested 10) = Inr h)"
proof -
  have "plain (nested n)" "slots (nested n) = 2 * Suc n" for n by (induction n) simp_all
  moreover have "\<exists>es. nested n = LTable es" for n by (cases n) simp_all
  ultimately show ?thesis using hash_defined [of "nested 9"] hash_defined [of "nested 10"] by (simp add: LUA_MINSTACK_def)
qed

section \<open>Switching positions\<close>

text \<open>Inside a string without zero bytes the two characters change places, and doing it twice gives
  the string back.\<close>

lemma takeWhile_nonzero: "(0 :: byte) \<notin> set str \<Longrightarrow> takeWhile (\<lambda>c. c \<noteq> 0) str = str"
  by (induction str) auto

lemma str_switch_pos_swaps:
  assumes "0 \<notin> set str" "i < length str" "j < length str"
  shows "str_switch_pos str (int i) (int j) = Inr (str[i := str ! j, j := str ! i])"
  using assms
  by (simp add: str_switch_pos_def takeWhile_nonzero nth_append list_update_append)

lemma str_switch_pos_involution:
  assumes "0 \<notin> set str" "i < length str" "j < length str"
  shows "rbind (str_switch_pos str (int i) (int j)) (\<lambda>s. str_switch_pos s (int i) (int j)) = Inr str"
proof -
  let ?s = "str[i := str ! j, j := str ! i]"
  have "0 \<notin> set ?s" using assms by (metis nth_mem set_swap)
  then have "str_switch_pos ?s (int i) (int j) = Inr (?s[i := ?s ! j, j := ?s ! i])"
    using assms by (intro str_switch_pos_swaps) simp_all
  moreover have "?s[i := ?s ! j, j := ?s ! i] = str"
    using assms by (cases "i = j") (auto simp: nth_list_update intro!: nth_equalityI)
  ultimately show ?thesis using str_switch_pos_swaps [OF assms] by simp
qed

end
