(* ===== verification/Skiplist.thy ===== *)
theory Skiplist
  imports Interfaces "HOL-Library.List_Lexorder" "HOL-Library.Product_Lexorder" "HOL-Library.Monad_Syntax"
begin

text \<open>
  The skip list with ranks of \<^verbatim>\<open>src/lualib-src/lua-zset/skiplist.c\<close> and its Lua binding
  \<^verbatim>\<open>lua-skiplist.c\<close>, the ordered set behind score boards.

  The memory is explicit: a node is a number, \<open>nodes\<close> gives its object, score and back
  pointer, and \<open>cells\<close> gives the entries of its flexible \<^verbatim>\<open>level\<close> array, the forward pointer and the
  span. A node that was never allocated or has been freed, and an entry outside an array, have no value, and an
  operation that touches one has no result; neither has a loop that does not end. Spans and
  ranks are unsigned and wrap. Scores are only compared, so their type is any linear order, as the
  doubles without NaN are; the numbers that \<^verbatim>\<open>random\<close> returns are an argument.

  The operations are shown to implement a sorted list: every call returns, and returns what
  the list says. The callback of a deletion by rank only gets the objects and does not call back into the set.
\<close>

section \<open>Memory\<close>

record 's skiplistNode =
  obj :: "byte list option"
  score :: 's
  backward :: "nat option"

type_synonym skiplistLevel = "nat option \<times> int"

record 's skiplist =
  nodes :: "nat \<rightharpoonup> 's skiplistNode"
  cells :: "nat \<times> nat \<rightharpoonup> skiplistLevel"
  brk :: nat
  header :: nat
  sl_tail :: "nat option"
  sl_length :: int
  sl_level :: nat

definition SKIPLIST_MAXLEVEL :: nat where "SKIPLIST_MAXLEVEL = 32"

text \<open>Arithmetic of \<^verbatim>\<open>unsigned int\<close> and \<^verbatim>\<open>unsigned long\<close>.\<close>

abbreviation UINT :: int where "UINT \<equiv> 4294967296"
abbreviation ULONG :: int where "ULONG \<equiv> 18446744073709551616"

definition set_cell :: "nat \<Rightarrow> nat \<Rightarrow> skiplistLevel \<Rightarrow> 's skiplist \<Rightarrow> 's skiplist option" where
  "set_cell y i c sl =
     (if cells sl (y, i) = None then None else Some (sl\<lparr>cells := (cells sl)((y, i) \<mapsto> c)\<rparr>))"

definition set_backward :: "nat \<Rightarrow> nat option \<Rightarrow> 's skiplist \<Rightarrow> 's skiplist option" where
  "set_backward y b sl =
     do { n \<leftarrow> nodes sl y; Some (sl\<lparr>nodes := (nodes sl)(y \<mapsto> n\<lparr>backward := b\<rparr>)\<rparr>) }"

section \<open>Creating and freeing\<close>

text \<open>The contents of fresh memory are \<open>raw\<close>.\<close>

definition slCreateNode ::
  "'s skiplistNode \<times> skiplistLevel \<Rightarrow> nat \<Rightarrow> 's \<Rightarrow> byte list option \<Rightarrow> 's skiplist \<Rightarrow> nat \<times> 's skiplist" where
  "slCreateNode raw level sc ob sl =
     (let x = brk sl in
      (x, sl\<lparr>nodes := (nodes sl)(x \<mapsto> (fst raw)\<lparr>obj := ob, score := sc\<rparr>),
             cells := (\<lambda>(y, i). if y = x \<and> i < level then Some (snd raw) else cells sl (y, i)),
             brk := Suc x\<rparr>))"

definition slCreate :: "'s \<Rightarrow> 's skiplistNode \<times> skiplistLevel \<Rightarrow> 's skiplist" where
  "slCreate zero raw =
     (let sl0 = \<lparr>nodes = Map.empty, cells = Map.empty, brk = 0, header = 0, sl_tail = None,
                 sl_length = 0, sl_level = 1\<rparr>;
          (h, sl1) = slCreateNode raw SKIPLIST_MAXLEVEL zero None sl0
      in sl1\<lparr>header := h,
             cells := (\<lambda>(y, i). if y = h \<and> i < SKIPLIST_MAXLEVEL then Some (None, 0) else cells sl1 (y, i)),
             nodes := (nodes sl1)(h \<mapsto> (the (nodes sl1 h))\<lparr>backward := None\<rparr>)\<rparr>)"

definition slFreeNode :: "nat \<Rightarrow> 's skiplist \<Rightarrow> 's skiplist" where
  "slFreeNode x sl =
     sl\<lparr>nodes := (nodes sl)(x := None), cells := (\<lambda>(y, i). if y = x then None else cells sl (y, i))\<rparr>"

text \<open>\<^verbatim>\<open>slFree\<close> reads the forward pointer of a node before it frees the node, and goes through the object of
  every node but the header.\<close>

partial_function (option) free_nodes :: "'s skiplist \<Rightarrow> nat option \<Rightarrow> 's skiplist option" where
  "free_nodes sl node =
     (case node of None \<Rightarrow> Some sl
      | Some x \<Rightarrow>
          Option.bind (cells sl (x, 0)) (\<lambda>c. Option.bind (nodes sl x) (\<lambda>n. Option.bind (obj n) (\<lambda>_.
            free_nodes (slFreeNode x sl) (fst c)))))"

definition slFree :: "'s skiplist \<Rightarrow> 's skiplist option" where
  "slFree sl = do { c \<leftarrow> cells sl (header sl, 0); free_nodes (slFreeNode (header sl) sl) (fst c) }"

section \<open>Levels and comparison\<close>

text \<open>The coin flips of \<^verbatim>\<open>slRandomLevel\<close>: \<^verbatim>\<open>SKIPLIST_P * 0xffff\<close> is 16383.75. No level while the numbers
  seen so far all call for another flip.\<close>

fun random_level :: "nat \<Rightarrow> int list \<Rightarrow> nat option" where
  "random_level level [] = None"
| "random_level level (r # rs) =
     (if r AND 0xffff \<le> 16383 then random_level (level + 1) rs
      else Some (if level < SKIPLIST_MAXLEVEL then level else SKIPLIST_MAXLEVEL))"

definition slRandomLevel :: "int list \<Rightarrow> nat option" where
  "slRandomLevel rs = random_level 1 rs"

fun memcmp :: "byte list \<Rightarrow> byte list \<Rightarrow> nat \<Rightarrow> int" where
  "memcmp (a # as) (b # bs) (Suc n) = (if a = b then memcmp as bs n else uint a - uint b)"
| "memcmp as bs n = 0"

definition compareslObj :: "byte list \<Rightarrow> byte list \<Rightarrow> int" where
  "compareslObj a b =
     (let cmp = memcmp a b (if length a \<le> length b then length a else length b)
      in if cmp = 0 then s32 (int (length a) - int (length b)) else cmp)"

definition equalslObj :: "byte list \<Rightarrow> byte list \<Rightarrow> bool" where
  "equalslObj a b \<longleftrightarrow> compareslObj a b = 0"

section \<open>Walking\<close>

text \<open>The loop \<^verbatim>\<open>while (x->level[i].forward && ...)\<close>: it moves along level \<open>i\<close> as long as a condition
  on the next node and on the spans crossed so far (counted modulo \<open>m\<close>) holds, and gives the node it
  stops at and the count.\<close>

partial_function (option) walk ::
  "'s skiplist \<Rightarrow> int \<Rightarrow> (int \<Rightarrow> 's skiplistNode \<Rightarrow> bool option) \<Rightarrow> nat \<Rightarrow> nat \<Rightarrow> int \<Rightarrow> (nat \<times> int) option" where
  "walk sl m go i x crossed =
     Option.bind (cells sl (x, i)) (\<lambda>c.
       case fst c of None \<Rightarrow> Some (x, crossed)
       | Some y \<Rightarrow>
           Option.bind (nodes sl y) (\<lambda>n. Option.bind (go ((crossed + snd c) mod m) n) (\<lambda>b.
             if b then walk sl m go i y ((crossed + snd c) mod m) else Some (x, crossed))))"

text \<open>The loop over the levels from the top: the node and the count where it ends, and for every level
  the node and the count where the walk on it stopped, \<^verbatim>\<open>update[i]\<close> and \<^verbatim>\<open>rank[i]\<close>.\<close>

primrec descend ::
  "'s skiplist \<Rightarrow> int \<Rightarrow> (int \<Rightarrow> 's skiplistNode \<Rightarrow> bool option) \<Rightarrow> nat \<Rightarrow> nat \<Rightarrow> int \<Rightarrow>
   (nat \<times> int \<times> (nat \<times> int) list) option" where
  "descend sl m go 0 x crossed = Some (x, crossed, [])"
| "descend sl m go (Suc i) x crossed =
     do { (y, r) \<leftarrow> walk sl m go i x crossed;
          (z, r', us) \<leftarrow> descend sl m go i y r;
          Some (z, r', us @ [(y, r)]) }"

text \<open>The conditions: before a key, by score then object; not after a key; by score alone; and by
  rank.\<close>

definition before_key :: "'s::linorder \<Rightarrow> byte list \<Rightarrow> int \<Rightarrow> 's skiplistNode \<Rightarrow> bool option" where
  "before_key sc ob _ n =
     (if score n < sc then Some True
      else if score n = sc then do { o' \<leftarrow> obj n; Some (compareslObj o' ob < 0) }
      else Some False)"

definition upto_key :: "'s::linorder \<Rightarrow> byte list \<Rightarrow> int \<Rightarrow> 's skiplistNode \<Rightarrow> bool option" where
  "upto_key sc ob _ n =
     (if score n < sc then Some True
      else if score n = sc then do { o' \<leftarrow> obj n; Some (compareslObj o' ob \<le> 0) }
      else Some False)"

section \<open>Inserting\<close>

primrec raise_levels :: "nat \<Rightarrow> nat \<Rightarrow> 's skiplist \<Rightarrow> 's skiplist option" where
  "raise_levels i 0 sl = Some sl"
| "raise_levels i (Suc n) sl =
     do { c \<leftarrow> cells sl (header sl, i);
          sl' \<leftarrow> set_cell (header sl) i (fst c, sl_length sl mod UINT) sl;
          raise_levels (Suc i) n sl' }"

text \<open>Linking the new node \<open>x\<close> on level \<open>i\<close> after \<^verbatim>\<open>update[i]\<close>, for \<^verbatim>\<open>i\<close> from 0 on.\<close>

primrec link_levels :: "nat \<Rightarrow> int \<Rightarrow> nat \<Rightarrow> (nat \<times> int) list \<Rightarrow> 's skiplist \<Rightarrow> 's skiplist option" where
  "link_levels x r0 i [] sl = Some sl"
| "link_levels x r0 i (u # us) sl =
     do { c \<leftarrow> cells sl (fst u, i);
          sl1 \<leftarrow> set_cell x i (fst c, (snd c - (r0 - snd u)) mod UINT) sl;
          sl2 \<leftarrow> set_cell (fst u) i (Some x, (r0 - snd u + 1) mod UINT) sl1;
          link_levels x r0 (Suc i) us sl2 }"

primrec bump_levels :: "nat \<Rightarrow> (nat \<times> int) list \<Rightarrow> 's skiplist \<Rightarrow> 's skiplist option" where
  "bump_levels i [] sl = Some sl"
| "bump_levels i (u # us) sl =
     do { c \<leftarrow> cells sl (fst u, i);
          sl' \<leftarrow> set_cell (fst u) i (fst c, (snd c + 1) mod UINT) sl;
          bump_levels (Suc i) us sl' }"

definition raise_list :: "nat \<Rightarrow> (nat \<times> int) list \<Rightarrow> 's skiplist \<Rightarrow> ('s skiplist \<times> (nat \<times> int) list) option" where
  "raise_list level us sl =
     (if level > sl_level sl
      then do { sl' \<leftarrow> raise_levels (sl_level sl) (level - sl_level sl) sl;
                Some (sl'\<lparr>sl_level := level\<rparr>, us @ replicate (level - sl_level sl) (header sl, 0)) }
      else Some (sl, us))"

text \<open>The part of \<^verbatim>\<open>slInsert\<close> that creates the node and links it, given \<^verbatim>\<open>update\<close> and \<^verbatim>\<open>rank\<close> in \<open>us\<close>.\<close>

definition link_new ::
  "'s skiplistNode \<times> skiplistLevel \<Rightarrow> nat \<Rightarrow> 's \<Rightarrow> byte list \<Rightarrow> (nat \<times> int) list \<Rightarrow> 's skiplist \<Rightarrow> 's skiplist option" where
  "link_new raw level sc ob us sl1 =
     do { let (x, sl2) = slCreateNode raw level sc (Some ob) sl1;
          let r0 = snd (us ! 0);
          sl3 \<leftarrow> link_levels x r0 0 (take level us) sl2;
          sl4 \<leftarrow> bump_levels level (drop level us) sl3;
          let u0 = fst (us ! 0);
          sl5 \<leftarrow> set_backward x (if u0 = header sl4 then None else Some u0) sl4;
          c \<leftarrow> cells sl5 (x, 0);
          sl6 \<leftarrow> (case fst c of Some y \<Rightarrow> set_backward y (Some x) sl5
                  | None \<Rightarrow> Some (sl5\<lparr>sl_tail := Some x\<rparr>));
          Some (sl6\<lparr>sl_length := (sl_length sl6 + 1) mod ULONG\<rparr>) }"

definition slInsert ::
  "'s skiplistNode \<times> skiplistLevel \<Rightarrow> int list \<Rightarrow> 's::linorder \<Rightarrow> byte list \<Rightarrow> 's skiplist \<Rightarrow> 's skiplist option" where
  "slInsert raw rs sc ob sl =
     do { (_, _, us) \<leftarrow> descend sl UINT (before_key sc ob) (sl_level sl) (header sl) 0;
          level \<leftarrow> slRandomLevel rs;
          (sl1, us1) \<leftarrow> raise_list level us sl;
          link_new raw level sc ob us1 sl1 }"

section \<open>Deleting\<close>

primrec unlink_levels :: "nat \<Rightarrow> nat \<Rightarrow> nat list \<Rightarrow> 's skiplist \<Rightarrow> 's skiplist option" where
  "unlink_levels x i [] sl = Some sl"
| "unlink_levels x i (u # us) sl =
     do { c \<leftarrow> cells sl (u, i);
          sl' \<leftarrow> (if fst c = Some x
                  then do { d \<leftarrow> cells sl (x, i);
                            set_cell u i (fst d, (snd c + (snd d - 1)) mod UINT) sl }
                  else set_cell u i (fst c, (snd c - 1) mod UINT) sl);
          unlink_levels x (Suc i) us sl' }"

fun lower_level :: "'s skiplist \<Rightarrow> nat \<Rightarrow> nat option" where
  "lower_level sl level =
     (if level > 1
      then do { c \<leftarrow> cells sl (header sl, level - 1);
                if fst c = None then lower_level sl (level - 1) else Some level }
      else Some level)"

declare lower_level.simps [simp del]

definition slDeleteNode :: "nat \<Rightarrow> nat list \<Rightarrow> 's skiplist \<Rightarrow> 's skiplist option" where
  "slDeleteNode x us sl =
     do { sl1 \<leftarrow> unlink_levels x 0 (take (sl_level sl) us) sl;
          n \<leftarrow> nodes sl1 x;
          c \<leftarrow> cells sl1 (x, 0);
          sl2 \<leftarrow> (case fst c of Some y \<Rightarrow> set_backward y (backward n) sl1
                  | None \<Rightarrow> Some (sl1\<lparr>sl_tail := backward n\<rparr>));
          l \<leftarrow> lower_level sl2 (sl_level sl2);
          Some (sl2\<lparr>sl_level := l, sl_length := (sl_length sl2 - 1) mod ULONG\<rparr>) }"

definition slDelete :: "'s::linorder \<Rightarrow> byte list \<Rightarrow> 's skiplist \<Rightarrow> (bool \<times> 's skiplist) option" where
  "slDelete sc ob sl =
     do { (x, _, us) \<leftarrow> descend sl UINT (before_key sc ob) (sl_level sl) (header sl) 0;
          c \<leftarrow> cells sl (x, 0);
          case fst c of None \<Rightarrow> Some (False, sl)
          | Some y \<Rightarrow>
              do { n \<leftarrow> nodes sl y;
                   found \<leftarrow> (if sc = score n then do { o' \<leftarrow> obj n; Some (equalslObj o' ob) } else Some False);
                   if found
                   then do { sl' \<leftarrow> slDeleteNode y (map fst us) sl; Some (True, slFreeNode y sl') }
                   else Some (False, sl) } }"

text \<open>The loop of \<^verbatim>\<open>slDeleteByRank\<close>, with the objects handed to the callback; the rank goes up until it
  passes \<open>end\<close>, which an unsigned int always is reached.\<close>

function delete_ranks ::
  "nat list \<Rightarrow> int \<Rightarrow> int \<Rightarrow> nat option \<Rightarrow> 's skiplist \<Rightarrow> (byte list list \<times> 's skiplist) option" where
  "delete_ranks us traversed end' xo sl =
     (case xo of None \<Rightarrow> Some ([], sl)
      | Some x \<Rightarrow>
          if traversed \<le> end'
          then do { c \<leftarrow> cells sl (x, 0);
                    sl1 \<leftarrow> slDeleteNode x us sl;
                    n \<leftarrow> nodes sl1 x;
                    ob \<leftarrow> obj n;
                    (os, sl2) \<leftarrow> delete_ranks us (traversed + 1) end' (fst c) (slFreeNode x sl1);
                    Some (ob # os, sl2) }
          else Some ([], sl))"
  by pat_completeness auto
termination by (relation "measure (\<lambda>(us, t, e, xo, sl). nat (e + 1 - t))") auto

declare delete_ranks.simps [simp del]

definition before_rank :: "int \<Rightarrow> int \<Rightarrow> 's skiplistNode \<Rightarrow> bool option" where
  "before_rank start r _ = Some (r < start)"

definition slDeleteByRank :: "int \<Rightarrow> int \<Rightarrow> 's skiplist \<Rightarrow> (byte list list \<times> 's skiplist) option" where
  "slDeleteByRank start end' sl =
     do { (x, traversed, us) \<leftarrow> descend sl ULONG (before_rank start) (sl_level sl) (header sl) 0;
          c \<leftarrow> cells sl (x, 0);
          delete_ranks (map fst us) (traversed + 1) end' (fst c) sl }"

section \<open>Searching\<close>

text \<open>A descent that looks at the node after each level and may stop there.\<close>

primrec seek ::
  "'s skiplist \<Rightarrow> (int \<Rightarrow> 's skiplistNode \<Rightarrow> bool option) \<Rightarrow> (nat \<Rightarrow> int \<Rightarrow> bool option) \<Rightarrow> nat \<Rightarrow> nat \<Rightarrow> int \<Rightarrow>
   (nat \<times> int) option option" where
  "seek sl go stop 0 x crossed = Some None"
| "seek sl go stop (Suc i) x crossed =
     do { (y, r) \<leftarrow> walk sl ULONG go i x crossed;
          b \<leftarrow> stop y r;
          if b then Some (Some (y, r)) else seek sl go stop i y r }"

definition slGetRank :: "'s::linorder \<Rightarrow> byte list \<Rightarrow> 's skiplist \<Rightarrow> int option" where
  "slGetRank sc ob sl =
     do { found \<leftarrow> seek sl (upto_key sc ob)
            (\<lambda>x _. do { n \<leftarrow> nodes sl x; Some (case obj n of None \<Rightarrow> False | Some o' \<Rightarrow> equalslObj o' ob) })
            (sl_level sl) (header sl) 0;
          Some (case found of None \<Rightarrow> 0 | Some (_, r) \<Rightarrow> r) }"

definition slGetNodeByRank :: "int \<Rightarrow> 's skiplist \<Rightarrow> nat option option" where
  "slGetNodeByRank rank sl =
     (if rank = 0 \<or> rank > sl_length sl then Some None
      else do { found \<leftarrow> seek sl (\<lambda>r _. Some (r \<le> rank)) (\<lambda>_ r. Some (r = rank)) (sl_level sl) (header sl) 0;
                Some (map_option fst found) })"

definition slIsInRange :: "'s::linorder \<Rightarrow> 's \<Rightarrow> 's skiplist \<Rightarrow> bool option" where
  "slIsInRange mn mx sl =
     (if mn > mx then Some False
      else case sl_tail sl of None \<Rightarrow> Some False
      | Some t \<Rightarrow>
          do { n \<leftarrow> nodes sl t;
               if score n < mn then Some False
               else do { c \<leftarrow> cells sl (header sl, 0);
                         case fst c of None \<Rightarrow> Some False
                         | Some f \<Rightarrow> do { n' \<leftarrow> nodes sl f; Some (\<not> score n' > mx) } } })"

definition slFirstInRange :: "'s::linorder \<Rightarrow> 's \<Rightarrow> 's skiplist \<Rightarrow> nat option option" where
  "slFirstInRange mn mx sl =
     do { ok \<leftarrow> slIsInRange mn mx sl;
          if \<not> ok then Some None
          else do { (x, _) \<leftarrow> descend sl ULONG (\<lambda>_ n. Some (score n < mn)) (sl_level sl) (header sl) 0;
                    c \<leftarrow> cells sl (x, 0);
                    Some (fst c) } }"

definition slLastInRange :: "'s::linorder \<Rightarrow> 's \<Rightarrow> 's skiplist \<Rightarrow> nat option option" where
  "slLastInRange mn mx sl =
     do { ok \<leftarrow> slIsInRange mn mx sl;
          if \<not> ok then Some None
          else do { (x, _) \<leftarrow> descend sl ULONG (\<lambda>_ n. Some (score n \<le> mx)) (sl_level sl) (header sl) 0;
                    Some (Some x) } }"

section \<open>The Lua binding\<close>

text \<open>Following level 0 forwards or the back pointers, at most \<open>k\<close> nodes.\<close>

definition next_node :: "'s skiplist \<Rightarrow> bool \<Rightarrow> nat \<Rightarrow> nat option option" where
  "next_node sl reverse x =
     (if reverse then map_option backward (nodes sl x) else map_option fst (cells sl (x, 0)))"

primrec collect :: "'s skiplist \<Rightarrow> bool \<Rightarrow> nat \<Rightarrow> nat option \<Rightarrow> byte list list option" where
  "collect sl reverse 0 node = Some []"
| "collect sl reverse (Suc k) node =
     (case node of None \<Rightarrow> Some []
      | Some x \<Rightarrow> do { n \<leftarrow> nodes sl x;
                       ob \<leftarrow> obj n;
                       node' \<leftarrow> next_node sl reverse x;
                       os \<leftarrow> collect sl reverse k node';
                       Some (ob # os) })"

definition get_rank_range :: "int \<Rightarrow> int \<Rightarrow> 's skiplist \<Rightarrow> byte list list option" where
  "get_rank_range i1 i2 sl =
     (let r1 = i1 mod ULONG; r2 = i2 mod ULONG;
          reverse = (\<not> r1 \<le> r2);
          rangelen = (if r1 \<le> r2 then s32 (r2 - r1 + 1) else s32 (r1 - r2 + 1))
      in do { node \<leftarrow> slGetNodeByRank r1 sl; collect sl reverse (nat rangelen) node })"

text \<open>The loop over a range of scores, up to the first node out of range.\<close>

partial_function (option) collect_scores ::
  "'s::linorder skiplist \<Rightarrow> bool \<Rightarrow> 's \<Rightarrow> nat option \<Rightarrow> byte list list option" where
  "collect_scores sl reverse s2 node =
     (case node of None \<Rightarrow> Some []
      | Some x \<Rightarrow>
          Option.bind (nodes sl x) (\<lambda>n.
            if (if reverse then score n < s2 else score n > s2) then Some []
            else Option.bind (obj n) (\<lambda>ob. Option.bind (next_node sl reverse x) (\<lambda>node'.
                   Option.bind (collect_scores sl reverse s2 node') (\<lambda>os. Some (ob # os))))))"

definition get_score_range :: "'s::linorder \<Rightarrow> 's \<Rightarrow> 's skiplist \<Rightarrow> byte list list option" where
  "get_score_range s1 s2 sl =
     (if s1 \<le> s2
      then do { node \<leftarrow> slFirstInRange s1 s2 sl; collect_scores sl False s2 node }
      else do { node \<leftarrow> slLastInRange s2 s1 sl; collect_scores sl True s2 node })"

definition delete_by_rank :: "int \<Rightarrow> int \<Rightarrow> 's skiplist \<Rightarrow> (byte list list \<times> 's skiplist) option" where
  "delete_by_rank i1 i2 sl =
     (let start = i1 mod UINT; end' = i2 mod UINT
      in if start > end' then slDeleteByRank end' start sl else slDeleteByRank start end' sl)"

definition get_member_by_rank :: "int \<Rightarrow> 's skiplist \<Rightarrow> byte list option option" where
  "get_member_by_rank i sl =
     do { node \<leftarrow> slGetNodeByRank (i mod ULONG) sl;
          case node of None \<Rightarrow> Some None | Some x \<Rightarrow> do { n \<leftarrow> nodes sl x; ob \<leftarrow> obj n; Some (Some ob) } }"

text \<open>The methods of the Lua object and what they return. A deletion by rank hands the objects to a Lua
  function and returns their number.\<close>

datatype 's zset_op =
    Insert "'s skiplistNode \<times> skiplistLevel" "int list" 's "byte list"
  | Delete 's "byte list"
  | DeleteByRank int int
  | GetCount
  | GetRank 's "byte list"
  | GetRankRange int int
  | GetScoreRange 's 's
  | GetMemberByRank int

datatype zset_out = Nothing | Boolean bool | Count int | Members "byte list list" | Deleted int "byte list list"
  | Member "byte list"

fun zset_call :: "'s::linorder skiplist \<Rightarrow> 's zset_op \<Rightarrow> (zset_out \<times> 's skiplist) option" where
  "zset_call sl (Insert raw rs sc ob) = do { sl' \<leftarrow> slInsert raw rs sc ob sl; Some (Nothing, sl') }"
| "zset_call sl (Delete sc ob) = do { (b, sl') \<leftarrow> slDelete sc ob sl; Some (Boolean b, sl') }"
| "zset_call sl (DeleteByRank i1 i2) =
     do { (os, sl') \<leftarrow> delete_by_rank i1 i2 sl; Some (Deleted (int (length os)) os, sl') }"
| "zset_call sl GetCount = Some (Count (sl_length sl), sl)"
| "zset_call sl (GetRank sc ob) =
     do { r \<leftarrow> slGetRank sc ob sl; Some (if r = 0 then Nothing else Count r, sl) }"
| "zset_call sl (GetRankRange i1 i2) = do { os \<leftarrow> get_rank_range i1 i2 sl; Some (Members os, sl) }"
| "zset_call sl (GetScoreRange s1 s2) = do { os \<leftarrow> get_score_range s1 s2 sl; Some (Members os, sl) }"
| "zset_call sl (GetMemberByRank i) =
     do { m \<leftarrow> get_member_by_rank i sl; Some (case m of None \<Rightarrow> Nothing | Some ob \<Rightarrow> Member ob, sl) }"

section \<open>Hops\<close>

text \<open>From a node whose successors are a list: the first of them that is higher than level \<open>i\<close>, and the
  distance to it, or to the end.\<close>

fun hop :: "(nat \<Rightarrow> nat) \<Rightarrow> nat \<Rightarrow> nat list \<Rightarrow> skiplistLevel" where
  "hop h i [] = (None, 0)"
| "hop h i (y # ys) = (if i < h y then (Some y, 1) else (fst (hop h i ys), snd (hop h i ys) + 1))"

lemma hop_short: "\<forall>y \<in> set C. h y \<le> i \<Longrightarrow> hop h i (C @ B) = (fst (hop h i B), int (length C) + snd (hop h i B))"
  by (induction C) auto

lemma hop_tall: "\<forall>y \<in> set C. h y \<le> i \<Longrightarrow> i < h y \<Longrightarrow> hop h i (C @ y # B) = (Some y, int (length C) + 1)"
  by (simp add: hop_short)

lemma hop_cong: "\<forall>y \<in> set C. h y = h' y \<Longrightarrow> hop h i C = hop h' i C"
  by (induction C) auto

lemma hop_bounds: "0 \<le> snd (hop h i C)" "snd (hop h i C) \<le> int (length C)"
  by (induction C) auto

lemma hop_fst: "fst (hop h i C) = Some y \<Longrightarrow> y \<in> set C \<and> i < h y"
  by (induction C) (auto split: if_splits)

lemma tall_cases:
  obtains "\<forall>y \<in> set C. h y \<le> (i :: nat)"
  | C1 y C2 where "C = C1 @ y # C2" "\<forall>z \<in> set C1. h z \<le> i" "i < h y"
proof (cases "\<forall>y \<in> set C. h y \<le> i")
  case False
  then have "\<exists>y \<in> set C. i < h y" by (auto simp: not_le)
  from split_list_first_prop [OF this] show thesis using that(2) by (auto simp: not_less)
qed (rule that(1))

text \<open>The last node up to a point that is higher than level \<open>i\<close>, with its distance from the header.\<close>

definition is_update :: "(nat \<Rightarrow> nat) \<Rightarrow> nat list \<Rightarrow> nat \<Rightarrow> nat \<times> int \<Rightarrow> bool" where
  "is_update h P i ur \<longleftrightarrow>
     (\<exists>P1 C. P = P1 @ fst ur # C \<and> i < h (fst ur) \<and> (\<forall>y \<in> set C. h y \<le> i) \<and> snd ur = int (length P1))"

section \<open>Linked levels\<close>

definition linked :: "(nat \<Rightarrow> nat) \<Rightarrow> nat \<Rightarrow> nat \<Rightarrow> (nat \<times> nat \<rightharpoonup> skiplistLevel) \<Rightarrow> nat list \<Rightarrow> bool" where
  "linked h hd0 level cs ns \<longleftrightarrow>
     distinct (hd0 # ns) \<and>
     (\<forall>y i. cs (y, i) \<noteq> None \<longleftrightarrow> y \<in> set (hd0 # ns) \<and> i < h y) \<and>
     h hd0 = SKIPLIST_MAXLEVEL \<and> 1 \<le> level \<and> level \<le> SKIPLIST_MAXLEVEL \<and>
     (\<forall>y \<in> set ns. 1 \<le> h y \<and> h y \<le> level) \<and>
     (\<forall>P u S i. hd0 # ns = P @ u # S \<longrightarrow> i < h u \<longrightarrow> i < level \<longrightarrow> cs (u, i) = Some (hop h i S)) \<and>
     (\<forall>i. level \<le> i \<longrightarrow> i < SKIPLIST_MAXLEVEL \<longrightarrow> (\<exists>s. cs (hd0, i) = Some (None, s)))"

lemma linkedD:
  assumes "linked h hd0 level cs ns"
  shows "distinct (hd0 # ns)" "cs (y, i) \<noteq> None \<longleftrightarrow> y \<in> set (hd0 # ns) \<and> i < h y"
    "h hd0 = SKIPLIST_MAXLEVEL" "1 \<le> level" "level \<le> SKIPLIST_MAXLEVEL"
    "y \<in> set ns \<Longrightarrow> 1 \<le> h y" "y \<in> set ns \<Longrightarrow> h y \<le> level"
    "hd0 # ns = P @ u # S \<Longrightarrow> i < h u \<Longrightarrow> i < level \<Longrightarrow> cs (u, i) = Some (hop h i S)"
    "level \<le> i \<Longrightarrow> i < SKIPLIST_MAXLEVEL \<Longrightarrow> \<exists>s. cs (hd0, i) = Some (None, s)"
  using assms unfolding linked_def by blast+

text \<open>A condition that lets a walk pass exactly the first \<open>k\<close> nodes.\<close>

definition passes :: "'s skiplist \<Rightarrow> (int \<Rightarrow> 's skiplistNode \<Rightarrow> bool option) \<Rightarrow> nat list \<Rightarrow> nat \<Rightarrow> bool" where
  "passes sl go ns k \<longleftrightarrow>
     (\<forall>j < length ns. \<exists>n. nodes sl (ns ! j) = Some n \<and> go (int (Suc j)) n = Some (j < k))"

lemma passesD:
  assumes "passes sl go ns k" "j < length ns" "ns ! j = y"
  obtains n where "nodes sl y = Some n" "go (int (Suc j)) n = Some (j < k)"
  using assms unfolding passes_def by blast

lemma walk_stops:
  assumes l: "linked h hd0 level (cells sl) (A @ B)" and g: "passes sl go (A @ B) (length A)"
    and m: "int (length (A @ B)) < m" and i: "i < level"
  shows "hd0 # A = P @ x # C \<Longrightarrow> i < h x \<Longrightarrow>
    \<exists>C1 u C2. x # C = C1 @ u # C2 \<and> i < h u \<and> (\<forall>y \<in> set C2. h y \<le> i) \<and>
      walk sl m go i x (int (length P)) = Some (u, int (length P + length C1))"
proof (induction "length C" arbitrary: P x C rule: less_induct)
  case less
  have c: "cells sl (x, i) = Some (hop h i (C @ B))"
    using linkedD(8) [OF l, of P x "C @ B" i] less.prems i by simp
  have len: "length A = length P + length C" using arg_cong [OF less.prems(1), of length] by simp
  consider (short) "\<forall>y \<in> set C. h y \<le> i" | (tall) C1 y C2 where "C = C1 @ y # C2" "\<forall>z \<in> set C1. h z \<le> i" "i < h y"
    by (rule tall_cases [of C h i])
  then show ?case
  proof cases
    case short
    have "walk sl m go i x (int (length P)) = Some (x, int (length P))"
    proof (cases "fst (hop h i B)")
      case None
      then show ?thesis using c short by (simp add: walk.simps hop_short)
    next
      case (Some y)
      obtain B1 B2 where b: "B = B1 @ y # B2" "\<forall>z \<in> set B1. h z \<le> i" "i < h y"
      proof (cases rule: tall_cases [of B h i])
        case 1
        then show thesis using Some hop_fst [OF Some] by (auto simp: not_le [symmetric])
      next
        case (2 B1 y' B2)
        then show thesis using that [of B1 B2] Some hop_tall [of B1 h i y' B2] by simp
      qed
      let ?j = "length A + length B1"
      have j: "(A @ B) ! ?j = y" "?j < length (A @ B)" using b(1) by (simp_all add: nth_append)
      then obtain n where n: "nodes sl y = Some n" "go (int (Suc ?j)) n = Some False"
        using passesD [OF g j(2,1)] by auto
      have "int (length P) + snd (hop h i (C @ B)) = int (Suc ?j)"
        using short len b by (simp add: hop_short hop_tall)
      then have "(int (length P) + snd (hop h i (C @ B))) mod m = int (Suc ?j)"
        using m j(2) by simp
      moreover have "fst (hop h i (C @ B)) = Some y" using short Some by (simp add: hop_short)
      ultimately show ?thesis using c n by (subst walk.simps) simp
    qed
    then show ?thesis using short less.prems(2) by (intro exI [of _ "[]"] exI [of _ x] exI [of _ C]) simp
  next
    case tall
    let ?P = "P @ x # C1"
    have h: "hop h i (C @ B) = (Some y, int (length C1) + 1)" using tall by (simp add: hop_tall)
    have eq: "hd0 # A = ?P @ y # C2" using less.prems(1) tall(1) by simp
    let ?j = "length P + length C1"
    have "A ! ?j = (hd0 # A) ! Suc ?j" by simp
    also have "\<dots> = y" unfolding eq by (simp add: nth_append)
    finally have j: "(A @ B) ! ?j = y" "?j < length A" using len tall(1) by (simp_all add: nth_append)
    then obtain n where n: "nodes sl y = Some n" "go (int (Suc ?j)) n = Some True"
      using passesD [OF g _ j(1)] by auto
    have mm: "(int (length P) + (int (length C1) + 1)) mod m = int (length ?P)"
      using m j(2) by simp
    have "walk sl m go i x (int (length P)) = walk sl m go i y (int (length ?P))"
      using c h n mm by (subst walk.simps) (simp add: algebra_simps)
    moreover have "length C2 < length C" using tall(1) by simp
    from less.hyps [OF this eq tall(3)] obtain D u C3 where
      "y # C2 = D @ u # C3" "i < h u" "\<forall>z \<in> set C3. h z \<le> i"
      "walk sl m go i y (int (length ?P)) = Some (u, int (length ?P + length D))" by blast
    ultimately show ?thesis using tall(1)
      by (intro exI [of _ "x # C1 @ D"] exI [of _ u] exI [of _ C3]) simp
  qed
qed


lemma descend_updates:
  assumes l: "linked h hd0 level (cells sl) (A @ B)" and g: "passes sl go (A @ B) (length A)"
    and m: "int (length (A @ B)) < m"
  shows "n \<le> level \<Longrightarrow> hd0 # A = P @ x # C \<Longrightarrow> n \<le> h x \<Longrightarrow>
    \<exists>z r us. descend sl m go n x (int (length P)) = Some (z, r, us) \<and> length us = n \<and>
      (\<forall>i < n. is_update h (hd0 # A) i (us ! i)) \<and> (0 < n \<longrightarrow> (z, r) = us ! 0)"
proof (induction n arbitrary: P x C)
  case (Suc n)
  have n: "n < level" "n \<le> level" "n < h x" using Suc.prems by simp_all
  obtain C1 u C2 where u: "x # C = C1 @ u # C2" "n < h u" "\<forall>y \<in> set C2. h y \<le> n"
    "walk sl m go n x (int (length P)) = Some (u, int (length P + length C1))"
    using walk_stops [OF l g m n(1) Suc.prems(2) n(3)] by blast
  have eq: "hd0 # A = (P @ C1) @ u # C2" using Suc.prems(2) u(1) by simp
  obtain z r us where us: "descend sl m go n u (int (length (P @ C1))) = Some (z, r, us)" "length us = n"
    "\<forall>i < n. is_update h (hd0 # A) i (us ! i)" "0 < n \<longrightarrow> (z, r) = us ! 0"
    using Suc.IH [OF n(2) eq less_imp_le [OF u(2)]] by blast
  have "is_update h (hd0 # A) n (u, int (length (P @ C1)))"
    unfolding is_update_def using eq u(2,3) by (intro exI [of _ "P @ C1"] exI [of _ C2]) simp
  then have "\<forall>i < Suc n. is_update h (hd0 # A) i ((us @ [(u, int (length (P @ C1)))]) ! i)"
    using us(2,3) by (simp add: nth_append less_Suc_eq)
  moreover have "(z, r) = (us @ [(u, int (length (P @ C1)))]) ! 0"
    using us by (cases n) (auto simp: nth_append)
  ultimately show ?case using us u(4) by simp
qed simp

lemma split_unique:
  assumes "P1 @ u # C = Q1 @ v # D" "i < h u" "i < h v" "\<forall>y \<in> set C. h y \<le> i" "\<forall>y \<in> set D. h y \<le> (i :: nat)"
  shows "P1 = Q1 \<and> u = v \<and> C = D"
  using assms by (fastforce simp: append_eq_append_conv2 Cons_eq_append_conv append_eq_Cons_conv)

lemma is_update_unique:
  "is_update h (P1 @ u # C) i ur \<Longrightarrow> i < h u \<Longrightarrow> \<forall>y \<in> set C. h y \<le> i \<Longrightarrow> ur = (u, int (length P1))"
  unfolding is_update_def using split_unique [of P1 u C _ "fst ur" _ i h] by (cases ur) fastforce

lemma is_update_0:
  assumes "is_update h P 0 ur" "\<forall>y \<in> set P. 1 \<le> h y"
  shows "P \<noteq> []" "ur = (last P, int (length P) - 1)"
proof -
  obtain P1 C where p: "P = P1 @ fst ur # C" "\<forall>y \<in> set C. h y \<le> 0" "snd ur = int (length P1)"
    using assms(1) unfolding is_update_def by blast
  then have "C = []" using assms(2) by (cases C) auto
  with p show "P \<noteq> []" "ur = (last P, int (length P) - 1)" by (auto simp: prod_eq_iff)
qed

lemma descend_all:
  assumes l: "linked h hd0 level (cells sl) (A @ B)" and g: "passes sl go (A @ B) (length A)"
    and m: "int (length (A @ B)) < m"
  obtains us where "descend sl m go level hd0 0 = Some (last (hd0 # A), int (length A), us)" "length us = level"
    "\<And>i. i < level \<Longrightarrow> is_update h (hd0 # A) i (us ! i)" "us ! 0 = (last (hd0 # A), int (length A))"
proof -
  have lv: "level \<le> h hd0" "0 < level" using linkedD [OF l] by auto
  then obtain z r us where us: "descend sl m go level hd0 (int (length [])) = Some (z, r, us)" "length us = level"
    "\<forall>i < level. is_update h (hd0 # A) i (us ! i)" "(z, r) = us ! 0"
    using descend_updates [OF l g m, of level "[]" hd0 A] by auto
  have "\<forall>y \<in> set (hd0 # A). 1 \<le> h y" using linkedD [OF l] by (auto simp: SKIPLIST_MAXLEVEL_def)
  then have "us ! 0 = (last (hd0 # A), int (length A))"
    using is_update_0(2) us(3) lv(2) by fastforce
  then show thesis using us that by simp
qed

section \<open>Linking a node\<close>

lemma upt_Cons: "map f [i..<i + Suc n] = f i # map f [Suc i..<Suc i + n]"
  by (simp add: upt_conv_Cons del: upt_Suc)

lemma cells_cong:
  "(\<And>y l. f (y, l) = g (y, l)) \<Longrightarrow> Some (sl\<lparr>cells := e, cells := f\<rparr>) = Some (sl\<lparr>cells := g\<rparr>)"
  by (simp add: arg_cong [of f g] fun_eq_iff)

lemma cells_id: "(\<And>y l. f (y, l) = cells sl (y, l)) \<Longrightarrow> Some sl = Some (sl\<lparr>cells := f\<rparr>)"
proof -
  assume "\<And>y l. f (y, l) = cells sl (y, l)"
  then have "f = cells sl" by (auto simp: fun_eq_iff)
  then show ?thesis by simp
qed

lemma link_levels_map:
  assumes "\<And>l. i \<le> l \<Longrightarrow> l < i + n \<Longrightarrow>
    cells sl (x, l) \<noteq> None \<and> fst (U l) \<noteq> x \<and> cells sl (fst (U l), l) = Some (c l)"
  shows "link_levels x r0 i (map U [i..<i + n]) sl = Some (sl\<lparr>cells := (\<lambda>(y, l).
    if i \<le> l \<and> l < i + n
    then (if y = x then Some (fst (c l), (snd (c l) - (r0 - snd (U l))) mod UINT)
          else if y = fst (U l) then Some (Some x, (r0 - snd (U l) + 1) mod UINT) else cells sl (y, l))
    else cells sl (y, l))\<rparr>)"
  using assms
proof (induction n arbitrary: i sl)
  case (Suc n)
  let ?cs = "(cells sl)((x, i) \<mapsto> (fst (c i), (snd (c i) - (r0 - snd (U i))) mod UINT),
    (fst (U i), i) \<mapsto> (Some x, (r0 - snd (U i) + 1) mod UINT))"
  let ?sl = "sl\<lparr>cells := ?cs\<rparr>"
  have i: "cells sl (x, i) \<noteq> None" "fst (U i) \<noteq> x" "cells sl (fst (U i), i) = Some (c i)"
    using Suc.prems [of i] by auto
  then have "link_levels x r0 i (map U [i..<i + Suc n]) sl = link_levels x r0 (Suc i) (map U [Suc i..<Suc i + n]) ?sl"
    unfolding upt_Cons by (auto simp: set_cell_def)
  also have "\<dots> = Some (?sl\<lparr>cells := (\<lambda>(y, l).
    if Suc i \<le> l \<and> l < Suc i + n
    then (if y = x then Some (fst (c l), (snd (c l) - (r0 - snd (U l))) mod UINT)
          else if y = fst (U l) then Some (Some x, (r0 - snd (U l) + 1) mod UINT) else cells ?sl (y, l))
    else cells ?sl (y, l))\<rparr>)"
    using Suc.prems by (intro Suc.IH) auto
  also have "\<dots> = Some (sl\<lparr>cells := (\<lambda>(y, l).
    if i \<le> l \<and> l < i + Suc n
    then (if y = x then Some (fst (c l), (snd (c l) - (r0 - snd (U l))) mod UINT)
          else if y = fst (U l) then Some (Some x, (r0 - snd (U l) + 1) mod UINT) else cells sl (y, l))
    else cells sl (y, l))\<rparr>)"
    using i(2) by (intro cells_cong) (auto simp: le_less Suc_le_eq)
  finally show ?case .
next
  case 0
  show ?case unfolding add_0_right upt_conv_Nil [OF order_refl] list.map
      link_levels.simps bump_levels.simps raise_levels.simps by (intro cells_id) auto
qed

lemma bump_levels_map:
  assumes "\<And>l. i \<le> l \<Longrightarrow> l < i + n \<Longrightarrow> cells sl (fst (U l), l) = Some (c l)"
  shows "bump_levels i (map U [i..<i + n]) sl = Some (sl\<lparr>cells := (\<lambda>(y, l).
    if i \<le> l \<and> l < i + n \<and> y = fst (U l) then Some (fst (c l), (snd (c l) + 1) mod UINT)
    else cells sl (y, l))\<rparr>)"
  using assms
proof (induction n arbitrary: i sl)
  case (Suc n)
  let ?sl = "sl\<lparr>cells := (cells sl)((fst (U i), i) \<mapsto> (fst (c i), (snd (c i) + 1) mod UINT))\<rparr>"
  have i: "cells sl (fst (U i), i) = Some (c i)" using Suc.prems [of i] by auto
  then have "bump_levels i (map U [i..<i + Suc n]) sl = bump_levels (Suc i) (map U [Suc i..<Suc i + n]) ?sl"
    unfolding upt_Cons by (auto simp: set_cell_def)
  also have "\<dots> = Some (?sl\<lparr>cells := (\<lambda>(y, l).
    if Suc i \<le> l \<and> l < Suc i + n \<and> y = fst (U l) then Some (fst (c l), (snd (c l) + 1) mod UINT)
    else cells ?sl (y, l))\<rparr>)"
    using Suc.prems by (intro Suc.IH) auto
  also have "\<dots> = Some (sl\<lparr>cells := (\<lambda>(y, l).
    if i \<le> l \<and> l < i + Suc n \<and> y = fst (U l) then Some (fst (c l), (snd (c l) + 1) mod UINT)
    else cells sl (y, l))\<rparr>)"
    by (intro cells_cong) (auto simp: le_less Suc_le_eq)
  finally show ?case .
next
  case 0
  show ?case unfolding add_0_right upt_conv_Nil [OF order_refl] list.map
      link_levels.simps bump_levels.simps raise_levels.simps by (intro cells_id) auto
qed

lemma raise_levels_eq:
  assumes "\<And>l. i \<le> l \<Longrightarrow> l < i + n \<Longrightarrow> \<exists>s. cells sl (header sl, l) = Some (None, s)"
  shows "raise_levels i n sl = Some (sl\<lparr>cells := (\<lambda>(y, l).
    if i \<le> l \<and> l < i + n \<and> y = header sl then Some (None, sl_length sl mod UINT) else cells sl (y, l))\<rparr>)"
  using assms
proof (induction n arbitrary: i sl)
  case (Suc n)
  let ?sl = "sl\<lparr>cells := (cells sl)((header sl, i) \<mapsto> (None, sl_length sl mod UINT))\<rparr>"
  obtain s where "cells sl (header sl, i) = Some (None, s)" using Suc.prems [of i] by auto
  then have "raise_levels i (Suc n) sl = raise_levels (Suc i) n ?sl" by (auto simp: set_cell_def)
  also have "\<dots> = Some (?sl\<lparr>cells := (\<lambda>(y, l).
    if Suc i \<le> l \<and> l < Suc i + n \<and> y = header ?sl then Some (None, sl_length ?sl mod UINT) else cells ?sl (y, l))\<rparr>)"
    using Suc.prems by (intro Suc.IH) auto
  also have "\<dots> = Some (sl\<lparr>cells := (\<lambda>(y, l).
    if i \<le> l \<and> l < i + Suc n \<and> y = header sl then Some (None, sl_length sl mod UINT) else cells sl (y, l))\<rparr>)"
    by (intro cells_cong) (auto simp: le_less Suc_le_eq)
  finally show ?case .
next
  case 0
  show ?case unfolding add_0_right upt_conv_Nil [OF order_refl] list.map
      link_levels.simps bump_levels.simps raise_levels.simps by (intro cells_id) auto
qed


text \<open>The cells after the node \<open>x\<close> of height \<open>lv\<close> has been linked behind the nodes \<open>U\<close>.\<close>

definition insert_cells ::
  "nat \<Rightarrow> nat \<Rightarrow> nat \<Rightarrow> int \<Rightarrow> (nat \<Rightarrow> nat \<times> int) \<Rightarrow> (nat \<times> nat \<rightharpoonup> skiplistLevel) \<Rightarrow> nat \<times> nat \<rightharpoonup> skiplistLevel" where
  "insert_cells x lv level r0 U cs = (\<lambda>(y, l).
     let c = the (cs (fst (U l), l)) in
     if y = x then (if l < lv then Some (fst c, (snd c - (r0 - snd (U l))) mod UINT) else None)
     else if l < level \<and> y = fst (U l)
     then Some (if l < lv then (Some x, (r0 - snd (U l) + 1) mod UINT) else (fst c, (snd c + 1) mod UINT))
     else cs (y, l))"

lemma update_cell:
  assumes l: "linked h hd0 level cs (A @ B)" and i: "i < level" and u: "is_update h (hd0 # A) i ur"
  obtains P C where "hd0 # A = P @ fst ur # C" "i < h (fst ur)" "\<forall>y \<in> set C. h y \<le> i" "ur = (fst ur, int (length P))"
    "int (length A) - snd ur = int (length C)"
    "cs (fst ur, i) = Some (fst (hop h i B), int (length C) + snd (hop h i B))"
proof -
  obtain P C where p: "hd0 # A = P @ fst ur # C" "i < h (fst ur)" "\<forall>y \<in> set C. h y \<le> i" "snd ur = int (length P)"
    using u unfolding is_update_def by blast
  have "length A = length P + length C" using arg_cong [OF p(1), of length] by simp
  moreover have "cs (fst ur, i) = Some (hop h i (C @ B))"
    using linkedD(8) [OF l, of P "fst ur" "C @ B" i] p i by simp
  ultimately show thesis using that [OF p(1-3)] p by (simp add: hop_short prod_eq_iff)
qed

lemma split_around:
  assumes "P @ x # B = Q @ u # S"
  obtains C where "P = Q @ u # C" "S = C @ x # B" | "Q = P" "u = x" "S = B"
    | B1 where "B = B1 @ u # S" "Q = P @ x # B1"
  using assms by (auto simp: append_eq_append_conv2 append_eq_Cons_conv Cons_eq_append_conv)

lemma distinct_split:
  "distinct (P1 @ u # C) \<Longrightarrow> P1 @ u # C = Q1 @ u # D \<Longrightarrow> P1 = Q1 \<and> C = D"
  by (auto simp: append_eq_append_conv2 append_eq_Cons_conv Cons_eq_append_conv)

lemma insert_cells_hop:
  assumes l: "linked h hd0 level cs (A @ B)" and x: "x \<notin> set (hd0 # A @ B)" and lv: "1 \<le> lv" "lv \<le> level"
    and U: "\<And>i. i < level \<Longrightarrow> is_update h (hd0 # A) i (U i)" and n: "int (length (A @ B)) + 1 < UINT"
    and s: "hd0 # A @ x # B = P @ u # S" and i: "i < (h(x := lv)) u" "i < level"
  shows "insert_cells x lv level (int (length A)) U cs (u, i) = Some (hop (h(x := lv)) i S)"
proof -
  let ?h = "h(x := lv)"
  have d: "distinct (hd0 # A @ B)" using linkedD(1) [OF l] by simp
  obtain Q C where q: "hd0 # A = Q @ fst (U i) # C" "i < h (fst (U i))" "\<forall>y \<in> set C. h y \<le> i"
    "U i = (fst (U i), int (length Q))" "int (length A) - snd (U i) = int (length C)"
    "cs (fst (U i), i) = Some (fst (hop h i B), int (length C) + snd (hop h i B))"
    using update_cell [OF l i(2) U [OF i(2)]] by metis
  have lc: "length C \<le> length A" using arg_cong [OF q(1), of length] by simp
  have hb: "hop ?h i B = hop h i B" using x by (intro hop_cong) auto
  note b = hop_bounds [of h i B]
  have s': "(hd0 # A) @ x # B = P @ u # S" using s by simp
  show ?thesis
  proof (cases rule: split_around [OF s'])
    case (1 D)
    have ux: "u \<noteq> x" using 1(1) x by (metis append_Cons in_set_conv_decomp Un_iff set_append)
    have xD: "x \<notin> set D" using 1(1) x by (metis append_Cons set_append Un_iff list.set_intros(2))
    have dA: "distinct (P @ u # D)" using d 1(1) by (metis append_Cons distinct_append)
    consider (short) "\<forall>y \<in> set D. h y \<le> i" | (tall) D1 y D2 where "D = D1 @ y # D2" "\<forall>z \<in> set D1. h z \<le> i" "i < h y"
      by (rule tall_cases [of D h i])
    then show ?thesis
    proof cases
      case short
      have "U i = (u, int (length P))"
        using is_update_unique [of h P u D i "U i"] U [OF i(2)] 1(1) short i(1) ux by simp
      then have U': "fst (U i) = u" and CD: "C = D"
        using q(1) 1(1) distinct_split [OF dA, of Q C] by auto
      have sh: "\<forall>y \<in> set D. ?h y \<le> i" using short xD by auto
      show ?thesis
      proof (cases "i < lv")
        case True
        then have "hop ?h i S = (Some x, int (length D) + 1)" unfolding 1(2) using sh by (intro hop_tall) auto
        then show ?thesis using True ux U' CD q(5) i(2) n lc by (simp add: insert_cells_def)
      next
        case False
        then have "hop ?h i S = (fst (hop h i B), int (length D) + 1 + snd (hop h i B))"
          unfolding 1(2) using hop_short [of "D @ [x]" ?h i B] sh hb by auto
        then show ?thesis using False ux U' CD q(6) i(2) n lc b by (simp add: insert_cells_def Let_def)
      qed
    next
      case tall
      have "fst (U i) \<noteq> u"
      proof
        assume "fst (U i) = u"
        then have "C = D" using q(1) 1(1) distinct_split [OF dA, of Q C] by auto
        then show False using q(3) tall by auto
      qed
      then have "insert_cells x lv level (int (length A)) U cs (u, i) = cs (u, i)"
        using ux by (simp add: insert_cells_def)
      also have "\<dots> = Some (hop h i (D @ B))"
        using linkedD(8) [OF l, of P u "D @ B" i] 1(1) i ux by simp
      also have "hop h i (D @ B) = hop ?h i S"
        unfolding 1(2) using tall hop_tall [of D1 h i y "D2 @ B"] hop_tall [of D1 ?h i y "D2 @ x # B"] xD by auto
      finally show ?thesis .
    qed
  next
    case 2
    have "fst (U i) \<noteq> x" using q(1) x by (metis append_Cons in_set_conv_decomp Un_iff set_append)
    moreover have "i < lv" using i(1) 2 by simp
    moreover have "length C + nat (snd (hop h i B)) \<le> length (A @ B)" using lc b by simp
    ultimately show ?thesis using 2 q(5,6) hb n b by (simp add: insert_cells_def Let_def)
  next
    case (3 B1)
    have "u \<in> set B" using 3(1) by simp
    then have "u \<noteq> x" "u \<notin> set (hd0 # A)" using x d by auto
    moreover have "fst (U i) \<in> set (hd0 # A)" using q(1) by (metis in_set_conv_decomp)
    ultimately have "insert_cells x lv level (int (length A)) U cs (u, i) = cs (u, i)"
      by (auto simp: insert_cells_def Let_def)
    also have "\<dots> = Some (hop h i S)"
      using linkedD(8) [OF l, of "hd0 # A @ B1" u S i] 3 i \<open>u \<noteq> x\<close> by simp
    also have "hop h i S = hop ?h i S" using 3(1) x by (intro hop_cong) auto
    finally show ?thesis .
  qed
qed


lemma linked_insert:
  assumes l: "linked h hd0 level cs (A @ B)" and x: "x \<notin> set (hd0 # A @ B)" and lv: "1 \<le> lv" "lv \<le> level"
    and U: "\<And>i. i < level \<Longrightarrow> is_update h (hd0 # A) i (U i)" and n: "int (length (A @ B)) + 1 < UINT"
  shows "linked (h(x := lv)) hd0 level (insert_cells x lv level (int (length A)) U cs) (A @ x # B)"
proof -
  have up: "cs (fst (U i), i) \<noteq> None" "fst (U i) \<noteq> x" if il: "i < level" for i
  proof -
    obtain P C where p: "hd0 # A = P @ fst (U i) # C" "i < h (fst (U i))"
      using U [OF il] unfolding is_update_def by blast
    then have "fst (U i) \<in> set (hd0 # A)" by (metis in_set_conv_decomp)
    then show "cs (fst (U i), i) \<noteq> None" "fst (U i) \<noteq> x" using linkedD(2) [OF l] p(2) x by auto
  qed
  have "insert_cells x lv level (int (length A)) U cs (y, i) \<noteq> None \<longleftrightarrow>
      y \<in> set (hd0 # A @ x # B) \<and> i < (h(x := lv)) y" for y i
    using linkedD(2) [OF l, of y i] up [of i] by (auto simp: insert_cells_def Let_def)
  moreover have "\<exists>s. insert_cells x lv level (int (length A)) U cs (hd0, i) = Some (None, s)"
    if "level \<le> i" "i < SKIPLIST_MAXLEVEL" for i
    using linkedD(9) [OF l that] that x by (simp add: insert_cells_def)
  moreover have "\<forall>P u S i. hd0 # A @ x # B = P @ u # S \<longrightarrow> i < (h(x := lv)) u \<longrightarrow> i < level \<longrightarrow>
      insert_cells x lv level (int (length A)) U cs (u, i) = Some (hop (h(x := lv)) i S)"
    using insert_cells_hop [OF l x lv U n] by blast
  moreover have "distinct (hd0 # A @ x # B)" "hd0 \<noteq> x" using linkedD(1) [OF l] x by auto
  moreover have "\<forall>y \<in> set (A @ x # B). 1 \<le> (h(x := lv)) y \<and> (h(x := lv)) y \<le> level"
    using linkedD(6,7) [OF l] lv by auto
  ultimately show ?thesis using linkedD(3-5) [OF l] unfolding linked_def by simp
qed

section \<open>Keys\<close>

lemma memcmp_less:
  "(memcmp a b (min (length a) (length b)) < 0 \<longrightarrow> a < b) \<and>
   (memcmp a b (min (length a) (length b)) > 0 \<longrightarrow> b < a) \<and>
   (memcmp a b (min (length a) (length b)) = 0 \<longrightarrow>
      (length a < length b \<longrightarrow> a < b) \<and> (length b < length a \<longrightarrow> b < a) \<and> (length a = length b \<longrightarrow> a = b))"
proof (induction a arbitrary: b)
  case Nil
  then show ?case by (cases b) simp_all
next
  case (Cons x a)
  show ?case
  proof (cases b)
    case (Cons y b')
    then show ?thesis using Cons.IH [of b'] by (auto simp: word_less_def word_uint_eq_iff)
  qed simp
qed

lemma compareslObj_less:
  assumes "length a < 2 ^ 31" "length b < 2 ^ 31"
  shows "compareslObj a b < 0 \<longleftrightarrow> a < b" "compareslObj a b \<le> 0 \<longleftrightarrow> a \<le> b" "equalslObj a b \<longleftrightarrow> a = b"
proof -
  have s: "s32 (int (length a) - int (length b)) = int (length a) - int (length b)"
    using assms by (intro s32_id) simp_all
  let ?c = "memcmp a b (min (length a) (length b))"
  have c: "compareslObj a b = (if ?c = 0 then int (length a) - int (length b) else ?c)"
    using s by (simp add: compareslObj_def min_def)
  consider "?c < 0" | "?c > 0" | "?c = 0" "length a < length b" | "?c = 0" "length b < length a"
    | "?c = 0" "length a = length b" by linarith
  then have "compareslObj a b < 0 \<and> a < b \<or> compareslObj a b > 0 \<and> b < a \<or> compareslObj a b = 0 \<and> a = b"
    using memcmp_less [of a b] c by cases auto
  then show "compareslObj a b < 0 \<longleftrightarrow> a < b" "compareslObj a b \<le> 0 \<longleftrightarrow> a \<le> b" "equalslObj a b \<longleftrightarrow> a = b"
    by (auto simp: equalslObj_def)
qed

definition key_of :: "'s skiplist \<Rightarrow> nat \<Rightarrow> 's \<times> byte list" where
  "key_of sl y = (score (the (nodes sl y)), the (obj (the (nodes sl y))))"

text \<open>The nodes of a list: their objects, the back pointers and the tail.\<close>

definition noded :: "'s skiplist \<Rightarrow> nat list \<Rightarrow> bool" where
  "noded sl ns \<longleftrightarrow>
     dom (nodes sl) = set (header sl # ns) \<and> obj (the (nodes sl (header sl))) = None \<and>
     (\<forall>y \<in> set ns. \<exists>ob. obj (the (nodes sl y)) = Some ob \<and> length ob < 2 ^ 31) \<and>
     (\<forall>P u S. ns = P @ u # S \<longrightarrow> backward (the (nodes sl u)) = (if P = [] then None else Some (last P))) \<and>
     sl_tail sl = (if ns = [] then None else Some (last ns))"

definition sl_rep :: "(nat \<Rightarrow> nat) \<Rightarrow> 's::linorder skiplist \<Rightarrow> nat list \<Rightarrow> bool" where
  "sl_rep h sl ns \<longleftrightarrow>
     linked h (header sl) (sl_level sl) (cells sl) ns \<and> noded sl ns \<and>
     (\<forall>y \<in> set (header sl # ns). y < brk sl) \<and>
     sl_length sl = int (length ns) \<and> int (length ns) < UINT \<and> sorted (map (key_of sl) ns)"

lemma sl_repD:
  assumes "sl_rep h sl ns"
  shows "linked h (header sl) (sl_level sl) (cells sl) ns" "noded sl ns" "y \<in> set (header sl # ns) \<Longrightarrow> y < brk sl"
    "sl_length sl = int (length ns)" "int (length ns) < UINT" "sorted (map (key_of sl) ns)"
  using assms unfolding sl_rep_def by blast+

lemma noded_node:
  assumes "noded sl ns" "y \<in> set ns"
  obtains n ob where "nodes sl y = Some n" "obj n = Some ob" "length ob < 2 ^ 31" "key_of sl y = (score n, ob)"
proof -
  have "y \<in> dom (nodes sl)" using assms by (auto simp: noded_def)
  then obtain n where n: "nodes sl y = Some n" by blast
  moreover obtain ob where "obj n = Some ob" "length ob < 2 ^ 31" using assms n by (fastforce simp: noded_def)
  ultimately show thesis by (intro that) (simp_all add: key_of_def)
qed

lemma prefix_length:
  assumes "sorted (map f xs)" "\<And>a b. a \<le> b \<Longrightarrow> Q b \<Longrightarrow> Q a" "j < length xs"
  shows "Q (f (xs ! j)) \<longleftrightarrow> j < length (takeWhile (\<lambda>y. Q (f y)) xs)"
  using assms(1,3)
proof (induction xs arbitrary: j)
  case (Cons x xs)
  show ?case
  proof (cases j)
    case (Suc j')
    have "f x \<le> f (xs ! j')" using Cons.prems Suc by auto
    then show ?thesis using Cons Suc assms(2) [of "f x" "f (xs ! j')"] by auto
  qed simp
qed simp

text \<open>A condition on the key that holds of a prefix lets a walk pass that prefix.\<close>

lemma passes_prefix:
  assumes r: "sl_rep h sl ns" and m: "\<And>a b. a \<le> b \<Longrightarrow> Q b \<Longrightarrow> Q a"
    and g: "\<And>n ob r. obj n = Some ob \<Longrightarrow> length ob < 2 ^ 31 \<Longrightarrow> go r n = Some (Q (score n, ob))"
  shows "passes sl go ns (length (takeWhile (\<lambda>y. Q (key_of sl y)) ns))"
  unfolding passes_def
proof (intro allI impI)
  fix j assume j: "j < length ns"
  obtain n ob where n: "nodes sl (ns ! j) = Some n" "obj n = Some ob" "length ob < 2 ^ 31"
    "key_of sl (ns ! j) = (score n, ob)" using noded_node [OF sl_repD(2) [OF r]] j nth_mem by metis
  have "Q (key_of sl (ns ! j)) \<longleftrightarrow> j < length (takeWhile (\<lambda>y. Q (key_of sl y)) ns)"
    using sl_repD(6) [OF r] m j by (rule prefix_length)
  then show "\<exists>n. nodes sl (ns ! j) = Some n \<and>
      go (int (Suc j)) n = Some (j < length (takeWhile (\<lambda>y. Q (key_of sl y)) ns))"
    using g [OF n(2,3)] n(1,4) by simp
qed

lemma before_key_eq:
  "obj n = Some o' \<Longrightarrow> length o' < 2 ^ 31 \<Longrightarrow> length ob < 2 ^ 31 \<Longrightarrow>
   before_key sc ob r n = Some ((score n, o') < (sc, ob))"
  by (auto simp: before_key_def compareslObj_less)

lemma upto_key_eq:
  "obj n = Some o' \<Longrightarrow> length o' < 2 ^ 31 \<Longrightarrow> length ob < 2 ^ 31 \<Longrightarrow>
   upto_key sc ob r n = Some ((score n, o') \<le> (sc, ob))"
  by (auto simp: upto_key_def compareslObj_less)


section \<open>Inserting keeps the list\<close>

lemma random_level_bounds: "random_level l rs = Some lv \<Longrightarrow> 1 \<le> l \<Longrightarrow> 1 \<le> lv \<and> lv \<le> SKIPLIST_MAXLEVEL"
  by (induction l rs rule: random_level.induct) (auto simp: SKIPLIST_MAXLEVEL_def split: if_splits)

text \<open>The node map after an insertion: the new node \<open>x\<close>, and the back pointer of the node after it.\<close>

definition insert_nodes ::
  "nat \<Rightarrow> 's skiplistNode \<Rightarrow> nat list \<Rightarrow> (nat \<rightharpoonup> 's skiplistNode) \<Rightarrow> nat \<rightharpoonup> 's skiplistNode" where
  "insert_nodes x n B m =
     (case B of [] \<Rightarrow> m(x \<mapsto> n) | y # _ \<Rightarrow> m(x \<mapsto> n, y \<mapsto> (the (m y))\<lparr>backward := Some x\<rparr>))"

lemma insert_nodes_simps:
  assumes "x \<notin> set B" "set B \<subseteq> dom m"
  shows "insert_nodes x n B m x = Some n"
    "y \<noteq> x \<Longrightarrow> y \<in> dom m \<Longrightarrow> obj (the (insert_nodes x n B m y)) = obj (the (m y))"
    "y \<noteq> x \<Longrightarrow> y \<in> dom m \<Longrightarrow> score (the (insert_nodes x n B m y)) = score (the (m y))"
    "y \<noteq> x \<Longrightarrow> (\<And>z B'. B = z # B' \<Longrightarrow> y \<noteq> z) \<Longrightarrow> insert_nodes x n B m y = m y"
    "dom (insert_nodes x n B m) = insert x (dom m)"
    "B = z # B' \<Longrightarrow> backward (the (insert_nodes x n B m z)) = Some x"
  using assms by (auto simp: insert_nodes_def split: list.splits)

lemma noded_insert:
  assumes nd: "noded sl (A @ B)" and x: "x \<notin> set (header sl # A @ B)" and d: "distinct (header sl # A @ B)"
    and n: "obj n = Some ob" "length ob < 2 ^ 31" "backward n = (if A = [] then None else Some (last A))"
    and sl': "header sl' = header sl" "nodes sl' = insert_nodes x n B (nodes sl)"
    "sl_tail sl' = (if B = [] then Some x else sl_tail sl)"
  shows "noded sl' (A @ x # B)"
proof -
  let ?m = "nodes sl"
  have dom: "dom ?m = set (header sl # A @ B)" using nd by (simp add: noded_def)
  have xB: "x \<notin> set B" "set B \<subseteq> dom ?m" using x dom by auto
  note s = insert_nodes_simps [OF xB, where n = n]
  have "backward (the (nodes sl' u)) = (if P = [] then None else Some (last P))" if sp: "A @ x # B = P @ u # S" for P u S
  proof (cases rule: split_around [OF sp])
    case (1 C)
    then have "u \<noteq> x" "u \<in> set A" "u \<notin> set B" using x d by auto
    then have "nodes sl' u = ?m u" unfolding sl'(2) by (intro s(4)) auto
    moreover have "A @ B = P @ u # (C @ B)" using 1 by simp
    ultimately show ?thesis using nd unfolding noded_def by metis
  next
    case 2
    then show ?thesis using s(1) n(3) by (simp add: sl'(2))
  next
    case (3 B1)
    show ?thesis
    proof (cases B1)
      case Nil
      then show ?thesis using 3 s(6) [of u S] by (simp add: sl'(2))
    next
      case (Cons z B2)
      have "u \<noteq> x" "u \<noteq> z" using 3(1) Cons x d by auto
      then have "nodes sl' u = ?m u" unfolding sl'(2) using 3(1) Cons by (intro s(4)) auto
      moreover have "A @ B = (A @ B1) @ u # S" using 3 by simp
      ultimately have "backward (the (nodes sl' u)) = (if A @ B1 = [] then None else Some (last (A @ B1)))"
        using nd unfolding noded_def by metis
      then show ?thesis using 3(2) Cons by simp
    qed
  qed
  moreover have "header sl \<noteq> x" using x by auto
  moreover have "\<exists>ob. obj (the (nodes sl' y)) = Some ob \<and> length ob < 2 ^ 31" if "y \<in> set (A @ x # B)" for y
  proof (cases "y = x")
    case False
    then have y: "y \<in> set (A @ B)" "y \<in> dom ?m" using that dom by auto
    then obtain ob where "obj (the (?m y)) = Some ob \<and> length ob < 2 ^ 31"
      using nd unfolding noded_def by blast
    then show ?thesis using s(2) [OF False y(2)] by (simp add: sl'(2))
  qed (use s(1) n in \<open>simp add: sl'(2)\<close>)
  moreover have "obj (the (nodes sl' (header sl))) = None"
    using s(2) [of "header sl"] nd dom \<open>header sl \<noteq> x\<close> by (simp add: noded_def sl'(2))
  moreover have "sl_tail sl' = Some (last (A @ x # B))"
    using nd sl'(3) by (auto simp: noded_def)
  moreover have "dom (nodes sl') = set (header sl # A @ x # B)" using s(5) dom by (auto simp: sl'(2))
  ultimately show ?thesis unfolding noded_def sl'(1) by simp
qed

text \<open>Raising the level of the list before a high node is linked.\<close>

lemma linked_raise:
  assumes l: "linked h (header sl) (sl_level sl) (cells sl) ns" and len: "sl_length sl = int (length ns)" "int (length ns) < UINT"
    and lv: "lv \<le> SKIPLIST_MAXLEVEL" and us: "length us = sl_level sl"
    "\<And>i. i < sl_level sl \<Longrightarrow> is_update h (header sl # A) i (us ! i)" and A: "set A \<subseteq> set ns"
  obtains cs us1 where
    "raise_list lv us sl = Some (sl\<lparr>cells := cs, sl_level := max (sl_level sl) lv\<rparr>, us1)"
    "linked h (header sl) (max (sl_level sl) lv) cs ns" "length us1 = max (sl_level sl) lv" "us1 ! 0 = us ! 0"
    "\<And>i. i < max (sl_level sl) lv \<Longrightarrow> is_update h (header sl # A) i (us1 ! i)"
proof (cases "lv > sl_level sl")
  case True
  let ?k = "sl_level sl"
  let ?cs = "\<lambda>(y, l). if ?k \<le> l \<and> l < ?k + (lv - ?k) \<and> y = header sl then Some (None, sl_length sl mod UINT) else cells sl (y, l)"
  let ?us = "us @ replicate (lv - ?k) (header sl, 0)"
  have kl: "?k + (lv - ?k) = lv" using True by simp
  have r: "raise_levels ?k (lv - ?k) sl = Some (sl\<lparr>cells := ?cs\<rparr>)"
    using linkedD(9) [OF l] lv True by (intro raise_levels_eq) auto
  have short: "\<forall>y \<in> set ns. h y \<le> i" if "?k \<le> i" for i using linkedD(7) [OF l] that by fastforce
  have end': "hop h i ns = (None, int (length ns))" if "?k \<le> i" for i
    using hop_short [OF short [OF that], of "[]"] by simp
  have nc: "?cs (y, l) = cells sl (y, l)" if "y \<in> set ns" for y l using linkedD(1) [OF l] that by auto
  have cell: "?cs (u, i) = Some (hop h i S)" if sp: "header sl # ns = P @ u # S" and i: "i < h u" "i < lv" for P u S i
  proof (cases "P = []")
    case True
    then have u: "u = header sl" "S = ns" using sp by auto
    show ?thesis
    proof (cases "i < ?k")
      case True
      then show ?thesis using linkedD(8) [OF l sp i(1)] by simp
    next
      case False
      then show ?thesis using u i(2) end' [of i] len \<open>lv > sl_level sl\<close> by simp
    qed
  next
    case False
    then have u: "u \<in> set ns" using sp by (cases P) auto
    then have "i < ?k" using linkedD(7) [OF l u] i(1) by simp
    then show ?thesis using linkedD(8) [OF l sp i(1)] nc [OF u] by simp
  qed
  have hl: "lv \<le> h (header sl)" "1 \<le> ?k" using linkedD(3,4) [OF l] lv by auto
  have dm: "?cs (y, i) \<noteq> None \<longleftrightarrow> y \<in> set (header sl # ns) \<and> i < h y" for y i
    using linkedD(2) [OF l, of y i] hl True by auto
  have "linked h (header sl) lv ?cs ns"
    unfolding linked_def
  proof (intro conjI allI impI)
    show "\<exists>s. ?cs (header sl, i) = Some (None, s)" if "lv \<le> i" "i < SKIPLIST_MAXLEVEL" for i
      using linkedD(9) [OF l] that True by auto
    show "\<forall>y \<in> set ns. 1 \<le> h y \<and> h y \<le> lv" using linkedD(6,7) [OF l] True by fastforce
  qed (use cell dm linkedD(1,3-5) [OF l] lv True in auto)
  moreover have "is_update h (header sl # A) i (?us ! i)" if "i < lv" for i
  proof (cases "i < ?k")
    case True
    then show ?thesis using us by (simp add: nth_append)
  next
    case False
    then have "?us ! i = (header sl, 0)" using us(1) that by (simp add: nth_append)
    moreover have "\<forall>y \<in> set A. h y \<le> i" using short [of i] False A by auto
    ultimately show ?thesis unfolding is_update_def using hl that by (intro exI [of _ "[]"] exI [of _ A]) auto
  qed
  ultimately show thesis using that [of ?cs ?us] r True us(1) hl by (simp add: raise_list_def kl max_def nth_append)
next
  case False
  then show thesis using l us by (intro that [of "cells sl" us]) (simp_all add: raise_list_def max_def)
qed


lemma map_nth_take_drop:
  assumes "length us = level" "lv \<le> level"
  shows "take lv us = map ((!) us) [0..<0 + lv]" "drop lv us = map ((!) us) [lv..<lv + (level - lv)]"
  using assms by (auto intro!: nth_equalityI)

lemma link_bump:
  assumes l: "linked h hd0 level cs (A @ B)" and x: "x \<notin> set (hd0 # A @ B)" and lv: "lv \<le> level"
    and us: "length us = level" "\<And>i. i < level \<Longrightarrow> is_update h (hd0 # A) i (us ! i)"
    and sl2: "cells sl2 = (\<lambda>(y, i). if y = x \<and> i < lv then Some c0 else cs (y, i))"
  obtains sl3 where "link_levels x r0 0 (take lv us) sl2 = Some sl3"
    "bump_levels lv (drop lv us) sl3 = Some (sl2\<lparr>cells := insert_cells x lv level r0 ((!) us) cs\<rparr>)"
proof -
  let ?U = "(!) us"
  let ?c = "\<lambda>l. the (cs (fst (us ! l), l))"
  have up: "cs (fst (us ! i), i) = Some (?c i)" "fst (us ! i) \<noteq> x" if il: "i < level" for i
  proof -
    obtain P C where p: "hd0 # A = P @ fst (us ! i) # C" "i < h (fst (us ! i))"
      using us(2) [OF il] unfolding is_update_def by blast
    then have "fst (us ! i) \<in> set (hd0 # A)" by (metis in_set_conv_decomp)
    then show "cs (fst (us ! i), i) = Some (?c i)" "fst (us ! i) \<noteq> x"
      using linkedD(2) [OF l, of "fst (us ! i)" i] p(2) x by auto
  qed
  have cx: "cs (x, i) = None" for i using linkedD(2) [OF l, of x i] x by (cases "cs (x, i)") auto
  let ?f3 = "\<lambda>(y, l). if 0 \<le> l \<and> l < 0 + lv
    then (if y = x then Some (fst (?c l), (snd (?c l) - (r0 - snd (?U l))) mod UINT)
          else if y = fst (?U l) then Some (Some x, (r0 - snd (?U l) + 1) mod UINT) else cells sl2 (y, l))
    else cells sl2 (y, l)"
  have 3: "link_levels x r0 0 (take lv us) sl2 = Some (sl2\<lparr>cells := ?f3\<rparr>)"
    unfolding map_nth_take_drop(1) [OF us(1) lv] by (rule link_levels_map) (use up lv sl2 in auto)
  let ?sl3 = "sl2\<lparr>cells := ?f3\<rparr>"
  have "bump_levels lv (drop lv us) ?sl3 = Some (?sl3\<lparr>cells := (\<lambda>(y, l).
    if lv \<le> l \<and> l < lv + (level - lv) \<and> y = fst (?U l) then Some (fst (?c l), (snd (?c l) + 1) mod UINT)
    else cells ?sl3 (y, l))\<rparr>)"
    unfolding map_nth_take_drop(2) [OF us(1) lv] by (rule bump_levels_map) (use up lv sl2 in auto)
  also have "\<dots> = Some (sl2\<lparr>cells := insert_cells x lv level r0 ?U cs\<rparr>)"
    using lv sl2 up cx by (intro cells_cong) (auto simp: insert_cells_def Let_def not_less)
  finally show thesis using that 3 by blast
qed

lemma insort_split:
  "sorted xs \<Longrightarrow> insort k xs = takeWhile (\<lambda>y. y < k) xs @ k # dropWhile (\<lambda>y. y < k) xs"
  by (induction xs) (auto simp: not_less)

lemma hop_0: "\<forall>y \<in> set B. 1 \<le> h y \<Longrightarrow> fst (hop h 0 B) = (case B of [] \<Rightarrow> None | y # _ \<Rightarrow> Some y)"
  by (cases B) auto

lemma slInsert_rep:
  assumes r: "sl_rep h sl ns" and len: "int (length ns) + 1 < UINT" and ob: "length ob < 2 ^ 31"
    and lv: "slRandomLevel rs = Some lv"
  shows "\<exists>sl' ns'. slInsert raw rs sc ob sl = Some sl' \<and> sl_rep (h(brk sl := lv)) sl' ns' \<and>
    map (key_of sl') ns' = insort (sc, ob) (map (key_of sl) ns)"
proof -
  let ?Q = "\<lambda>y. key_of sl y < (sc, ob)"
  define A where "A = takeWhile ?Q ns"
  define B where "B = dropWhile ?Q ns"
  define x where "x = brk sl"
  have ns: "ns = A @ B" by (simp add: A_def B_def)
  note l = sl_repD(1) [OF r, unfolded ns] and nd = sl_repD(2) [OF r, unfolded ns]
  have x: "x \<notin> set (header sl # A @ B)" using sl_repD(3) [OF r] ns by (auto simp: x_def)
  have lb: "1 \<le> lv" "lv \<le> SKIPLIST_MAXLEVEL" using random_level_bounds [of 1 rs lv] lv by (auto simp: slRandomLevel_def)
  have "passes sl (before_key sc ob) ns (length A)" unfolding A_def
    by (rule passes_prefix [OF r, where Q = "\<lambda>k. k < (sc, ob)", OF order_le_less_trans before_key_eq [OF _ _ ob]])
  then have ps: "passes sl (before_key sc ob) (A @ B) (length A)" by (simp add: ns)
  have m: "int (length (A @ B)) < UINT" using sl_repD(5) [OF r] ns by simp
  obtain us where us: "descend sl UINT (before_key sc ob) (sl_level sl) (header sl) 0 =
      Some (last (header sl # A), int (length A), us)" "length us = sl_level sl"
    "\<And>i. i < sl_level sl \<Longrightarrow> is_update h (header sl # A) i (us ! i)" "us ! 0 = (last (header sl # A), int (length A))"
    using descend_all [OF l ps m] by blast
  define level where "level = max (sl_level sl) lv"
  have sA: "set A \<subseteq> set ns" using ns by auto
  obtain cs us1 where r1: "raise_list lv us sl = Some (sl\<lparr>cells := cs, sl_level := level\<rparr>, us1)"
    "linked h (header sl) level cs ns" "length us1 = level" "us1 ! 0 = us ! 0"
    "\<And>i. i < level \<Longrightarrow> is_update h (header sl # A) i (us1 ! i)"
    using linked_raise [OF sl_repD(1,4,5) [OF r] lb(2) us(2,3) sA] unfolding level_def by blast
  note l1 = r1(2) [unfolded ns]
  have lvl: "lv \<le> level" "0 < level" using lb by (auto simp: level_def)
  define n0 where "n0 = (fst raw)\<lparr>obj := Some ob, score := sc\<rparr>"
  define sl2 where "sl2 = sl\<lparr>cells := (\<lambda>(y, i). if y = x \<and> i < lv then Some (snd raw) else cs (y, i)),
      sl_level := level, nodes := (nodes sl)(x \<mapsto> n0), brk := Suc x\<rparr>"
  have cr: "slCreateNode raw lv sc (Some ob) (sl\<lparr>cells := cs, sl_level := level\<rparr>) = (x, sl2)"
  proof -
    have e: "cells (sl\<lparr>cells := cs, sl_level := level\<rparr>) = cs" by simp
    show ?thesis unfolding slCreateNode_def Let_def e by (simp add: x_def n0_def sl2_def)
  qed
  define cs4 where "cs4 = insert_cells x lv level (int (length A)) ((!) us1) cs"
  obtain sl3 where sl3: "link_levels x (int (length A)) 0 (take lv us1) sl2 = Some sl3"
    "bump_levels lv (drop lv us1) sl3 = Some (sl2\<lparr>cells := cs4\<rparr>)"
    using link_bump [OF l1 x lvl(1) r1(3,5), of sl2 "snd raw" "int (length A)"] unfolding cs4_def
    by (auto simp: sl2_def)
  have lk: "linked (h(x := lv)) (header sl) level cs4 (A @ x # B)" unfolding cs4_def
    using len ns by (intro linked_insert [OF l1 x lb(1) lvl(1) r1(5)]) auto
  define n1 where "n1 = n0\<lparr>backward := (if A = [] then None else Some (last A))\<rparr>"
  have bk: "(if last (header sl # A) = header sl then None else Some (last (header sl # A))) =
      (if A = [] then None else Some (last A))"
  proof (cases "A = []")
    case False
    then have "last A \<in> set A" by simp
    then have "last A \<noteq> header sl" using linkedD(1) [OF l] by (metis distinct.simps(2) Un_iff set_append)
    then show ?thesis using False by simp
  qed simp
  have c0: "cs4 (x, 0) = Some (hop (h(x := lv)) 0 B)"
    using linkedD(8) [OF lk, of "header sl # A" x B 0] lb(1) lvl(2) by simp
  have B1: "\<forall>y \<in> set B. 1 \<le> (h(x := lv)) y" using linkedD(6) [OF lk] by auto
  define sl6 where "sl6 = sl2\<lparr>cells := cs4, nodes := insert_nodes x n1 B (nodes sl),
      sl_tail := (if B = [] then Some x else sl_tail sl)\<rparr>"
  have B2: "set B \<subseteq> dom (nodes sl)" using nd by (auto simp: noded_def)
  have last: "(case fst (hop (h(x := lv)) 0 B) of
        Some y \<Rightarrow> set_backward y (Some x) (sl2\<lparr>cells := cs4, nodes := (nodes sl)(x \<mapsto> n1)\<rparr>)
      | None \<Rightarrow> Some (sl2\<lparr>cells := cs4, nodes := (nodes sl)(x \<mapsto> n1), sl_tail := Some x\<rparr>)) = Some sl6"
    unfolding hop_0 [OF B1] using x B2
    by (cases B) (auto simp: set_backward_def sl6_def insert_nodes_def sl2_def dom_def)
  define sl' where "sl' = sl6\<lparr>sl_length := (sl_length sl + 1) mod ULONG\<rparr>"
  have "header sl2 = header sl" "nodes sl2 x = Some n0" "nodes sl2 = (nodes sl)(x \<mapsto> n0)" by (simp_all add: sl2_def)
  then have sb: "set_backward x (if A = [] then None else Some (last A)) (sl2\<lparr>cells := cs4\<rparr>) =
      Some (sl2\<lparr>cells := cs4, nodes := (nodes sl)(x \<mapsto> n1)\<rparr>)"
    by (simp add: set_backward_def n1_def)
  have us0: "us1 ! 0 = (last (header sl # A), int (length A))" using r1(4) us(4) by simp
  have "link_new raw lv sc ob us1 (sl\<lparr>cells := cs, sl_level := level\<rparr>) =
      Some (sl6\<lparr>sl_length := (sl_length sl6 + 1) mod ULONG\<rparr>)"
    unfolding link_new_def cr us0 prod.case Let_def fst_conv snd_conv sl3 bind.bind_lunit
    using sb last c0 bk \<open>header sl2 = header sl\<close> by (simp del: last.simps)
  moreover have "sl_length sl6 = sl_length sl" by (simp add: sl6_def sl2_def)
  ultimately have ins: "slInsert raw rs sc ob sl = Some sl'"
    by (simp add: slInsert_def us(1) lv r1(1) sl'_def)
  have "noded sl' (A @ x # B)"
    using linkedD(1) [OF l] ob by (intro noded_insert [OF nd x, of n1 ob]) (simp_all add: n1_def n0_def sl'_def sl6_def sl2_def)
  moreover have key: "key_of sl' y = key_of sl y" if "y \<in> set (A @ B)" for y
  proof -
    have "y \<noteq> x" "y \<in> dom (nodes sl)" "x \<notin> set B" using that x nd by (auto simp: noded_def)
    then show ?thesis using insert_nodes_simps(2,3) [of x B "nodes sl" y n1] B2
      by (simp add: key_of_def sl'_def sl6_def)
  qed
  have kx: "key_of sl' x = (sc, ob)"
    using insert_nodes_simps(1) [of x B "nodes sl" n1] x B2 by (simp add: key_of_def sl'_def sl6_def n1_def n0_def)
  have ins_eq: "insort (sc, ob) (map (key_of sl) ns) = map (key_of sl) A @ (sc, ob) # map (key_of sl) B"
    by (simp add: insort_split [OF sl_repD(6) [OF r]] takeWhile_map dropWhile_map A_def B_def o_def)
  have ks: "map (key_of sl') (A @ x # B) = insort (sc, ob) (map (key_of sl) ns)"
    unfolding ins_eq using key kx by simp
  moreover have "sorted (map (key_of sl') (A @ x # B))"
    unfolding ks using sl_repD(6) [OF r] by (rule sorted_insort [THEN iffD2])
  moreover have "linked (h(x := lv)) (header sl') (sl_level sl') (cells sl') (A @ x # B)"
    using lk by (simp add: sl'_def sl6_def sl2_def)
  moreover have "\<forall>y \<in> set (header sl' # A @ x # B). y < brk sl'"
    using sl_repD(3) [OF r] ns by (auto simp: sl'_def sl6_def sl2_def x_def less_Suc_eq)
  moreover have "sl_length sl' = int (length (A @ x # B))" "int (length (A @ x # B)) < UINT"
    using sl_repD(4) [OF r] len ns by (simp_all add: sl'_def)
  ultimately have "sl_rep (h(x := lv)) sl' (A @ x # B)" unfolding sl_rep_def by blast
  then show ?thesis using ins ks x_def by blast
qed


section \<open>Deleting keeps the list\<close>

definition unlinked :: "nat \<Rightarrow> skiplistLevel \<Rightarrow> skiplistLevel \<Rightarrow> skiplistLevel" where
  "unlinked x c d =
     (if fst c = Some x then (fst d, (snd c + (snd d - 1)) mod UINT) else (fst c, (snd c - 1) mod UINT))"

lemma unlink_levels_map:
  assumes "\<And>l. i \<le> l \<Longrightarrow> l < i + n \<Longrightarrow> cells sl (V l, l) = Some (c l) \<and> V l \<noteq> x \<and>
    (fst (c l) = Some x \<longrightarrow> cells sl (x, l) = Some (d l))"
  shows "unlink_levels x i (map V [i..<i + n]) sl = Some (sl\<lparr>cells := (\<lambda>(y, l).
    if i \<le> l \<and> l < i + n \<and> y = V l then Some (unlinked x (c l) (d l)) else cells sl (y, l))\<rparr>)"
  using assms
proof (induction n arbitrary: i sl)
  case (Suc n)
  let ?sl = "sl\<lparr>cells := (cells sl)((V i, i) \<mapsto> unlinked x (c i) (d i))\<rparr>"
  have i: "cells sl (V i, i) = Some (c i)" "fst (c i) = Some x \<longrightarrow> cells sl (x, i) = Some (d i)"
    using Suc.prems [of i] by auto
  then have "unlink_levels x i (map V [i..<i + Suc n]) sl = unlink_levels x (Suc i) (map V [Suc i..<Suc i + n]) ?sl"
    unfolding upt_Cons by (auto simp: set_cell_def unlinked_def)
  also have "\<dots> = Some (?sl\<lparr>cells := (\<lambda>(y, l).
    if Suc i \<le> l \<and> l < Suc i + n \<and> y = V l then Some (unlinked x (c l) (d l)) else cells ?sl (y, l))\<rparr>)"
    using Suc.prems by (intro Suc.IH) auto
  also have "\<dots> = Some (sl\<lparr>cells := (\<lambda>(y, l).
    if i \<le> l \<and> l < i + Suc n \<and> y = V l then Some (unlinked x (c l) (d l)) else cells sl (y, l))\<rparr>)"
    by (intro cells_cong) (auto simp: le_less Suc_le_eq)
  finally show ?case .
next
  case 0
  show ?case unfolding add_0_right upt_conv_Nil [OF order_refl] list.map unlink_levels.simps
    by (intro cells_id) auto
qed

text \<open>The cells after \<open>x\<close> has been unlinked from the nodes \<open>V\<close>.\<close>

definition delete_cells ::
  "nat \<Rightarrow> nat \<Rightarrow> (nat \<Rightarrow> nat) \<Rightarrow> (nat \<times> nat \<rightharpoonup> skiplistLevel) \<Rightarrow> nat \<times> nat \<rightharpoonup> skiplistLevel" where
  "delete_cells x level V cs = (\<lambda>(y, l).
     if l < level \<and> y = V l then Some (unlinked x (the (cs (V l, l))) (the (cs (x, l)))) else cs (y, l))"

lemma split_append:
  assumes "P @ B = Q @ u # S"
  obtains C where "P = Q @ u # C" "S = C @ B" | B1 where "B = B1 @ u # S" "Q = P @ B1"
  using assms by (auto simp: append_eq_append_conv2 append_eq_Cons_conv Cons_eq_append_conv)

lemma delete_cells_hop:
  assumes l: "linked h hd0 level cs (A @ x # B)" and U: "\<And>i. i < level \<Longrightarrow> is_update h (hd0 # A) i (U i)"
    and n: "int (length (A @ x # B)) < UINT"
    and s: "hd0 # A @ B = P @ u # S" and i: "i < h u" "i < level"
  shows "delete_cells x level (fst \<circ> U) cs (u, i) = Some (hop h i S)"
proof -
  have d: "distinct (hd0 # A @ x # B)" using linkedD(1) [OF l] by simp
  obtain Q C where q: "hd0 # A = Q @ fst (U i) # C" "i < h (fst (U i))" "\<forall>y \<in> set C. h y \<le> i"
    "cs (fst (U i), i) = Some (fst (hop h i (x # B)), int (length C) + snd (hop h i (x # B)))"
    using update_cell [OF l i(2) U [OF i(2)]] by metis
  have s': "(hd0 # A) @ B = P @ u # S" using s by simp
  show ?thesis
  proof (cases rule: split_append [OF s'])
    case (1 D)
    have dA: "distinct (P @ u # D)" using d 1(1) by (metis append_Cons distinct_append)
    consider (short) "\<forall>y \<in> set D. h y \<le> i" | (tall) D1 y D2 where "D = D1 @ y # D2" "\<forall>z \<in> set D1. h z \<le> i" "i < h y"
      by (rule tall_cases [of D h i])
    then show ?thesis
    proof cases
      case short
      have "U i = (u, int (length P))"
        using is_update_unique [of h P u D i "U i"] U [OF i(2)] 1(1) short i(1) by simp
      then have U': "fst (U i) = u" and CD: "C = D"
        using q(1) 1(1) distinct_split [OF dA, of Q C] by auto
      have hS: "hop h i S = (fst (hop h i B), int (length D) + snd (hop h i B))"
        unfolding 1(2) using short by (rule hop_short)
      have ln: "int (length D) + snd (hop h i B) + 1 < UINT"
        using hop_bounds(2) [of h i B] arg_cong [OF 1(1), of length] n by simp
      note b = hop_bounds(1) [of h i B]
      show ?thesis
      proof (cases "i < h x")
        case True
        then have "cs (x, i) = Some (hop h i B)"
          using linkedD(8) [OF l, of "hd0 # A" x B i] i(2) by simp
        then show ?thesis using True hS q(4) U' CD i(2) ln b by (simp add: delete_cells_def unlinked_def)
      next
        case False
        moreover have "fst (hop h i B) \<noteq> Some x" using hop_fst [of h i B x] d by auto
        ultimately show ?thesis using hS q(4) U' CD i(2) ln b by (simp add: delete_cells_def unlinked_def)
      qed
    next
      case tall
      have "fst (U i) \<noteq> u"
      proof
        assume "fst (U i) = u"
        then have "C = D" using q(1) 1(1) distinct_split [OF dA, of Q C] by auto
        then show False using q(3) tall by auto
      qed
      then have "delete_cells x level (fst \<circ> U) cs (u, i) = cs (u, i)" by (auto simp: delete_cells_def)
      also have "\<dots> = Some (hop h i (D @ x # B))"
        using linkedD(8) [OF l, of P u "D @ x # B" i] 1(1) i by simp
      also have "hop h i (D @ x # B) = hop h i S"
        unfolding 1(2) using tall hop_tall [of D1 h i y "D2 @ B"] hop_tall [of D1 h i y "D2 @ x # B"] by auto
      finally show ?thesis .
    qed
  next
    case (2 B1)
    have "u \<in> set B" using 2(1) by simp
    then have "u \<notin> set (hd0 # A)" using d by auto
    moreover have "fst (U i) \<in> set (hd0 # A)" using q(1) by (metis in_set_conv_decomp)
    ultimately have "delete_cells x level (fst \<circ> U) cs (u, i) = cs (u, i)" by (auto simp: delete_cells_def)
    also have "\<dots> = Some (hop h i S)"
      using linkedD(8) [OF l, of "hd0 # A @ x # B1" u S i] 2 i by simp
    finally show ?thesis .
  qed
qed

lemma update_cell_Some:
  assumes "linked h hd0 level cs (A @ B)" "i < level" "is_update h (hd0 # A) i ur"
  shows "cs (fst ur, i) \<noteq> None" "fst ur \<in> set (hd0 # A)" "i < h (fst ur)"
proof -
  obtain P C where p: "hd0 # A = P @ fst ur # C" "i < h (fst ur)" using assms(3) unfolding is_update_def by blast
  show u: "fst ur \<in> set (hd0 # A)" using p(1) by (metis in_set_conv_decomp)
  show "i < h (fst ur)" by (rule p)
  show "cs (fst ur, i) \<noteq> None" using linkedD(2) [OF assms(1), of "fst ur" i] u p(2) by auto
qed

lemma linked_delete:
  assumes l: "linked h hd0 level cs (A @ x # B)" and U: "\<And>i. i < level \<Longrightarrow> is_update h (hd0 # A) i (U i)"
    and n: "int (length (A @ x # B)) < UINT"
  shows "linked h hd0 level (\<lambda>(y, i). if y = x then None else delete_cells x level (fst \<circ> U) cs (y, i)) (A @ B)"
proof -
  let ?cs = "\<lambda>(y, i). if y = x then None else delete_cells x level (fst \<circ> U) cs (y, i)"
  have d: "distinct (hd0 # A @ x # B)" using linkedD(1) [OF l] by simp
  have "?cs (y, i) \<noteq> None \<longleftrightarrow> y \<in> set (hd0 # A @ B) \<and> i < h y" for y i
    using linkedD(2) [OF l, of y i] update_cell_Some(2,3) [OF l _ U, of i] d by (auto simp: delete_cells_def)
  moreover have "\<exists>s. ?cs (hd0, i) = Some (None, s)" if "level \<le> i" "i < SKIPLIST_MAXLEVEL" for i
    using linkedD(9) [OF l that] that d by (simp add: delete_cells_def)
  moreover have "?cs (u, i) = Some (hop h i S)" if sp: "hd0 # A @ B = P @ u # S" and i: "i < h u" "i < level" for P u S i
  proof -
    have "u \<in> set (hd0 # A @ B)" using sp by (metis in_set_conv_decomp)
    then have "u \<noteq> x" using d by auto
    then show ?thesis using delete_cells_hop [OF l U n sp i] by simp
  qed
  ultimately show ?thesis using linkedD(3-7) [OF l] d unfolding linked_def by auto
qed

lemma linked_lower:
  "linked h (header sl) level (cells sl) ns \<Longrightarrow>
   \<exists>l. lower_level sl level = Some l \<and> linked h (header sl) l (cells sl) ns \<and> l \<le> level"
proof (induction level)
  case (Suc k)
  note l = Suc.prems
  show ?case
  proof (cases "k = 0")
    case True
    then show ?thesis using l by (auto simp: lower_level.simps)
  next
    case False
    have c: "cells sl (header sl, k) = Some (hop h k ns)"
      using linkedD(8) [OF l, of "[]" "header sl" ns k] linkedD(3,5) [OF l] by simp
    show ?thesis
    proof (cases "fst (hop h k ns)")
      case None
      have s: "\<forall>y \<in> set ns. h y \<le> k"
      proof (cases rule: tall_cases [of ns h k])
        case (2 C1 y C2)
        then show ?thesis using None hop_tall [of C1 h k y C2] by simp
      qed
      have top: "\<exists>s. cells sl (header sl, i) = Some (None, s)" if "k \<le> i" "i < SKIPLIST_MAXLEVEL" for i
      proof (cases "i = k")
        case True
        then show ?thesis using c None by (cases "hop h k ns") simp
      next
        case False
        then show ?thesis using linkedD(9) [OF l, of i] that by simp
      qed
      have "linked h (header sl) k (cells sl) ns"
        unfolding linked_def
      proof (intro conjI allI impI)
        show "cells sl (u, i) = Some (hop h i S)" if "header sl # ns = P @ u # S" "i < h u" "i < k" for P u S i
          using linkedD(8) [OF l that(1,2)] that(3) by simp
        show "\<forall>y \<in> set ns. 1 \<le> h y \<and> h y \<le> k" using s linkedD(6) [OF l] by auto
      qed (use linkedD(1-3,5) [OF l] top False in \<open>simp_all\<close>)
      then show ?thesis using Suc.IH c None False by (subst lower_level.simps) (auto simp: le_SucI)
    next
      case (Some y)
      then show ?thesis using c False l by (subst lower_level.simps) simp
    qed
  qed
qed (simp add: linked_def)


text \<open>The node map after a deletion: the back pointer of the node after \<open>x\<close> is the one of \<open>x\<close>.\<close>

definition delete_nodes ::
  "nat \<Rightarrow> nat list \<Rightarrow> (nat \<rightharpoonup> 's skiplistNode) \<Rightarrow> nat \<rightharpoonup> 's skiplistNode" where
  "delete_nodes x B m =
     (case B of [] \<Rightarrow> m | y # _ \<Rightarrow> m(y \<mapsto> (the (m y))\<lparr>backward := backward (the (m x))\<rparr>))"

lemma delete_nodes_simps:
  assumes "set B \<subseteq> dom m"
  shows "y \<in> dom m \<Longrightarrow> obj (the (delete_nodes x B m y)) = obj (the (m y))"
    "y \<in> dom m \<Longrightarrow> score (the (delete_nodes x B m y)) = score (the (m y))"
    "(\<And>z B'. B = z # B' \<Longrightarrow> y \<noteq> z) \<Longrightarrow> delete_nodes x B m y = m y"
    "dom (delete_nodes x B m) = dom m"
    "B = z # B' \<Longrightarrow> backward (the (delete_nodes x B m z)) = backward (the (m x))"
  using assms by (auto simp: delete_nodes_def split: list.splits)

lemma noded_delete:
  assumes nd: "noded sl (A @ x # B)" and d: "distinct (header sl # A @ x # B)"
    and sl': "header sl' = header sl" "nodes sl' = (delete_nodes x B (nodes sl))(x := None)"
    "sl_tail sl' = (if B = [] then backward (the (nodes sl x)) else sl_tail sl)"
  shows "noded sl' (A @ B)"
proof -
  let ?m = "nodes sl"
  have dom: "dom ?m = set (header sl # A @ x # B)" using nd by (simp add: noded_def)
  then have dB: "set B \<subseteq> dom ?m" by auto
  note s = delete_nodes_simps [OF dB, where x = x]
  have bx: "backward (the (?m x)) = (if A = [] then None else Some (last A))" using nd by (simp add: noded_def)
  have "backward (the (nodes sl' u)) = (if P = [] then None else Some (last P))" if sp: "A @ B = P @ u # S" for P u S
  proof (cases rule: split_append [OF sp])
    case (1 C)
    then have "u \<noteq> x" "u \<notin> set B" using d by auto
    then have "nodes sl' u = ?m u" using s(3) [of u] unfolding sl'(2) by (metis fun_upd_other list.set_intros(1))
    moreover have "A @ x # B = P @ u # (C @ x # B)" using 1 by simp
    ultimately show ?thesis using nd unfolding noded_def by metis
  next
    case (2 B1)
    have ux: "u \<noteq> x" using 2 d by auto
    show ?thesis
    proof (cases B1)
      case Nil
      then show ?thesis using 2 s(5) [of u S] ux bx by (simp add: sl'(2))
    next
      case (Cons z B2)
      have "u \<noteq> z" using 2(1) Cons d by auto
      then have "nodes sl' u = ?m u" unfolding sl'(2) using 2(1) Cons ux s(3) [of u] by (metis append_Cons fun_upd_other list.inject)
      moreover have "A @ x # B = (A @ x # B1) @ u # S" using 2 by simp
      ultimately have "backward (the (nodes sl' u)) = (if A @ x # B1 = [] then None else Some (last (A @ x # B1)))"
        using nd unfolding noded_def by metis
      then show ?thesis using 2(2) Cons by simp
    qed
  qed
  moreover have "\<exists>ob. obj (the (nodes sl' y)) = Some ob \<and> length ob < 2 ^ 31" if "y \<in> set (A @ B)" for y
  proof -
    have y: "y \<in> set (A @ x # B)" "y \<in> dom ?m" "y \<noteq> x" using that dom d by auto
    then obtain ob where "obj (the (?m y)) = Some ob \<and> length ob < 2 ^ 31" using nd unfolding noded_def by blast
    then show ?thesis using s(1) [OF y(2)] y(3) by (simp add: sl'(2))
  qed
  moreover have "obj (the (nodes sl' (header sl))) = None"
    using s(1) [of "header sl"] nd dom d by (simp add: noded_def sl'(2))
  moreover have "sl_tail sl' = (if A @ B = [] then None else Some (last (A @ B)))"
  proof -
    have "sl_tail sl = Some (last (A @ x # B))" using nd by (simp add: noded_def)
    then show ?thesis unfolding sl'(3) bx by auto
  qed
  moreover have "dom (nodes sl') = set (header sl # A @ B)"
    using s(4) dom d by (auto simp: sl'(2))
  ultimately show ?thesis unfolding noded_def sl'(1) by simp
qed

lemma lower_level_cong:
  assumes "header sl' = header sl" "\<And>i. cells sl' (header sl, i) = cells sl (header sl, i)"
  shows "lower_level sl' k = lower_level sl k"
proof (induction k)
  case (Suc k)
  then show ?case
    unfolding lower_level.simps [of sl' "Suc k"] lower_level.simps [of sl "Suc k"] diff_Suc_1 assms(1)
      assms(2) [unfolded assms(1)] by (simp cong: if_cong)
qed (simp add: lower_level.simps)

lemma slDeleteNode_rep:
  assumes r: "sl_rep h sl (A @ x # B)" and V: "sl_level sl \<le> length us"
    "\<And>i. i < sl_level sl \<Longrightarrow> is_update h (header sl # A) i (us ! i)"
  shows "\<exists>sl'. slDeleteNode x (map fst us) sl = Some sl' \<and> sl_rep h (slFreeNode x sl') (A @ B) \<and>
    (\<exists>n. nodes sl' x = Some n \<and> obj n = obj (the (nodes sl x))) \<and> sl_level sl' \<le> sl_level sl \<and> header sl' = header sl \<and>
    map (key_of (slFreeNode x sl')) (A @ B) = map (key_of sl) (A @ B)"
proof -
  note l = sl_repD(1) [OF r] and nd = sl_repD(2) [OF r]
  let ?k = "sl_level sl" and ?U = "(!) us"
  have d: "distinct (header sl # A @ x # B)" using linkedD(1) [OF l] .
  have dom: "dom (nodes sl) = set (header sl # A @ x # B)" using nd by (simp add: noded_def)
  have vs: "take ?k (map fst us) = map (fst \<circ> ?U) [0..<0 + ?k]" using V(1) by (auto intro!: nth_equalityI)
  have up: "cells sl ((fst \<circ> ?U) i, i) = Some (the (cells sl ((fst \<circ> ?U) i, i))) \<and> (fst \<circ> ?U) i \<noteq> x \<and>
      (fst (the (cells sl ((fst \<circ> ?U) i, i))) = Some x \<longrightarrow> cells sl (x, i) = Some (the (cells sl (x, i))))"
    if i: "i < ?k" for i
  proof -
    obtain P C where p: "header sl # A = P @ fst (us ! i) # C" "\<forall>y \<in> set C. h y \<le> i"
      "cells sl (fst (us ! i), i) = Some (fst (hop h i (x # B)), int (length C) + snd (hop h i (x # B)))"
      using update_cell [OF l i V(2) [OF i]] by metis
    have "fst (us ! i) \<in> set (header sl # A)" using p(1) by (metis in_set_conv_decomp)
    then have "fst (us ! i) \<noteq> x" using d by auto
    moreover have "cells sl (x, i) \<noteq> None" if "fst (hop h i (x # B)) = Some x"
      using hop_fst [OF that] linkedD(2) [OF l, of x i] by simp
    ultimately show ?thesis using p(3) by auto
  qed
  define cs1 where "cs1 = delete_cells x ?k (fst \<circ> ?U) (cells sl)"
  have "unlink_levels x 0 (take ?k (map fst us)) sl = Some (sl\<lparr>cells := (\<lambda>(y, l).
      if 0 \<le> l \<and> l < 0 + ?k \<and> y = (fst \<circ> ?U) l
      then Some (unlinked x (the (cells sl ((fst \<circ> ?U) l, l))) (the (cells sl (x, l)))) else cells sl (y, l))\<rparr>)"
    unfolding vs using up by (intro unlink_levels_map) auto
  then have ul: "unlink_levels x 0 (take ?k (map fst us)) sl = Some (sl\<lparr>cells := cs1\<rparr>)"
    by (simp add: cs1_def delete_cells_def)
  obtain nx where nx: "nodes sl x = Some nx" using dom by (metis domD in_set_conv_decomp list.set_intros(2) append_Cons)
  have ux: "(fst \<circ> ?U) 0 \<noteq> x" using up [of 0] linkedD(4) [OF l] by auto
  have hx: "0 < h x" using linkedD(6) [OF l, of x] by simp
  have "cells sl (x, 0) = Some (hop h 0 B)"
    using linkedD(8) [OF l, of "header sl # A" x B 0] linkedD(4) [OF l] hx by simp
  then have c0: "cs1 (x, 0) = Some (hop h 0 B)" using ux by (auto simp: cs1_def delete_cells_def)
  have B1: "\<forall>y \<in> set B. 1 \<le> h y" using linkedD(6) [OF l] by auto
  have B2: "set B \<subseteq> dom (nodes sl)" using dom by auto
  define sl2 where "sl2 = sl\<lparr>cells := cs1, nodes := delete_nodes x B (nodes sl),
      sl_tail := (if B = [] then backward nx else sl_tail sl)\<rparr>"
  have bk: "(case fst (hop h 0 B) of Some y \<Rightarrow> set_backward y (backward nx) (sl\<lparr>cells := cs1\<rparr>)
      | None \<Rightarrow> Some (sl\<lparr>cells := cs1, sl_tail := backward nx\<rparr>)) = Some sl2"
    unfolding hop_0 [OF B1] using B2 nx
    by (cases B) (auto simp: set_backward_def sl2_def delete_nodes_def)
  define cs where "cs = (\<lambda>(y, i). if y = x then None else cs1 (y, i))"
  have lk: "linked h (header sl) ?k cs (A @ B)"
    unfolding cs_def cs1_def using sl_repD(5) [OF r] by (intro linked_delete [OF l V(2)])
  have hx': "header sl \<noteq> x" using d by auto
  have "lower_level (sl2\<lparr>cells := cs\<rparr>) ?k = lower_level sl2 ?k"
    using hx' by (intro lower_level_cong) (simp_all add: cs_def sl2_def)
  moreover have "linked h (header (sl2\<lparr>cells := cs\<rparr>)) ?k (cells (sl2\<lparr>cells := cs\<rparr>)) (A @ B)"
    using lk by (simp add: sl2_def)
  ultimately obtain k' where k': "lower_level sl2 ?k = Some k'" "linked h (header sl) k' cs (A @ B)" "k' \<le> ?k"
    using linked_lower [of h "sl2\<lparr>cells := cs\<rparr>" ?k "A @ B"] by (auto simp: sl2_def)
  define sl' where "sl' = sl2\<lparr>sl_level := k', sl_length := (sl_length sl2 - 1) mod ULONG\<rparr>"
  have lv: "sl_level sl2 = ?k" by (simp add: sl2_def)
  have del: "slDeleteNode x (map fst us) sl = Some sl'"
    using ul nx c0 bk k'(1) lv by (simp add: slDeleteNode_def sl'_def)
  let ?fr = "slFreeNode x sl'"
  have c': "cells sl' = cs1" by (simp add: sl'_def sl2_def)
  have fr: "header ?fr = header sl" "nodes ?fr = (delete_nodes x B (nodes sl))(x := None)" "cells ?fr = cs"
    "sl_tail ?fr = (if B = [] then backward (the (nodes sl x)) else sl_tail sl)" "sl_level ?fr = k'" "brk ?fr = brk sl"
    "sl_length ?fr = int (length (A @ B))"
    unfolding slFreeNode_def c' using nx sl_repD(4,5) [OF r] by (simp_all add: sl'_def sl2_def cs_def)
  have nd': "noded ?fr (A @ B)" using nd d fr(1,2,4) by (rule noded_delete)
  have key: "key_of ?fr y = key_of sl y" if "y \<in> set (A @ B)" for y
  proof -
    have "y \<noteq> x" "y \<in> dom (nodes sl)" using that d dom by auto
    then show ?thesis using delete_nodes_simps(1,2) [OF B2, of y x] by (simp add: key_of_def fr(2))
  qed
  then have ks: "map (key_of ?fr) (A @ B) = map (key_of sl) (A @ B)" by (intro map_cong refl)
  have "sorted (map (key_of sl) (A @ B))" using sl_repD(6) [OF r] by (simp add: sorted_append)
  then have "sl_rep h ?fr (A @ B)" unfolding sl_rep_def ks fr(1,3,5-7)
    using k'(2) nd' sl_repD(3,5) [OF r] by auto
  moreover have "\<exists>n. nodes sl' x = Some n \<and> obj n = obj (the (nodes sl x))"
  proof -
    have "x \<notin> set B" using d by auto
    then have "delete_nodes x B (nodes sl) x = Some nx"
      using delete_nodes_simps(3) [OF B2, of x x] nx by (metis list.set_intros(1))
    then show ?thesis using nx by (simp add: sl'_def sl2_def)
  qed
  ultimately show ?thesis using del ks k'(3) by (auto simp: sl'_def sl2_def)
qed

text \<open>Deleting a key.\<close>

lemma key_cases:
  assumes "sorted (map f xs)"
  shows "k \<in> set (map f xs) \<longleftrightarrow>
    (\<exists>y B. dropWhile (\<lambda>y. f y < k) xs = y # B \<and> f y = k)"
  using assms
proof (induction xs)
  case (Cons x xs)
  show ?case
  proof (cases "f x < k")
    case False
    then show ?thesis using Cons.prems by (auto simp: not_less intro: antisym)
  qed (use Cons in auto)
qed simp

lemma slDelete_rep:
  assumes r: "sl_rep h sl ns" and ob: "length ob < 2 ^ 31"
  shows "\<exists>sl' ns'. slDelete sc ob sl = Some ((sc, ob) \<in> set (map (key_of sl) ns), sl') \<and> sl_rep h sl' ns' \<and>
    map (key_of sl') ns' = remove1 (sc, ob) (map (key_of sl) ns)"
proof -
  let ?Q = "\<lambda>y. key_of sl y < (sc, ob)" and ?ks = "map (key_of sl) ns"
  define A where "A = takeWhile ?Q ns"
  define B where "B = dropWhile ?Q ns"
  have ns: "ns = A @ B" by (simp add: A_def B_def)
  note l = sl_repD(1) [OF r, unfolded ns] and nd = sl_repD(2) [OF r]
  have "passes sl (before_key sc ob) ns (length A)" unfolding A_def
    by (rule passes_prefix [OF r, where Q = "\<lambda>k. k < (sc, ob)", OF order_le_less_trans before_key_eq [OF _ _ ob]])
  then have ps: "passes sl (before_key sc ob) (A @ B) (length A)" by (simp add: ns)
  have m: "int (length (A @ B)) < UINT" using sl_repD(5) [OF r] ns by simp
  obtain us where us: "descend sl UINT (before_key sc ob) (sl_level sl) (header sl) 0 =
      Some (last (header sl # A), int (length A), us)" "length us = sl_level sl"
    "\<And>i. i < sl_level sl \<Longrightarrow> is_update h (header sl # A) i (us ! i)" "us ! 0 = (last (header sl # A), int (length A))"
    using descend_all [OF l ps m] by blast
  have "is_update h (header sl # A) 0 (us ! 0)" using us(3) linkedD(4) [OF l] by simp
  then obtain P C where "header sl # A = P @ last (header sl # A) # C" "\<forall>y \<in> set C. h y \<le> 0"
    "cells sl (last (header sl # A), 0) = Some (fst (hop h 0 B), int (length C) + snd (hop h 0 B))"
    using update_cell [OF l, of 0 "us ! 0"] linkedD(4) [OF l] us(4) by (metis fst_conv less_le_trans zero_less_one)
  moreover have "\<forall>y \<in> set B. 1 \<le> h y" using linkedD(6) [OF l] by auto
  ultimately have c: "map_option fst (cells sl (last (header sl # A), 0)) = Some (case B of [] \<Rightarrow> None | y # _ \<Rightarrow> Some y)"
    using hop_0 [of B h] by simp
  have mem: "(sc, ob) \<in> set ?ks \<longleftrightarrow> (\<exists>y B'. B = y # B' \<and> key_of sl y = (sc, ob))"
    using key_cases [OF sl_repD(6) [OF r]] by (simp add: B_def)
  have nA: "(sc, ob) \<notin> set (map (key_of sl) A)" using set_takeWhileD by (fastforce simp: A_def)
  show ?thesis
  proof (cases B)
    case Nil
    then have "(sc, ob) \<notin> set ?ks" using mem by simp
    moreover have "slDelete sc ob sl = Some (False, sl)" using us(1) c Nil by (auto simp: slDelete_def)
    ultimately show ?thesis using r by (auto simp: remove1_idem)
  next
    case (Cons y B')
    then have "y \<in> set ns" using ns by simp
    then obtain n o' where n: "nodes sl y = Some n" "obj n = Some o'" "length o' < 2 ^ 31" "key_of sl y = (score n, o')"
      using noded_node [OF nd] by metis
    obtain sp where cy: "cells sl (last (header sl # A), 0) = Some (Some y, sp)" using c Cons by auto
    have e: "equalslObj o' ob \<longleftrightarrow> o' = ob" using n(3) ob by (rule compareslObj_less)
    show ?thesis
    proof (cases "key_of sl y = (sc, ob)")
      case True
      obtain sl' where sl': "slDeleteNode y (map fst us) sl = Some sl'" "sl_rep h (slFreeNode y sl') (A @ B')"
        "map (key_of (slFreeNode y sl')) (A @ B') = map (key_of sl) (A @ B')"
        using slDeleteNode_rep [of h sl A y B' us] r us(2,3) ns Cons by auto
      have "slDelete sc ob sl = Some (True, slFreeNode y sl')"
        using us(1) cy n True e sl'(1) by (simp add: slDelete_def)
      moreover have "remove1 (sc, ob) ?ks = map (key_of sl) (A @ B')"
        using nA True ns Cons by (simp add: remove1_append)
      ultimately show ?thesis using sl'(2,3) mem Cons True by (metis)
    next
      case False
      then have "slDelete sc ob sl = Some (False, sl)" using us(1) cy n e by (auto simp: slDelete_def)
      moreover have "(sc, ob) \<notin> set ?ks" using mem Cons False by simp
      ultimately show ?thesis using r by (auto simp: remove1_idem)
    qed
  qed
qed


text \<open>Neighbours of a node.\<close>

definition first_of :: "nat list \<Rightarrow> nat option" where
  "first_of S = (case S of [] \<Rightarrow> None | y # _ \<Rightarrow> Some y)"

definition last_of :: "nat list \<Rightarrow> nat option" where
  "last_of P = (if P = [] then None else Some (last P))"

lemma first_of_simps [simp]: "first_of [] = None" "first_of (y # S) = Some y"
  by (simp_all add: first_of_def)

lemma last_of_simps [simp]: "last_of [] = None" "last_of (P @ [y]) = Some y"
  by (simp_all add: last_of_def)

lemma cell_0:
  assumes r: "sl_rep h sl ns" and s: "header sl # ns = P @ u # S"
  shows "\<exists>sp. cells sl (u, 0) = Some (first_of S, sp)"
proof -
  note l = sl_repD(1) [OF r]
  have "u \<in> set (header sl # ns)" using s by (metis in_set_conv_decomp)
  then have "0 < h u" using linkedD(3,6) [OF l] by (auto simp: SKIPLIST_MAXLEVEL_def Suc_le_eq)
  then have "cells sl (u, 0) = Some (hop h 0 S)" using linkedD(8) [OF l s] linkedD(4) [OF l] by simp
  moreover have "set S \<subseteq> set ns" using s by (cases P) auto
  then have "\<forall>y \<in> set S. 1 \<le> h y" using linkedD(6) [OF l] by auto
  ultimately show ?thesis using hop_0 [of S h] by (cases "hop h 0 S") (simp add: first_of_def)
qed

lemma next_forward: "sl_rep h sl ns \<Longrightarrow> ns = P @ u # S \<Longrightarrow> next_node sl False u = Some (first_of S)"
  using cell_0 [of h sl ns "header sl # P" u S] by (auto simp: next_node_def)

lemma next_backward:
  assumes "sl_rep h sl ns" "ns = P @ u # S"
  shows "next_node sl True u = Some (last_of P)"
proof -
  have nd: "noded sl ns" using assms(1) by (rule sl_repD)
  have "u \<in> set ns" using assms(2) by simp
  then obtain n ob where "nodes sl u = Some n" by (rule noded_node [OF nd])
  moreover have "backward (the (nodes sl u)) = last_of P"
    using nd assms(2) unfolding noded_def last_of_def by blast
  ultimately show ?thesis by (simp add: next_node_def)
qed

text \<open>Deleting a range of ranks.\<close>

lemma delete_ranks_rep:
  "sl_rep h sl (A @ B) \<Longrightarrow> sl_level sl \<le> length us \<Longrightarrow>
   (\<And>i. i < sl_level sl \<Longrightarrow> is_update h (header sl # A) i (us ! i)) \<Longrightarrow> k = nat (e + 1 - t) \<Longrightarrow>
   \<exists>sl'. delete_ranks (map fst us) t e (first_of B) sl = Some (map (snd \<circ> key_of sl) (take k B), sl') \<and>
     sl_rep h sl' (A @ drop k B) \<and> map (key_of sl') (A @ drop k B) = map (key_of sl) (A @ drop k B)"
proof (induction B arbitrary: sl t k)
  case Nil
  then show ?case by (auto simp: delete_ranks.simps)
next
  case (Cons x B)
  show ?case
  proof (cases "t \<le> e")
    case False
    then show ?thesis using Cons.prems by (auto simp: delete_ranks.simps)
  next
    case True
    obtain sp where c: "cells sl (x, 0) = Some (first_of B, sp)"
      using cell_0 [OF Cons.prems(1), of "header sl # A" x B] by auto
    obtain sl1 n where sl1: "slDeleteNode x (map fst us) sl = Some sl1" "sl_rep h (slFreeNode x sl1) (A @ B)"
      "nodes sl1 x = Some n" "obj n = obj (the (nodes sl x))" "sl_level sl1 \<le> sl_level sl" "header sl1 = header sl"
      "map (key_of (slFreeNode x sl1)) (A @ B) = map (key_of sl) (A @ B)"
      using slDeleteNode_rep [OF Cons.prems(1,2,3)] by blast
    obtain nx ob where "nodes sl x = Some nx" "obj nx = Some ob" "key_of sl x = (score nx, ob)"
    proof -
      have "x \<in> set (A @ x # B)" by simp
      with sl_repD(2) [OF Cons.prems(1)] show thesis using that by (rule noded_node)
    qed
    then have ob: "obj n = Some ob" "(snd \<circ> key_of sl) x = ob" using sl1(4) by simp_all
    let ?sl = "slFreeNode x sl1"
    have f: "sl_level ?sl \<le> sl_level sl" "header ?sl = header sl" using sl1(5,6) by (simp_all add: slFreeNode_def)
    define k' where "k' = nat (e + 1 - (t + 1))"
    have k: "k = Suc k'" using True Cons.prems(4) by (simp add: k'_def)
    obtain sl2 where sl2: "delete_ranks (map fst us) (t + 1) e (first_of B) ?sl =
        Some (map (snd \<circ> key_of ?sl) (take k' B), sl2)" "sl_rep h sl2 (A @ drop k' B)"
        "map (key_of sl2) (A @ drop k' B) = map (key_of ?sl) (A @ drop k' B)"
      using Cons.IH [OF sl1(2) _ _ k'_def] f Cons.prems(2,3) by fastforce
    have eq: "map (snd \<circ> key_of ?sl) (take k' B) = map (snd \<circ> key_of sl) (take k' B)"
      "map (key_of ?sl) (A @ drop k' B) = map (key_of sl) (A @ drop k' B)"
      using sl1(7) by (auto dest: in_set_takeD in_set_dropD)
    have "delete_ranks (map fst us) t e (Some x) sl = Some (ob # map (snd \<circ> key_of sl) (take k' B), sl2)"
      using True c sl1(1,3) ob(1) sl2(1) eq(1) by (subst delete_ranks.simps) simp
    then show ?thesis using sl2(2,3) ob(2) eq(2) by (simp add: k)
  qed
qed

lemma passes_rank:
  assumes r: "sl_rep h sl ns" and g: "\<And>j n. j < length ns \<Longrightarrow> go (int (Suc j)) n = Some (j < k)"
  shows "passes sl go ns k"
  unfolding passes_def
proof (intro allI impI)
  fix j assume j: "j < length ns"
  then obtain n where "nodes sl (ns ! j) = Some n" using noded_node [OF sl_repD(2) [OF r]] nth_mem by metis
  then show "\<exists>n. nodes sl (ns ! j) = Some n \<and> go (int (Suc j)) n = Some (j < k)" using g [OF j] by auto
qed

lemma slDeleteByRank_rep:
  assumes r: "sl_rep h sl ns" and s: "0 \<le> start" and e: "start \<le> e"
  shows "\<exists>sl' ns'. slDeleteByRank start e sl =
      Some (take (nat e - (nat start - 1)) (drop (nat start - 1) (map (snd \<circ> key_of sl) ns)), sl') \<and> sl_rep h sl' ns' \<and>
    map (key_of sl') ns' = take (nat start - 1) (map (key_of sl) ns) @ drop (nat e) (map (key_of sl) ns)"
proof -
  define A where "A = take (nat start - 1) ns"
  define B where "B = drop (nat start - 1) ns"
  have ns: "ns = A @ B" by (simp add: A_def B_def)
  note l = sl_repD(1) [OF r, unfolded ns]
  have "passes sl (before_rank start) ns (length A)"
    using s by (intro passes_rank [OF r]) (auto simp: before_rank_def A_def)
  then have ps: "passes sl (before_rank start) (A @ B) (length A)" by (simp add: ns)
  have m: "int (length (A @ B)) < ULONG" using sl_repD(5) [OF r] ns by simp
  obtain us where us: "descend sl ULONG (before_rank start) (sl_level sl) (header sl) 0 =
      Some (last (header sl # A), int (length A), us)" "length us = sl_level sl"
    "\<And>i. i < sl_level sl \<Longrightarrow> is_update h (header sl # A) i (us ! i)"
    using descend_all [OF l ps m] by blast
  have "header sl # ns = butlast (header sl # A) @ last (header sl # A) # B" using ns by (simp add: append_butlast_last_id del: last.simps butlast.simps) 
  then obtain sp where c: "cells sl (last (header sl # A), 0) = Some (first_of B, sp)" using cell_0 [OF r] by blast
  define k where "k = nat (e + 1 - (int (length A) + 1))"
  have r': "sl_rep h sl (A @ B)" using r ns by simp
  obtain sl' where sl': "delete_ranks (map fst us) (int (length A) + 1) e (first_of B) sl =
      Some (map (snd \<circ> key_of sl) (take k B), sl')" "sl_rep h sl' (A @ drop k B)"
      "map (key_of sl') (A @ drop k B) = map (key_of sl) (A @ drop k B)"
    using delete_ranks_rep [OF r' _ us(3) k_def] us(2) by auto
  have kB: "take k B = take (nat e - (nat start - 1)) B \<and> drop k B = drop (nat e) ns"
  proof (cases "nat start - 1 \<le> length ns")
    case True
    then have "length A = nat start - 1" by (simp add: A_def)
    then have "k = nat e - (nat start - 1)" using s e by (simp add: k_def nat_diff_distrib)
    then show ?thesis using s e by (simp add: B_def)
  next
    case False
    then have "B = []" "nat e \<ge> length ns" using e by (simp_all add: B_def)
    then show ?thesis by simp
  qed
  have "slDeleteByRank start e sl = Some (map (snd \<circ> key_of sl) (take k B), sl')"
    using us(1) c sl'(1) by (simp add: slDeleteByRank_def del: last.simps)
  moreover have "map (snd \<circ> key_of sl) (take k B) = take (nat e - (nat start - 1)) (drop (nat start - 1) (map (snd \<circ> key_of sl) ns))"
    using kB by (simp add: B_def take_map drop_map)
  moreover have "map (key_of sl') (A @ drop k B) = take (nat start - 1) (map (key_of sl) ns) @ drop (nat e) (map (key_of sl) ns)"
    unfolding sl'(3) using kB by (simp add: A_def take_map drop_map)
  ultimately show ?thesis using sl'(2) by metis
qed


section \<open>Searching finds\<close>

text \<open>A seek stops at the first level, from the top, where the node it reaches is wanted.\<close>

lemma seek_stops:
  assumes l: "linked h hd0 level (cells sl) (A @ B)" and g: "passes sl go (A @ B) (length A)"
    and m: "int (length (A @ B)) < ULONG" and t: "\<And>u r. u \<in> set (hd0 # A) \<Longrightarrow> stop u r = Some (T (u, r))"
  shows "n \<le> level \<Longrightarrow> hd0 # A = P @ x # C \<Longrightarrow> n \<le> h x \<Longrightarrow>
    \<exists>res. seek sl go stop n x (int (length P)) = Some res \<and>
      (case res of None \<Rightarrow> (\<forall>i < n. \<exists>ur. is_update h (hd0 # A) i ur \<and> \<not> T ur)
       | Some ur \<Rightarrow> T ur \<and> (\<exists>i < n. is_update h (hd0 # A) i ur))"
proof (induction n arbitrary: P x C)
  case (Suc n)
  have n: "n < level" "n \<le> level" "n < h x" using Suc.prems by simp_all
  obtain C1 u C2 where u: "x # C = C1 @ u # C2" "n < h u" "\<forall>y \<in> set C2. h y \<le> n"
    "walk sl ULONG go n x (int (length P)) = Some (u, int (length P + length C1))"
    using walk_stops [OF l g m n(1) Suc.prems(2) n(3)] by blast
  have eq: "hd0 # A = (P @ C1) @ u # C2" using Suc.prems(2) u(1) by simp
  let ?r = "int (length (P @ C1))"
  have up: "is_update h (hd0 # A) n (u, ?r)"
    unfolding is_update_def using eq u(2,3) by (intro exI [of _ "P @ C1"] exI [of _ C2]) simp
  have uA: "u \<in> set (hd0 # A)" using eq by (metis in_set_conv_decomp)
  show ?case
  proof (cases "T (u, ?r)")
    case True
    then show ?thesis using u(4) t [OF uA, of ?r] up by (intro exI [of _ "Some (u, ?r)"]) auto
  next
    case False
    obtain res where res: "seek sl go stop n u ?r = Some res"
      "case res of None \<Rightarrow> (\<forall>i < n. \<exists>ur. is_update h (hd0 # A) i ur \<and> \<not> T ur)
       | Some ur \<Rightarrow> T ur \<and> (\<exists>i < n. is_update h (hd0 # A) i ur)"
      using Suc.IH [OF n(2) eq less_imp_le [OF u(2)]] by blast
    then have "seek sl go stop (Suc n) x (int (length P)) = Some res"
      using u(4) t [OF uA, of ?r] False by simp
    moreover have "case res of None \<Rightarrow> (\<forall>i < Suc n. \<exists>ur. is_update h (hd0 # A) i ur \<and> \<not> T ur)
       | Some ur \<Rightarrow> T ur \<and> (\<exists>i < Suc n. is_update h (hd0 # A) i ur)"
      using res(2) up False by (cases res) (auto simp: less_Suc_eq)
    ultimately show ?thesis by blast
  qed
qed simp

lemma seek_all:
  assumes l: "linked h hd0 level (cells sl) (A @ B)" and g: "passes sl go (A @ B) (length A)"
    and m: "int (length (A @ B)) < ULONG" and t: "\<And>u r. u \<in> set (hd0 # A) \<Longrightarrow> stop u r = Some (T (u, r))"
  obtains "seek sl go stop level hd0 0 = Some None" "\<not> T (last (hd0 # A), int (length A))"
  | P u C where "seek sl go stop level hd0 0 = Some (Some (u, int (length P)))" "T (u, int (length P))" "hd0 # A = P @ u # C"
proof -
  have lv: "level \<le> h hd0" "0 < level" using linkedD [OF l] by auto
  obtain res where res: "seek sl go stop level hd0 (int (length [])) = Some res"
      "case res of None \<Rightarrow> (\<forall>i < level. \<exists>ur. is_update h (hd0 # A) i ur \<and> \<not> T ur)
       | Some ur \<Rightarrow> T ur \<and> (\<exists>i < level. is_update h (hd0 # A) i ur)"
    using seek_stops [where P = "[]" and T = T and stop = stop, OF l g m t, of level hd0 A] lv by auto
  show thesis
  proof (cases res)
    case None
    then obtain ur where ur: "is_update h (hd0 # A) 0 ur" "\<not> T ur" using res(2) lv(2) by auto
    have "\<forall>y \<in> set (hd0 # A). 1 \<le> h y" using linkedD [OF l] by (auto simp: SKIPLIST_MAXLEVEL_def)
    then have "ur = (last (hd0 # A), int (length A))" using is_update_0(2) [OF ur(1)] by simp
    then show thesis using that(1) res(1) None ur(2) by simp
  next
    case (Some ur)
    then show thesis using that(2) [of "fst ur"] res unfolding is_update_def by (cases ur) auto
  qed
qed

lemma slGetNodeByRank_rep:
  assumes r: "sl_rep h sl ns" and k: "0 \<le> k"
  shows "slGetNodeByRank k sl = Some (if k = 0 \<or> k > int (length ns) then None else Some (ns ! (nat k - 1)))"
proof (cases "k = 0 \<or> k > int (length ns)")
  case True
  then show ?thesis using sl_repD(4) [OF r] by (auto simp: slGetNodeByRank_def)
next
  case False
  define A where "A = take (nat k) ns"
  define B where "B = drop (nat k) ns"
  have ns: "ns = A @ B" by (simp add: A_def B_def)
  note l = sl_repD(1) [OF r, unfolded ns]
  have len: "int (length A) = k" using False k by (auto simp: A_def min_def)
  let ?go = "\<lambda>c n. Some (c \<le> k)" and ?stop = "\<lambda>u c. Some (c = k)"
  have "passes sl ?go ns (length A)" using len by (intro passes_rank [OF r]) auto
  then have ps: "passes sl ?go (A @ B) (length A)" by (simp add: ns)
  have m: "int (length (A @ B)) < ULONG" using sl_repD(5) [OF r] ns by simp
  have "seek sl ?go ?stop (sl_level sl) (header sl) 0 = Some (Some (last (header sl # A), k))"
  proof (cases rule: seek_all [OF l ps m, of ?stop "\<lambda>(u, c). c = k"])
    case (3 P u C)
    have "length A = length P + length C" using arg_cong [OF 3(3), of length] by simp
    then have "length C = 0" using 3(2) len by simp
    then show ?thesis using 3 by simp
  qed (use len in auto)
  moreover have "last (header sl # A) = ns ! (nat k - 1)"
  proof -
    have "A \<noteq> []" using False len by auto
    moreover have "length A = nat k" "0 < nat k" using False len k by auto
    ultimately show ?thesis by (simp add: last_conv_nth) (simp add: A_def)
  qed
  ultimately show ?thesis using False sl_repD(4) [OF r] by (simp add: slGetNodeByRank_def)
qed

lemma last_key:
  assumes "sorted (map f xs)" "k \<in> set (map f xs)"
  shows "takeWhile (\<lambda>y. f y \<le> k) xs \<noteq> []" "f (last (takeWhile (\<lambda>y. f y \<le> k) xs)) = k"
proof -
  let ?A = "takeWhile (\<lambda>y. f y \<le> k) xs"
  obtain j where j: "j < length xs" "f (xs ! j) = k" using assms(2) by (auto simp: in_set_conv_nth)
  have "f (xs ! j) \<le> k \<longleftrightarrow> j < length ?A"
    using assms(1) order_trans j(1) by (rule prefix_length)
  then have jA: "j < length ?A" using j(2) by simp
  then show ne: "?A \<noteq> []" by auto
  have "f (last ?A) \<le> k" using last_in_set [OF ne] set_takeWhileD by fast
  moreover have "sorted (map f ?A)" using assms(1) by (metis map_append sorted_append takeWhile_dropWhile_id)
  then have "f (?A ! j) \<le> f (last ?A)" using jA ne by (auto simp: last_conv_nth sorted_iff_nth_mono)
  then have "k \<le> f (last ?A)" using jA j(2) by (simp add: takeWhile_nth)
  ultimately show "f (last ?A) = k" by simp
qed

lemma slGetRank_rep:
  assumes r: "sl_rep h sl ns" and ob: "length ob < 2 ^ 31" and d: "distinct (map (snd \<circ> key_of sl) ns)"
    and k: "(sc, ob) \<in> set (map (key_of sl) ns) \<or> ob \<notin> set (map (snd \<circ> key_of sl) ns)"
  shows "slGetRank sc ob sl =
    Some (if (sc, ob) \<in> set (map (key_of sl) ns) then int (length (takeWhile (\<lambda>x. x \<le> (sc, ob)) (map (key_of sl) ns))) else 0)"
proof -
  let ?Q = "\<lambda>y. key_of sl y \<le> (sc, ob)" and ?ks = "map (key_of sl) ns"
  define A where "A = takeWhile ?Q ns"
  define B where "B = dropWhile ?Q ns"
  have ns: "ns = A @ B" by (simp add: A_def B_def)
  note l = sl_repD(1) [OF r, unfolded ns] and nd = sl_repD(2) [OF r]
  have "passes sl (upto_key sc ob) ns (length A)" unfolding A_def
    by (rule passes_prefix [OF r, where Q = "\<lambda>k. k \<le> (sc, ob)", OF order_trans upto_key_eq [OF _ _ ob]])
  then have ps: "passes sl (upto_key sc ob) (A @ B) (length A)" by (simp add: ns)
  have m: "int (length (A @ B)) < ULONG" using sl_repD(5) [OF r] ns by simp
  let ?stop = "\<lambda>x _. do { n \<leftarrow> nodes sl x; Some (case obj n of None \<Rightarrow> False | Some o' \<Rightarrow> equalslObj o' ob) }"
  let ?T = "\<lambda>(u, c :: int). u \<noteq> header sl \<and> snd (key_of sl u) = ob"
  have hd': "header sl \<notin> set A" using linkedD(1) [OF l] by auto
  have stop: "?stop u c = Some (?T (u, c))" if u: "u \<in> set (header sl # A)" for u c
  proof (cases "u = header sl")
    case True
    have "header sl \<in> dom (nodes sl)" "obj (the (nodes sl (header sl))) = None" using nd by (auto simp: noded_def)
    then show ?thesis using True by auto
  next
    case False
    then have "u \<in> set ns" using u ns by auto
    then obtain n o' where "nodes sl u = Some n" "obj n = Some o'" "length o' < 2 ^ 31" "key_of sl u = (score n, o')"
      using noded_node [OF nd] by metis
    then show ?thesis using False compareslObj_less(3) [OF _ ob, of o'] by simp
  qed
  have len: "length (takeWhile (\<lambda>x. x \<le> (sc, ob)) ?ks) = length A"
    by (simp add: A_def takeWhile_map o_def)
  show ?thesis
  proof (cases rule: seek_all [OF l ps m, of ?stop ?T])
    case (1 u c)
    then show ?case by (rule stop)
  next
    case 2
    have "(sc, ob) \<notin> set ?ks"
    proof
      assume "(sc, ob) \<in> set ?ks"
      note lk = last_key [OF sl_repD(6) [OF r] this, folded A_def]
      then have "last (header sl # A) \<in> set A" "snd (key_of sl (last (header sl # A))) = ob" by simp_all
      then show False using 2(2) hd' by auto
    qed
    then show ?thesis using 2(1) by (simp add: slGetRank_def)
  next
    case (3 P u C)
    then have u: "u \<noteq> header sl" "snd (key_of sl u) = ob" by simp_all
    obtain P' where P': "P = header sl # P'" "A = P' @ u # C" using 3(3) u(1) by (cases P) auto
    then have "u \<in> set ns" using ns by simp
    then have kin: "(sc, ob) \<in> set ?ks" using k u(2) by auto
    note lk = last_key [OF sl_repD(6) [OF r] kin, folded A_def]
    have "inj_on (snd \<circ> key_of sl) (set ns)" using d by (simp add: distinct_map)
    moreover have "last A \<in> set ns" using last_in_set [OF lk(1)] ns by auto
    moreover have "(snd \<circ> key_of sl) u = (snd \<circ> key_of sl) (last A)" using u(2) lk(2) by simp
    ultimately have "u = last A" using \<open>u \<in> set ns\<close> by (metis inj_onD)
    moreover have "distinct A" using linkedD(1) [OF l] by auto
    ultimately have "C = []" using P'(2) by (cases C rule: rev_cases) auto
    then have "length P = length A" using P' by simp
    then show ?thesis using 3(1) kin len by (simp add: slGetRank_def)
  qed
qed


section \<open>Ranges\<close>

abbreviation member_of :: "'s skiplist \<Rightarrow> nat \<Rightarrow> byte list" where
  "member_of sl y \<equiv> snd (key_of sl y)"

lemma node_at:
  assumes "sl_rep h sl ns" "ns = P @ u # S"
  obtains n where "nodes sl u = Some n" "obj n = Some (member_of sl u)" "score n = fst (key_of sl u)"
proof -
  have "u \<in> set ns" using assms(2) by simp
  then obtain n ob where "nodes sl u = Some n" "obj n = Some ob" "length ob < 2 ^ 31" "key_of sl u = (score n, ob)"
    by (rule noded_node [OF sl_repD(2) [OF assms(1)]])
  then show thesis by (intro that) simp_all
qed

lemma collect_forward:
  assumes r: "sl_rep h sl ns"
  shows "ns = P @ S \<Longrightarrow> collect sl False k (first_of S) = Some (map (member_of sl) (take k S))"
proof (induction k arbitrary: P S)
  case (Suc k)
  show ?case
  proof (cases S)
    case (Cons u S')
    then have sp: "ns = P @ u # S'" using Suc.prems by simp
    obtain n where "nodes sl u = Some n" "obj n = Some (member_of sl u)" using node_at [OF r sp] .
    moreover have "collect sl False k (first_of S') = Some (map (member_of sl) (take k S'))"
      using Suc.IH [of "P @ [u]" S'] sp by simp
    ultimately show ?thesis using next_forward [OF r sp] Cons by simp
  qed simp
qed simp

lemma collect_backward:
  assumes r: "sl_rep h sl ns"
  shows "ns = P @ S \<Longrightarrow> collect sl True k (last_of P) = Some (map (member_of sl) (take k (rev P)))"
proof (induction k arbitrary: P S)
  case (Suc k)
  show ?case
  proof (cases P rule: rev_cases)
    case (snoc P' u)
    then have sp: "ns = P' @ u # S" using Suc.prems by simp
    obtain n where "nodes sl u = Some n" "obj n = Some (member_of sl u)" using node_at [OF r sp] .
    then show ?thesis using Suc.IH [OF sp] next_backward [OF r sp] snoc by simp
  qed simp
qed simp

lemma collect_scores_forward:
  assumes r: "sl_rep h sl ns"
  shows "ns = P @ S \<Longrightarrow> collect_scores sl False s (first_of S) =
    Some (map (member_of sl) (takeWhile (\<lambda>y. fst (key_of sl y) \<le> s) S))"
proof (induction S arbitrary: P)
  case Nil
  then show ?case by (simp add: collect_scores.simps)
next
  case (Cons u S)
  obtain n where n: "nodes sl u = Some n" "obj n = Some (member_of sl u)" "score n = fst (key_of sl u)"
    using node_at [OF r Cons.prems] .
  have "ns = (P @ [u]) @ S" using Cons.prems by simp
  from Cons.IH [OF this] next_forward [OF r Cons.prems] n show ?case
    by (simp add: collect_scores.simps [of sl False s "Some u"] not_less)
qed

lemma collect_scores_backward:
  assumes r: "sl_rep h sl ns"
  shows "ns = P @ S \<Longrightarrow> collect_scores sl True s (last_of P) =
    Some (map (member_of sl) (takeWhile (\<lambda>y. s \<le> fst (key_of sl y)) (rev P)))"
proof (induction P arbitrary: S rule: rev_induct)
  case Nil
  then show ?case by (simp add: collect_scores.simps)
next
  case (snoc u P)
  have sp: "ns = P @ u # S" using snoc.prems by simp
  obtain n where n: "nodes sl u = Some n" "obj n = Some (member_of sl u)" "score n = fst (key_of sl u)"
    using node_at [OF r sp] .
  from snoc.IH [OF sp] next_backward [OF r sp] n show ?case
    by (simp add: collect_scores.simps [of sl True s "Some u"] not_less)
qed

lemma get_rank_range_rep:
  assumes r: "sl_rep h sl ns" and i: "0 \<le> i1" "i1 < INT_MAX" "0 \<le> i2" "i2 < INT_MAX"
  shows "get_rank_range i1 i2 sl = Some (map (member_of sl)
    (if i1 = 0 \<or> i1 > int (length ns) then []
     else if i1 \<le> i2 then take (nat (i2 - i1 + 1)) (drop (nat i1 - 1) ns)
     else take (nat (i1 - i2 + 1)) (rev (take (nat i1) ns))))"
proof -
  let ?out = "i1 = 0 \<or> i1 > int (length ns)"
  have mm: "i1 mod ULONG = i1" "i2 mod ULONG = i2" using i by simp_all
  have len: "s32 (i2 - i1 + 1) = i2 - i1 + 1" "s32 (i1 - i2 + 1) = i1 - i2 + 1" using i by (auto intro!: s32_id)
  have node: "slGetNodeByRank i1 sl = Some (if ?out then None else Some (ns ! (nat i1 - 1)))"
    using slGetNodeByRank_rep [OF r i(1)] .
  show ?thesis
  proof (cases ?out)
    case True
    have "collect sl b n None = Some []" for b n by (cases n) simp_all
    then show ?thesis using True node by (simp add: get_rank_range_def mm Let_def)
  next
    case False
    let ?j = "nat i1 - 1"
    have j: "?j < length ns" "nat i1 = Suc ?j" using False i(1) by auto
    have fw: "first_of (drop ?j ns) = Some (ns ! ?j)" using j by (simp add: first_of_def Cons_nth_drop_Suc [symmetric])
    have bw: "last_of (take (nat i1) ns) = Some (ns ! ?j)" by (subst j(2)) (simp only: take_Suc_conv_app_nth [OF j(1)] last_of_simps)
    show ?thesis
      using False node mm len collect_forward [OF r, of "take ?j ns" "drop ?j ns" "nat (i2 - i1 + 1)"]
        collect_backward [OF r, of "take (nat i1) ns" "drop (nat i1) ns" "nat (i1 - i2 + 1)"] fw bw
      by (simp add: get_rank_range_def Let_def)
  qed
qed


lemma sorted_fst: "sorted (map f xs) \<Longrightarrow> sorted (map (\<lambda>y. fst (f y)) (xs :: nat list))"
  for f :: "nat \<Rightarrow> 's::linorder \<times> byte list"
  by (induction xs) (auto simp: less_eq_prod_def less_imp_le)

lemma takeWhile_filter: "sorted (map g xs) \<Longrightarrow> takeWhile (\<lambda>y. g y \<le> b) xs = filter (\<lambda>y. g y \<le> b) xs"
proof (induction xs)
  case (Cons x xs)
  show ?case
  proof (cases "g x \<le> b")
    case False
    then have "\<forall>y \<in> set xs. \<not> g y \<le> b" using Cons.prems by (auto dest: order_trans)
    then show ?thesis using False by simp
  qed (use Cons in simp)
qed simp

lemma range_forward:
  "sorted (map g xs) \<Longrightarrow>
   takeWhile (\<lambda>y. g y \<le> b) (dropWhile (\<lambda>y. g y < a) xs) = filter (\<lambda>y. a \<le> g y \<and> g y \<le> b) xs"
proof (induction xs)
  case (Cons x xs)
  show ?case
  proof (cases "g x < a")
    case False
    have "filter (\<lambda>y. a \<le> g y \<and> g y \<le> b) (x # xs) = filter (\<lambda>y. g y \<le> b) (x # xs)"
      using False Cons.prems by (intro filter_cong refl) (auto simp: not_less intro: order_trans)
    then show ?thesis using False takeWhile_filter [OF Cons.prems, of b] by simp
  qed (use Cons in auto)
qed simp

lemma range_backward:
  "sorted (map g xs) \<Longrightarrow> takeWhile (\<lambda>y. a \<le> g y) (rev xs) = rev (filter (\<lambda>y. a \<le> g y) xs)"
proof (induction xs)
  case (Cons x xs)
  show ?case
  proof (cases "a \<le> g x")
    case True
    then have "\<forall>y \<in> set (x # xs). a \<le> g y" using Cons.prems by (auto intro: order_trans)
    then show ?thesis by (simp add: takeWhile_eq_all_conv [THEN iffD2])
  next
    case False
    have "takeWhile (\<lambda>y. a \<le> g y) (rev xs @ [x]) = takeWhile (\<lambda>y. a \<le> g y) (rev xs)"
      using False by (cases "\<forall>y \<in> set xs. a \<le> g y") (auto simp: takeWhile_append takeWhile_eq_all_conv [THEN iffD2])
    then show ?thesis using False Cons by simp
  qed
qed simp

lemma slIsInRange_rep:
  assumes r: "sl_rep h sl ns"
  shows "slIsInRange mn mx sl = Some (mn \<le> mx \<and> ns \<noteq> [] \<and>
    mn \<le> fst (key_of sl (last ns)) \<and> fst (key_of sl (hd ns)) \<le> mx)"
proof (cases "ns = []")
  case True
  then show ?thesis using sl_repD(2) [OF r] by (simp add: slIsInRange_def noded_def not_le)
next
  case False
  then have t: "sl_tail sl = Some (last ns)" using sl_repD(2) [OF r] by (simp add: noded_def)
  obtain nl where nl: "nodes sl (last ns) = Some nl" "score nl = fst (key_of sl (last ns))"
    using node_at [OF r, of "butlast ns" "last ns" "[]"] False by auto
  obtain nh where nh: "nodes sl (hd ns) = Some nh" "score nh = fst (key_of sl (hd ns))"
    using node_at [OF r, of "[]" "hd ns" "tl ns"] False by auto
  obtain sp where "cells sl (header sl, 0) = Some (Some (hd ns), sp)"
    using cell_0 [OF r, of "[]" "header sl" ns] False by (cases ns) auto
  then show ?thesis using t nl nh False by (auto simp: slIsInRange_def not_less)
qed

lemma slFirstInRange_rep:
  assumes r: "sl_rep h sl ns"
  shows "slFirstInRange mn mx sl =
    Some (if mn \<le> mx \<and> ns \<noteq> [] \<and> mn \<le> fst (key_of sl (last ns)) \<and> fst (key_of sl (hd ns)) \<le> mx
          then first_of (dropWhile (\<lambda>y. fst (key_of sl y) < mn) ns) else None)"
proof -
  let ?Q = "\<lambda>y. fst (key_of sl y) < mn"
  define A where "A = takeWhile ?Q ns"
  define B where "B = dropWhile ?Q ns"
  have ns: "ns = A @ B" by (simp add: A_def B_def)
  note l = sl_repD(1) [OF r, unfolded ns]
  let ?go = "\<lambda>(c :: int) n. Some (score n < mn)"
  have "passes sl ?go ns (length A)" unfolding A_def
    by (rule passes_prefix [OF r, where Q = "\<lambda>k. fst k < mn"]) (auto simp: less_eq_prod_def)
  then have ps: "passes sl ?go (A @ B) (length A)" by (simp add: ns)
  have m: "int (length (A @ B)) < ULONG" using sl_repD(5) [OF r] ns by simp
  obtain us where us: "descend sl ULONG ?go (sl_level sl) (header sl) 0 =
      Some (last (header sl # A), int (length A), us)" using descend_all [OF l ps m] by blast
  have "header sl # ns = butlast (header sl # A) @ last (header sl # A) # B"
    using ns by (simp add: append_butlast_last_id del: last.simps butlast.simps)
  then obtain sp where "cells sl (last (header sl # A), 0) = Some (first_of B, sp)" using cell_0 [OF r] by blast
  then show ?thesis using us slIsInRange_rep [OF r, of mn mx] by (simp add: slFirstInRange_def B_def del: last.simps)
qed

lemma slLastInRange_rep:
  assumes r: "sl_rep h sl ns"
  shows "slLastInRange mn mx sl =
    Some (if mn \<le> mx \<and> ns \<noteq> [] \<and> mn \<le> fst (key_of sl (last ns)) \<and> fst (key_of sl (hd ns)) \<le> mx
          then last_of (takeWhile (\<lambda>y. fst (key_of sl y) \<le> mx) ns) else None)"
proof -
  let ?Q = "\<lambda>y. fst (key_of sl y) \<le> mx"
  define A where "A = takeWhile ?Q ns"
  define B where "B = dropWhile ?Q ns"
  have ns: "ns = A @ B" by (simp add: A_def B_def)
  note l = sl_repD(1) [OF r, unfolded ns]
  let ?go = "\<lambda>(c :: int) n. Some (score n \<le> mx)"
  have "passes sl ?go ns (length A)" unfolding A_def
    by (rule passes_prefix [OF r, where Q = "\<lambda>k. fst k \<le> mx"]) (auto simp: less_eq_prod_def)
  then have ps: "passes sl ?go (A @ B) (length A)" by (simp add: ns)
  have m: "int (length (A @ B)) < ULONG" using sl_repD(5) [OF r] ns by simp
  obtain us where us: "descend sl ULONG ?go (sl_level sl) (header sl) 0 =
      Some (last (header sl # A), int (length A), us)" using descend_all [OF l ps m] by blast
  have "A \<noteq> []" if "ns \<noteq> []" "fst (key_of sl (hd ns)) \<le> mx" using that by (cases ns) (auto simp: A_def)
  then show ?thesis using us slIsInRange_rep [OF r, of mn mx]
    by (auto simp: slLastInRange_def A_def [symmetric] last_of_def)
qed

lemma range_bounds:
  assumes "sorted (map g ns)" "y \<in> set ns"
  shows "g (hd ns) \<le> g y" "g y \<le> g (last ns)"
proof -
  obtain i where i: "i < length ns" "y = ns ! i" using assms(2) by (auto simp: in_set_conv_nth)
  have "ns \<noteq> []" using assms(2) by auto
  with i show "g (hd ns) \<le> g y" "g y \<le> g (last ns)"
    using sorted_nth_mono [OF assms(1), of 0 i] sorted_nth_mono [OF assms(1), of i "length ns - 1"]
    by (simp_all add: hd_conv_nth last_conv_nth)
qed

lemma get_score_range_rep:
  assumes r: "sl_rep h sl ns"
  shows "get_score_range s1 s2 sl = Some (map (member_of sl)
    (if s1 \<le> s2 then filter (\<lambda>y. s1 \<le> fst (key_of sl y) \<and> fst (key_of sl y) \<le> s2) ns
     else rev (filter (\<lambda>y. s2 \<le> fst (key_of sl y) \<and> fst (key_of sl y) \<le> s1) ns)))"
proof -
  let ?g = "\<lambda>y. fst (key_of sl y)"
  have srt: "sorted (map ?g ns)" using sorted_fst [OF sl_repD(6) [OF r]] .
  have none: "collect_scores sl b s None = Some []" for b s by (simp add: collect_scores.simps)
  note bounds = range_bounds [OF srt]
  have out: "filter (\<lambda>y. a \<le> ?g y \<and> ?g y \<le> b) ns = []"
    if "\<not> (ns \<noteq> [] \<and> a \<le> ?g (last ns) \<and> ?g (hd ns) \<le> b)" for a b
    using that bounds by (auto simp: filter_empty_conv) (meson order_trans)+
  show ?thesis
  proof (cases "s1 \<le> s2")
    case True
    have "collect_scores sl False s2 (first_of (dropWhile (\<lambda>y. ?g y < s1) ns)) =
        Some (map (member_of sl) (filter (\<lambda>y. s1 \<le> ?g y \<and> ?g y \<le> s2) ns))"
      unfolding range_forward [OF srt, symmetric]
      by (rule collect_scores_forward [OF r, of "takeWhile (\<lambda>y. ?g y < s1) ns"]) simp
    then show ?thesis using True slFirstInRange_rep [OF r, of s1 s2] none out [of s1 s2]
      by (auto simp: get_score_range_def)
  next
    case False
    let ?A = "takeWhile (\<lambda>y. ?g y \<le> s1) ns"
    have A: "?A = filter (\<lambda>y. ?g y \<le> s1) ns" using takeWhile_filter [OF srt] .
    have "sorted (map ?g ?A)" using srt by (metis map_append sorted_append takeWhile_dropWhile_id)
    then have "takeWhile (\<lambda>y. s2 \<le> ?g y) (rev ?A) = rev (filter (\<lambda>y. s2 \<le> ?g y) ?A)" by (rule range_backward)
    also have "filter (\<lambda>y. s2 \<le> ?g y) ?A = filter (\<lambda>y. s2 \<le> ?g y \<and> ?g y \<le> s1) ns"
      unfolding A by (simp add: conj_commute)
    finally have "collect_scores sl True s2 (last_of ?A) =
        Some (map (member_of sl) (rev (filter (\<lambda>y. s2 \<le> ?g y \<and> ?g y \<le> s1) ns)))"
      using collect_scores_backward [OF r, of ?A "dropWhile (\<lambda>y. ?g y \<le> s1) ns" s2] by simp
    then show ?thesis using False slLastInRange_rep [OF r, of s2 s1] none out [of s2 s1]
      by (auto simp: get_score_range_def)
  qed
qed


lemma free_nodes_all:
  "distinct ns \<Longrightarrow> (\<And>P u S. ns = P @ u # S \<Longrightarrow> \<exists>sp n ob. cells sl (u, 0) = Some (first_of S, sp) \<and>
     nodes sl u = Some n \<and> obj n = Some ob) \<Longrightarrow>
   \<exists>sl'. free_nodes sl (first_of ns) = Some sl' \<and> (\<forall>y. nodes sl' y = (if y \<in> set ns then None else nodes sl y)) \<and>
     (\<forall>y i. cells sl' (y, i) = (if y \<in> set ns then None else cells sl (y, i)))"
proof (induction ns arbitrary: sl)
  case Nil
  then show ?case by (simp add: free_nodes.simps)
next
  case (Cons u S)
  have "\<exists>sp n ob. cells (slFreeNode u sl) (v, 0) = Some (first_of S', sp) \<and>
      nodes (slFreeNode u sl) v = Some n \<and> obj n = Some ob" if "S = P @ v # S'" for P v S'
    using Cons.prems(2) [of "u # P" v S'] Cons.prems(1) that by (auto simp: slFreeNode_def)
  then obtain sl' where "free_nodes (slFreeNode u sl) (first_of S) = Some sl'"
    "\<forall>y. nodes sl' y = (if y \<in> set S then None else nodes (slFreeNode u sl) y)"
    "\<forall>y i. cells sl' (y, i) = (if y \<in> set S then None else cells (slFreeNode u sl) (y, i))"
    using Cons.IH [of "slFreeNode u sl"] Cons.prems(1) by auto
  moreover obtain sp n ob where "cells sl (u, 0) = Some (first_of S, sp)" "nodes sl u = Some n" "obj n = Some ob"
    using Cons.prems(2) [of "[]" u S] by auto
  ultimately show ?case by (subst free_nodes.simps) (auto simp: slFreeNode_def)
qed

lemma slFree_rep:
  assumes r: "sl_rep h sl ns"
  shows "\<exists>sl'. slFree sl = Some sl' \<and> nodes sl' = Map.empty \<and> cells sl' = Map.empty"
proof -
  note l = sl_repD(1) [OF r]
  let ?sl = "slFreeNode (header sl) sl"
  have d: "distinct ns" "header sl \<notin> set ns" using linkedD(1) [OF l] by simp_all
  have "\<exists>sp n ob. cells ?sl (u, 0) = Some (first_of S, sp) \<and> nodes ?sl u = Some n \<and> obj n = Some ob"
    if ns: "ns = P @ u # S" for P u S
  proof -
    obtain sp where "cells sl (u, 0) = Some (first_of S, sp)" using cell_0 [OF r, of "header sl # P" u S] ns by auto
    moreover obtain n where "nodes sl u = Some n" "obj n = Some (member_of sl u)" using node_at [OF r ns] .
    ultimately show ?thesis using d ns by (auto simp: slFreeNode_def)
  qed
  then obtain sl' where s: "free_nodes ?sl (first_of ns) = Some sl'"
    "\<And>y. nodes sl' y = (if y \<in> set ns then None else nodes ?sl y)"
    "\<And>y i. cells sl' (y, i) = (if y \<in> set ns then None else cells ?sl (y, i))"
    using free_nodes_all [OF d(1), of ?sl] by blast
  obtain sp where "cells sl (header sl, 0) = Some (first_of ns, sp)" using cell_0 [OF r, of "[]"] by auto
  then have free: "slFree sl = Some sl'" using s(1) by (simp add: slFree_def)
  have "nodes sl' y = None" for y
    using s(2) [of y] sl_repD(2) [OF r] by (auto simp: slFreeNode_def noded_def split: if_splits)
  moreover have "cells sl' (y, i) = None" for y i
    using s(3) [of y i] linkedD(2) [OF l, of y i] by (cases "cells sl (y, i)") (auto simp: slFreeNode_def split: if_splits)
  ultimately show ?thesis using free by (auto simp: fun_eq_iff)
qed

section \<open>The ordered set\<close>

text \<open>What the object promises: a list sorted by score and then by object. The levels and the fresh memory of
  an insertion do not show.\<close>

fun zset_spec :: "('s::linorder \<times> byte list) list \<Rightarrow> 's zset_op \<Rightarrow> zset_out \<times> ('s \<times> byte list) list" where
  "zset_spec ks (Insert raw rs sc ob) = (Nothing, insort (sc, ob) ks)"
| "zset_spec ks (Delete sc ob) = (Boolean ((sc, ob) \<in> set ks), remove1 (sc, ob) ks)"
| "zset_spec ks (DeleteByRank i1 i2) =
     (let lo = nat (min (i1 mod UINT) (i2 mod UINT)) - 1; hi = nat (max (i1 mod UINT) (i2 mod UINT));
          gone = take (hi - lo) (drop lo (map snd ks))
      in (Deleted (int (length gone)) gone, take lo ks @ drop hi ks))"
| "zset_spec ks GetCount = (Count (int (length ks)), ks)"
| "zset_spec ks (GetRank sc ob) =
     (if (sc, ob) \<in> set ks then Count (int (length (filter (\<lambda>k. k \<le> (sc, ob)) ks))) else Nothing, ks)"
| "zset_spec ks (GetRankRange i1 i2) =
     (Members (if i1 = 0 \<or> i1 > int (length ks) then []
        else if i1 \<le> i2 then take (nat (i2 - i1 + 1)) (drop (nat i1 - 1) (map snd ks))
        else take (nat (i1 - i2 + 1)) (rev (take (nat i1) (map snd ks)))), ks)"
| "zset_spec ks (GetScoreRange s1 s2) =
     (Members (if s1 \<le> s2 then map snd (filter (\<lambda>k. s1 \<le> fst k \<and> fst k \<le> s2) ks)
        else rev (map snd (filter (\<lambda>k. s2 \<le> fst k \<and> fst k \<le> s1) ks))), ks)"
| "zset_spec ks (GetMemberByRank i) =
     (if 1 \<le> i \<and> i \<le> int (length ks) then Member (snd (ks ! (nat i - 1))) else Nothing, ks)"

text \<open>The calls the promise covers: an object is in the set at most once, as the Lua module above keeps it; a rank
  is asked for with the score the object has, or for an object that is not there; objects are
  shorter than 2 GB and the set has fewer than \<^term>\<open>UINT\<close> of them; the flips of an insertion end.\<close>

fun zset_ok :: "('s::linorder \<times> byte list) list \<Rightarrow> 's zset_op \<Rightarrow> bool" where
  "zset_ok ks (Insert raw rs sc ob) \<longleftrightarrow>
     ob \<notin> snd ` set ks \<and> length ob < 2 ^ 31 \<and> slRandomLevel rs \<noteq> None \<and> int (length ks) + 1 < UINT"
| "zset_ok ks (Delete sc ob) \<longleftrightarrow> length ob < 2 ^ 31"
| "zset_ok ks (GetRank sc ob) \<longleftrightarrow> length ob < 2 ^ 31 \<and> ((sc, ob) \<in> set ks \<or> ob \<notin> snd ` set ks)"
| "zset_ok ks (GetRankRange i1 i2) \<longleftrightarrow> 0 \<le> i1 \<and> i1 < INT_MAX \<and> 0 \<le> i2 \<and> i2 < INT_MAX"
| "zset_ok ks (GetMemberByRank i) \<longleftrightarrow> - (2 ^ 63) \<le> i \<and> i < 2 ^ 63"
| "zset_ok ks (DeleteByRank i1 i2) \<longleftrightarrow> True"
| "zset_ok ks GetCount \<longleftrightarrow> True"
| "zset_ok ks (GetScoreRange s1 s2) \<longleftrightarrow> True"

text \<open>A skip list stands for a sorted list.\<close>

definition zset_rep :: "'s::linorder skiplist \<Rightarrow> ('s \<times> byte list) list \<Rightarrow> bool" where
  "zset_rep sl ks \<longleftrightarrow> (\<exists>h ns. sl_rep h sl ns \<and> ks = map (key_of sl) ns) \<and> distinct (map snd ks)"

lemma zset_repE:
  assumes "zset_rep sl ks"
  obtains h ns where "sl_rep h sl ns" "ks = map (key_of sl) ns" "distinct (map (snd \<circ> key_of sl) ns)"
  using assms unfolding zset_rep_def by auto

lemma zset_repI: "sl_rep h sl ns \<Longrightarrow> map (key_of sl) ns = ks \<Longrightarrow> distinct (map snd ks) \<Longrightarrow> zset_rep sl ks"
  unfolding zset_rep_def by blast

lemma slCreate_rep: "zset_rep (slCreate zero raw) []"
proof -
  let ?sl = "slCreate zero raw" and ?h = "\<lambda>_ :: nat. SKIPLIST_MAXLEVEL"
  have "linked ?h (header ?sl) (sl_level ?sl) (cells ?sl) []"
    by (auto simp: linked_def slCreate_def slCreateNode_def Let_def SKIPLIST_MAXLEVEL_def Cons_eq_append_conv)
  moreover have "noded ?sl []"
    by (auto simp: noded_def slCreate_def slCreateNode_def Let_def split: if_splits)
  moreover have "header ?sl < brk ?sl" "sl_length ?sl = 0" by (simp_all add: slCreate_def slCreateNode_def Let_def)
  ultimately have "sl_rep ?h ?sl []" by (simp add: sl_rep_def)
  then show ?thesis by (rule zset_repI) simp_all
qed

lemma distinct_insort_snd: "distinct (map snd (insort x xs)) = distinct (map snd (x # xs))"
  by (induction xs) (auto simp: set_insort_key)

lemma distinct_remove1_snd: "distinct (map snd xs) \<Longrightarrow> distinct (map snd (remove1 x xs))"
  by (induction xs) (auto dest: notin_set_remove1 simp: image_iff)

lemma distinct_cut: "distinct (map f xs) \<Longrightarrow> lo \<le> hi \<Longrightarrow> distinct (map f (take lo xs @ drop hi xs))"
  using set_take_disj_set_drop_if_distinct [of "map f xs" lo hi]
  by (simp add: take_map [symmetric] drop_map [symmetric])


text \<open>Each method, on a skip list that stands for a sorted list.\<close>

lemma zset_insert:
  assumes r: "zset_rep sl ks" and ok: "zset_ok ks (Insert raw rs sc ob)"
  shows "\<exists>sl'. zset_call sl (Insert raw rs sc ob) = Some (Nothing, sl') \<and> zset_rep sl' (insort (sc, ob) ks)"
proof -
  obtain h ns where s: "sl_rep h sl ns" "ks = map (key_of sl) ns" using zset_repE [OF r] .
  obtain lv where lv: "slRandomLevel rs = Some lv" using ok by auto
  have "distinct (map snd (insort (sc, ob) ks))"
    using r ok by (auto simp: distinct_insort_snd zset_rep_def)
  moreover obtain sl' ns' where "slInsert raw rs sc ob sl = Some sl'" "sl_rep (h(brk sl := lv)) sl' ns'"
    "map (key_of sl') ns' = insort (sc, ob) ks"
    using slInsert_rep [OF s(1) _ _ lv, of ob raw sc] ok s(2) by auto
  ultimately show ?thesis by (auto intro: zset_repI)
qed

lemma zset_delete:
  assumes r: "zset_rep sl ks" and ob: "length ob < 2 ^ 31"
  shows "\<exists>sl'. zset_call sl (Delete sc ob) = Some (Boolean ((sc, ob) \<in> set ks), sl') \<and> zset_rep sl' (remove1 (sc, ob) ks)"
proof -
  obtain h ns where s: "sl_rep h sl ns" "ks = map (key_of sl) ns" using zset_repE [OF r] .
  have "distinct (map snd (remove1 (sc, ob) ks))"
    using r by (intro distinct_remove1_snd) (simp add: zset_rep_def)
  moreover obtain sl' ns' where "slDelete sc ob sl = Some ((sc, ob) \<in> set ks, sl')" "sl_rep h sl' ns'"
    "map (key_of sl') ns' = remove1 (sc, ob) ks"
    using slDelete_rep [OF s(1) ob, of sc] unfolding s(2) by blast
  ultimately show ?thesis by (auto intro: zset_repI)
qed

lemma zset_delete_by_rank:
  assumes r: "zset_rep sl ks"
  shows "\<exists>sl'. zset_call sl (DeleteByRank i1 i2) = Some (fst (zset_spec ks (DeleteByRank i1 i2)), sl') \<and>
    zset_rep sl' (snd (zset_spec ks (DeleteByRank i1 i2)))"
proof -
  obtain h ns where s: "sl_rep h sl ns" "ks = map (key_of sl) ns" using zset_repE [OF r] .
  define a where "a = min (i1 mod UINT) (i2 mod UINT)"
  define b where "b = max (i1 mod UINT) (i2 mod UINT)"
  have ab: "0 \<le> a" "a \<le> b" by (simp_all add: a_def b_def)
  have del: "delete_by_rank i1 i2 sl = slDeleteByRank a b sl"
    by (auto simp: delete_by_rank_def Let_def a_def b_def min_def max_def)
  obtain sl' ns' where "slDeleteByRank a b sl =
      Some (take (nat b - (nat a - 1)) (drop (nat a - 1) (map snd ks)), sl')" "sl_rep h sl' ns'"
    "map (key_of sl') ns' = take (nat a - 1) ks @ drop (nat b) ks"
    using slDeleteByRank_rep [OF s(1) ab] unfolding s(2) map_map by blast
  moreover have "distinct (map snd (take (nat a - 1) ks @ drop (nat b) ks))"
    using r ab by (intro distinct_cut) (auto simp: zset_rep_def)
  ultimately show ?thesis
    unfolding zset_call.simps del zset_spec.simps a_def [symmetric] b_def [symmetric]
    by (auto simp: Let_def intro: zset_repI)
qed

text \<open>The methods that only look.\<close>

lemma zset_get_rank:
  assumes r: "zset_rep sl ks" and ok: "zset_ok ks (GetRank sc ob)"
  shows "zset_call sl (GetRank sc ob) = Some (fst (zset_spec ks (GetRank sc ob)), sl)"
proof -
  obtain h ns where s: "sl_rep h sl ns" "ks = map (key_of sl) ns" "distinct (map (snd \<circ> key_of sl) ns)"
    using zset_repE [OF r] .
  have k: "(sc, ob) \<in> set (map (key_of sl) ns) \<or> ob \<notin> set (map (snd \<circ> key_of sl) ns)"
    using ok s(2) by (auto simp: image_comp)
  have "length ob < 2 ^ 31" using ok by simp
  note rank = slGetRank_rep [OF s(1) this s(3) k, folded s(2)]
  have tw: "takeWhile (\<lambda>x. x \<le> (sc, ob)) ks = filter (\<lambda>x. x \<le> (sc, ob)) ks"
    using takeWhile_filter [of "\<lambda>x. x" ks "(sc, ob)"] sl_repD(6) [OF s(1)] s(2) by simp
  have "filter (\<lambda>x. x \<le> (sc, ob)) ks \<noteq> []" if "(sc, ob) \<in> set ks" using that by (auto simp: filter_empty_conv)
  then show ?thesis using rank tw by simp
qed

lemma zset_get_member:
  assumes r: "zset_rep sl ks" and i: "- (2 ^ 63) \<le> i" "i < 2 ^ 63"
  shows "zset_call sl (GetMemberByRank i) = Some (fst (zset_spec ks (GetMemberByRank i)), sl)"
proof -
  obtain h ns where s: "sl_rep h sl ns" "ks = map (key_of sl) ns" using zset_repE [OF r] .
  have len: "int (length ns) < UINT" using sl_repD(5) [OF s(1)] .
  have node: "slGetNodeByRank (i mod ULONG) sl =
      Some (if i mod ULONG = 0 \<or> i mod ULONG > int (length ns) then None else Some (ns ! (nat (i mod ULONG) - 1)))"
    by (rule slGetNodeByRank_rep [OF s(1)]) simp
  show ?thesis
  proof (cases "1 \<le> i \<and> i \<le> int (length ns)")
    case True
    then have m: "i mod ULONG = i" using len by simp
    have "nat i - 1 < length ns" using True by auto
    note at = id_take_nth_drop [OF this]
    obtain n where "nodes sl (ns ! (nat i - 1)) = Some n" "obj n = Some (member_of sl (ns ! (nat i - 1)))"
      using node_at [OF s(1) at] .
    then show ?thesis using True node m s(2) by (auto simp: get_member_by_rank_def)
  next
    case False
    then have "i mod ULONG = 0 \<or> i mod ULONG > int (length ns)"
    proof (cases "i < 0")
      case True
      then have "i mod ULONG = i + ULONG" using i(1) mod_pos_pos_trivial [of "i + ULONG" ULONG] by simp
      then show ?thesis using i(1) len by simp
    next
      case 2: False
      then have "i mod ULONG = i" using i(2) by simp
      then show ?thesis using False 2 by auto
    qed
    then show ?thesis using False node s(2) by (auto simp: get_member_by_rank_def)
  qed
qed

lemma zset_look:
  assumes r: "zset_rep sl ks" and ok: "zset_ok ks c"
    and c: "\<exists>i1 i2 s1 s2. c = GetCount \<or> c = GetRankRange i1 i2 \<or> c = GetScoreRange s1 s2"
  shows "zset_call sl c = Some (fst (zset_spec ks c), sl)"
proof -
  obtain h ns where s: "sl_rep h sl ns" "ks = map (key_of sl) ns" using zset_repE [OF r] .
  have "map (member_of sl) ns = map snd ks" using s(2) by simp
  moreover have "map (member_of sl) (filter (\<lambda>y. a \<le> fst (key_of sl y) \<and> fst (key_of sl y) \<le> b) ns) =
      map snd (filter (\<lambda>k. a \<le> fst k \<and> fst k \<le> b) ks)" for a b
    using s(2) by (simp add: filter_map o_def)
  ultimately show ?thesis using c ok sl_repD(4) [OF s(1)] get_rank_range_rep [OF s(1)] get_score_range_rep [OF s(1)] s(2)
    by (auto simp: o_def simp flip: take_map drop_map rev_map)
qed

lemma zset_sim:
  assumes r: "zset_rep sl ks" and ok: "zset_ok ks c"
  shows "\<exists>sl'. zset_call sl c = Some (fst (zset_spec ks c), sl') \<and> zset_rep sl' (snd (zset_spec ks c))"
proof (cases c)
  case (Insert raw rs sc ob)
  then show ?thesis using zset_insert [OF r ok [unfolded Insert]] by (simp del: zset_call.simps)
next
  case (Delete sc ob)
  then show ?thesis using zset_delete [OF r, of ob sc] ok by (simp del: zset_call.simps)
next
  case (DeleteByRank i1 i2)
  then show ?thesis using zset_delete_by_rank [OF r] by (simp del: zset_call.simps zset_spec.simps)
next
  case (GetRank sc ob)
  then show ?thesis using zset_get_rank [OF r ok [unfolded GetRank]] r by (simp del: zset_call.simps)
next
  case (GetMemberByRank i)
  then show ?thesis using zset_get_member [OF r, of i] ok r by (simp del: zset_call.simps)
qed (use zset_look [OF r ok] r in \<open>simp_all del: zset_call.simps\<close>)

interpretation zs: simulation zset_rep zset_ok zset_call zset_spec
  by unfold_locales (rule zset_sim)


section \<open>Sessions\<close>

text \<open>[C3] Any sequence of method calls on a fresh ordered set that keeps objects unique returns, and the results
  are those of the sorted list: the elements in order, the ranks, the ranges in both directions, the objects a
  deletion hands to the callback, whatever levels the insertions drew.\<close>

theorem skiplist_refines:
  fixes zero :: "'s::linorder"
  assumes "ops_ok zset_ok zset_spec [] cs"
  shows "\<exists>sl. run_ops zset_call (slCreate zero raw) cs = Some (fst (run_spec zset_spec [] cs), sl)"
  using zs.run_refines [OF slCreate_rep assms] by blast

abbreviation raw0 :: "int skiplistNode \<times> skiplistLevel" where
  "raw0 \<equiv> (\<lparr>obj = None, score = 99, backward = Some 7\<rparr>, (Some 8, 9))"

abbreviation board :: "int zset_op list" where
  "board \<equiv> [Insert raw0 [40000] 5 [1], Insert raw0 [0, 40000] 1 [2], Insert raw0 [40000] 3 [3]]"

theorem skiplist_refines_witness:
  "\<exists>sl. run_ops zset_call (slCreate 0 raw0) (board @ [GetRank 5 [1], Delete 3 [3], GetRankRange 2 1, DeleteByRank 1 1]) =
     Some ([Nothing, Nothing, Nothing, Count 3, Boolean True, Members [[1], [2]], Deleted 1 [[2]]], sl)"
  using skiplist_refines [of "board @ [GetRank 5 [1], Delete 3 [3], GetRankRange 2 1, DeleteByRank 1 1]" 0 raw0]
  by (simp add: slRandomLevel_def SKIPLIST_MAXLEVEL_def Let_def del: zset_call.simps)

text \<open>[C14] After any such sequence the memory is a skip list: the live nodes are the header and one per element, in
  order; every level links the nodes that are high enough, with spans that count the elements they
  skip; the back pointers and the tail agree with the order, and the length is right.\<close>

theorem skiplist_invariant:
  fixes zero :: "'s::linorder"
  assumes "ops_ok zset_ok zset_spec [] cs" "run_ops zset_call (slCreate zero raw) cs = Some (outs, sl)"
  shows "\<exists>h ns. linked h (header sl) (sl_level sl) (cells sl) ns \<and> noded sl ns \<and> sl_length sl = int (length ns) \<and>
    map (key_of sl) ns = snd (run_spec zset_spec [] cs) \<and> sorted (map (key_of sl) ns)"
proof -
  have "zset_rep sl (snd (run_spec zset_spec [] cs))"
    using zs.run_refines [OF slCreate_rep assms(1), of zero raw] assms(2) by auto
  then obtain h ns where r: "sl_rep h sl ns" "snd (run_spec zset_spec [] cs) = map (key_of sl) ns" by (rule zset_repE)
  then show ?thesis using sl_repD [OF r(1)] by auto
qed

theorem skiplist_invariant_witness:
  "\<exists>outs sl h ns. run_ops zset_call (slCreate 0 raw0) board = Some (outs, sl) \<and>
     linked h (header sl) (sl_level sl) (cells sl) ns \<and> noded sl ns \<and> map (key_of sl) ns = [(1, [2]), (3, [3]), (5, [1])]"
proof -
  have ok: "ops_ok zset_ok zset_spec [] board" by (simp add: slRandomLevel_def SKIPLIST_MAXLEVEL_def)
  obtain outs sl where run: "run_ops zset_call (slCreate 0 raw0) board = Some (outs, sl)"
    using zs.run_refines [OF slCreate_rep ok] by blast
  show ?thesis using skiplist_invariant [OF ok run] run by fastforce
qed

text \<open>[C25] Collecting a set after any such sequence returns, touches no freed node on the way, and leaves no node
  and no level behind.\<close>

theorem slFree_frees_all:
  fixes zero :: "'s::linorder"
  assumes "ops_ok zset_ok zset_spec [] cs" "run_ops zset_call (slCreate zero raw) cs = Some (outs, sl)"
  shows "\<exists>sl'. slFree sl = Some sl' \<and> nodes sl' = Map.empty \<and> cells sl' = Map.empty"
proof -
  have "zset_rep sl (snd (run_spec zset_spec [] cs))"
    using zs.run_refines [OF slCreate_rep assms(1), of zero raw] assms(2) by auto
  then obtain h ns where "sl_rep h sl ns" by (rule zset_repE)
  then show ?thesis by (rule slFree_rep)
qed

theorem slFree_frees_all_witness:
  "\<exists>outs sl sl'. run_ops zset_call (slCreate 0 raw0) board = Some (outs, sl) \<and> slFree sl = Some sl' \<and>
     nodes sl' = Map.empty \<and> cells sl' = Map.empty"
proof -
  have ok: "ops_ok zset_ok zset_spec [] board" by (simp add: slRandomLevel_def SKIPLIST_MAXLEVEL_def)
  obtain outs sl where run: "run_ops zset_call (slCreate 0 raw0) board = Some (outs, sl)"
    using zs.run_refines [OF slCreate_rep ok] by blast
  show ?thesis using slFree_frees_all [OF ok run] run by blast
qed

text \<open>When a set has scores below and above a range but none inside, \<^verbatim>\<open>slFirstInRange\<close> still returns a node, the
  first one above the range, although its comment promises NULL when no element is in the range.\<close>

theorem first_in_range_gap:
  assumes r: "zset_rep sl ks" and m: "mn \<le> mx" and below: "k1 \<in> set ks" "fst k1 < mn" and above: "k2 \<in> set ks" "mx < fst k2"
    and gap: "\<And>k. k \<in> set ks \<Longrightarrow> fst k < mn \<or> mx < fst k"
  shows "\<exists>x n. slFirstInRange mn mx sl = Some (Some x) \<and> nodes sl x = Some n \<and> mx < score n"
proof -
  obtain h ns where s: "sl_rep h sl ns" "ks = map (key_of sl) ns" using zset_repE [OF r] .
  let ?g = "\<lambda>y. fst (key_of sl y)"
  have srt: "sorted (map ?g ns)" using sorted_fst [OF sl_repD(6) [OF s(1)]] .
  obtain y1 y2 where y: "y1 \<in> set ns" "?g y1 < mn" "y2 \<in> set ns" "mx < ?g y2" using below above s(2) by auto
  have ne: "dropWhile (\<lambda>y. ?g y < mn) ns \<noteq> []"
    using y(3,4) m by (auto simp: dropWhile_eq_Nil_conv not_less intro!: bexI [of _ y2])
  define x where "x = hd (dropWhile (\<lambda>y. ?g y < mn) ns)"
  have x: "x \<in> set ns" "\<not> ?g x < mn" using hd_in_set [OF ne] hd_dropWhile [OF ne] set_dropWhileD by (auto simp: x_def)
  then have gx: "mx < ?g x" using gap [of "key_of sl x"] s(2) by auto
  have "mn \<le> ?g (last ns)" "?g (hd ns) \<le> mx"
    using range_bounds [OF srt y(3)] range_bounds [OF srt y(1)] y(2,4) m by auto
  then have "slFirstInRange mn mx sl = Some (Some x)"
    using slFirstInRange_rep [OF s(1), of mn mx] m y(1) ne by (auto simp: first_of_def x_def split: list.splits)
  moreover obtain P S where "ns = P @ x # S" using split_list [OF x(1)] by blast
  then obtain n where "nodes sl x = Some n" "score n = ?g x" using node_at [OF s(1)] by blast
  ultimately show ?thesis using gx by auto
qed

theorem first_in_range_gap_witness:
  "\<exists>(sl :: int skiplist) x n. zset_rep sl [(1, [2]), (5, [1])] \<and> slFirstInRange 2 3 sl = Some (Some x) \<and>
     nodes sl x = Some n \<and> 3 < score n"
proof -
  let ?ins = "[Insert raw0 [40000] 5 [1], Insert raw0 [0, 40000] 1 [2]]"
  have ok: "ops_ok zset_ok zset_spec [] ?ins" by (simp add: slRandomLevel_def SKIPLIST_MAXLEVEL_def)
  obtain sl where r: "zset_rep sl (snd (run_spec zset_spec [] ?ins))"
    using zs.run_refines [OF slCreate_rep ok, of 0 raw0] by blast
  then have r: "zset_rep sl [(1, [2]), (5, [1])]" by simp
  have "\<exists>x n. slFirstInRange 2 3 sl = Some (Some x) \<and> nodes sl x = Some n \<and> 3 < score n"
    by (rule first_in_range_gap [OF r, of 2 3 "(1, [2])" "(5, [1])"]) auto
  then show ?thesis using r by blast
qed

end
