(* ===== verification/AoiMap.thy ===== *)
theory AoiMap
  imports Interfaces Chains "HOL-Library.Monad_Syntax"
begin

text \<open>
  The object map of the area-of-interest library, \<^verbatim>\<open>src/lualib-src/skynet_aoi/aoi/aoi.c\<close>: a hash table with chains
  that maps the id of an object to its address. A dropped object leaves its id in the slot, with no object. The id
  of a free slot is \<^verbatim>\<open>INVALID_ID\<close>. The table lives in memory of the space's allocator, which counts what it
  hands out (\<^verbatim>\<open>my_alloc\<close> of \<^verbatim>\<open>service_aoi.c\<close>, \<^verbatim>\<open>aoi_alloc\<close> of \<^verbatim>\<open>lua-aoi.c\<close>); the sizes are those of a 64-bit machine.

  Loops along a chain carry as many steps as there are slots, and an insertion carries its recursion depth, which
  never exceeds four; the lemmas show that neither runs out. No result means an access outside the table, the
  failed assertion, or fuel that ran out.
\<close>

unbundle bit_operations_syntax

section \<open>The counting allocator\<close>

record alloc_cookie =
  al_count :: int
  al_max :: int
  al_current :: int

definition my_alloc :: "int \<Rightarrow> alloc_cookie \<Rightarrow> alloc_cookie" where
  "my_alloc sz c =
     (let c1 = c\<lparr>al_count := s32 (al_count c + 1), al_current := s32 (al_current c + sz)\<rparr>
      in if al_max c1 < al_current c1 then c1\<lparr>al_max := al_current c1\<rparr> else c1)"

definition my_free :: "int \<Rightarrow> alloc_cookie \<Rightarrow> alloc_cookie" where
  "my_free sz c = c\<lparr>al_count := s32 (al_count c - 1), al_current := s32 (al_current c - sz)\<rparr>"

section \<open>The map\<close>

record map_slot =
  ms_id :: u32
  ms_obj :: "nat option"
  ms_next :: int

record map =
  m_size :: nat
  m_lastfree :: int
  m_slot :: "map_slot list"

definition INVALID_ID :: u32 where "INVALID_ID = NOT 0"
definition PRE_ALLOC :: nat where "PRE_ALLOC = 16"
definition sizeof_map :: int where "sizeof_map = 16"
definition sizeof_map_slot :: int where "sizeof_map_slot = 24"

definition empty_slot :: map_slot where
  "empty_slot = \<lparr>ms_id = INVALID_ID, ms_obj = None, ms_next = -1\<rparr>"

definition mainposition :: "map \<Rightarrow> u32 \<Rightarrow> nat" where
  "mainposition m k = unat (k AND word_of_nat (m_size m - 1))"

definition set_slot :: "map \<Rightarrow> nat \<Rightarrow> map_slot \<Rightarrow> map" where
  "set_slot m i sl = m\<lparr>m_slot := (m_slot m)[i := sl]\<rparr>"

text \<open>The slot before \<open>target\<close> on the chain from \<open>i\<close>.\<close>

primrec find_last :: "nat \<Rightarrow> map \<Rightarrow> nat \<Rightarrow> nat \<Rightarrow> nat option" where
  "find_last 0 m target i = None"
| "find_last (Suc f) m target i =
     (if length (m_slot m) \<le> i then None
      else if ms_next (m_slot m ! i) = int target then Some i
      else if ms_next (m_slot m ! i) < 0 then None
      else find_last f m target (nat (ms_next (m_slot m ! i))))"

text \<open>The free slot the downward search stops at; negative when there is none.\<close>

function free_slot :: "map_slot list \<Rightarrow> int \<Rightarrow> int" where
  "free_slot sls lf =
     (if lf \<ge> 0 then (if ms_id (sls ! nat lf) = INVALID_ID then lf else free_slot sls (lf - 1)) else lf)"
  by pat_completeness auto
termination by (relation "measure (\<lambda>(sls, lf). nat (lf + 1))") auto

declare free_slot.simps [simp del]

text \<open>The loop of \<^verbatim>\<open>rehash\<close> over the old slots.\<close>

primrec reinsert ::
  "(alloc_cookie \<times> map \<Rightarrow> u32 \<Rightarrow> nat \<Rightarrow> (alloc_cookie \<times> map) option) \<Rightarrow> map_slot list \<Rightarrow> alloc_cookie \<times> map \<Rightarrow>
   (alloc_cookie \<times> map) option" where
  "reinsert ins [] cm = Some cm"
| "reinsert ins (sl # sls) cm =
     (case ms_obj sl of None \<Rightarrow> reinsert ins sls cm
      | Some a \<Rightarrow> do { cm' \<leftarrow> ins cm (ms_id sl) a; reinsert ins sls cm' })"

definition rehash ::
  "(alloc_cookie \<times> map \<Rightarrow> u32 \<Rightarrow> nat \<Rightarrow> (alloc_cookie \<times> map) option) \<Rightarrow> alloc_cookie \<times> map \<Rightarrow>
   (alloc_cookie \<times> map) option" where
  "rehash ins cm =
     (let (c, m) = cm; size' = 2 * m_size m;
          m1 = \<lparr>m_size = size', m_lastfree = int size' - 1, m_slot = replicate size' empty_slot\<rparr>
      in do { (c2, m2) \<leftarrow> reinsert ins (m_slot m) (my_alloc (int size' * sizeof_map_slot) c, m1);
              Some (my_free (int (m_size m) * sizeof_map_slot) c2, m2) })"

primrec map_insert_depth :: "nat \<Rightarrow> alloc_cookie \<times> map \<Rightarrow> u32 \<Rightarrow> nat \<Rightarrow> (alloc_cookie \<times> map) option" where
  "map_insert_depth 0 cm k a = None"
| "map_insert_depth (Suc d) cm k a =
     (let (c, m) = cm; s = mainposition m k; sl = m_slot m ! s
      in if ms_id sl = INVALID_ID then Some (c, set_slot m s (sl\<lparr>ms_id := k, ms_obj := Some a\<rparr>))
         else if mainposition m (ms_id sl) \<noteq> s then
           do { p \<leftarrow> find_last (m_size m) m s (mainposition m (ms_id sl));
                let m1 = set_slot m p ((m_slot m ! p)\<lparr>ms_next := ms_next sl\<rparr>);
                let m2 = set_slot m1 s \<lparr>ms_id = k, ms_obj = Some a, ms_next = -1\<rparr>;
                case ms_obj sl of None \<Rightarrow> Some (c, m2) | Some b \<Rightarrow> map_insert_depth d (c, m2) (ms_id sl) b }
         else
           (let f = free_slot (m_slot m) (m_lastfree m); n = nat f
            in if f \<ge> 0 then
                 (let m1 = set_slot (m\<lparr>m_lastfree := f - 1\<rparr>) n \<lparr>ms_id = k, ms_obj = Some a, ms_next = ms_next sl\<rparr>
                  in Some (c, set_slot m1 s (sl\<lparr>ms_next := f\<rparr>)))
               else
                 do { cm2 \<leftarrow> rehash (map_insert_depth d) (c, m\<lparr>m_lastfree := f\<rparr>);
                      map_insert_depth d cm2 k a }))"

definition map_insert :: "alloc_cookie \<times> map \<Rightarrow> u32 \<Rightarrow> nat \<Rightarrow> (alloc_cookie \<times> map) option" where
  "map_insert = map_insert_depth 4"

text \<open>The loop of \<^verbatim>\<open>map_query\<close> and \<^verbatim>\<open>map_drop\<close>: the slot with an id, on the chain from \<open>i\<close>.\<close>

primrec map_find :: "nat \<Rightarrow> map \<Rightarrow> u32 \<Rightarrow> nat \<Rightarrow> nat option option" where
  "map_find 0 m k i = None"
| "map_find (Suc f) m k i =
     (if length (m_slot m) \<le> i then None
      else if ms_id (m_slot m ! i) = k then Some (Some i)
      else if ms_next (m_slot m ! i) < 0 then Some None
      else map_find f m k (nat (ms_next (m_slot m ! i))))"

definition map_drop :: "map \<Rightarrow> u32 \<Rightarrow> map option" where
  "map_drop m k =
     do { r \<leftarrow> map_find (m_size m) m k (mainposition m k);
          Some (case r of None \<Rightarrow> m | Some i \<Rightarrow> set_slot m i ((m_slot m ! i)\<lparr>ms_obj := None\<rparr>)) }"

definition map_new :: "alloc_cookie \<Rightarrow> alloc_cookie \<times> map" where
  "map_new c =
     (my_alloc (int PRE_ALLOC * sizeof_map_slot) (my_alloc sizeof_map c),
      \<lparr>m_size = PRE_ALLOC, m_lastfree = int PRE_ALLOC - 1, m_slot = replicate PRE_ALLOC empty_slot\<rparr>)"

definition map_delete :: "alloc_cookie \<Rightarrow> map \<Rightarrow> alloc_cookie" where
  "map_delete c m = my_free sizeof_map (my_free (int (m_size m) * sizeof_map_slot) c)"

text \<open>The objects \<^verbatim>\<open>map_foreach\<close> visits, in order.\<close>

definition map_objects :: "map \<Rightarrow> nat list" where
  "map_objects m = List.map_filter ms_obj (m_slot m)"

declare map_insert_depth.simps [simp del]


section \<open>The invariant\<close>

definition used :: "map \<Rightarrow> nat \<Rightarrow> bool" where
  "used m i \<longleftrightarrow> i < m_size m \<and> ms_id (m_slot m ! i) \<noteq> INVALID_ID"

abbreviation home :: "map \<Rightarrow> nat \<Rightarrow> nat" where
  "home m \<equiv> \<lambda>i. mainposition m (ms_id (m_slot m ! i))"

abbreviation nxt :: "map \<Rightarrow> nat \<Rightarrow> int" where
  "nxt m \<equiv> \<lambda>i. ms_next (m_slot m ! i)"

definition map_wf :: "map \<Rightarrow> bool" where
  "map_wf m \<longleftrightarrow> 0 < m_size m \<and> length (m_slot m) = m_size m \<and> -1 \<le> m_lastfree m \<and> m_lastfree m < int (m_size m) \<and>
     (\<forall>i. m_lastfree m < int i \<longrightarrow> i < m_size m \<longrightarrow> used m i) \<and>
     (\<forall>i < m_size m. \<not> used m i \<longrightarrow> m_slot m ! i = empty_slot) \<and>
     (\<forall>i j. used m i \<longrightarrow> used m j \<longrightarrow> ms_id (m_slot m ! i) = ms_id (m_slot m ! j) \<longrightarrow> i = j) \<and>
     (\<exists>ch. chained (used m) (home m) (nxt m) ch)"

text \<open>What the map stores, and the ids that have no slot.\<close>

definition entries :: "map \<Rightarrow> (u32 \<times> nat) set" where
  "entries m = {(k, a). \<exists>i. used m i \<and> ms_id (m_slot m ! i) = k \<and> ms_obj (m_slot m ! i) = Some a}"

definition absent :: "map \<Rightarrow> u32 \<Rightarrow> bool" where
  "absent m k \<longleftrightarrow> (\<forall>i. used m i \<longrightarrow> ms_id (m_slot m ! i) \<noteq> k)"

definition n_used :: "map \<Rightarrow> nat" where
  "n_used m = card {i. used m i}"

lemma map_wfD:
  assumes "map_wf m"
  shows "0 < m_size m" "length (m_slot m) = m_size m" "-1 \<le> m_lastfree m" "m_lastfree m < int (m_size m)"
    "m_lastfree m < int i \<Longrightarrow> i < m_size m \<Longrightarrow> used m i" "i < m_size m \<Longrightarrow> \<not> used m i \<Longrightarrow> m_slot m ! i = empty_slot"
    "used m i \<Longrightarrow> used m j \<Longrightarrow> ms_id (m_slot m ! i) = ms_id (m_slot m ! j) \<Longrightarrow> i = j"
    "\<exists>ch. chained (used m) (home m) (nxt m) ch"
  using assms unfolding map_wf_def by blast+

lemma map_wfI:
  assumes "0 < m_size m" "length (m_slot m) = m_size m" "-1 \<le> m_lastfree m" "m_lastfree m < int (m_size m)"
    "\<And>i. m_lastfree m < int i \<Longrightarrow> i < m_size m \<Longrightarrow> used m i" "\<And>i. i < m_size m \<Longrightarrow> \<not> used m i \<Longrightarrow> m_slot m ! i = empty_slot"
    "\<And>i j. used m i \<Longrightarrow> used m j \<Longrightarrow> ms_id (m_slot m ! i) = ms_id (m_slot m ! j) \<Longrightarrow> i = j"
    "chained (used m) (home m) (nxt m) ch"
  shows "map_wf m"
  using assms unfolding map_wf_def by blast

lemma used_less: "used m i \<Longrightarrow> i < m_size m"
  by (simp add: used_def)

lemma finite_used [simp]: "finite {i. used m i}"
  by (rule finite_subset [of _ "{..<m_size m}"]) (auto simp: used_def)

lemma n_used_le: "n_used m \<le> m_size m"
  using card_mono [of "{..<m_size m}" "{i. used m i}"] by (auto simp: n_used_def used_def)

lemma map_mainposition_less: "map_wf m \<Longrightarrow> mainposition m k < m_size m"
  unfolding mainposition_def by (rule mask_less [OF map_wfD(1)])

lemma entries_functional: "map_wf m \<Longrightarrow> (k, a) \<in> entries m \<Longrightarrow> (k, b) \<in> entries m \<Longrightarrow> a = b"
  unfolding entries_def using map_wfD(7) [of m] by fastforce

lemma entries_update:
  assumes "\<And>i. used m' i \<longleftrightarrow> i = s \<or> used m i" "ms_id (m_slot m' ! s) = k" "ms_obj (m_slot m' ! s) = Some a"
    "\<And>i. i \<noteq> s \<Longrightarrow> ms_id (m_slot m' ! i) = ms_id (m_slot m ! i) \<and> ms_obj (m_slot m' ! i) = ms_obj (m_slot m ! i)"
  shows "entries m' =
    insert (k, a) {(x, b). \<exists>i. i \<noteq> s \<and> used m i \<and> ms_id (m_slot m ! i) = x \<and> ms_obj (m_slot m ! i) = Some b}"
proof -
  have "(x, b) \<in> entries m' \<longleftrightarrow> x = k \<and> b = a \<or>
      (\<exists>i. i \<noteq> s \<and> used m i \<and> ms_id (m_slot m ! i) = x \<and> ms_obj (m_slot m ! i) = Some b)" for x b
    unfolding entries_def using assms by (simp, metis option.inject)
  then show ?thesis by auto
qed

lemma absent_entries: "absent m k \<Longrightarrow> (k, a) \<notin> entries m"
  by (auto simp: absent_def entries_def)

lemma set_slot_simps [simp]:
  "m_size (set_slot m i sl) = m_size m" "m_lastfree (set_slot m i sl) = m_lastfree m"
  "m_slot (set_slot m i sl) = (m_slot m)[i := sl]" "mainposition (set_slot m i sl) k = mainposition m k"
  by (simp_all add: set_slot_def mainposition_def)

lemma mainposition_lastfree [simp]: "mainposition (m\<lparr>m_lastfree := x\<rparr>) k = mainposition m k"
  by (simp add: mainposition_def)

section \<open>Finding an id\<close>

lemma map_find_linked:
  "linked (nxt m) (i # xs) \<Longrightarrow> \<forall>j\<in>set (i # xs). j < length (m_slot m) \<Longrightarrow> length (i # xs) \<le> f \<Longrightarrow>
   map_find f m k i = Some (List.find (\<lambda>j. ms_id (m_slot m ! j) = k) (i # xs))"
proof (induction xs arbitrary: i f)
  case Nil
  then obtain f' where "f = Suc f'" by (cases f) auto
  with Nil show ?case by simp
next
  case (Cons j xs)
  then obtain f' where f: "f = Suc f'" by (cases f) auto
  with Cons.IH [of j f'] Cons.prems show ?case by simp
qed

lemma map_chain_length:
  assumes "distinct xs" "\<forall>j\<in>set xs. used m j"
  shows "length xs \<le> m_size m"
  using card_mono [of "{..<m_size m}" "set xs"] assms by (auto simp: used_def distinct_card)

lemma map_find_correct:
  assumes wf: "map_wf m" and k: "k \<noteq> INVALID_ID"
  obtains (found) i where "map_find (m_size m) m k (mainposition m k) = Some (Some i)" "used m i" "ms_id (m_slot m ! i) = k"
  | (missing) "map_find (m_size m) m k (mainposition m k) = Some None" "absent m k"
proof -
  let ?s = "mainposition m k" and ?P = "\<lambda>j. ms_id (m_slot m ! j) = k"
  have s: "?s < m_size m" using map_mainposition_less [OF wf] .
  obtain f where f: "m_size m = Suc f" using s by (cases "m_size m") auto
  obtain ch where ch: "chained (used m) (home m) (nxt m) ch" using map_wfD(8) [OF wf] ..
  show thesis
  proof (cases "used m ?s")
    case False
    then have e: "m_slot m ! ?s = empty_slot" using map_wfD(6) [OF wf s] by simp
    have "map_find (m_size m) m k ?s = Some None"
      using s k map_wfD(2) [OF wf] e unfolding f by (simp add: empty_slot_def)
    moreover have "absent m k" using chained_home [OF ch] False by (auto simp: absent_def)
    ultimately show thesis by (rule missing)
  next
    case True
    obtain pre suf where c: "ch (home m ?s) = pre @ ?s # suf" "linked (nxt m) (?s # suf)" "distinct (?s # suf)"
      "\<forall>j\<in>set (?s # suf). used m j \<and> home m j = home m ?s" "home m ?s = ?s \<longrightarrow> pre = []"
      by (rule chained_from [OF ch True])
    have find: "map_find (m_size m) m k ?s = Some (List.find ?P (?s # suf))"
      using c(4) map_wfD(2) [OF wf] map_chain_length [OF c(3)] by (intro map_find_linked c(2)) (auto simp: used_def)
    show thesis
    proof (cases "List.find ?P (?s # suf)")
      case None
      then have np: "\<forall>j\<in>set (?s # suf). \<not> ?P j" by (rule find_NoneD)
      have "\<not> (used m i \<and> ?P i)" for i
      proof
        assume i: "used m i \<and> ?P i"
        then obtain ys where ys: "ch ?s = ?s # ys" "i \<in> set (?s # ys)" using chained_head [OF ch, of i ?s] by auto
        then have "home m ?s = ?s" using chainedD(4) [OF ch, of ?s ?s] by auto
        then have "ys = suf" using c(1,5) ys(1) by simp
        then show False using np ys(2) i by blast
      qed
      then show thesis using missing find None by (auto simp: absent_def)
    next
      case (Some i)
      then show thesis using found [of i] find find_SomeD [OF Some] c(4) by auto
    qed
  qed
qed


section \<open>Inserting\<close>

text \<open>A new id \<open>k\<close> at home in a free slot.\<close>

definition inserted :: "map \<Rightarrow> u32 \<Rightarrow> nat \<Rightarrow> map \<Rightarrow> bool" where
  "inserted m k a m' \<longleftrightarrow> map_wf m' \<and> m_size m' = m_size m \<and> entries m' = insert (k, a) (entries m) \<and>
     n_used m' \<le> Suc (n_used m) \<and> (\<forall>k'. k' \<noteq> k \<longrightarrow> absent m k' \<longrightarrow> absent m' k')"

lemma home_set_slot: "home (set_slot m i sl) = (\<lambda>j. mainposition m (ms_id ((m_slot m)[i := sl] ! j)))"
  by (simp add: fun_eq_iff)

lemma insert_place:
  assumes wf: "map_wf m" and ab: "absent m k" and k: "k \<noteq> INVALID_ID"
    and free: "ms_id (m_slot m ! mainposition m k) = INVALID_ID"
    and m': "m' = set_slot m (mainposition m k) ((m_slot m ! mainposition m k)\<lparr>ms_id := k, ms_obj := Some a\<rparr>)"
  shows "inserted m k a m'"
proof -
  let ?s = "mainposition m k"
  have s: "?s < m_size m" "?s < length (m_slot m)" using map_mainposition_less [OF wf] map_wfD(2) [OF wf] by auto
  have nu: "\<not> used m ?s" using free by (simp add: used_def)
  have e: "m_slot m ! ?s = empty_slot" using map_wfD(6) [OF wf s(1) nu] .
  have slot: "m_slot m' ! i = (if i = ?s then \<lparr>ms_id = k, ms_obj = Some a, ms_next = -1\<rparr> else m_slot m ! i)" for i
    using s(2) by (simp add: m' e empty_slot_def)
  have us: "used m' i \<longleftrightarrow> i = ?s \<or> used m i" for i
    using s k by (cases "i = ?s") (simp_all add: used_def slot, simp_all add: m')
  have main: "mainposition m' x = mainposition m x" for x by (simp add: m')
  obtain ch where ch: "chained (used m) (home m) (nxt m) ch" using map_wfD(8) [OF wf] ..
  have ch': "chained (used m') (home m') (nxt m') (ch(?s := [?s]))"
    by (rule chained_place [OF ch nu])
      (auto simp: e empty_slot_def us slot main fun_eq_iff)
  have inj: "i = j" if "used m' i" "used m' j" "ms_id (m_slot m' ! i) = ms_id (m_slot m' ! j)" for i j
    using that us slot ab map_wfD(7) [OF wf, of i j] by (auto simp: absent_def split: if_splits)
  have emp: "m_slot m' ! i = empty_slot" if "i < m_size m'" "\<not> used m' i" for i
    using that us [of i] slot [of i] map_wfD(6) [OF wf, of i] by (simp add: m')
  have "map_wf m'"
    by (rule map_wfI [OF _ _ _ _ _ emp inj ch']) (use map_wfD(1-5) [OF wf] us in \<open>simp_all add: m'\<close>)
  moreover have "entries m' = insert (k, a) {(x, b). \<exists>i. i \<noteq> ?s \<and> used m i \<and> ms_id (m_slot m ! i) = x \<and> ms_obj (m_slot m ! i) = Some b}"
    by (rule entries_update [OF us]) (simp_all add: slot)
  then have "entries m' = insert (k, a) (entries m)" using nu unfolding entries_def by auto
  moreover have "{i. used m' i} = insert ?s {i. used m i}" using us by auto
  then have "n_used m' \<le> Suc (n_used m)" by (simp add: n_used_def card_insert_if)
  ultimately show ?thesis using us slot by (auto simp: inserted_def absent_def m')
qed

text \<open>Taking the slot of an id that is not at home, which loses its own slot.\<close>

lemma find_last_linked:
  assumes "linked (nxt m) (xs @ p # q # ys)" "distinct (xs @ p # q # ys)"
    "\<forall>j\<in>set (xs @ p # q # ys). j < length (m_slot m)" "length xs < f"
  shows "find_last f m q (hd (xs @ [p])) = Some p"
  using assms
proof (induction xs arbitrary: f)
  case Nil
  then obtain f' where "f = Suc f'" by (cases f) auto
  with Nil show ?case by simp
next
  case (Cons x xs)
  then obtain f' where f: "f = Suc f'" by (cases f) auto
  define y where "y = hd (xs @ [p])"
  have y: "xs @ p # q # ys = y # tl (xs @ p # q # ys)" by (cases xs) (simp_all add: y_def)
  have "linked (nxt m) (x # xs @ p # q # ys)" using Cons.prems(1) by simp
  then have nx: "nxt m x = int y" and l: "linked (nxt m) (xs @ p # q # ys)"
    using y by (metis linked.simps(3))+
  have "y \<noteq> q" using Cons.prems(2) by (cases xs) (auto simp: y_def)
  then show ?case
    using Cons.IH [OF l, of f'] Cons.prems(2,3,4) f nx by (simp add: y_def)
qed

lemma insert_steal:
  assumes wf: "map_wf m" and ab: "absent m k" and k: "k \<noteq> INVALID_ID" and s: "s = mainposition m k"
    and used: "ms_id (m_slot m ! s) \<noteq> INVALID_ID" and away: "mainposition m (ms_id (m_slot m ! s)) \<noteq> s"
  obtains p where "find_last (m_size m) m s (mainposition m (ms_id (m_slot m ! s))) = Some p"
    "\<And>m'. m' = set_slot (set_slot m p ((m_slot m ! p)\<lparr>ms_next := nxt m s\<rparr>)) s
        \<lparr>ms_id = k, ms_obj = Some a, ms_next = -1\<rparr> \<Longrightarrow>
      map_wf m' \<and> m_size m' = m_size m \<and> n_used m' = n_used m \<and>
      entries m' = insert (k, a) {e \<in> entries m. fst e \<noteq> ms_id (m_slot m ! s)} \<and>
      (\<forall>k'. k' \<noteq> k \<longrightarrow> absent m k' \<longrightarrow> absent m' k') \<and> absent m' (ms_id (m_slot m ! s)) \<and>
      used m' (mainposition m' (ms_id (m_slot m ! s))) \<and>
      home m' (mainposition m' (ms_id (m_slot m ! s))) = mainposition m' (ms_id (m_slot m ! s))"
proof -
  let ?t = "ms_id (m_slot m ! s)"
  let ?h = "mainposition m ?t"
  have sl: "s < m_size m" "s < length (m_slot m)" using map_mainposition_less [OF wf] map_wfD(2) [OF wf] s by auto
  have us: "used m s" using used sl by (simp add: used_def)
  obtain ch where ch: "chained (used m) (home m) (nxt m) ch" using map_wfD(8) [OF wf] ..
  obtain ys0 where hd: "ch ?h = ?h # ys0" "s \<in> set (?h # ys0)" using chained_head [OF ch us refl] by blast
  then obtain xs p ys where p: "ch ?h = xs @ p # s # ys"
  proof -
    obtain as bs where "ch ?h = as @ s # bs" using hd by (metis split_list)
    moreover have "as \<noteq> []" using hd(1) away calculation by auto
    then obtain xs p where "as = xs @ [p]" by (metis rev_exhaust)
    ultimately show thesis using that by auto
  qed
  note d = chainedD(1) [OF ch, of ?h, unfolded p]
  have on: "j < length (m_slot m) \<and> used m j" if "j \<in> set (xs @ p # s # ys)" for j
    using chainedD(4) [OF ch, of j ?h] that p used_less [of m j] map_wfD(2) [OF wf] by auto
  have "length (xs @ p # s # ys) \<le> m_size m" using on by (intro map_chain_length d) auto
  then have fl: "find_last (m_size m) m s (hd (xs @ [p])) = Some p"
    using chainedD(2) [OF ch, of ?h, unfolded p] on d by (intro find_last_linked) auto
  have hdp: "hd (xs @ [p]) = ?h" using hd(1) p by (cases xs) auto
  have hk: "ms_id (m_slot m ! ?h) \<noteq> ?t" using map_wfD(7) [OF wf, of ?h s] chainedD(4) [OF ch, of ?h ?h] hd(1) us away by auto
  show thesis
  proof (rule that)
    show "find_last (m_size m) m s ?h = Some p" using fl hdp by simp
  next
    fix m' assume m': "m' = set_slot (set_slot m p ((m_slot m ! p)\<lparr>ms_next := nxt m s\<rparr>)) s
        \<lparr>ms_id = k, ms_obj = Some a, ms_next = -1\<rparr>"
    have pl: "p < length (m_slot m)" "p \<noteq> s" using on [of p] d by auto
    have slot: "m_slot m' ! i = (if i = s then \<lparr>ms_id = k, ms_obj = Some a, ms_next = -1\<rparr>
        else if i = p then (m_slot m ! p)\<lparr>ms_next := nxt m s\<rparr> else m_slot m ! i)" for i
      using pl sl by (simp add: m' nth_list_update)
    have ids: "ms_id (m_slot m' ! i) = (if i = s then k else ms_id (m_slot m ! i))"
      "ms_obj (m_slot m' ! i) = (if i = s then Some a else ms_obj (m_slot m ! i))" for i
      by (simp_all add: slot)
    have main: "m_size m' = m_size m" "mainposition m' x = mainposition m x" for x by (simp_all add: m')
    have u: "used m' = used m" using us k sl by (auto simp: fun_eq_iff used_def ids main)
    have "chained (used m') (home m') (nxt m') (ch(?h := xs @ p # ys, s := [s]))"
      by (rule chained_steal [OF ch us away p]) (auto simp: u slot main s [symmetric] pl)
    moreover have "i = j" if "used m' i" "used m' j" "ms_id (m_slot m' ! i) = ms_id (m_slot m' ! j)" for i j
      using that ids ab map_wfD(7) [OF wf, of i j] by (auto simp: u absent_def split: if_splits)
    moreover have "m_slot m' ! i = empty_slot" if "i < m_size m'" "\<not> used m' i" for i
    proof -
      have "i \<noteq> s" "i \<noteq> p" using that us on [of p] u by auto
      then show ?thesis using that map_wfD(6) [OF wf, of i] slot u by (simp add: m')
    qed
    ultimately have "map_wf m'" using map_wfD(1-5) [OF wf] by (intro map_wfI) (simp_all add: u, simp_all add: m')
    moreover have "entries m' = insert (k, a) {(x, b). \<exists>i. i \<noteq> s \<and> used m i \<and> ms_id (m_slot m ! i) = x \<and> ms_obj (m_slot m ! i) = Some b}"
      by (rule entries_update) (use us in \<open>auto simp: ids u\<close>)
    then have "entries m' = insert (k, a) {e \<in> entries m. fst e \<noteq> ?t}"
      using us map_wfD(7) [OF wf, of _ s] unfolding entries_def by auto
    moreover have "absent m' ?t"
      using ab us map_wfD(7) [OF wf, of _ s] by (auto simp: absent_def u ids)
    moreover have "used m' ?h \<and> home m' ?h = ?h"
      using chainedD(4) [OF ch, of ?h ?h] hd(1) away by (simp add: u ids main)
    ultimately show "map_wf m' \<and> m_size m' = m_size m \<and> n_used m' = n_used m \<and>
      entries m' = insert (k, a) {e \<in> entries m. fst e \<noteq> ?t} \<and>
      (\<forall>k'. k' \<noteq> k \<longrightarrow> absent m k' \<longrightarrow> absent m' k') \<and> absent m' ?t \<and>
      used m' (mainposition m' ?t) \<and> home m' (mainposition m' ?t) = mainposition m' ?t"
      by (auto simp: main absent_def u ids n_used_def)
  qed
qed


text \<open>Behind the id at home, in the free slot that is found from the top.\<close>

lemma free_slot_correct:
  assumes "-1 \<le> lf" "lf < int (m_size m)" "\<And>i. lf < int i \<Longrightarrow> i < m_size m \<Longrightarrow> used m i"
  shows "-1 \<le> free_slot (m_slot m) lf \<and> free_slot (m_slot m) lf < int (m_size m) \<and>
    (\<forall>i. free_slot (m_slot m) lf < int i \<longrightarrow> i < m_size m \<longrightarrow> used m i) \<and>
    (0 \<le> free_slot (m_slot m) lf \<longrightarrow> \<not> used m (nat (free_slot (m_slot m) lf)))"
  using assms
proof (induction "nat (lf + 1)" arbitrary: lf)
  case 0
  then show ?case by (auto simp: free_slot.simps [of _ lf])
next
  case (Suc n)
  show ?case
  proof (cases "0 \<le> lf \<and> ms_id (m_slot m ! nat lf) \<noteq> INVALID_ID")
    case True
    then have e: "free_slot (m_slot m) lf = free_slot (m_slot m) (lf - 1)" by (simp add: free_slot.simps [of _ lf])
    have u: "used m (nat lf)" using True Suc.prems(2) unfolding used_def by auto
    have "used m i" if "lf - 1 < int i" "i < m_size m" for i
      using that Suc.prems(3) [of i] u by (cases "int i = lf") auto
    then show ?thesis unfolding e using Suc.hyps(1) [of "lf - 1"] Suc.hyps(2) Suc.prems True by simp
  next
    case False
    then have "free_slot (m_slot m) lf = lf" by (auto simp: free_slot.simps [of _ lf])
    then show ?thesis using Suc.prems False by (auto simp: used_def)
  qed
qed

lemma insert_second:
  assumes wf: "map_wf m" and ab: "absent m k" and k: "k \<noteq> INVALID_ID" and s: "s = mainposition m k"
    and us: "used m s" and hs: "home m s = s" and f: "f = free_slot (m_slot m) (m_lastfree m)" "0 \<le> f"
    and m': "m' = set_slot (set_slot (m\<lparr>m_lastfree := f - 1\<rparr>) (nat f) \<lparr>ms_id = k, ms_obj = Some a, ms_next = nxt m s\<rparr>) s
      ((m_slot m ! s)\<lparr>ms_next := f\<rparr>)"
  shows "inserted m k a m'"
proof -
  let ?n = "nat f"
  have fr: "f < int (m_size m)" "\<And>i. f < int i \<Longrightarrow> i < m_size m \<Longrightarrow> used m i" "\<not> used m ?n"
    using free_slot_correct [of "m_lastfree m" m] map_wfD(3-5) [OF wf] f by auto
  have n: "?n < m_size m" "?n < length (m_slot m)" "?n \<noteq> s" "int ?n = f" using fr f(2) us map_wfD(2) [OF wf] by auto
  have sl: "s < length (m_slot m)" using used_less [OF us] map_wfD(2) [OF wf] by simp
  have main: "m_size m' = m_size m" "mainposition m' x = mainposition m x" for x by (simp_all add: m')
  have slot: "m_slot m' ! i = (if i = s then (m_slot m ! s)\<lparr>ms_next := f\<rparr>
      else if i = ?n then \<lparr>ms_id = k, ms_obj = Some a, ms_next = nxt m s\<rparr> else m_slot m ! i)" for i
    using n sl by (simp add: m' nth_list_update)
  have ids: "ms_id (m_slot m' ! i) = (if i = ?n then k else ms_id (m_slot m ! i))"
    "ms_obj (m_slot m' ! i) = (if i = ?n then Some a else ms_obj (m_slot m ! i))" for i
    using n(3) by (simp_all add: slot)
  have u: "used m' i \<longleftrightarrow> i = ?n \<or> used m i" for i using n k by (simp add: used_def ids main)
  obtain ch where ch: "chained (used m) (home m) (nxt m) ch" using map_wfD(8) [OF wf] ..
  obtain ys where ys: "ch s = s # ys" using chained_head [OF ch us hs] by blast
  have ch': "chained (used m') (home m') (nxt m') (ch(s := s # ?n # ys))"
    by (rule chained_second [OF ch us ys fr(3)]) (use n in \<open>auto simp: slot u main s [symmetric]\<close>)
  have inj: "i = j" if "used m' i" "used m' j" "ms_id (m_slot m' ! i) = ms_id (m_slot m' ! j)" for i j
    using that u ids ab map_wfD(7) [OF wf, of i j] by (auto simp: absent_def split: if_splits)
  have emp: "m_slot m' ! i = empty_slot" if "i < m_size m'" "\<not> used m' i" for i
    using that us u [of i] slot [of i] map_wfD(6) [OF wf, of i] by (auto simp: main split: if_splits)
  have low: "used m' i" if "f - 1 < int i" "i < m_size m" for i
    using that fr(2) [of i] n(4) by (cases "i = ?n") (auto simp: u)
  have "map_wf m'"
    by (rule map_wfI [OF _ _ _ _ _ emp inj ch']) (use map_wfD(1,2) [OF wf] f(2) fr(1) low in \<open>simp_all add: m'\<close>)
  moreover have "entries m' = insert (k, a) {(x, b). \<exists>i. i \<noteq> ?n \<and> used m i \<and> ms_id (m_slot m ! i) = x \<and> ms_obj (m_slot m ! i) = Some b}"
    by (rule entries_update [OF u]) (simp_all add: ids)
  then have "entries m' = insert (k, a) (entries m)" using fr(3) unfolding entries_def by auto
  moreover have "{i. used m' i} = insert ?n {i. used m i}" using u by auto
  then have "n_used m' \<le> Suc (n_used m)" by (simp add: n_used_def card_insert_if)
  ultimately show ?thesis using u ids by (auto simp: inserted_def absent_def main)
qed

text \<open>With a free slot left an insertion needs no second table.\<close>

lemma insert_at_home:
  assumes wf: "map_wf m" and ab: "absent m k" and k: "k \<noteq> INVALID_ID" and room: "n_used m < m_size m"
    and home: "ms_id (m_slot m ! mainposition m k) = INVALID_ID \<or> home m (mainposition m k) = mainposition m k"
  shows "\<exists>m'. map_insert_depth (Suc d) (c, m) k a = Some (c, m') \<and> inserted m k a m'"
proof (cases "ms_id (m_slot m ! mainposition m k) = INVALID_ID")
  case True
  then show ?thesis using insert_place [OF wf ab k True refl] by (simp add: map_insert_depth.simps Let_def)
next
  case False
  let ?s = "mainposition m k" and ?f = "free_slot (m_slot m) (m_lastfree m)"
  have h: "home m ?s = ?s" using home False by simp
  have us: "used m ?s" using False map_mainposition_less [OF wf] by (simp add: used_def)
  note fs = free_slot_correct [OF map_wfD(3-5) [OF wf]]
  have f: "0 \<le> ?f"
  proof (rule ccontr)
    assume "\<not> 0 \<le> ?f"
    then have "{i. used m i} = {..<m_size m}" using fs by (auto simp: used_def)
    then show False using room by (simp add: n_used_def)
  qed
  show ?thesis using insert_second [OF wf ab k refl us h refl f refl, of a] False h f
    by (simp add: map_insert_depth.simps Let_def)
qed

text \<open>With a growing table the promise also says that it grows at most once, only when it is full, to twice its
  size.\<close>

definition regrown :: "alloc_cookie \<times> map \<Rightarrow> alloc_cookie" where
  "regrown cm = my_free (int (m_size (snd cm)) * sizeof_map_slot) (my_alloc (int (2 * m_size (snd cm)) * sizeof_map_slot) (fst cm))"

definition map_grown :: "alloc_cookie \<times> map \<Rightarrow> alloc_cookie \<times> map \<Rightarrow> bool" where
  "map_grown cm cm' \<longleftrightarrow>
     fst cm' = fst cm \<and> m_size (snd cm') = m_size (snd cm) \<and> n_used (snd cm') \<le> Suc (n_used (snd cm)) \<or>
     fst cm' = regrown cm \<and> m_size (snd cm') = 2 * m_size (snd cm) \<and> n_used (snd cm) = m_size (snd cm) \<and>
       n_used (snd cm') \<le> Suc (n_used (snd cm))"

definition map_inserted :: "alloc_cookie \<times> map \<Rightarrow> u32 \<Rightarrow> nat \<Rightarrow> alloc_cookie \<times> map \<Rightarrow> bool" where
  "map_inserted cm k a cm' \<longleftrightarrow> map_wf (snd cm') \<and> entries (snd cm') = insert (k, a) (entries (snd cm)) \<and>
     (\<forall>k'. k' \<noteq> k \<longrightarrow> absent (snd cm) k' \<longrightarrow> absent (snd cm') k') \<and> map_grown cm cm'"

lemma inserted_map: "inserted m k a m' \<Longrightarrow> map_inserted (c, m) k a (c, m')"
  by (simp add: inserted_def map_inserted_def map_grown_def)

lemma map_inserted_room: "map_inserted (c, m) k a cm' \<Longrightarrow> n_used m < m_size m \<Longrightarrow> \<exists>m'. cm' = (c, m') \<and> inserted m k a m'"
  by (cases cm') (auto simp: inserted_def map_inserted_def map_grown_def)

text \<open>An id whose slot is taken by one that is not at home: the other one is inserted again, at home.\<close>

lemma insert_away:
  assumes wf: "map_wf m" and ab: "absent m k" and k: "k \<noteq> INVALID_ID"
    and used: "ms_id (m_slot m ! mainposition m k) \<noteq> INVALID_ID" "home m (mainposition m k) \<noteq> mainposition m k"
    and again: "\<And>m2 t b. map_wf m2 \<Longrightarrow> absent m2 t \<Longrightarrow> t \<noteq> INVALID_ID \<Longrightarrow> n_used m2 = n_used m \<Longrightarrow> m_size m2 = m_size m \<Longrightarrow>
      home m2 (mainposition m2 t) = mainposition m2 t \<Longrightarrow>
      \<exists>cm3. map_insert_depth d (c, m2) t b = Some cm3 \<and> map_inserted (c, m2) t b cm3"
  shows "\<exists>cm'. map_insert_depth (Suc d) (c, m) k a = Some cm' \<and> map_inserted (c, m) k a cm'"
proof -
  define s where "s = mainposition m k"
  note used = used [folded s_def]
  let ?t = "ms_id (m_slot m ! s)"
  obtain p where p: "find_last (m_size m) m s (mainposition m ?t) = Some p"
    "\<And>m'. m' = set_slot (set_slot m p ((m_slot m ! p)\<lparr>ms_next := nxt m s\<rparr>)) s
        \<lparr>ms_id = k, ms_obj = Some a, ms_next = -1\<rparr> \<Longrightarrow>
      map_wf m' \<and> m_size m' = m_size m \<and> n_used m' = n_used m \<and>
      entries m' = insert (k, a) {e \<in> entries m. fst e \<noteq> ?t} \<and>
      (\<forall>k'. k' \<noteq> k \<longrightarrow> absent m k' \<longrightarrow> absent m' k') \<and> absent m' ?t \<and>
      used m' (mainposition m' ?t) \<and> home m' (mainposition m' ?t) = mainposition m' ?t"
    using insert_steal [OF wf ab k s_def used] by blast
  define m2 where "m2 = set_slot (set_slot m p ((m_slot m ! p)\<lparr>ms_next := nxt m s\<rparr>)) s \<lparr>ms_id = k, ms_obj = Some a, ms_next = -1\<rparr>"
  note m2 = p(2) [OF m2_def]
  have us: "used m s" using used map_mainposition_less [OF wf] by (simp add: used_def s_def)
  have e: "(x, b) \<in> entries m \<and> x = ?t \<longleftrightarrow> x = ?t \<and> ms_obj (m_slot m ! s) = Some b" for x b
    using us map_wfD(7) [OF wf, of _ s] by (auto simp: entries_def)
  have step: "map_insert_depth (Suc d) (c, m) k a =
      (case ms_obj (m_slot m ! s) of None \<Rightarrow> Some (c, m2) | Some b \<Rightarrow> map_insert_depth d (c, m2) ?t b)"
    using p(1) used unfolding m2_def s_def by (simp add: map_insert_depth.simps(2) Let_def del: set_slot_simps)
  show ?thesis
  proof (cases "ms_obj (m_slot m ! s)")
    case None
    then have "{e \<in> entries m. fst e \<noteq> ?t} = entries m" using e by auto
    then have "map_inserted (c, m) k a (c, m2)" using m2 by (simp add: map_inserted_def map_grown_def)
    then show ?thesis using step None by simp
  next
    case (Some b)
    obtain c3 m3 where m3: "map_insert_depth d (c, m2) ?t b = Some (c3, m3)" "map_inserted (c, m2) ?t b (c3, m3)"
      using again [of m2 ?t b] m2 used(1) by fastforce
    have "insert (?t, b) {e \<in> entries m. fst e \<noteq> ?t} = entries m" using e [of _ b] e Some by force
    then have "entries m3 = insert (k, a) (entries m)" using m2 m3(2) by (auto simp: map_inserted_def)
    moreover have "absent m3 k'" if "k' \<noteq> k" "absent m k'" for k'
    proof -
      have "k' \<noteq> ?t" using that(2) us by (auto simp: absent_def)
      then show ?thesis using m2 m3(2) that by (simp add: map_inserted_def)
    qed
    moreover have "map_grown (c, m) (c3, m3)" using m2 m3(2) by (simp add: map_inserted_def map_grown_def regrown_def)
    ultimately have "map_inserted (c, m) k a (c3, m3)" using m3(2) by (simp add: map_inserted_def)
    then show ?thesis using step Some m3(1) by simp
  qed
qed

lemma insert_room:
  assumes wf: "map_wf m" and ab: "absent m k" and k: "k \<noteq> INVALID_ID" and room: "n_used m < m_size m"
  shows "\<exists>m'. map_insert_depth (Suc (Suc d)) (c, m) k a = Some (c, m') \<and> inserted m k a m'"
proof (cases "ms_id (m_slot m ! mainposition m k) = INVALID_ID \<or> home m (mainposition m k) = mainposition m k")
  case True
  then show ?thesis by (rule insert_at_home [OF wf ab k room])
next
  case False
  have "\<exists>cm3. map_insert_depth (Suc d) (c, m2) t b = Some cm3 \<and> map_inserted (c, m2) t b cm3"
    if "map_wf m2" "absent m2 t" "t \<noteq> INVALID_ID" "n_used m2 = n_used m" "m_size m2 = m_size m"
      "home m2 (mainposition m2 t) = mainposition m2 t" for m2 t b
    using insert_at_home [of m2 t d c b] that room inserted_map by auto
  then show ?thesis using insert_away [OF wf ab k _ _, of "Suc d" c a] False map_inserted_room [OF _ room] by blast
qed

section \<open>Growing\<close>

text \<open>The ids and addresses of the slots that hold an object.\<close>

definition live :: "map_slot list \<Rightarrow> (u32 \<times> nat) list" where
  "live sls = List.map_filter (\<lambda>sl. map_option (Pair (ms_id sl)) (ms_obj sl)) sls"

lemma live_simps [simp]:
  "live [] = []" "live (sl # sls) = (case ms_obj sl of None \<Rightarrow> live sls | Some a \<Rightarrow> (ms_id sl, a) # live sls)"
  by (auto simp: live_def List.map_filter_simps split: option.splits)

lemma length_live: "length (live sls) \<le> length sls"
  by (induction sls) (auto split: option.splits)

lemma set_live: "set (live sls) = {(k, a). \<exists>sl \<in> set sls. ms_id sl = k \<and> ms_obj sl = Some a}"
  by (induction sls) (auto split: option.splits)

lemma live_entries: "map_wf m \<Longrightarrow> set (live (m_slot m)) = entries m"
proof -
  assume wf: "map_wf m"
  have "used m i" if "i < m_size m" "ms_obj (m_slot m ! i) = Some a" for i a
    using map_wfD(6) [OF wf, of i] that by (cases "used m i") (auto simp: empty_slot_def)
  then show ?thesis using map_wfD(2) [OF wf] used_less [of m]
    by (fastforce simp: set_live entries_def in_set_conv_nth)
qed

lemma distinct_live:
  assumes wf: "map_wf m"
  shows "distinct (List.map fst (live (m_slot m)))"
proof -
  have "distinct (List.map fst (live sls))"
    if "\<And>i j. i < j \<Longrightarrow> j < length sls \<Longrightarrow> ms_obj (sls ! i) \<noteq> None \<Longrightarrow> ms_obj (sls ! j) \<noteq> None \<Longrightarrow> ms_id (sls ! i) \<noteq> ms_id (sls ! j)"
    for sls :: "map_slot list" using that
  proof (induction sls)
    case (Cons sl sls)
    have IH: "distinct (List.map fst (live sls))" using Cons.prems [of "Suc _" "Suc _"] by (intro Cons.IH) auto
    have "ms_id sl' \<noteq> ms_id sl" if ne: "ms_obj sl \<noteq> None" "sl' \<in> set sls" "ms_obj sl' \<noteq> None" for sl'
    proof -
      obtain j where "j < length sls" "sl' = sls ! j" using ne(2) by (auto simp: in_set_conv_nth)
      then show ?thesis using Cons.prems [of 0 "Suc j"] ne by auto
    qed
    then have "ms_obj sl = Some a \<Longrightarrow> ms_id sl \<notin> fst ` set (live sls)" for a by (fastforce simp: set_live)
    then show ?case using IH by (auto split: option.splits)
  qed simp
  moreover have "ms_id (m_slot m ! i) \<noteq> ms_id (m_slot m ! j)"
    if ij: "i < j" "j < length (m_slot m)" "ms_obj (m_slot m ! i) \<noteq> None" "ms_obj (m_slot m ! j) \<noteq> None" for i j
  proof -
    have "used m i" using ij map_wfD(6) [OF wf, of i] map_wfD(2) [OF wf] by (cases "used m i") (auto simp: empty_slot_def)
    moreover have "used m j" using ij map_wfD(6) [OF wf, of j] map_wfD(2) [OF wf] by (cases "used m j") (auto simp: empty_slot_def)
    ultimately show ?thesis using map_wfD(7) [OF wf, of i j] ij(1) by auto
  qed
  ultimately show ?thesis by blast
qed

lemma map_reinsert_correct:
  "map_wf m \<Longrightarrow> n_used m + length (live sls) \<le> m_size m \<Longrightarrow> distinct (List.map fst (live sls)) \<Longrightarrow>
   (\<forall>e \<in> set (live sls). fst e \<noteq> INVALID_ID \<and> absent m (fst e)) \<Longrightarrow>
   \<exists>m'. reinsert (map_insert_depth (Suc (Suc d))) sls (c, m) = Some (c, m') \<and> map_wf m' \<and> m_size m' = m_size m \<and>
     entries m' = entries m \<union> set (live sls) \<and> n_used m' \<le> n_used m + length (live sls) \<and>
     (\<forall>k. k \<notin> fst ` set (live sls) \<longrightarrow> absent m k \<longrightarrow> absent m' k)"
proof (induction sls arbitrary: m)
  case (Cons sl sls)
  show ?case
  proof (cases "ms_obj sl")
    case None
    then show ?thesis using Cons by simp
  next
    case (Some a)
    then obtain m1 where m1: "map_insert_depth (Suc (Suc d)) (c, m) (ms_id sl) a = Some (c, m1)" "inserted m (ms_id sl) a m1"
      using insert_room [OF Cons.prems(1), of "ms_id sl" d c a] Cons.prems by auto
    have i: "map_wf m1" "m_size m1 = m_size m" "entries m1 = insert (ms_id sl, a) (entries m)"
      "n_used m1 \<le> Suc (n_used m)" "\<And>k. k \<noteq> ms_id sl \<Longrightarrow> absent m k \<Longrightarrow> absent m1 k"
      using m1(2) by (auto simp: inserted_def)
    have "n_used m1 + length (live sls) \<le> m_size m1" "distinct (List.map fst (live sls))"
      using Cons.prems(2,3) Some i(2,4) by simp_all
    moreover have "\<forall>e \<in> set (live sls). fst e \<noteq> INVALID_ID \<and> absent m1 (fst e)"
    proof
      fix e assume e: "e \<in> set (live sls)"
      then have "fst e \<noteq> ms_id sl" using Cons.prems(3) Some by (auto simp: image_iff)
      then show "fst e \<noteq> INVALID_ID \<and> absent m1 (fst e)" using Cons.prems(4) Some e i(5) by simp
    qed
    ultimately obtain m2 where "reinsert (map_insert_depth (Suc (Suc d))) sls (c, m1) = Some (c, m2)" "map_wf m2"
      "m_size m2 = m_size m1" "entries m2 = entries m1 \<union> set (live sls)" "n_used m2 \<le> n_used m1 + length (live sls)"
      "\<forall>k. k \<notin> fst ` set (live sls) \<longrightarrow> absent m1 k \<longrightarrow> absent m2 k"
      using Cons.IH [OF i(1)] by blast
    then show ?thesis using Some m1(1) i by (intro exI [of _ m2]) auto
  qed
qed simp

lemma fresh_map:
  assumes "0 < n"
  shows "map_wf \<lparr>m_size = n, m_lastfree = int n - 1, m_slot = replicate n empty_slot\<rparr>"
    "entries \<lparr>m_size = n, m_lastfree = int n - 1, m_slot = replicate n empty_slot\<rparr> = {}"
    "n_used \<lparr>m_size = n, m_lastfree = int n - 1, m_slot = replicate n empty_slot\<rparr> = 0"
    "absent \<lparr>m_size = n, m_lastfree = int n - 1, m_slot = replicate n empty_slot\<rparr> k"
proof -
  let ?m = "\<lparr>m_size = n, m_lastfree = int n - 1, m_slot = replicate n empty_slot\<rparr>"
  have u: "\<not> used ?m i" for i by (auto simp: used_def empty_slot_def)
  have "chained (used ?m) (home ?m) (nxt ?m) (\<lambda>_. [])" by (simp add: chained_def chain_of_def u)
  then show "map_wf ?m" using assms u by (intro map_wfI) auto
  show "entries ?m = {}" "n_used ?m = 0" "absent ?m k" using u by (auto simp: entries_def n_used_def absent_def)
qed

lemma rehash_correct:
  assumes wf: "map_wf m"
  shows "\<exists>m'. rehash (map_insert_depth (Suc (Suc d))) (c, m\<lparr>m_lastfree := f\<rparr>) = Some (regrown (c, m), m') \<and>
    map_wf m' \<and> m_size m' = 2 * m_size m \<and> entries m' = entries m \<and> n_used m' \<le> m_size m \<and> (\<forall>k. absent m k \<longrightarrow> absent m' k)"
proof -
  let ?n = "2 * m_size m"
  let ?m1 = "\<lparr>m_size = ?n, m_lastfree = int ?n - 1, m_slot = replicate ?n empty_slot\<rparr>"
  have n: "0 < ?n" using map_wfD(1) [OF wf] by simp
  have len: "length (live (m_slot m)) \<le> m_size m" using length_live [of "m_slot m"] map_wfD(2) [OF wf] by simp
  have "\<forall>e \<in> set (live (m_slot m)). fst e \<noteq> INVALID_ID"
    unfolding live_entries [OF wf] by (auto simp: entries_def used_def)
  then have "\<exists>m'. reinsert (map_insert_depth (Suc (Suc d))) (m_slot m) (c', ?m1) = Some (c', m') \<and> map_wf m' \<and>
      m_size m' = ?n \<and> entries m' = entries m \<and> n_used m' \<le> length (live (m_slot m)) \<and>
      (\<forall>k. k \<notin> fst ` entries m \<longrightarrow> absent m' k)" for c'
    using map_reinsert_correct [OF fresh_map(1) [OF n] _ distinct_live [OF wf], of d c'] len fresh_map [OF n] live_entries [OF wf]
    by simp
  then obtain m' where m': "reinsert (map_insert_depth (Suc (Suc d))) (m_slot m)
      (my_alloc (int ?n * sizeof_map_slot) c, ?m1) = Some (my_alloc (int ?n * sizeof_map_slot) c, m')"
    "map_wf m'" "m_size m' = ?n" "entries m' = entries m" "n_used m' \<le> length (live (m_slot m))"
    "\<forall>k. k \<notin> fst ` entries m \<longrightarrow> absent m' k"
    by blast
  then have "rehash (map_insert_depth (Suc (Suc d))) (c, m\<lparr>m_lastfree := f\<rparr>) = Some (regrown (c, m), m')"
    by (simp add: rehash_def regrown_def Let_def)
  moreover have "absent m' k" if "absent m k" for k using that m'(6) absent_entries by fastforce
  ultimately show ?thesis using m' len by auto
qed


lemma full_used: "n_used m = m_size m \<Longrightarrow> i < m_size m \<Longrightarrow> used m i"
  using card_subset_eq [of "{..<m_size m}" "{i. used m i}"] by (auto simp: n_used_def used_def)

lemma insert_home_full:
  assumes wf: "map_wf m" and ab: "absent m k" and k: "k \<noteq> INVALID_ID" and full: "n_used m = m_size m"
    and home: "home m (mainposition m k) = mainposition m k"
  shows "\<exists>cm'. map_insert_depth (Suc (Suc (Suc d))) (c, m) k a = Some cm' \<and> map_inserted (c, m) k a cm'"
proof -
  let ?s = "mainposition m k" and ?f = "free_slot (m_slot m) (m_lastfree m)"
  note u = full_used [OF full]
  then have "ms_id (m_slot m ! ?s) \<noteq> INVALID_ID" using map_mainposition_less [OF wf] by (simp add: used_def)
  moreover have f: "\<not> 0 \<le> ?f"
  proof
    assume "0 \<le> ?f"
    then have "\<not> used m (nat ?f)" "nat ?f < m_size m" using free_slot_correct [OF map_wfD(3-5) [OF wf]] by auto
    then show False using u by blast
  qed
  moreover obtain m1 where m1: "rehash (map_insert_depth (Suc (Suc d))) (c, m\<lparr>m_lastfree := ?f\<rparr>) = Some (regrown (c, m), m1)"
    "map_wf m1" "m_size m1 = 2 * m_size m" "entries m1 = entries m" "n_used m1 \<le> m_size m" "\<And>k. absent m k \<Longrightarrow> absent m1 k"
    using rehash_correct [OF wf, of d c ?f] by blast
  moreover obtain m2 where m2: "map_insert_depth (Suc (Suc d)) (regrown (c, m), m1) k a = Some (regrown (c, m), m2)" "inserted m1 k a m2"
    using insert_room [OF m1(2) m1(6) [OF ab] k, of d "regrown (c, m)" a] m1(3,5) map_wfD(1) [OF wf] by auto
  ultimately have "map_insert_depth (Suc (Suc (Suc d))) (c, m) k a = Some (regrown (c, m), m2)"
    using home by (simp add: map_insert_depth.simps(2) [of "Suc (Suc d)"] Let_def)
  moreover have "map_inserted (c, m) k a (regrown (c, m), m2)"
    using m1 m2(2) full by (auto simp: map_inserted_def map_grown_def inserted_def)
  ultimately show ?thesis by blast
qed

lemma map_insert_correct:
  assumes wf: "map_wf m" and ab: "absent m k" and k: "k \<noteq> INVALID_ID"
  shows "\<exists>cm'. map_insert (c, m) k a = Some cm' \<and> map_inserted (c, m) k a cm'"
proof -
  have four: "map_insert = map_insert_depth (Suc (Suc (Suc (Suc 0))))" by (simp add: map_insert_def numeral_eq_Suc)
  consider (room) "n_used m < m_size m" | (full) "n_used m = m_size m" using n_used_le [of m] by linarith
  then show ?thesis
  proof cases
    case room
    then show ?thesis using insert_room [OF wf ab k room] inserted_map unfolding four by blast
  next
    case full
    show ?thesis
    proof (cases "home m (mainposition m k) = mainposition m k")
      case True
      then show ?thesis unfolding four by (rule insert_home_full [OF wf ab k full])
    next
      case False
      have "used m (mainposition m k)" using full_used [OF full] map_mainposition_less [OF wf] by blast
      then show ?thesis unfolding four
        by (intro insert_away [OF wf ab k _ False] insert_home_full) (auto simp: used_def full)
    qed
  qed
qed


section \<open>Storing and dropping objects\<close>

lemma set_object:
  assumes wf: "map_wf m" and us: "used m i" and m': "m' = set_slot m i ((m_slot m ! i)\<lparr>ms_obj := x\<rparr>)"
  shows "map_wf m'" "m_size m' = m_size m" "n_used m' = n_used m" "absent m' k \<longleftrightarrow> absent m k"
    "entries m' = {e \<in> entries m. fst e \<noteq> ms_id (m_slot m ! i)} \<union>
      (case x of None \<Rightarrow> {} | Some a \<Rightarrow> {(ms_id (m_slot m ! i), a)})"
proof -
  have i: "i < length (m_slot m)" using used_less [OF us] map_wfD(2) [OF wf] by simp
  have slot: "m_slot m' ! j = (if j = i then (m_slot m ! i)\<lparr>ms_obj := x\<rparr> else m_slot m ! j)" for j
    using i by (simp add: m')
  then have f: "ms_id (m_slot m' ! j) = ms_id (m_slot m ! j)" "ms_next (m_slot m' ! j) = ms_next (m_slot m ! j)" for j
    by simp_all
  have main: "m_size m' = m_size m" "mainposition m' k = mainposition m k" for k by (simp_all add: m')
  have u: "used m' = used m" by (simp add: fun_eq_iff used_def f main)
  obtain ch where "chained (used m) (home m) (nxt m) ch" using map_wfD(8) [OF wf] ..
  then have ch': "chained (used m') (home m') (nxt m') ch" by (simp add: u f main)
  have emp: "m_slot m' ! j = empty_slot" if "j < m_size m'" "\<not> used m' j" for j
  proof -
    have "j \<noteq> i" using that us u by auto
    then show ?thesis using that map_wfD(6) [OF wf, of j] by (simp add: slot u main)
  qed
  have inj: "j = j'" if "used m' j" "used m' j'" "ms_id (m_slot m' ! j) = ms_id (m_slot m' ! j')" for j j'
    using that map_wfD(7) [OF wf, of j j'] by (simp add: u f)
  show "map_wf m'"
    by (rule map_wfI [OF _ _ _ _ _ emp inj ch']) (use map_wfD(1-5) [OF wf] u in \<open>simp_all add: m'\<close>)
  show "m_size m' = m_size m" by (rule main)
  show "n_used m' = n_used m" "absent m' k \<longleftrightarrow> absent m k" by (simp_all add: n_used_def absent_def u f)
  show "entries m' = {e \<in> entries m. fst e \<noteq> ms_id (m_slot m ! i)} \<union>
      (case x of None \<Rightarrow> {} | Some a \<Rightarrow> {(ms_id (m_slot m ! i), a)})"
  proof -
    have e: "(q, b) \<in> entries m' \<longleftrightarrow> (\<exists>j. j \<noteq> i \<and> used m j \<and> ms_id (m_slot m ! j) = q \<and> ms_obj (m_slot m ! j) = Some b) \<or>
        q = ms_id (m_slot m ! i) \<and> x = Some b" for q b
      unfolding entries_def using us by (simp add: u f slot) metis
    have "(q, b) \<in> entries m \<and> q \<noteq> ms_id (m_slot m ! i) \<longleftrightarrow>
        (\<exists>j. j \<noteq> i \<and> used m j \<and> ms_id (m_slot m ! j) = q \<and> ms_obj (m_slot m ! j) = Some b)" for q b
      unfolding entries_def using us map_wfD(7) [OF wf, of _ i] by (simp, metis)
    then have "(q, b) \<in> entries m' \<longleftrightarrow> (q, b) \<in> entries m \<and> q \<noteq> ms_id (m_slot m ! i) \<or> q = ms_id (m_slot m ! i) \<and> x = Some b" for q b
      unfolding e by blast
    then show ?thesis by (auto split: option.splits)
  qed
qed

lemma map_drop_correct:
  assumes wf: "map_wf m" and k: "k \<noteq> INVALID_ID"
  shows "\<exists>m'. map_drop m k = Some m' \<and> map_wf m' \<and> m_size m' = m_size m \<and> n_used m' = n_used m \<and>
    entries m' = {e \<in> entries m. fst e \<noteq> k} \<and> (\<forall>k'. absent m' k' \<longleftrightarrow> absent m k')"
proof (cases rule: map_find_correct [OF wf k])
  case (1 i)
  note found = 1
  then show ?thesis using set_object [OF wf found(2) refl, of None] by (simp add: map_drop_def)
next
  case 2
  note missing = 2
  then have "{e \<in> entries m. fst e \<noteq> k} = entries m" using absent_entries by fastforce
  then show ?thesis using missing wf by (simp add: map_drop_def)
qed

lemma map_new_correct:
  "map_wf (snd (map_new c))" "entries (snd (map_new c)) = {}" "n_used (snd (map_new c)) = 0" "m_size (snd (map_new c)) = PRE_ALLOC"
  using fresh_map [of PRE_ALLOC] by (simp_all add: map_new_def PRE_ALLOC_def)

lemma map_objects_live: "map_objects m = List.map snd (live (m_slot m))"
proof -
  have "List.map_filter ms_obj sls = List.map snd (live sls)" for sls
    by (induction sls) (auto simp: List.map_filter_simps split: option.splits)
  then show ?thesis by (simp add: map_objects_def)
qed

lemma set_map_objects: "map_wf m \<Longrightarrow> set (map_objects m) = snd ` entries m"
  by (simp add: map_objects_live live_entries)

lemma distinct_map_objects:
  assumes wf: "map_wf m" and inj: "inj_on snd (entries m)"
  shows "distinct (map_objects m)"
  using distinct_live [OF wf] inj unfolding map_objects_live live_entries [OF wf, symmetric] distinct_map by blast

lemma map_objects_slots: "map_objects (m\<lparr>m_lastfree := f\<rparr>) = map_objects m"
  by (simp add: map_objects_def)

end
