(* ===== verification/Aoi.thy ===== *)
theory Aoi
  imports AoiMap Complex_Main
begin

text \<open>
  Area of interest, \<^verbatim>\<open>src/lualib-src/skynet_aoi/aoi/aoi.c\<close>: objects with positions, some of which watch and some of
  which are markers; a message round reports the markers that come into the range of a watcher.

  Objects live in an explicit memory of addresses, are counted by reference (once by the map while they are not
  dropped, once by each end of a pair) and are freed with the last reference; reading or freeing an address that
  holds no object has no result. The hot pairs, a linked list of \<^verbatim>\<open>pair_list\<close> nodes that only the space points to,
  are a list. Of an \<^verbatim>\<open>object_set\<close> the model keeps the slots that are in use; their number is \<^verbatim>\<open>number\<close>.
  Arithmetic of \<^verbatim>\<open>float\<close> is an argument \<open>F\<close>: the theorems hold for any, in particular for one that rounds and
  has NaN. The contents of fresh memory are an argument as well. What the callback gets is the output.
\<close>

unbundle bit_operations_syntax

section \<open>Float arithmetic\<close>

type_synonym 'f vec = "'f \<times> 'f \<times> 'f"

text \<open>The operations the code uses, and the constants 10.0f, 0.25f and 4.\<close>

record 'f float_ops =
  f_sub :: "'f \<Rightarrow> 'f \<Rightarrow> 'f"
  f_add :: "'f \<Rightarrow> 'f \<Rightarrow> 'f"
  f_mul :: "'f \<Rightarrow> 'f \<Rightarrow> 'f"
  f_less :: "'f \<Rightarrow> 'f \<Rightarrow> bool"
  AOI_RADIS :: 'f
  f_quarter :: 'f
  f_four :: 'f

definition AOI_RADIS2 :: "'f float_ops \<Rightarrow> 'f" where
  "AOI_RADIS2 F = f_mul F (AOI_RADIS F) (AOI_RADIS F)"

fun DIST2 :: "'f float_ops \<Rightarrow> 'f vec \<Rightarrow> 'f vec \<Rightarrow> 'f" where
  "DIST2 F (x1, y1, z1) (x2, y2, z2) =
     f_add F (f_add F (f_mul F (f_sub F x1 x2) (f_sub F x1 x2)) (f_mul F (f_sub F y1 y2) (f_sub F y1 y2)))
       (f_mul F (f_sub F z1 z2) (f_sub F z1 z2))"

definition is_near :: "'f float_ops \<Rightarrow> 'f vec \<Rightarrow> 'f vec \<Rightarrow> bool" where
  "is_near F p1 p2 \<longleftrightarrow> f_less F (DIST2 F p1 p2) (f_mul F (AOI_RADIS2 F) (f_quarter F))"

section \<open>The space\<close>

definition MODE_WATCHER :: int where "MODE_WATCHER = 1"
definition MODE_MARKER :: int where "MODE_MARKER = 2"
definition MODE_MOVE :: int where "MODE_MOVE = 4"
definition MODE_DROP :: int where "MODE_DROP = 8"

record 'f object =
  o_ref :: int
  o_id :: u32
  o_version :: int
  o_mode :: int
  o_last :: "'f vec"
  o_position :: "'f vec"

record object_set =
  os_cap :: nat
  os_slot :: "nat list"

record pair_list =
  pl_watcher :: nat
  pl_marker :: nat
  pl_watcher_version :: int
  pl_marker_version :: int

record 'f aoi_space =
  cookie :: alloc_cookie
  objs :: "nat \<rightharpoonup> 'f object"
  obj_brk :: nat
  objmap :: map
  watcher_static :: object_set
  marker_static :: object_set
  watcher_move :: object_set
  marker_move :: object_set
  hot :: "pair_list list"

definition sizeof_object :: int where "sizeof_object = 40"
definition sizeof_object_set :: int where "sizeof_object_set = 16"
definition sizeof_pair_list :: int where "sizeof_pair_list = 32"
definition sizeof_aoi_space :: int where "sizeof_aoi_space = 64"
definition sizeof_pointer :: int where "sizeof_pointer = 8"

definition has_mode :: "int \<Rightarrow> 'f object \<Rightarrow> bool" where
  "has_mode b ob \<longleftrightarrow> o_mode ob AND b \<noteq> 0"

text \<open>Writing to an object.\<close>

definition upd_object :: "nat \<Rightarrow> ('f object \<Rightarrow> 'f object) \<Rightarrow> 'f aoi_space \<Rightarrow> 'f aoi_space option" where
  "upd_object x f sp = do { ob \<leftarrow> objs sp x; Some (sp\<lparr>objs := (objs sp)(x \<mapsto> f ob)\<rparr>) }"

definition new_object :: "'f object \<Rightarrow> u32 \<Rightarrow> 'f aoi_space \<Rightarrow> nat \<times> 'f aoi_space" where
  "new_object raw k sp =
     (obj_brk sp, sp\<lparr>cookie := my_alloc sizeof_object (cookie sp), obj_brk := Suc (obj_brk sp),
        objs := (objs sp)(obj_brk sp \<mapsto> raw\<lparr>o_ref := 1, o_id := k, o_version := 0, o_mode := 0\<rparr>)\<rparr>)"

definition map_query :: "'f object \<Rightarrow> u32 \<Rightarrow> 'f aoi_space \<Rightarrow> (nat \<times> 'f aoi_space) option" where
  "map_query raw k sp =
     (let m = objmap sp; (x, sp1) = new_object raw k sp
      in do { r \<leftarrow> map_find (m_size m) m k (mainposition m k);
              case r of Some i \<Rightarrow>
                (case ms_obj (m_slot m ! i) of Some a \<Rightarrow> Some (a, sp)
                 | None \<Rightarrow> Some (x, sp1\<lparr>objmap := set_slot m i ((m_slot m ! i)\<lparr>ms_obj := Some x\<rparr>)\<rparr>))
              | None \<Rightarrow> do { (c, m') \<leftarrow> map_insert (cookie sp1, m) k x; Some (x, sp1\<lparr>cookie := c, objmap := m'\<rparr>) } })"

definition grab_object :: "nat \<Rightarrow> 'f aoi_space \<Rightarrow> 'f aoi_space option" where
  "grab_object x sp = upd_object x (\<lambda>ob. ob\<lparr>o_ref := s32 (o_ref ob + 1)\<rparr>) sp"

definition delete_object :: "nat \<Rightarrow> 'f aoi_space \<Rightarrow> 'f aoi_space option" where
  "delete_object x sp =
     (if objs sp x = None then None
      else Some (sp\<lparr>objs := (objs sp)(x := None), cookie := my_free sizeof_object (cookie sp)\<rparr>))"

definition drop_object :: "nat \<Rightarrow> 'f aoi_space \<Rightarrow> 'f aoi_space option" where
  "drop_object x sp =
     do { sp1 \<leftarrow> upd_object x (\<lambda>ob. ob\<lparr>o_ref := s32 (o_ref ob - 1)\<rparr>) sp;
          ob \<leftarrow> objs sp1 x;
          if o_ref ob \<le> 0
          then do { m' \<leftarrow> map_drop (objmap sp1) (o_id ob); delete_object x (sp1\<lparr>objmap := m'\<rparr>) }
          else Some sp1 }"

definition set_new :: "alloc_cookie \<Rightarrow> alloc_cookie \<times> object_set" where
  "set_new c = (my_alloc (int PRE_ALLOC * sizeof_pointer) (my_alloc sizeof_object_set c), \<lparr>os_cap = PRE_ALLOC, os_slot = []\<rparr>)"

definition aoi_create :: "alloc_cookie \<Rightarrow> 'f aoi_space" where
  "aoi_create c =
     (let (c1, m) = map_new (my_alloc sizeof_aoi_space c);
          (c2, ws) = set_new c1; (c3, ms) = set_new c2; (c4, wm) = set_new c3; (c5, mm) = set_new c4
      in \<lparr>cookie = c5, objs = Map.empty, obj_brk = 0, objmap = m, watcher_static = ws, marker_static = ms,
          watcher_move = wm, marker_move = mm, hot = []\<rparr>)"

section \<open>Releasing\<close>

definition delete_set :: "object_set \<Rightarrow> alloc_cookie \<Rightarrow> alloc_cookie" where
  "delete_set s c = my_free sizeof_object_set (my_free (sizeof_pointer * int (os_cap s)) c)"

definition delete_pair_list :: "pair_list list \<Rightarrow> alloc_cookie \<Rightarrow> alloc_cookie" where
  "delete_pair_list ps c = fold (\<lambda>p. my_free sizeof_pair_list) ps c"

primrec delete_objects :: "nat list \<Rightarrow> 'f aoi_space \<Rightarrow> 'f aoi_space option" where
  "delete_objects [] sp = Some sp"
| "delete_objects (x # xs) sp = do { sp' \<leftarrow> delete_object x sp; delete_objects xs sp' }"

definition aoi_release :: "'f aoi_space \<Rightarrow> 'f aoi_space option" where
  "aoi_release sp =
     do { sp1 \<leftarrow> delete_objects (map_objects (objmap sp)) sp;
          let c1 = map_delete (cookie sp1) (objmap sp1);
          let c2 = delete_pair_list (hot sp1) c1;
          let c3 = delete_set (watcher_static sp1) c2;
          let c4 = delete_set (marker_static sp1) c3;
          let c5 = delete_set (watcher_move sp1) c4;
          let c6 = delete_set (marker_move sp1) c5;
          Some (sp1\<lparr>cookie := my_free sizeof_aoi_space c6\<rparr>) }"

section \<open>Updating an object\<close>

definition change_mode :: "bool \<Rightarrow> bool \<Rightarrow> int \<Rightarrow> bool \<times> int" where
  "change_mode set_watcher set_marker mode =
     (if mode = 0
      then (True, let mode1 = (if set_watcher then MODE_WATCHER else mode)
                  in if set_marker then mode1 OR MODE_MARKER else mode1)
      else
        (let (change1, mode1) =
               (if set_watcher
                then if mode AND MODE_WATCHER = 0 then (True, mode OR MODE_WATCHER) else (False, mode)
                else if mode AND MODE_WATCHER \<noteq> 0 then (True, mode AND NOT MODE_WATCHER) else (False, mode))
         in if set_marker
            then if mode1 AND MODE_MARKER = 0 then (True, mode1 OR MODE_MARKER) else (change1, mode1)
            else if mode1 AND MODE_MARKER \<noteq> 0 then (True, mode1 AND NOT MODE_MARKER) else (change1, mode1)))"

text \<open>The loop over the mode string: whether a watcher and a marker were asked for, and whether a \<open>d\<close> ended it.\<close>

fun scan_mode :: "string \<Rightarrow> bool \<Rightarrow> bool \<Rightarrow> bool \<times> bool \<times> bool" where
  "scan_mode [] w m = (w, m, False)"
| "scan_mode (c # cs) w m =
     (if c = CHR ''w'' then scan_mode cs True m
      else if c = CHR ''m'' then scan_mode cs w True
      else if c = CHR ''d'' then (w, m, True)
      else scan_mode cs w m)"

definition aoi_update :: "'f float_ops \<Rightarrow> 'f object \<Rightarrow> u32 \<Rightarrow> string \<Rightarrow> 'f vec \<Rightarrow> 'f aoi_space \<Rightarrow> 'f aoi_space option" where
  "aoi_update F raw k modestring pos sp =
     do { (x, sp1) \<leftarrow> map_query raw k sp;
          ob \<leftarrow> objs sp1 x;
          let (set_watcher, set_marker, drop) = scan_mode modestring False False;
          if drop
          then if \<not> has_mode MODE_DROP ob
               then do { sp2 \<leftarrow> upd_object x (\<lambda>ob. ob\<lparr>o_mode := MODE_DROP\<rparr>) sp1; drop_object x sp2 }
               else Some sp1
          else
            do { sp2 \<leftarrow> (if has_mode MODE_DROP ob
                        then do { sp2 \<leftarrow> upd_object x (\<lambda>ob. ob\<lparr>o_mode := o_mode ob AND NOT MODE_DROP\<rparr>) sp1; grab_object x sp2 }
                        else Some sp1);
                 ob2 \<leftarrow> objs sp2 x;
                 let (changed, mode) = change_mode set_watcher set_marker (o_mode ob2);
                 if changed \<or> \<not> is_near F pos (o_last ob2)
                 then upd_object x (\<lambda>ob. ob\<lparr>o_mode := mode OR MODE_MOVE, o_position := pos, o_last := pos,
                        o_version := s32 (o_version ob + 1)\<rparr>) sp2
                 else upd_object x (\<lambda>ob. ob\<lparr>o_mode := mode, o_position := pos\<rparr>) sp2 } }"

section \<open>The message round\<close>

definition drop_pair :: "pair_list \<Rightarrow> 'f aoi_space \<Rightarrow> 'f aoi_space option" where
  "drop_pair p sp =
     do { sp1 \<leftarrow> drop_object (pl_watcher p) sp;
          sp2 \<leftarrow> drop_object (pl_marker p) sp1;
          Some (sp2\<lparr>cookie := my_free sizeof_pair_list (cookie sp2)\<rparr>) }"

text \<open>The walk over the hot pairs: the pairs that stay, and what the callback gets.\<close>

primrec flush_pairs ::
  "'f float_ops \<Rightarrow> pair_list list \<Rightarrow> 'f aoi_space \<Rightarrow> (pair_list list \<times> (u32 \<times> u32) list \<times> 'f aoi_space) option" where
  "flush_pairs F [] sp = Some ([], [], sp)"
| "flush_pairs F (p # ps) sp =
     do { w \<leftarrow> objs sp (pl_watcher p);
          m \<leftarrow> objs sp (pl_marker p);
          let d = DIST2 F (o_position w) (o_position m);
          if o_version w \<noteq> pl_watcher_version p \<or> o_version m \<noteq> pl_marker_version p \<or>
             has_mode MODE_DROP w \<or> has_mode MODE_DROP m \<or> f_less F (f_mul F (AOI_RADIS2 F) (f_four F)) d
          then do { sp1 \<leftarrow> drop_pair p sp; flush_pairs F ps sp1 }
          else if f_less F d (AOI_RADIS2 F)
          then do { sp1 \<leftarrow> drop_pair p sp;
                    (keep, out, sp2) \<leftarrow> flush_pairs F ps sp1;
                    Some (keep, (o_id w, o_id m) # out, sp2) }
          else do { (keep, out, sp2) \<leftarrow> flush_pairs F ps sp; Some (p # keep, out, sp2) } }"

definition flush_pair :: "'f float_ops \<Rightarrow> 'f aoi_space \<Rightarrow> ((u32 \<times> u32) list \<times> 'f aoi_space) option" where
  "flush_pair F sp = do { (keep, out, sp') \<leftarrow> flush_pairs F (hot sp) sp; Some (out, sp'\<lparr>hot := keep\<rparr>) }"

definition set_push_back :: "nat \<Rightarrow> alloc_cookie \<times> object_set \<Rightarrow> alloc_cookie \<times> object_set" where
  "set_push_back x cs =
     (let (c, s) = cs;
          (c1, s1) = (if length (os_slot s) \<ge> os_cap s
            then (my_free (int (os_cap s) * sizeof_pointer) (my_alloc (int (os_cap s * 2) * sizeof_pointer) c),
                  s\<lparr>os_cap := os_cap s * 2\<rparr>)
            else (c, s))
      in (c1, s1\<lparr>os_slot := os_slot s1 @ [x]\<rparr>))"

definition push_watcher :: "bool \<Rightarrow> nat \<Rightarrow> 'f aoi_space \<Rightarrow> 'f aoi_space" where
  "push_watcher move x sp =
     (if move then (let (c, s) = set_push_back x (cookie sp, watcher_move sp) in sp\<lparr>cookie := c, watcher_move := s\<rparr>)
      else (let (c, s) = set_push_back x (cookie sp, watcher_static sp) in sp\<lparr>cookie := c, watcher_static := s\<rparr>))"

definition push_marker :: "bool \<Rightarrow> nat \<Rightarrow> 'f aoi_space \<Rightarrow> 'f aoi_space" where
  "push_marker move x sp =
     (if move then (let (c, s) = set_push_back x (cookie sp, marker_move sp) in sp\<lparr>cookie := c, marker_move := s\<rparr>)
      else (let (c, s) = set_push_back x (cookie sp, marker_static sp) in sp\<lparr>cookie := c, marker_static := s\<rparr>))"

definition unset_move :: "nat \<Rightarrow> 'f aoi_space \<Rightarrow> 'f aoi_space option" where
  "unset_move x sp = upd_object x (\<lambda>ob. ob\<lparr>o_mode := o_mode ob AND NOT MODE_MOVE\<rparr>) sp"

definition set_push :: "nat \<Rightarrow> 'f aoi_space \<Rightarrow> 'f aoi_space option" where
  "set_push x sp =
     do { ob \<leftarrow> objs sp x;
          let move = has_mode MODE_MOVE ob;
          sp1 \<leftarrow> (if has_mode MODE_WATCHER ob
                  then (if move then unset_move x (push_watcher True x sp) else Some (push_watcher False x sp))
                  else Some sp);
          if has_mode MODE_MARKER ob
          then (if move then unset_move x (push_marker True x sp1) else Some (push_marker False x sp1))
          else Some sp1 }"

primrec set_push_all :: "nat list \<Rightarrow> 'f aoi_space \<Rightarrow> 'f aoi_space option" where
  "set_push_all [] sp = Some sp"
| "set_push_all (x # xs) sp = do { sp' \<leftarrow> set_push x sp; set_push_all xs sp' }"

definition gen_pair :: "'f float_ops \<Rightarrow> nat \<Rightarrow> nat \<Rightarrow> 'f aoi_space \<Rightarrow> ((u32 \<times> u32) list \<times> 'f aoi_space) option" where
  "gen_pair F watcher marker sp =
     (if watcher = marker then Some ([], sp)
      else do { w \<leftarrow> objs sp watcher;
                m \<leftarrow> objs sp marker;
                let d = DIST2 F (o_position w) (o_position m);
                if f_less F d (AOI_RADIS2 F) then Some ([(o_id w, o_id m)], sp)
                else if f_less F (f_mul F (AOI_RADIS2 F) (f_four F)) d then Some ([], sp)
                else do { sp1 \<leftarrow> grab_object watcher (sp\<lparr>cookie := my_alloc sizeof_pair_list (cookie sp)\<rparr>);
                          sp2 \<leftarrow> grab_object marker sp1;
                          Some ([], sp2\<lparr>hot := \<lparr>pl_watcher = watcher, pl_marker = marker,
                             pl_watcher_version = o_version w, pl_marker_version = o_version m\<rparr> # hot sp2\<rparr>) } })"

primrec gen_pairs :: "'f float_ops \<Rightarrow> (nat \<times> nat) list \<Rightarrow> 'f aoi_space \<Rightarrow> ((u32 \<times> u32) list \<times> 'f aoi_space) option" where
  "gen_pairs F [] sp = Some ([], sp)"
| "gen_pairs F (p # ps) sp =
     do { (out, sp1) \<leftarrow> gen_pair F (fst p) (snd p) sp;
          (out', sp2) \<leftarrow> gen_pairs F ps sp1;
          Some (out @ out', sp2) }"

definition gen_pair_list ::
  "'f float_ops \<Rightarrow> object_set \<Rightarrow> object_set \<Rightarrow> 'f aoi_space \<Rightarrow> ((u32 \<times> u32) list \<times> 'f aoi_space) option" where
  "gen_pair_list F watcher marker sp = gen_pairs F (List.product (os_slot watcher) (os_slot marker)) sp"

definition reset_sets :: "'f aoi_space \<Rightarrow> 'f aoi_space" where
  "reset_sets sp =
     sp\<lparr>watcher_static := (watcher_static sp)\<lparr>os_slot := []\<rparr>, watcher_move := (watcher_move sp)\<lparr>os_slot := []\<rparr>,
        marker_static := (marker_static sp)\<lparr>os_slot := []\<rparr>, marker_move := (marker_move sp)\<lparr>os_slot := []\<rparr>\<rparr>"

definition aoi_message :: "'f float_ops \<Rightarrow> 'f aoi_space \<Rightarrow> ((u32 \<times> u32) list \<times> 'f aoi_space) option" where
  "aoi_message F sp =
     do { (out0, sp0) \<leftarrow> flush_pair F sp;
          sp1 \<leftarrow> set_push_all (map_objects (objmap sp0)) (reset_sets sp0);
          (out1, sp2) \<leftarrow> gen_pair_list F (watcher_static sp1) (marker_move sp1) sp1;
          (out2, sp3) \<leftarrow> gen_pair_list F (watcher_move sp2) (marker_static sp2) sp2;
          (out3, sp4) \<leftarrow> gen_pair_list F (watcher_move sp3) (marker_move sp3) sp3;
          Some (out0 @ out1 @ out2 @ out3, sp4) }"

text \<open>The calls of a client, and what they report.\<close>

datatype 'f aoi_op = Update "'f object" u32 string "'f vec" | Message

fun aoi_call :: "'f float_ops \<Rightarrow> 'f aoi_space \<Rightarrow> 'f aoi_op \<Rightarrow> ((u32 \<times> u32) list \<times> 'f aoi_space) option" where
  "aoi_call F sp (Update raw k modestring pos) = map_option (Pair []) (aoi_update F raw k modestring pos sp)"
| "aoi_call F sp Message = aoi_message F sp"


section \<open>Mode bits\<close>

lemma mode_bits:
  "MODE_WATCHER = push_bit 0 1" "MODE_MARKER = push_bit 1 1" "MODE_MOVE = push_bit 2 1" "MODE_DROP = push_bit 3 1"
  by (simp_all add: MODE_WATCHER_def MODE_MARKER_def MODE_MOVE_def MODE_DROP_def)

lemma and_mode: "x AND push_bit n 1 \<noteq> 0 \<longleftrightarrow> bit x n" "x AND push_bit n 1 = 0 \<longleftrightarrow> \<not> bit x n" for x :: int
  by (simp_all add: bit_iff_and_push_bit_not_eq_0)

lemma has_mode_bit [simp]:
  "has_mode MODE_WATCHER ob \<longleftrightarrow> bit (o_mode ob) 0" "has_mode MODE_MARKER ob \<longleftrightarrow> bit (o_mode ob) 1"
  "has_mode MODE_MOVE ob \<longleftrightarrow> bit (o_mode ob) 2" "has_mode MODE_DROP ob \<longleftrightarrow> bit (o_mode ob) 3"
  unfolding has_mode_def mode_bits and_mode by simp_all

lemma bit_pow: "bit (push_bit m 1 :: int) n \<longleftrightarrow> n = m"
  by (simp add: bit_exp_iff)

lemma bit_mode [simp]:
  "bit MODE_WATCHER n \<longleftrightarrow> n = 0" "bit MODE_MARKER n \<longleftrightarrow> n = 1" "bit MODE_MOVE n \<longleftrightarrow> n = 2" "bit MODE_DROP n \<longleftrightarrow> n = 3"
  unfolding mode_bits by (rule bit_pow)+

lemma and_mode_bit:
  "x AND MODE_WATCHER = 0 \<longleftrightarrow> \<not> bit x 0" "x AND MODE_MARKER = 0 \<longleftrightarrow> \<not> bit x 1"
  unfolding mode_bits and_mode by simp_all

lemma change_mode_bits:
  assumes "change_mode w m mode = (changed, mode')"
  shows "bit mode' 0 = w" "bit mode' 1 = m" "2 \<le> n \<Longrightarrow> bit mode' n = bit mode n" "\<not> changed \<Longrightarrow> mode' = mode"
  using assms unfolding change_mode_def Let_def
  by (auto simp: and_mode_bit bit_or_iff bit_and_iff bit_not_iff split: if_splits prod.splits)

section \<open>References\<close>

text \<open>How often an object is referred to: by the map, unless it is dropped, and by the ends of the pairs.\<close>

definition held :: "'f object \<Rightarrow> nat" where
  "held ob = (if bit (o_mode ob) 3 then 0 else 1)"

definition pair_refs :: "pair_list list \<Rightarrow> nat \<Rightarrow> nat" where
  "pair_refs ps a = length (filter (\<lambda>p. pl_watcher p = a) ps) + length (filter (\<lambda>p. pl_marker p = a) ps)"

lemma pair_refs_Nil [simp]: "pair_refs [] a = 0"
  by (simp add: pair_refs_def)

lemma pair_refs_Cons: "pair_refs (p # ps) a =
    (if pl_watcher p = a then 1 else 0) + (if pl_marker p = a then 1 else 0) + pair_refs ps a"
  by (simp add: pair_refs_def)

section \<open>The memory of a space\<close>

text \<open>The blocks and bytes a space has allocated, with \<open>h\<close> pairs.\<close>

definition set_bytes :: "object_set \<Rightarrow> int" where
  "set_bytes s = sizeof_object_set + int (os_cap s) * sizeof_pointer"

definition blocks :: "nat \<Rightarrow> 'f aoi_space \<Rightarrow> int" where
  "blocks h sp = 11 + int (card (dom (objs sp))) + int h"

definition bytes :: "nat \<Rightarrow> 'f aoi_space \<Rightarrow> int" where
  "bytes h sp = sizeof_aoi_space + sizeof_map + int (m_size (objmap sp)) * sizeof_map_slot +
     set_bytes (watcher_static sp) + set_bytes (marker_static sp) + set_bytes (watcher_move sp) + set_bytes (marker_move sp) +
     int (card (dom (objs sp))) * sizeof_object + int h * sizeof_pair_list"

definition accounted :: "nat \<Rightarrow> 'f aoi_space \<Rightarrow> bool" where
  "accounted h sp \<longleftrightarrow> al_count (cookie sp) = s32 (blocks h sp) \<and> al_current (cookie sp) = s32 (bytes h sp)"

lemma s32_s32_addsub [simp]: "s32 (s32 a + b) = s32 (a + b)" "s32 (s32 a - b) = s32 (a - b)" "s32 (b + s32 a) = s32 (b + a)"
  unfolding s32_def by (simp_all add: mod_simps algebra_simps)

lemma s32_s32_mid [simp]: "s32 (s32 a - b - d) = s32 (a - b - d)" "s32 (b + s32 a - d) = s32 (b + a - d)" "s32 (b + (s32 a - d)) = s32 (b + (a - d))"
  using s32_s32_addsub(1) [of a "b - d"] s32_s32_addsub(1) [of a "- b - d"] by (simp_all add: algebra_simps del: s32_s32_addsub)

lemma my_alloc_simps [simp]:
  "al_count (my_alloc sz c) = s32 (al_count c + 1)" "al_current (my_alloc sz c) = s32 (al_current c + sz)"
  "al_count (my_free sz c) = s32 (al_count c - 1)" "al_current (my_free sz c) = s32 (al_current c - sz)"
  by (simp_all add: my_alloc_def my_free_def Let_def)


text \<open>The part of the invariant that does not speak of references, after at most \<open>T\<close> updates: the map knows exactly the
  objects in memory, the tables are within their bounds, and the allocator's count is right.\<close>

definition set_ok :: "nat \<Rightarrow> object_set \<Rightarrow> bool" where
  "set_ok T s \<longleftrightarrow> 0 < os_cap s \<and> length (os_slot s) \<le> os_cap s \<and> os_cap s \<le> max PRE_ALLOC (2 * T)"

definition known :: "(nat \<rightharpoonup> 'f object) \<Rightarrow> (u32 \<times> nat) set" where
  "known os = {(k, a). \<exists>ob. os a = Some ob \<and> o_id ob = k}"

definition sets_ok :: "nat \<Rightarrow> 'f aoi_space \<Rightarrow> bool" where
  "sets_ok T sp \<longleftrightarrow> set_ok T (watcher_static sp) \<and> set_ok T (marker_static sp) \<and>
     set_ok T (watcher_move sp) \<and> set_ok T (marker_move sp)"

definition space_ok :: "nat \<Rightarrow> nat \<Rightarrow> 'f aoi_space \<Rightarrow> bool" where
  "space_ok T h sp \<longleftrightarrow>
     map_wf (objmap sp) \<and> n_used (objmap sp) \<le> T \<and> m_size (objmap sp) \<le> max PRE_ALLOC (2 * T) \<and>
     finite (dom (objs sp)) \<and> card (dom (objs sp)) \<le> T \<and> (\<forall>a \<in> dom (objs sp). a < obj_brk sp) \<and>
     entries (objmap sp) = known (objs sp) \<and> (\<forall>a ob. objs sp a = Some ob \<longrightarrow> o_id ob \<noteq> INVALID_ID) \<and>
     sets_ok T sp \<and> accounted h sp"

lemma space_okD:
  assumes "space_ok T h sp"
  shows "map_wf (objmap sp)" "n_used (objmap sp) \<le> T" "m_size (objmap sp) \<le> max PRE_ALLOC (2 * T)"
    "finite (dom (objs sp))" "card (dom (objs sp)) \<le> T" "objs sp a = Some ob \<Longrightarrow> a < obj_brk sp"
    "entries (objmap sp) = known (objs sp)" "objs sp a = Some ob \<Longrightarrow> o_id ob \<noteq> INVALID_ID"
    "sets_ok T sp" "accounted h sp"
  using assms unfolding space_ok_def by auto

lemma known_upd: "os x = Some ob \<Longrightarrow> o_id ob' = o_id ob \<Longrightarrow> known (os(x \<mapsto> ob')) = known os"
  by (auto simp: known_def)

lemma known_fresh: "os x = None \<Longrightarrow> known (os(x \<mapsto> ob)) = insert (o_id ob, x) (known os)"
  by (auto simp: known_def)

lemma known_same_id:
  assumes "space_ok T h sp" "objs sp a = Some x" "objs sp b = Some y" "o_id x = o_id y"
  shows "a = b"
  using entries_functional [OF space_okD(1) [OF assms(1)], of "o_id x" a b] assms(2-4) space_okD(7) [OF assms(1)]
  by (auto simp: known_def)

lemma known_gone:
  assumes "space_ok T h sp" "objs sp x = Some ob"
  shows "known ((objs sp)(x := None)) = {e \<in> known (objs sp). fst e \<noteq> o_id ob}"
proof -
  have "(k, a) \<in> known ((objs sp)(x := None)) \<longleftrightarrow> (k, a) \<in> known (objs sp) \<and> k \<noteq> o_id ob" for k a
    using known_same_id [OF assms(1) _ assms(2), of a] assms(2) unfolding known_def by (cases "a = x") auto
  then show ?thesis by auto
qed

lemma upd_object_ok:
  assumes "space_ok T h sp" "objs sp x = Some ob" "o_id (f ob) = o_id ob"
  shows "upd_object x f sp = Some (sp\<lparr>objs := (objs sp)(x \<mapsto> f ob)\<rparr>) \<and> space_ok T h (sp\<lparr>objs := (objs sp)(x \<mapsto> f ob)\<rparr>)"
proof -
  have "dom ((objs sp)(x \<mapsto> f ob)) = dom (objs sp)" using assms(2) by auto
  then show ?thesis using assms known_upd [of "objs sp" x ob "f ob"]
    by (auto simp: upd_object_def space_ok_def sets_ok_def accounted_def blocks_def bytes_def)
qed

text \<open>Dropping a reference, and with the last one the object.\<close>

lemma drop_object_ok:
  assumes ok: "space_ok T h sp" and ob: "objs sp x = Some ob" and r: "0 < o_ref ob" "o_ref ob \<le> INT_MAX"
  shows "\<exists>sp'. drop_object x sp = Some sp' \<and> space_ok T h sp' \<and> obj_brk sp' = obj_brk sp \<and> hot sp' = hot sp \<and>
    objs sp' = (objs sp)(x := if o_ref ob = 1 then None else Some (ob\<lparr>o_ref := o_ref ob - 1\<rparr>))"
proof -
  let ?f = "\<lambda>ob. ob\<lparr>o_ref := s32 (o_ref ob - 1)\<rparr>"
  let ?sp1 = "sp\<lparr>objs := (objs sp)(x \<mapsto> ?f ob)\<rparr>"
  have r1: "s32 (o_ref ob - 1) = o_ref ob - 1" using r by (intro s32_id) auto
  have u: "upd_object x ?f sp = Some ?sp1" "space_ok T h ?sp1" using upd_object_ok [OF ok ob, of ?f] by simp_all
  show ?thesis
  proof (cases "o_ref ob = 1")
    case False
    then show ?thesis using u r r1 by (auto simp: drop_object_def)
  next
    case True
    obtain m' where m': "map_drop (objmap sp) (o_id ob) = Some m'" "map_wf m'" "m_size m' = m_size (objmap sp)"
      "n_used m' = n_used (objmap sp)" "entries m' = {e \<in> entries (objmap sp). fst e \<noteq> o_id ob}"
      using map_drop_correct [OF space_okD(1,8) [OF ok], of x ob] ob by blast
    let ?sp2 = "sp\<lparr>objs := (objs sp)(x := None), cookie := my_free sizeof_object (cookie sp), objmap := m'\<rparr>"
    have "drop_object x sp = Some ?sp2"
      using u(1) r1 True m'(1) by (simp add: drop_object_def delete_object_def)
    moreover have c: "card (dom (objs sp)) = Suc (card (dom (objs sp) - {x}))"
      using card.remove [OF space_okD(4) [OF ok], of x] ob by blast
    have "accounted h ?sp2"
      using space_okD(10) [OF ok] c by (simp add: accounted_def blocks_def bytes_def m'(3) algebra_simps)
    then have "space_ok T h ?sp2"
      using ok m' c known_gone [OF ok ob] by (auto simp: space_ok_def sets_ok_def)
    ultimately show ?thesis using True by auto
  qed
qed

lemma grab_object_ok:
  assumes ok: "space_ok T h sp" and ob: "objs sp x = Some ob" and r: "0 \<le> o_ref ob" "o_ref ob < INT_MAX"
  shows "grab_object x sp = Some (sp\<lparr>objs := (objs sp)(x \<mapsto> ob\<lparr>o_ref := o_ref ob + 1\<rparr>)\<rparr>) \<and>
    space_ok T h (sp\<lparr>objs := (objs sp)(x \<mapsto> ob\<lparr>o_ref := o_ref ob + 1\<rparr>)\<rparr>)"
proof -
  have "s32 (o_ref ob + 1) = o_ref ob + 1" using r by (intro s32_id) auto
  then show ?thesis using upd_object_ok [OF ok ob, of "\<lambda>ob. ob\<lparr>o_ref := s32 (o_ref ob + 1)\<rparr>"] by (simp add: grab_object_def)
qed

text \<open>Looking an object up, or making it.\<close>

lemma space_ok_later: "space_ok T h sp \<Longrightarrow> T \<le> T' \<Longrightarrow> space_ok T' h sp"
  unfolding space_ok_def sets_ok_def set_ok_def by auto

lemma new_object_ok:
  fixes sp :: "'f aoi_space" and raw :: "'f object"
  assumes ok: "space_ok T h sp" and x: "x = obj_brk sp" and k: "k \<noteq> INVALID_ID"
    and ob: "ob = raw\<lparr>o_ref := 1, o_id := k, o_version := 0, o_mode := 0\<rparr>"
    and m': "map_wf m'" "n_used m' \<le> Suc (n_used (objmap sp))" "entries m' = insert (k, x) (entries (objmap sp))"
    and c: "c = my_alloc sizeof_object (cookie sp) \<and> m_size m' = m_size (objmap sp) \<or>
      c = regrown (my_alloc sizeof_object (cookie sp), objmap sp) \<and> m_size m' = 2 * m_size (objmap sp) \<and>
      n_used (objmap sp) = m_size (objmap sp)"
  shows "space_ok (Suc T) h (sp\<lparr>cookie := c, obj_brk := Suc x, objs := (objs sp)(x \<mapsto> ob), objmap := m'\<rparr>)"
proof -
  let ?sp = "sp\<lparr>cookie := c, obj_brk := Suc x, objs := (objs sp)(x \<mapsto> ob), objmap := m'\<rparr>"
  have n: "objs sp x = None" using space_okD(6) [OF ok, of x] x by (cases "objs sp x") auto
  have card: "card (dom (objs ?sp)) = Suc (card (dom (objs sp)))"
    using card_insert_disjoint [OF space_okD(4) [OF ok], of x] n by (simp add: domIff)
  have "accounted h ?sp"
    using c space_okD(10) [OF ok] card
    by (auto simp: accounted_def blocks_def bytes_def regrown_def algebra_simps)
  moreover have "m_size m' \<le> max PRE_ALLOC (2 * Suc T)" using c space_okD(2,3) [OF ok] by auto
  moreover have "entries m' = known (objs ?sp)" using m'(3) known_fresh [of "objs sp" x ob, OF n] space_okD(7) [OF ok] ob by simp
  moreover have "sets_ok (Suc T) ?sp" using space_okD(9) [OF ok] by (auto simp: sets_ok_def set_ok_def)
  moreover have "\<forall>a \<in> dom (objs ?sp). a < obj_brk ?sp" using space_okD(6) [OF ok] x by (fastforce split: if_splits)
  ultimately show ?thesis
    unfolding space_ok_def using ok card m' k ob space_okD(2,4,5,8) [OF ok] by (auto simp: ob)
qed


lemma map_query_ok:
  assumes ok: "space_ok T h sp" and k: "k \<noteq> INVALID_ID"
  shows "\<exists>x sp' ob. map_query raw k sp = Some (x, sp') \<and> space_ok (Suc T) h sp' \<and> hot sp' = hot sp \<and> objs sp' x = Some ob \<and>
    o_id ob = k \<and> (objs sp' = objs sp \<or> (objs sp x = None \<and> objs sp' = (objs sp)(x \<mapsto> ob) \<and> x = obj_brk sp \<and>
      ob = raw\<lparr>o_ref := 1, o_id := k, o_version := 0, o_mode := 0\<rparr>))"
proof -
  let ?m = "objmap sp" and ?x = "obj_brk sp"
  let ?ob = "raw\<lparr>o_ref := 1, o_id := k, o_version := 0, o_mode := 0\<rparr>"
  have n: "objs sp ?x = None" using space_okD(6) [OF ok, of ?x] by (cases "objs sp ?x") auto
  show ?thesis
  proof (cases rule: map_find_correct [OF space_okD(1) [OF ok] k])
    case (1 i)
    show ?thesis
    proof (cases "ms_obj (m_slot ?m ! i)")
      case (Some a)
      then have "(k, a) \<in> known (objs sp)" using 1 space_okD(7) [OF ok] by (auto simp: entries_def)
      then obtain ob where "objs sp a = Some ob" "o_id ob = k" by (auto simp: known_def)
      then show ?thesis using 1 Some space_ok_later [OF ok, of "Suc T"]
        by (intro exI [of _ a] exI [of _ sp] exI [of _ ob]) (simp add: map_query_def new_object_def)
    next
      case None
      let ?m' = "set_slot ?m i ((m_slot ?m ! i)\<lparr>ms_obj := Some ?x\<rparr>)"
      note s = set_object [OF space_okD(1) [OF ok] 1(2) refl, of "Some ?x"]
      have "(k, b) \<notin> entries ?m" for b
      proof
        assume "(k, b) \<in> entries ?m"
        then obtain j where j: "used ?m j" "ms_id (m_slot ?m ! j) = k" "ms_obj (m_slot ?m ! j) = Some b"
          unfolding entries_def by blast
        then have "j = i" using map_wfD(7) [OF space_okD(1) [OF ok] j(1) 1(2)] 1(3) by simp
        then show False using j(3) None by simp
      qed
      then have "{e \<in> entries ?m. fst e \<noteq> k} = entries ?m" by fastforce
      then have "entries ?m' = insert (k, ?x) (entries ?m)" using s(5) unfolding 1(3) by simp
      then have "space_ok (Suc T) h (sp\<lparr>cookie := my_alloc sizeof_object (cookie sp), obj_brk := Suc ?x,
          objs := (objs sp)(?x \<mapsto> ?ob), objmap := ?m'\<rparr>)"
        using s(1-3) by (intro new_object_ok [OF ok refl k refl]) auto
      moreover have "map_query raw k sp = Some (?x, sp\<lparr>cookie := my_alloc sizeof_object (cookie sp), obj_brk := Suc ?x,
          objs := (objs sp)(?x \<mapsto> ?ob), objmap := ?m'\<rparr>)"
        using 1(1) None by (simp add: map_query_def new_object_def Let_def del: set_slot_simps)
      ultimately show ?thesis using n by auto
    qed
  next
    case 2
    let ?c = "my_alloc sizeof_object (cookie sp)"
    obtain c' m' where i: "map_insert (?c, ?m) k ?x = Some (c', m')" "map_inserted (?c, ?m) k ?x (c', m')"
      using map_insert_correct [OF space_okD(1) [OF ok] 2(2) k] by fastforce
    have "space_ok (Suc T) h (sp\<lparr>cookie := c', obj_brk := Suc ?x, objs := (objs sp)(?x \<mapsto> ?ob), objmap := m'\<rparr>)"
      using i(2) by (intro new_object_ok [OF ok refl k refl]) (auto simp: map_inserted_def map_grown_def)
    moreover have "map_query raw k sp = Some (?x, sp\<lparr>cookie := c', obj_brk := Suc ?x,
        objs := (objs sp)(?x \<mapsto> ?ob), objmap := m'\<rparr>)"
      using 2(1) i(1) by (simp add: map_query_def new_object_def Let_def)
    ultimately show ?thesis using n by auto
  qed
qed

section \<open>The invariant\<close>

text \<open>References are counted right, and an object in memory has at least one.\<close>

definition refs_ok :: "(nat \<Rightarrow> nat) \<Rightarrow> (nat \<rightharpoonup> 'f object) \<Rightarrow> bool" where
  "refs_ok r os \<longleftrightarrow> (\<forall>a ob. os a = Some ob \<longrightarrow> o_ref ob = int (held ob + r a) \<and> 0 < o_ref ob) \<and>
     (\<forall>a. 0 < r a \<longrightarrow> a \<in> dom os)"

text \<open>A pair has seen versions of its ends that are not newer than theirs, and older than theirs when they have moved
  since; and no two pairs have the same ends.\<close>

definition end_ok :: "(nat \<rightharpoonup> 'f object) \<Rightarrow> nat \<Rightarrow> int \<Rightarrow> bool" where
  "end_ok os x v \<longleftrightarrow> (\<forall>ob. os x = Some ob \<longrightarrow> v \<le> o_version ob \<and> (bit (o_mode ob) 2 \<longrightarrow> v < o_version ob))"

definition pairs_ok :: "pair_list list \<Rightarrow> (nat \<rightharpoonup> 'f object) \<Rightarrow> bool" where
  "pairs_ok ps os \<longleftrightarrow> distinct (List.map (\<lambda>p. (pl_watcher p, pl_marker p)) ps) \<and>
     (\<forall>p \<in> set ps. end_ok os (pl_watcher p) (pl_watcher_version p) \<and> end_ok os (pl_marker p) (pl_marker_version p))"

text \<open>Versions count updates, and a dropped object neither watches nor is a marker.\<close>

definition fields_ok :: "nat \<Rightarrow> (nat \<rightharpoonup> 'f object) \<Rightarrow> bool" where
  "fields_ok T os \<longleftrightarrow> (\<forall>a ob. os a = Some ob \<longrightarrow> 0 \<le> o_version ob \<and> o_version ob \<le> int T \<and>
     (bit (o_mode ob) 3 \<longrightarrow> \<not> bit (o_mode ob) 0 \<and> \<not> bit (o_mode ob) 1))"

definition aoi_inv :: "nat \<Rightarrow> 'f aoi_space \<Rightarrow> bool" where
  "aoi_inv T sp \<longleftrightarrow> space_ok T (length (hot sp)) sp \<and> refs_ok (pair_refs (hot sp)) (objs sp) \<and>
     pairs_ok (hot sp) (objs sp) \<and> fields_ok T (objs sp)"

text \<open>So no object has more references than twice the number of objects, and one.\<close>

lemma pair_refs_bound:
  assumes d: "distinct (List.map (\<lambda>p. (pl_watcher p, pl_marker p)) ps)" and r: "\<forall>a. 0 < pair_refs ps a \<longrightarrow> a \<in> A" and A: "finite A"
  shows "pair_refs ps a \<le> 2 * card A"
proof -
  have inA: "pl_watcher p \<in> A" "pl_marker p \<in> A" if "p \<in> set ps" for p
    using r that by (auto simp: pair_refs_def filter_empty_conv)
  have d': "distinct ps" "inj_on (\<lambda>p. (pl_watcher p, pl_marker p)) (set ps)" using d by (auto simp: distinct_map)
  have "length (filter (\<lambda>p. pl_watcher p = a) ps) \<le> card A"
  proof -
    have "length (filter (\<lambda>p. pl_watcher p = a) ps) = card (set (filter (\<lambda>p. pl_watcher p = a) ps))"
      using d'(1) by (simp add: distinct_card [symmetric])
    also have "\<dots> \<le> card A"
      by (rule card_inj_on_le [of pl_marker]) (use inA d'(2) A in \<open>auto simp: inj_on_def\<close>)
    finally show ?thesis .
  qed
  moreover have "length (filter (\<lambda>p. pl_marker p = a) ps) \<le> card A"
  proof -
    have "length (filter (\<lambda>p. pl_marker p = a) ps) = card (set (filter (\<lambda>p. pl_marker p = a) ps))"
      using d'(1) by (simp add: distinct_card [symmetric])
    also have "\<dots> \<le> card A"
      by (rule card_inj_on_le [of pl_watcher]) (use inA d'(2) A in \<open>auto simp: inj_on_def\<close>)
    finally show ?thesis .
  qed
  ultimately show ?thesis by (simp add: pair_refs_def)
qed


section \<open>Updates keep the invariant\<close>

lemma refs_okD:
  assumes "refs_ok r os"
  shows "os a = Some ob \<Longrightarrow> o_ref ob = int (held ob + r a)" "os a = Some ob \<Longrightarrow> 0 < o_ref ob" "0 < r a \<Longrightarrow> os a \<noteq> None"
  using assms unfolding refs_ok_def dom_def by blast+

lemma refs_okI:
  assumes "\<And>a ob. os a = Some ob \<Longrightarrow> o_ref ob = int (held ob + r a)" "\<And>a ob. os a = Some ob \<Longrightarrow> 0 < o_ref ob"
    "\<And>a. 0 < r a \<Longrightarrow> os a \<noteq> None"
  shows "refs_ok r os"
  using assms unfolding refs_ok_def dom_def by blast

lemma refs_ok_upd:
  assumes "refs_ok r os" "os x = Some ob" "o_ref ob' = int (held ob' + r x)" "0 < o_ref ob'"
  shows "refs_ok r (os(x \<mapsto> ob'))"
proof (rule refs_okI)
  fix a ob1 assume a: "(os(x \<mapsto> ob')) a = Some ob1"
  show "o_ref ob1 = int (held ob1 + r a)" "0 < o_ref ob1"
    using a assms(3,4) refs_okD(1,2) [OF assms(1), of a ob1] by (cases "a = x"; simp)+
next
  fix a assume "0 < r a"
  then show "(os(x \<mapsto> ob')) a \<noteq> None" using refs_okD(3) [OF assms(1)] by auto
qed

lemma refs_ok_gone:
  assumes "refs_ok r os" "r x = 0"
  shows "refs_ok r (os(x := None))"
proof (rule refs_okI)
  fix a ob1 assume a: "(os(x := None)) a = Some ob1"
  show "o_ref ob1 = int (held ob1 + r a)" "0 < o_ref ob1"
    using a refs_okD(1,2) [OF assms(1), of a ob1] by (cases "a = x"; simp)+
next
  fix a assume "0 < r a"
  then show "(os(x := None)) a \<noteq> None" using refs_okD(3) [OF assms(1)] assms(2) by auto
qed

lemma pairs_ok_upd:
  assumes "pairs_ok ps os" "os x = Some ob" "o_version ob \<le> o_version ob'"
    "bit (o_mode ob') 2 \<Longrightarrow> bit (o_mode ob) 2 \<or> o_version ob < o_version ob'"
  shows "pairs_ok ps (os(x \<mapsto> ob'))"
proof -
  have "end_ok (os(x \<mapsto> ob')) y v" if e: "end_ok os y v" for y v
  proof (cases "y = x")
    case True
    have "v \<le> o_version ob" "bit (o_mode ob) 2 \<Longrightarrow> v < o_version ob" using e True assms(2) by (auto simp: end_ok_def)
    then show ?thesis using True assms(3,4) by (auto simp: end_ok_def)
  qed (use e in \<open>simp add: end_ok_def\<close>)
  then show ?thesis using assms(1) by (simp add: pairs_ok_def)
qed

lemma pairs_ok_gone: "pairs_ok ps os \<Longrightarrow> pairs_ok ps (os(x := None))"
  by (auto simp: pairs_ok_def end_ok_def)

lemma fields_ok_upd: "fields_ok T os \<Longrightarrow> 0 \<le> o_version ob \<Longrightarrow> o_version ob \<le> int T \<Longrightarrow>
    bit (o_mode ob) 3 \<longrightarrow> \<not> bit (o_mode ob) 0 \<and> \<not> bit (o_mode ob) 1 \<Longrightarrow> fields_ok T (os(x \<mapsto> ob))"
  by (simp add: fields_ok_def)

lemma fields_ok_gone: "fields_ok T os \<Longrightarrow> fields_ok T (os(x := None))"
  by (simp add: fields_ok_def)

lemma refs_ok_fresh:
  assumes "refs_ok r os" "os x = None" "o_ref ob = 1" "held ob = 1"
  shows "refs_ok r (os(x \<mapsto> ob))"
proof (rule refs_okI)
  fix a ob1 assume a: "(os(x \<mapsto> ob)) a = Some ob1"
  have "r x = 0" using refs_okD(3) [OF assms(1), of x] assms(2) by auto
  then show "o_ref ob1 = int (held ob1 + r a)" "0 < o_ref ob1"
    using a assms(3,4) refs_okD(1,2) [OF assms(1), of a ob1] by (cases "a = x"; simp)+
next
  fix a assume "0 < r a"
  then show "(os(x \<mapsto> ob)) a \<noteq> None" using refs_okD(3) [OF assms(1)] by auto
qed

lemma pairs_ok_fresh:
  assumes "pairs_ok ps os" "refs_ok (pair_refs ps) os" "os x = None"
  shows "pairs_ok ps (os(x \<mapsto> ob))"
proof -
  have "pl_watcher p \<noteq> x \<and> pl_marker p \<noteq> x" if "p \<in> set ps" for p
  proof -
    have "0 < pair_refs ps (pl_watcher p)" "0 < pair_refs ps (pl_marker p)"
      using that by (auto simp: pair_refs_def filter_empty_conv)
    then show ?thesis using refs_okD(3) [OF assms(2)] assms(3) by metis
  qed
  then show ?thesis using assms(1) by (auto simp: pairs_ok_def end_ok_def)
qed

lemma aoi_refs_bound:
  assumes "pairs_ok ps (objs sp)" "refs_ok (pair_refs ps) (objs sp)" "space_ok T h sp"
  shows "pair_refs ps a \<le> 2 * T"
proof -
  have "pair_refs ps a \<le> 2 * card (dom (objs sp))"
    using assms(1,2) space_okD(4) [OF assms(3)] by (intro pair_refs_bound) (auto simp: pairs_ok_def refs_ok_def)
  then show ?thesis using space_okD(5) [OF assms(3)] by simp
qed

lemma aoi_query_inv:
  assumes inv: "aoi_inv T sp" and k: "k \<noteq> INVALID_ID"
  obtains x sp1 ob where "map_query raw k sp = Some (x, sp1)" "objs sp1 x = Some ob" "o_id ob = k" "hot sp1 = hot sp"
    "space_ok (Suc T) (length (hot sp)) sp1" "refs_ok (pair_refs (hot sp)) (objs sp1)" "pairs_ok (hot sp) (objs sp1)"
    "fields_ok T (objs sp1)"
proof -
  have i: "space_ok T (length (hot sp)) sp" "refs_ok (pair_refs (hot sp)) (objs sp)" "pairs_ok (hot sp) (objs sp)"
    "fields_ok T (objs sp)" using inv by (simp_all add: aoi_inv_def)
  obtain x sp1 ob where q: "map_query raw k sp = Some (x, sp1)" "space_ok (Suc T) (length (hot sp)) sp1" "hot sp1 = hot sp"
    "objs sp1 x = Some ob" "o_id ob = k" "objs sp1 = objs sp \<or> (objs sp x = None \<and> objs sp1 = (objs sp)(x \<mapsto> ob) \<and> x = obj_brk sp \<and>
      ob = raw\<lparr>o_ref := 1, o_id := k, o_version := 0, o_mode := 0\<rparr>)"
    using map_query_ok [OF i(1) k, of raw] by blast
  have "refs_ok (pair_refs (hot sp)) (objs sp1) \<and> pairs_ok (hot sp) (objs sp1) \<and> fields_ok T (objs sp1)"
    using q(6)
  proof
    assume e: "objs sp x = None \<and> objs sp1 = (objs sp)(x \<mapsto> ob) \<and> x = obj_brk sp \<and>
      ob = raw\<lparr>o_ref := 1, o_id := k, o_version := 0, o_mode := 0\<rparr>"
    then have "o_ref ob = 1" "held ob = 1" "o_version ob = 0" "\<not> bit (o_mode ob) 3" by (simp_all add: held_def)
    moreover note conjunct1 [OF e] conjunct1 [OF conjunct2 [OF e]]
    ultimately show ?thesis
      using refs_ok_fresh [OF i(2), of x ob] pairs_ok_fresh [OF i(3,2), of x ob] fields_ok_upd [OF i(4), of ob x] by simp
  qed (use i in simp)
  then show thesis using that q by blast
qed

lemma aoi_update_inv:
  fixes sp :: "'f aoi_space"
  assumes inv: "aoi_inv T sp" and k: "k \<noteq> INVALID_ID" and T: "T < 2 ^ 28"
  shows "\<exists>sp'. aoi_update F raw k modestring pos sp = Some sp' \<and> aoi_inv (Suc T) sp'"
proof -
  obtain x sp1 ob where q: "map_query raw k sp = Some (x, sp1)" "objs sp1 x = Some ob" "o_id ob = k" "hot sp1 = hot sp"
    "space_ok (Suc T) (length (hot sp)) sp1" "refs_ok (pair_refs (hot sp)) (objs sp1)" "pairs_ok (hot sp) (objs sp1)"
    "fields_ok T (objs sp1)"
    using aoi_query_inv [OF inv k] .
  let ?r = "pair_refs (hot sp)"
  have ref: "o_ref ob = int (held ob + ?r x)" "0 < o_ref ob" using refs_okD(1,2) [OF q(6,2)] by simp_all
  have rb: "?r x \<le> 2 * Suc T" using aoi_refs_bound [OF q(7,6,5)] .
  have ver: "0 \<le> o_version ob" "o_version ob \<le> int T" using q(2,8) by (auto simp: fields_ok_def)
  obtain w m d where sc: "scan_mode modestring False False = (w, m, d)" by (cases "scan_mode modestring False False") auto
  consider (gone) "d" "bit (o_mode ob) 3" | (drop) "d" "\<not> bit (o_mode ob) 3" | (move) "\<not> d" by blast
  then show ?thesis
  proof cases
    case gone
    have "fields_ok (Suc T) (objs sp1)" using q(8) by (fastforce simp: fields_ok_def)
    then show ?thesis using q sc gone by (simp add: aoi_update_def aoi_inv_def)
  next
    case drop
    let ?ob = "ob\<lparr>o_mode := MODE_DROP\<rparr>"
    let ?sp2 = "sp1\<lparr>objs := (objs sp1)(x \<mapsto> ?ob)\<rparr>"
    have u: "upd_object x (\<lambda>ob. ob\<lparr>o_mode := MODE_DROP\<rparr>) sp1 = Some ?sp2" "space_ok (Suc T) (length (hot sp)) ?sp2"
      using upd_object_ok [OF q(5,2), of "\<lambda>ob. ob\<lparr>o_mode := MODE_DROP\<rparr>"] by simp_all
    have r: "o_ref ?ob = 1 + int (?r x)" using ref drop by (simp add: held_def)
    obtain sp' where sp': "drop_object x ?sp2 = Some sp'" "space_ok (Suc T) (length (hot sp)) sp'" "hot sp' = hot sp"
      "objs sp' = (objs sp1)(x := if o_ref ob = 1 then None else Some (?ob\<lparr>o_ref := o_ref ob - 1\<rparr>))"
      using drop_object_ok [OF u(2), of x ?ob] r rb T q(4) by auto
    have v: "fields_ok (Suc T) (objs sp')" using q(8) ver by (fastforce simp: fields_ok_def sp'(4))
    have "refs_ok ?r (objs sp') \<and> pairs_ok (hot sp) (objs sp')"
    proof (cases "o_ref ob = 1")
      case True
      then show ?thesis using r sp'(4) refs_ok_gone [OF q(6), of x] pairs_ok_gone [OF q(7), of x] by simp
    next
      case False
      then show ?thesis using r sp'(4) refs_ok_upd [OF q(6,2), of "?ob\<lparr>o_ref := o_ref ob - 1\<rparr>"]
          pairs_ok_upd [OF q(7,2), of "?ob\<lparr>o_ref := o_ref ob - 1\<rparr>"] by (simp add: held_def)
    qed
    then show ?thesis using q(1,2) sc drop u(1) sp' v by (simp add: aoi_update_def aoi_inv_def)
  next
    case move
    define ob2 where "ob2 = (if bit (o_mode ob) 3 then ob\<lparr>o_mode := o_mode ob AND NOT MODE_DROP, o_ref := o_ref ob + 1\<rparr> else ob)"
    define sp2 where "sp2 = (if bit (o_mode ob) 3 then sp1\<lparr>objs := (objs sp1)(x \<mapsto> ob2)\<rparr> else sp1)"
    have m2: "\<not> bit (o_mode ob2) 3" "bit (o_mode ob2) 2 = bit (o_mode ob) 2" "o_id ob2 = o_id ob" "o_version ob2 = o_version ob"
      by (auto simp: ob2_def bit_and_iff bit_not_iff)
    have r2: "o_ref ob2 = 1 + int (?r x)" using ref by (auto simp: ob2_def held_def)
    have s2: "(if bit (o_mode ob) 3 then do { sp2 \<leftarrow> upd_object x (\<lambda>ob. ob\<lparr>o_mode := o_mode ob AND NOT MODE_DROP\<rparr>) sp1; grab_object x sp2 }
        else Some sp1) = Some sp2 \<and> space_ok (Suc T) (length (hot sp)) sp2"
    proof (cases "bit (o_mode ob) 3")
      case True
      let ?ob = "ob\<lparr>o_mode := o_mode ob AND NOT MODE_DROP\<rparr>"
      let ?sp = "sp1\<lparr>objs := (objs sp1)(x \<mapsto> ?ob)\<rparr>"
      have u: "upd_object x (\<lambda>ob. ob\<lparr>o_mode := o_mode ob AND NOT MODE_DROP\<rparr>) sp1 = Some ?sp"
        "space_ok (Suc T) (length (hot sp)) ?sp"
        using upd_object_ok [OF q(5,2), of "\<lambda>ob. ob\<lparr>o_mode := o_mode ob AND NOT MODE_DROP\<rparr>"] by simp_all
      have "0 \<le> o_ref ?ob" "o_ref ?ob < INT_MAX" using ref rb T True by (simp_all add: held_def)
      then show ?thesis using u(1) grab_object_ok [OF u(2), of x ?ob] True by (simp add: sp2_def ob2_def)
    qed (use q(5) in \<open>simp add: sp2_def\<close>)
    have x2: "objs sp2 x = Some ob2" "objs sp2 = (objs sp1)(x \<mapsto> ob2)" "hot sp2 = hot sp"
      using q(2,4) by (auto simp: sp2_def ob2_def fun_upd_idem)
    obtain ch md where cm: "change_mode w m (o_mode ob2) = (ch, md)" by (cases "change_mode w m (o_mode ob2)")
    have md: "\<not> bit md 3" "bit md 2 = bit (o_mode ob) 2"
      using change_mode_bits(3) [OF cm, of 3] change_mode_bits(3) [OF cm, of 2] m2 by simp_all
    define f where "f = (if ch \<or> \<not> is_near F pos (o_last ob2)
      then (\<lambda>ob :: 'f object. ob\<lparr>o_mode := md OR MODE_MOVE, o_position := pos, o_last := pos, o_version := s32 (o_version ob + 1)\<rparr>)
      else (\<lambda>ob. ob\<lparr>o_mode := md, o_position := pos\<rparr>))"
    have "s32 (o_version ob + 1) = o_version ob + 1" using ver T by (intro s32_id) auto
    then have f: "o_id (f ob2) = o_id ob2" "o_ref (f ob2) = o_ref ob2" "\<not> bit (o_mode (f ob2)) 3" "o_version ob \<le> o_version (f ob2)"
      "o_version (f ob2) \<le> o_version ob + 1" "bit (o_mode (f ob2)) 2 \<Longrightarrow> bit (o_mode ob) 2 \<or> o_version ob < o_version (f ob2)"
      using md m2 by (auto simp: f_def bit_or_iff)
    let ?sp3 = "sp2\<lparr>objs := (objs sp2)(x \<mapsto> f ob2)\<rparr>"
    have u: "upd_object x f sp2 = Some ?sp3" "space_ok (Suc T) (length (hot sp)) ?sp3"
      using upd_object_ok [OF conjunct2 [OF s2] x2(1), of f] f(1) by simp_all
    have o3: "objs ?sp3 = (objs sp1)(x \<mapsto> f ob2)" using x2(2) by simp
    have "refs_ok ?r (objs ?sp3)" unfolding o3 using f r2 by (intro refs_ok_upd [OF q(6,2)]) (auto simp: held_def)
    moreover have "pairs_ok (hot sp) (objs ?sp3)" unfolding o3 using f by (intro pairs_ok_upd [OF q(7,2)]) auto
    moreover have "fields_ok T (objs sp1) \<longrightarrow> fields_ok (Suc T) (objs sp1)" by (fastforce simp: fields_ok_def)
    then have "fields_ok (Suc T) (objs ?sp3)" unfolding o3 using f ver q(8) by (intro fields_ok_upd) auto
    moreover have "aoi_update F raw k modestring pos sp = upd_object x f sp2"
      using q(1,2) sc move s2 x2(1) cm by (simp add: aoi_update_def f_def)
    ultimately show ?thesis using u x2(3) by (simp add: aoi_inv_def)
  qed
qed


section \<open>Flushing the hot pairs\<close>

text \<open>Dropping references changes nothing in an object but the count, and removes only dropped objects.\<close>

definition thinned :: "(nat \<rightharpoonup> 'f object) \<Rightarrow> (nat \<rightharpoonup> 'f object) \<Rightarrow> bool" where
  "thinned os os' \<longleftrightarrow> (\<forall>a ob'. os' a = Some ob' \<longrightarrow> (\<exists>ob. os a = Some ob \<and> ob' = ob\<lparr>o_ref := o_ref ob'\<rparr>)) \<and>
     (\<forall>a ob. os a = Some ob \<longrightarrow> \<not> bit (o_mode ob) 3 \<longrightarrow> os' a \<noteq> None)"

lemma thinnedD:
  assumes "thinned os os'" "os' a = Some ob'"
  obtains ob where "os a = Some ob" "o_id ob' = o_id ob" "o_version ob' = o_version ob" "o_mode ob' = o_mode ob"
    "o_last ob' = o_last ob" "o_position ob' = o_position ob"
proof -
  obtain ob where "os a = Some ob" "ob' = ob\<lparr>o_ref := o_ref ob'\<rparr>" using assms unfolding thinned_def by blast
  then show thesis using that by (metis object.select_convs object.surjective object.update_convs(1))
qed

lemma thinned_refl: "thinned os os"
  by (simp add: thinned_def)

lemma thinned_trans:
  assumes "thinned os os'" "thinned os' os''"
  shows "thinned os os''"
proof -
  have "\<exists>ob. os a = Some ob \<and> ob' = ob\<lparr>o_ref := o_ref ob'\<rparr>" if o: "os'' a = Some ob'" for a ob'
  proof -
    obtain ob1 where 1: "os' a = Some ob1" "ob' = ob1\<lparr>o_ref := o_ref ob'\<rparr>" using assms(2) o unfolding thinned_def by blast
    obtain ob where 2: "os a = Some ob" "ob1 = ob\<lparr>o_ref := o_ref ob1\<rparr>" using assms(1) 1(1) unfolding thinned_def by blast
    have "ob' = ob\<lparr>o_ref := o_ref ob'\<rparr>" by (subst 1(2), subst 2(2)) simp
    then show ?thesis using 2(1) by blast
  qed
  moreover have "os'' a \<noteq> None" if o: "os a = Some ob" "\<not> bit (o_mode ob) 3" for a ob
  proof -
    obtain ob1 where 1: "os' a = Some ob1" using assms(1) o unfolding thinned_def by blast
    have "\<not> bit (o_mode ob1) 3" by (rule thinnedD [OF assms(1) 1]) (use o in auto)
    then show ?thesis using assms(2) 1 unfolding thinned_def by blast
  qed
  ultimately show ?thesis unfolding thinned_def by blast
qed

lemma drop_ref:
  assumes ok: "space_ok T h sp" and r: "refs_ok r (objs sp)" and x: "0 < r x" "r x < 2 ^ 30"
  shows "\<exists>sp'. drop_object x sp = Some sp' \<and> space_ok T h sp' \<and> refs_ok (r(x := r x - 1)) (objs sp') \<and>
    thinned (objs sp) (objs sp') \<and> hot sp' = hot sp"
proof -
  obtain ob where ob: "objs sp x = Some ob" using refs_okD(3) [OF r x(1)] by auto
  have ref: "o_ref ob = int (held ob + r x)" "0 < o_ref ob" using refs_okD(1,2) [OF r ob] .
  have "o_ref ob \<le> INT_MAX" using ref(1) x(2) by (simp add: held_def)
  then obtain sp' where sp': "drop_object x sp = Some sp'" "space_ok T h sp'" "hot sp' = hot sp"
    "objs sp' = (objs sp)(x := if o_ref ob = 1 then None else Some (ob\<lparr>o_ref := o_ref ob - 1\<rparr>))"
    using drop_object_ok [OF ok ob ref(2)] by blast
  have one: "held ob = 0 \<and> r x = 1" if "o_ref ob = 1" using that ref(1) x(1) by (simp add: held_def split: if_splits)
  have "refs_ok (r(x := r x - 1)) (objs sp')"
  proof (rule refs_okI)
    fix a ob1 assume a: "objs sp' a = Some ob1"
    show "o_ref ob1 = int (held ob1 + (r(x := r x - 1)) a)" "0 < o_ref ob1"
      using a ref x refs_okD(1,2) [OF r, of a ob1] unfolding sp'(4) by (cases "a = x"; auto simp: held_def split: if_splits)+
  next
    fix a assume "0 < (r(x := r x - 1)) a"
    then show "objs sp' a \<noteq> None" using refs_okD(3) [OF r, of a] one unfolding sp'(4) by (auto split: if_splits)
  qed
  moreover have "thinned (objs sp) (objs sp')"
    unfolding sp'(4) thinned_def using ob one by (auto simp: held_def split: if_splits)
  ultimately show ?thesis using sp' by blast
qed

lemma drop_pair_ok:
  assumes ok: "space_ok T (Suc h) sp" and r: "refs_ok (\<lambda>a. r a + pair_refs (p # ps) a) (objs sp)"
    and b: "\<And>a. r a + pair_refs (p # ps) a < 2 ^ 30"
  shows "\<exists>sp'. drop_pair p sp = Some sp' \<and> space_ok T h sp' \<and> refs_ok (\<lambda>a. r a + pair_refs ps a) (objs sp') \<and>
    thinned (objs sp) (objs sp') \<and> hot sp' = hot sp"
proof -
  let ?w = "pl_watcher p" and ?m = "pl_marker p" and ?r = "\<lambda>a. r a + pair_refs (p # ps) a"
  let ?r1 = "?r(?w := ?r ?w - 1)"
  have w: "0 < ?r ?w" by (simp add: pair_refs_Cons)
  obtain sp1 where 1: "drop_object ?w sp = Some sp1" "space_ok T (Suc h) sp1" "refs_ok ?r1 (objs sp1)"
    "thinned (objs sp) (objs sp1)" "hot sp1 = hot sp"
    using drop_ref [OF ok r w] b by auto
  have m: "0 < ?r1 ?m" "?r1 ?m < 2 ^ 30" using b [of ?m] by (auto simp: pair_refs_Cons)
  obtain sp2 where 2: "drop_object ?m sp1 = Some sp2" "space_ok T (Suc h) sp2" "refs_ok (?r1(?m := ?r1 ?m - 1)) (objs sp2)"
    "thinned (objs sp1) (objs sp2)" "hot sp2 = hot sp1"
    using drop_ref [OF 1(2,3) m] by blast
  have "?r1(?m := ?r1 ?m - 1) = (\<lambda>a. r a + pair_refs ps a)"
    by (auto simp: fun_eq_iff pair_refs_Cons)
  then have "refs_ok (\<lambda>a. r a + pair_refs ps a) (objs sp2)" using 2(3) by simp
  moreover have "space_ok T h (sp2\<lparr>cookie := my_free sizeof_pair_list (cookie sp2)\<rparr>)"
    using 2(2) by (auto simp: space_ok_def sets_ok_def accounted_def blocks_def bytes_def algebra_simps)
  ultimately show ?thesis using 1 2 thinned_trans [OF 1(4) 2(4)] by (simp add: drop_pair_def)
qed

text \<open>What happens to a pair depends on its ends only: it is live when both are as it has seen them, not dropped and
  not too far from each other, and then it reports when they are near.\<close>

definition pair_live :: "'f float_ops \<Rightarrow> (nat \<rightharpoonup> 'f object) \<Rightarrow> pair_list \<Rightarrow> bool" where
  "pair_live F os p \<longleftrightarrow> (\<exists>w m. os (pl_watcher p) = Some w \<and> os (pl_marker p) = Some m \<and>
     o_version w = pl_watcher_version p \<and> o_version m = pl_marker_version p \<and> \<not> bit (o_mode w) 3 \<and> \<not> bit (o_mode m) 3 \<and>
     \<not> f_less F (f_mul F (AOI_RADIS2 F) (f_four F)) (DIST2 F (o_position w) (o_position m)))"

definition near_ends :: "'f float_ops \<Rightarrow> (nat \<rightharpoonup> 'f object) \<Rightarrow> nat \<times> nat \<Rightarrow> bool" where
  "near_ends F os = (\<lambda>(x, y). f_less F (DIST2 F (o_position (the (os x))) (o_position (the (os y)))) (AOI_RADIS2 F))"

definition ids_of :: "(nat \<rightharpoonup> 'f object) \<Rightarrow> nat \<times> nat \<Rightarrow> u32 \<times> u32" where
  "ids_of os = (\<lambda>(x, y). (o_id (the (os x)), o_id (the (os y))))"

abbreviation ends :: "pair_list \<Rightarrow> nat \<times> nat" where
  "ends p \<equiv> (pl_watcher p, pl_marker p)"

lemma thinned_pair:
  assumes t: "thinned os os'" and w: "os' (pl_watcher p) \<noteq> None" and m: "os' (pl_marker p) \<noteq> None"
  shows "pair_live F os' p = pair_live F os p" "near_ends F os' (ends p) = near_ends F os (ends p)"
    "ids_of os' (ends p) = ids_of os (ends p)"
proof -
  obtain w' where w': "os' (pl_watcher p) = Some w'" using w by auto
  obtain m' where m': "os' (pl_marker p) = Some m'" using m by auto
  obtain w0 where w0: "os (pl_watcher p) = Some w0" "o_id w' = o_id w0" "o_version w' = o_version w0" "o_mode w' = o_mode w0"
    "o_position w' = o_position w0" using thinnedD [OF t w'] by metis
  obtain m0 where m0: "os (pl_marker p) = Some m0" "o_id m' = o_id m0" "o_version m' = o_version m0" "o_mode m' = o_mode m0"
    "o_position m' = o_position m0" using thinnedD [OF t m'] by metis
  show "pair_live F os' p = pair_live F os p" "near_ends F os' (ends p) = near_ends F os (ends p)"
    "ids_of os' (ends p) = ids_of os (ends p)"
    using w' m' w0 m0 by (simp_all add: pair_live_def near_ends_def ids_of_def)
qed

lemma flush_pairs_ok:
  "space_ok T (h + length ps) sp \<Longrightarrow> refs_ok (\<lambda>a. r a + pair_refs ps a) (objs sp) \<Longrightarrow>
   (\<And>a. r a + pair_refs ps a < 2 ^ 30) \<Longrightarrow>
   \<exists>sp'. flush_pairs F ps sp = Some (filter (\<lambda>p. pair_live F (objs sp) p \<and> \<not> near_ends F (objs sp) (ends p)) ps,
       List.map (ids_of (objs sp) \<circ> ends) (filter (\<lambda>p. pair_live F (objs sp) p \<and> near_ends F (objs sp) (ends p)) ps), sp') \<and>
     space_ok T (h + length (filter (\<lambda>p. pair_live F (objs sp) p \<and> \<not> near_ends F (objs sp) (ends p)) ps)) sp' \<and>
     refs_ok (\<lambda>a. r a + pair_refs (filter (\<lambda>p. pair_live F (objs sp) p \<and> \<not> near_ends F (objs sp) (ends p)) ps) a) (objs sp') \<and>
     thinned (objs sp) (objs sp') \<and> hot sp' = hot sp"
proof (induction ps arbitrary: sp r h)
  case Nil
  then show ?case by (simp add: thinned_refl)
next
  case (Cons p ps)
  let ?os = "objs sp"
  have "0 < pair_refs (p # ps) (pl_watcher p)" "0 < pair_refs (p # ps) (pl_marker p)" by (simp_all add: pair_refs_Cons)
  then obtain w m where wm: "?os (pl_watcher p) = Some w" "?os (pl_marker p) = Some m"
    using refs_okD(3) [OF Cons.prems(2)] by (metis add_gr_0 not_Some_eq)
  let ?stay = "\<lambda>os p. pair_live F os p \<and> \<not> near_ends F os (ends p)" and ?rep = "\<lambda>os p. pair_live F os p \<and> near_ends F os (ends p)"
  show ?case
  proof (cases "?stay ?os p")
    case True
    have "space_ok T (Suc h + length ps) sp" "refs_ok (\<lambda>a. (r a + pair_refs [p] a) + pair_refs ps a) ?os"
      "\<And>a. (r a + pair_refs [p] a) + pair_refs ps a < 2 ^ 30"
      using Cons.prems by (simp_all add: pair_refs_Cons add_ac)
    from Cons.IH [OF this] obtain sp' where sp': "flush_pairs F ps sp = Some (filter (?stay ?os) ps,
        List.map (ids_of ?os \<circ> ends) (filter (?rep ?os) ps), sp')" "space_ok T (Suc h + length (filter (?stay ?os) ps)) sp'"
      "refs_ok (\<lambda>a. (r a + pair_refs [p] a) + pair_refs (filter (?stay ?os) ps) a) (objs sp')"
      "thinned ?os (objs sp')" "hot sp' = hot sp" by blast
    have "flush_pairs F (p # ps) sp = Some (p # filter (?stay ?os) ps, List.map (ids_of ?os \<circ> ends) (filter (?rep ?os) ps), sp')"
      using True wm sp'(1) by (auto simp: pair_live_def near_ends_def)
    then show ?thesis using True sp' by (intro exI [of _ sp']) (simp add: pair_refs_Cons add_ac)
  next
    case False
    obtain sp1 where 1: "drop_pair p sp = Some sp1" "space_ok T (h + length ps) sp1"
      "refs_ok (\<lambda>a. r a + pair_refs ps a) (objs sp1)" "thinned ?os (objs sp1)" "hot sp1 = hot sp"
      using drop_pair_ok [of T "h + length ps" sp r p ps] Cons.prems by auto
    have b: "r a + pair_refs ps a < 2 ^ 30" for a using Cons.prems(3) [of a] by (simp add: pair_refs_Cons)
    have same: "pair_live F (objs sp1) q = pair_live F ?os q" "near_ends F (objs sp1) (ends q) = near_ends F ?os (ends q)"
      "ids_of (objs sp1) (ends q) = ids_of ?os (ends q)" if q: "q \<in> set ps" for q
    proof -
      have "0 < pair_refs ps (pl_watcher q)" "0 < pair_refs ps (pl_marker q)"
        using q by (auto simp: pair_refs_def filter_empty_conv)
      then have e: "objs sp1 (pl_watcher q) \<noteq> None" "objs sp1 (pl_marker q) \<noteq> None"
        using refs_okD(3) [OF 1(3), of "pl_watcher q"] refs_okD(3) [OF 1(3), of "pl_marker q"] by simp_all
      show "pair_live F (objs sp1) q = pair_live F ?os q" "near_ends F (objs sp1) (ends q) = near_ends F ?os (ends q)"
        "ids_of (objs sp1) (ends q) = ids_of ?os (ends q)"
        by (rule thinned_pair [OF 1(4) e])+
    qed
    then have eq: "filter (?stay (objs sp1)) ps = filter (?stay ?os) ps" "filter (?rep (objs sp1)) ps = filter (?rep ?os) ps"
      by (auto intro!: filter_cong)
    have "List.map (ids_of (objs sp1) \<circ> ends) (filter (?rep ?os) ps) = List.map (ids_of ?os \<circ> ends) (filter (?rep ?os) ps)"
      using same(3) by auto
    then obtain sp' where sp': "flush_pairs F ps sp1 = Some (filter (?stay ?os) ps, List.map (ids_of ?os \<circ> ends) (filter (?rep ?os) ps), sp')"
      "space_ok T (h + length (filter (?stay ?os) ps)) sp'" "refs_ok (\<lambda>a. r a + pair_refs (filter (?stay ?os) ps) a) (objs sp')"
      "thinned (objs sp1) (objs sp')" "hot sp' = hot sp1"
      using Cons.IH [OF 1(2,3) b] unfolding eq by auto
    have "flush_pairs F (p # ps) sp = Some (filter (?stay ?os) (p # ps), List.map (ids_of ?os \<circ> ends) (filter (?rep ?os) (p # ps)), sp')"
      using False wm 1(1) sp'(1) by (auto simp: pair_live_def near_ends_def ids_of_def)
    then show ?thesis using sp' 1(4,5) thinned_trans [OF 1(4) sp'(4)] False by (intro exI [of _ sp']) simp
  qed
qed


section \<open>Sorting the objects into sets\<close>

definition slots :: "'f aoi_space \<Rightarrow> nat list \<times> nat list \<times> nat list \<times> nat list" where
  "slots sp = (os_slot (watcher_static sp), os_slot (marker_static sp), os_slot (watcher_move sp), os_slot (marker_move sp))"

lemma set_push_back_ok:
  assumes "set_ok T s" "length (os_slot s) < T" "set_push_back x (c, s) = (c', s')"
  shows "set_ok T s'" "os_slot s' = os_slot s @ [x]" "al_count c' = s32 (al_count c) \<or> c' = c"
    "al_current c' = s32 (al_current c + (set_bytes s' - set_bytes s)) \<or> c' = c \<and> os_cap s' = os_cap s"
  using assms by (auto simp: set_push_back_def set_ok_def set_bytes_def algebra_simps Suc_le_eq split: if_splits)

lemma s32_idem [simp]: "s32 (s32 x) = s32 x"
  using s32_s32_addsub(1) [of x 0] by simp

lemma push_ok:
  assumes ok: "space_ok T h sp"
  shows "length (os_slot (watcher_move sp)) < T \<Longrightarrow> space_ok T h (push_watcher True x sp)"
    "length (os_slot (watcher_static sp)) < T \<Longrightarrow> space_ok T h (push_watcher False x sp)"
    "length (os_slot (marker_move sp)) < T \<Longrightarrow> space_ok T h (push_marker True x sp)"
    "length (os_slot (marker_static sp)) < T \<Longrightarrow> space_ok T h (push_marker False x sp)"
proof -
  note s = space_okD(9) [OF ok, unfolded sets_ok_def]
  note d = space_ok_def sets_ok_def accounted_def blocks_def bytes_def
  show "space_ok T h (push_watcher True x sp)" if l: "length (os_slot (watcher_move sp)) < T"
  proof -
    obtain c' s' where p: "set_push_back x (cookie sp, watcher_move sp) = (c', s')" by fastforce
    show ?thesis using ok s set_push_back_ok [OF _ l p] p by (auto simp: d push_watcher_def set_bytes_def algebra_simps)
  qed
  show "space_ok T h (push_watcher False x sp)" if l: "length (os_slot (watcher_static sp)) < T"
  proof -
    obtain c' s' where p: "set_push_back x (cookie sp, watcher_static sp) = (c', s')" by fastforce
    show ?thesis using ok s set_push_back_ok [OF _ l p] p by (auto simp: d push_watcher_def set_bytes_def algebra_simps)
  qed
  show "space_ok T h (push_marker True x sp)" if l: "length (os_slot (marker_move sp)) < T"
  proof -
    obtain c' s' where p: "set_push_back x (cookie sp, marker_move sp) = (c', s')" by fastforce
    show ?thesis using ok s set_push_back_ok [OF _ l p] p by (auto simp: d push_marker_def set_bytes_def algebra_simps)
  qed
  show "space_ok T h (push_marker False x sp)" if l: "length (os_slot (marker_static sp)) < T"
  proof -
    obtain c' s' where p: "set_push_back x (cookie sp, marker_static sp) = (c', s')" by fastforce
    show ?thesis using ok s set_push_back_ok [OF _ l p] p by (auto simp: d push_marker_def set_bytes_def algebra_simps)
  qed
qed

lemma push_simps [simp]:
  "objs (push_watcher b x sp) = objs sp" "hot (push_watcher b x sp) = hot sp" "objmap (push_watcher b x sp) = objmap sp"
  "objs (push_marker b x sp) = objs sp" "hot (push_marker b x sp) = hot sp" "objmap (push_marker b x sp) = objmap sp"
  by (auto simp: push_watcher_def push_marker_def split: prod.splits)

lemma set_push_back_slot: "os_slot (snd (set_push_back x cs)) = os_slot (snd cs) @ [x]"
  by (simp add: set_push_back_def Let_def split: prod.splits if_splits)

lemma slots_push:
  "slots sp = (ws, ms, wm, mm) \<Longrightarrow> slots (push_watcher True x sp) = (ws, ms, wm @ [x], mm)"
  "slots sp = (ws, ms, wm, mm) \<Longrightarrow> slots (push_watcher False x sp) = (ws @ [x], ms, wm, mm)"
  "slots sp = (ws, ms, wm, mm) \<Longrightarrow> slots (push_marker True x sp) = (ws, ms, wm, mm @ [x])"
  "slots sp = (ws, ms, wm, mm) \<Longrightarrow> slots (push_marker False x sp) = (ws, ms @ [x], wm, mm)"
  using set_push_back_slot [of x "(cookie sp, watcher_move sp)"] set_push_back_slot [of x "(cookie sp, watcher_static sp)"]
    set_push_back_slot [of x "(cookie sp, marker_move sp)"] set_push_back_slot [of x "(cookie sp, marker_static sp)"]
  by (auto simp: slots_def push_watcher_def push_marker_def split: prod.splits)

text \<open>An object that watches or is a marker is no longer marked as moved.\<close>

definition settled :: "'f object \<Rightarrow> 'f object" where
  "settled ob = (if bit (o_mode ob) 0 \<or> bit (o_mode ob) 1 then ob\<lparr>o_mode := o_mode ob AND NOT MODE_MOVE\<rparr> else ob)"

lemma unset_idem: "\<not> bit m 2 \<Longrightarrow> m AND NOT MODE_MOVE = (m :: int)"
  by (rule bit_eqI) (auto simp: bit_and_iff bit_not_iff)

lemma unset_twice: "(m AND NOT MODE_MOVE) AND NOT MODE_MOVE = (m AND NOT MODE_MOVE :: int)"
  by (rule unset_idem) (simp add: bit_and_iff bit_not_iff)

definition put :: "bool \<Rightarrow> nat \<Rightarrow> nat list \<Rightarrow> nat list" where
  "put b x xs = (if b then xs @ [x] else xs)"

lemma length_put: "length (put b x xs) \<le> Suc (length xs)"
  by (simp add: put_def)

lemma set_push_ok:
  assumes ok: "space_ok T h sp" and ob: "objs sp x = Some ob" and sl: "slots sp = (ws, ms, wm, mm)"
    and l: "length ws < T" "length ms < T" "length wm < T" "length mm < T"
  shows "\<exists>sp'. set_push x sp = Some sp' \<and> space_ok T h sp' \<and> hot sp' = hot sp \<and> objmap sp' = objmap sp \<and>
    objs sp' = (objs sp)(x \<mapsto> settled ob) \<and>
    slots sp' = (put (bit (o_mode ob) 0 \<and> \<not> bit (o_mode ob) 2) x ws, put (bit (o_mode ob) 1 \<and> \<not> bit (o_mode ob) 2) x ms,
      put (bit (o_mode ob) 0 \<and> bit (o_mode ob) 2) x wm, put (bit (o_mode ob) 1 \<and> bit (o_mode ob) 2) x mm)"
proof -
  let ?W = "bit (o_mode ob) 0" and ?M = "bit (o_mode ob) 1" and ?V = "bit (o_mode ob) 2"
  have len: "os_slot (watcher_static sp) = ws" "os_slot (marker_static sp) = ms" "os_slot (watcher_move sp) = wm"
    "os_slot (marker_move sp) = mm" using sl by (simp_all add: slots_def)
  let ?f = "\<lambda>ob. ob\<lparr>o_mode := o_mode ob AND NOT MODE_MOVE\<rparr>"
  have unset: "unset_move x sp1 = Some (sp1\<lparr>objs := (objs sp)(x \<mapsto> ?f ob)\<rparr>) \<and> space_ok T h (sp1\<lparr>objs := (objs sp)(x \<mapsto> ?f ob)\<rparr>)"
    if o: "space_ok T h sp1" "objs sp1 = objs sp \<or> objs sp1 = (objs sp)(x \<mapsto> ?f ob)" for sp1
    using upd_object_ok [OF o(1), of x ob ?f] upd_object_ok [OF o(1), of x "?f ob" ?f] o(2) ob
    by (auto simp: unset_move_def unset_twice)
  have id: "(objs sp)(x \<mapsto> settled ob) = objs sp" if "\<not> ?V" using that ob by (simp add: settled_def unset_idem fun_upd_idem)
  consider (none) "\<not> ?W" "\<not> ?M" | (w) "?W" "\<not> ?M" | (m) "\<not> ?W" "?M" | (wm) "?W" "?M" by blast
  then show ?thesis
  proof cases
    case none
    then show ?thesis using ok ob sl by (simp add: set_push_def put_def settled_def fun_upd_idem)
  next
    case w
    show ?thesis
    proof (cases ?V)
      case True
      have u: "space_ok T h (push_watcher True x sp)" using push_ok(1) [OF ok] len l by simp
      show ?thesis using w True ob unset [OF u] slots_push(1) [OF sl, of x]
        by (simp add: set_push_def put_def settled_def) (simp add: slots_def)
    next
      case False
      have u: "space_ok T h (push_watcher False x sp)" using push_ok(2) [OF ok] len l by simp
      show ?thesis using w False ob u slots_push(2) [OF sl, of x] id [OF False] by (simp add: set_push_def put_def)
    qed
  next
    case m
    show ?thesis
    proof (cases ?V)
      case True
      have u: "space_ok T h (push_marker True x sp)" using push_ok(3) [OF ok] len l by simp
      show ?thesis using m True ob unset [OF u] slots_push(3) [OF sl, of x]
        by (simp add: set_push_def put_def settled_def) (simp add: slots_def)
    next
      case False
      have u: "space_ok T h (push_marker False x sp)" using push_ok(4) [OF ok] len l by simp
      show ?thesis using m False ob u slots_push(4) [OF sl, of x] id [OF False] by (simp add: set_push_def put_def)
    qed
  next
    case wm
    show ?thesis
    proof (cases ?V)
      case True
      let ?sp1 = "(push_watcher True x sp)\<lparr>objs := (objs sp)(x \<mapsto> ?f ob)\<rparr>"
      have u: "space_ok T h (push_watcher True x sp)" using push_ok(1) [OF ok] len l by simp
      have s1: "slots ?sp1 = (ws, ms, wm @ [x], mm)" using slots_push(1) [OF sl, of x] by (simp add: slots_def)
      have u1: "space_ok T h (push_marker True x ?sp1)"
        using push_ok(3) [OF conjunct2 [OF unset [OF u]]] s1 l by (simp add: slots_def)
      show ?thesis using wm True ob unset [OF u] unset [OF u1] slots_push(3) [OF s1, of x]
        by (simp add: set_push_def put_def settled_def) (simp add: slots_def)
    next
      case False
      have u: "space_ok T h (push_watcher False x sp)" using push_ok(2) [OF ok] len l by simp
      have s1: "slots (push_watcher False x sp) = (ws @ [x], ms, wm, mm)" using slots_push(2) [OF sl, of x] .
      have u1: "space_ok T h (push_marker False x (push_watcher False x sp))"
        using push_ok(4) [OF u] s1 l by (simp add: slots_def)
      show ?thesis using wm False ob u1 slots_push(4) [OF s1, of x] id [OF False] by (simp add: set_push_def put_def)
    qed
  qed
qed


definition sorted_slots :: "(nat \<rightharpoonup> 'f object) \<Rightarrow> nat list \<Rightarrow> nat list \<times> nat list \<times> nat list \<times> nat list" where
  "sorted_slots os xs =
     (let on = (\<lambda>b x. bit (o_mode (the (os x))) b)
      in (filter (\<lambda>x. on 0 x \<and> \<not> on 2 x) xs, filter (\<lambda>x. on 1 x \<and> \<not> on 2 x) xs,
          filter (\<lambda>x. on 0 x \<and> on 2 x) xs, filter (\<lambda>x. on 1 x \<and> on 2 x) xs))"

definition settle :: "(nat \<rightharpoonup> 'f object) \<Rightarrow> nat list \<Rightarrow> nat \<rightharpoonup> 'f object" where
  "settle os xs = (\<lambda>a. if a \<in> set xs then map_option settled (os a) else os a)"

lemma put_filter: "put (P x) x (filter P xs) = filter P (xs @ [x])"
  by (simp add: put_def)

lemma set_push_all_ok:
  "space_ok T h sp \<Longrightarrow> distinct (don @ xs) \<Longrightarrow> set (don @ xs) \<subseteq> dom os \<Longrightarrow> objs sp = settle os don \<Longrightarrow>
   slots sp = sorted_slots os don \<Longrightarrow>
   \<exists>sp'. set_push_all xs sp = Some sp' \<and> space_ok T h sp' \<and> hot sp' = hot sp \<and> objmap sp' = objmap sp \<and>
     objs sp' = settle os (don @ xs) \<and> slots sp' = sorted_slots os (don @ xs)"
proof (induction xs arbitrary: sp don)
  case (Cons x xs)
  obtain ob where ob: "os x = Some ob" using Cons.prems(3) by auto
  have x: "x \<notin> set don" using Cons.prems(2) by auto
  then have ox: "objs sp x = Some ob" using ob Cons.prems(4) by (simp add: settle_def)
  have dom: "dom (objs sp) = dom os" by (auto simp: Cons.prems(4) settle_def split: if_splits)
  have "length (x # don) = card (set (x # don))" using Cons.prems(2) by (intro distinct_card [symmetric]) auto
  also have "\<dots> \<le> card (dom (objs sp))"
    using Cons.prems(3) dom space_okD(4) [OF Cons.prems(1)] by (intro card_mono) auto
  finally have "length don < T" using space_okD(5) [OF Cons.prems(1)] by simp
  then have l: "length (filter P don) < T" for P using length_filter_le [of P don] by linarith
  let ?on = "\<lambda>b x. bit (o_mode (the (os x))) b"
  obtain sp1 where 1: "set_push x sp = Some sp1" "space_ok T h sp1" "hot sp1 = hot sp" "objmap sp1 = objmap sp"
    "objs sp1 = (objs sp)(x \<mapsto> settled ob)"
    "slots sp1 = (put (bit (o_mode ob) 0 \<and> \<not> bit (o_mode ob) 2) x (filter (\<lambda>x. ?on 0 x \<and> \<not> ?on 2 x) don),
      put (bit (o_mode ob) 1 \<and> \<not> bit (o_mode ob) 2) x (filter (\<lambda>x. ?on 1 x \<and> \<not> ?on 2 x) don),
      put (bit (o_mode ob) 0 \<and> bit (o_mode ob) 2) x (filter (\<lambda>x. ?on 0 x \<and> ?on 2 x) don),
      put (bit (o_mode ob) 1 \<and> bit (o_mode ob) 2) x (filter (\<lambda>x. ?on 1 x \<and> ?on 2 x) don))"
    using set_push_ok [OF Cons.prems(1) ox Cons.prems(5) [unfolded sorted_slots_def Let_def] l l l l] by blast
  have "slots sp1 = sorted_slots os (don @ [x])" using 1(6) ob by (simp add: sorted_slots_def put_def)
  moreover have "objs sp1 = settle os (don @ [x])" using 1(5) Cons.prems(4) ob by (auto simp: settle_def fun_eq_iff)
  ultimately show ?case using Cons.IH [OF 1(2), of "don @ [x]"] Cons.prems(2,3) 1(1,3,4) by simp
qed simp

lemma settled_simps [simp]:
  "o_id (settled ob) = o_id ob" "o_ref (settled ob) = o_ref ob" "o_version (settled ob) = o_version ob"
  "o_position (settled ob) = o_position ob" "bit (o_mode (settled ob)) 3 = bit (o_mode ob) 3"
  "bit (o_mode (settled ob)) 0 = bit (o_mode ob) 0" "bit (o_mode (settled ob)) 1 = bit (o_mode ob) 1"
  "bit (o_mode (settled ob)) (Suc 0) = bit (o_mode ob) (Suc 0)"
  "held (settled ob) = held ob" "bit (o_mode (settled ob)) 2 \<Longrightarrow> bit (o_mode ob) 2"
  "bit (o_mode ob) 0 \<or> bit (o_mode ob) 1 \<Longrightarrow> \<not> bit (o_mode (settled ob)) 2"
  by (auto simp: settled_def held_def bit_and_iff bit_not_iff split: if_splits)

lemma settle_Some: "settle os xs a = Some ob' \<Longrightarrow> \<exists>ob. os a = Some ob \<and> (ob' = ob \<or> ob' = settled ob)"
  by (auto simp: settle_def split: if_splits)

lemma settle_refs: "refs_ok r os \<Longrightarrow> refs_ok r (settle os xs)"
proof (rule refs_okI)
  fix a ob' assume r: "refs_ok r os" "settle os xs a = Some ob'"
  obtain ob where "os a = Some ob" "ob' = ob \<or> ob' = settled ob" using settle_Some [OF r(2)] by blast
  then show "o_ref ob' = int (held ob' + r a)" "0 < o_ref ob'" using refs_okD(1,2) [OF r(1)] by auto
next
  fix a assume "refs_ok r os" "0 < r a"
  then show "settle os xs a \<noteq> None" using refs_okD(3) by (auto simp: settle_def)
qed

lemma settle_pairs: "pairs_ok ps os \<Longrightarrow> pairs_ok ps (settle os xs)"
proof -
  have "end_ok os y v \<Longrightarrow> end_ok (settle os xs) y v" for y v
    unfolding end_ok_def by (auto dest!: settle_Some)
  then show "pairs_ok ps os \<Longrightarrow> pairs_ok ps (settle os xs)" by (simp add: pairs_ok_def)
qed

lemma settle_versions: "fields_ok T os \<Longrightarrow> fields_ok T (settle os xs)"
  unfolding fields_ok_def by (auto dest!: settle_Some)

section \<open>Generating pairs\<close>

lemma gen_pairs_append:
  "gen_pairs F (xs @ ys) sp = do { (out, sp1) \<leftarrow> gen_pairs F xs sp; (out', sp2) \<leftarrow> gen_pairs F ys sp1; Some (out @ out', sp2) }"
proof (induction xs arbitrary: sp)
  case Nil
  then show ?case by (cases "gen_pairs F ys sp") auto
next
  case (Cons x xs)
  show ?case
  proof (cases "gen_pair F (fst x) (snd x) sp")
    case (Some r)
    then show ?thesis by (cases r; cases "gen_pairs F xs (snd r)") (auto simp: Cons.IH split: Option.bind_splits)
  qed simp
qed

text \<open>The same objects, up to their counts.\<close>

definition recounted :: "(nat \<rightharpoonup> 'f object) \<Rightarrow> (nat \<rightharpoonup> 'f object) \<Rightarrow> bool" where
  "recounted os os' \<longleftrightarrow> dom os' = dom os \<and> thinned os os'"

lemma recounted_upd: "os x = Some ob \<Longrightarrow> recounted os (os(x \<mapsto> ob\<lparr>o_ref := n\<rparr>))"
  by (auto simp: recounted_def thinned_def)

lemma recounted_trans: "recounted os os' \<Longrightarrow> recounted os' os'' \<Longrightarrow> recounted os os''"
  by (auto simp: recounted_def intro: thinned_trans)

lemma recountedE:
  assumes "recounted os os'" "os a = Some ob"
  obtains ob' where "os' a = Some ob'" "o_id ob' = o_id ob" "o_version ob' = o_version ob" "o_mode ob' = o_mode ob"
    "o_position ob' = o_position ob"
proof -
  obtain ob' where ob': "os' a = Some ob'" using assms by (auto simp: recounted_def)
  then show thesis using that thinnedD [of os os' a ob'] assms by (metis option.inject recounted_def)
qed

definition settled_pair :: "(nat \<rightharpoonup> 'f object) \<Rightarrow> nat \<times> nat \<Rightarrow> bool" where
  "settled_pair os p \<longleftrightarrow> (\<exists>w m. os (fst p) = Some w \<and> os (snd p) = Some m \<and> \<not> bit (o_mode w) 2 \<and> \<not> bit (o_mode m) 2)"

lemma recounted_pair:
  assumes "recounted os os'" "settled_pair os p"
  shows "settled_pair os' p" "near_ends F os' p = near_ends F os p" "ids_of os' p = ids_of os p"
proof -
  obtain w m where wm: "os (fst p) = Some w" "os (snd p) = Some m" "\<not> bit (o_mode w) 2" "\<not> bit (o_mode m) 2"
    using assms(2) by (auto simp: settled_pair_def)
  obtain w' where w: "os' (fst p) = Some w'" "o_id w' = o_id w" "o_version w' = o_version w" "o_mode w' = o_mode w"
    "o_position w' = o_position w" using recountedE [OF assms(1) wm(1)] .
  obtain m' where m: "os' (snd p) = Some m'" "o_id m' = o_id m" "o_version m' = o_version m" "o_mode m' = o_mode m"
    "o_position m' = o_position m" using recountedE [OF assms(1) wm(2)] .
  show "settled_pair os' p" "near_ends F os' p = near_ends F os p" "ids_of os' p = ids_of os p"
    using wm w m by (auto simp: settled_pair_def near_ends_def ids_of_def split: prod.splits)
qed

text \<open>A new pair, given that there is none with its ends yet.\<close>

lemma gen_pair_ok:
  fixes F :: "'f float_ops" and sp :: "'f aoi_space"
  assumes inv: "aoi_inv T sp" and T: "T < 2 ^ 28" and p: "settled_pair (objs sp) (x, y)" and new: "(x, y) \<notin> set (List.map ends (hot sp))"
  shows "\<exists>sp'. gen_pair F x y sp =
      Some (if x \<noteq> y \<and> near_ends F (objs sp) (x, y) then [ids_of (objs sp) (x, y)] else [], sp') \<and> aoi_inv T sp' \<and>
    slots sp' = slots sp \<and> recounted (objs sp) (objs sp') \<and> objmap sp' = objmap sp \<and>
    set (List.map ends (hot sp')) \<subseteq> insert (x, y) (set (List.map ends (hot sp)))"
proof -
  have i: "space_ok T (length (hot sp)) sp" "refs_ok (pair_refs (hot sp)) (objs sp)" "pairs_ok (hot sp) (objs sp)"
    "fields_ok T (objs sp)" using inv by (simp_all add: aoi_inv_def)
  obtain w m where wm: "objs sp x = Some w" "objs sp y = Some m" "\<not> bit (o_mode w) 2" "\<not> bit (o_mode m) 2"
    using p by (auto simp: settled_pair_def)
  let ?d = "DIST2 F (o_position w) (o_position m)"
  have refl: "recounted (objs sp) (objs sp)" by (simp add: recounted_def thinned_refl)
  consider (same) "x = y" | (near) "x \<noteq> y" "f_less F ?d (AOI_RADIS2 F)"
    | (far) "x \<noteq> y" "\<not> f_less F ?d (AOI_RADIS2 F)" "f_less F (f_mul F (AOI_RADIS2 F) (f_four F)) ?d"
    | (hot) "x \<noteq> y" "\<not> f_less F ?d (AOI_RADIS2 F)" "\<not> f_less F (f_mul F (AOI_RADIS2 F) (f_four F)) ?d" by blast
  then show ?thesis
  proof cases
    case hot
    let ?p = "\<lparr>pl_watcher = x, pl_marker = y, pl_watcher_version = o_version w, pl_marker_version = o_version m\<rparr>"
    let ?sp0 = "sp\<lparr>cookie := my_alloc sizeof_pair_list (cookie sp)\<rparr>"
    have ok0: "space_ok T (Suc (length (hot sp))) ?sp0"
      using i(1) by (auto simp: space_ok_def sets_ok_def accounted_def blocks_def bytes_def algebra_simps)
    have rb: "pair_refs (hot sp) a < 2 ^ 30" for a
      using aoi_refs_bound [OF i(3,2,1), of a] T by simp
    have ref: "o_ref w = int (held w + pair_refs (hot sp) x)" "o_ref m = int (held m + pair_refs (hot sp) y)"
      "0 < o_ref w" "0 < o_ref m" using refs_okD(1,2) [OF i(2)] wm by auto
    have b: "o_ref w < INT_MAX" "o_ref m < INT_MAX" using ref rb [of x] rb [of y] by (simp_all add: held_def)
    let ?w = "w\<lparr>o_ref := o_ref w + 1\<rparr>" and ?m = "m\<lparr>o_ref := o_ref m + 1\<rparr>"
    let ?sp1 = "?sp0\<lparr>objs := (objs sp)(x \<mapsto> ?w)\<rparr>"
    have g1: "grab_object x ?sp0 = Some ?sp1" "space_ok T (Suc (length (hot sp))) ?sp1"
      using grab_object_ok [OF ok0, of x w] wm ref b by simp_all
    let ?sp2 = "?sp1\<lparr>objs := (objs ?sp1)(y \<mapsto> ?m)\<rparr>"
    have g2: "grab_object y ?sp1 = Some ?sp2" "space_ok T (Suc (length (hot sp))) ?sp2"
      using grab_object_ok [OF g1(2), of y m] wm hot ref b by simp_all
    let ?sp' = "?sp2\<lparr>hot := ?p # hot sp\<rparr>"
    have os: "objs ?sp' = (objs sp)(x \<mapsto> ?w, y \<mapsto> ?m)" by simp
    have "recounted (objs sp) ((objs sp)(x \<mapsto> ?w))" using recounted_upd [of "objs sp" x w] wm(1) by blast
    moreover have "recounted ((objs sp)(x \<mapsto> ?w)) ((objs sp)(x \<mapsto> ?w, y \<mapsto> ?m))"
      using recounted_upd [of "(objs sp)(x \<mapsto> ?w)" y m "o_ref m + 1"] wm hot(1) by simp
    ultimately have rc: "recounted (objs sp) (objs ?sp')" unfolding os by (rule recounted_trans)
    have "refs_ok (pair_refs (?p # hot sp)) (objs ?sp')"
    proof (rule refs_okI)
      fix a ob assume "objs ?sp' a = Some ob"
      then show "o_ref ob = int (held ob + pair_refs (?p # hot sp) a)" "0 < o_ref ob"
        using ref hot(1) refs_okD(1,2) [OF i(2), of a ob] unfolding os
        by (auto simp: pair_refs_Cons held_def split: if_splits)
    next
      fix a assume "0 < pair_refs (?p # hot sp) a"
      then show "objs ?sp' a \<noteq> None" using refs_okD(3) [OF i(2), of a] unfolding os
        by (auto simp: pair_refs_Cons split: if_splits)
    qed
    moreover have "pairs_ok (hot sp) (objs ?sp')" unfolding os
      by (intro pairs_ok_upd [OF pairs_ok_upd [OF i(3) wm(1)], of _ y m]) (use wm hot in auto)
    then have "pairs_ok (?p # hot sp) (objs ?sp')" unfolding os
      using new wm hot by (auto simp: pairs_ok_def end_ok_def)
    moreover have "fields_ok T (objs ?sp')" unfolding os using i(4) wm by (auto simp: fields_ok_def)
    moreover have "space_ok T (Suc (length (hot sp))) ?sp'"
      using g2(2) by (simp add: space_ok_def sets_ok_def accounted_def blocks_def bytes_def)
    ultimately have "aoi_inv T ?sp'" by (simp add: aoi_inv_def)
    moreover have "gen_pair F x y sp = Some ([], ?sp')" using hot wm g1(1) g2(1) by (simp add: gen_pair_def)
    ultimately show ?thesis using rc hot wm by (auto simp: near_ends_def slots_def)
  qed (use inv refl wm in \<open>auto simp: gen_pair_def near_ends_def ids_of_def\<close>)
qed


lemma gen_pairs_ok:
  fixes F :: "'f float_ops" and sp :: "'f aoi_space"
  assumes T: "T < 2 ^ 28"
  shows "aoi_inv T sp \<Longrightarrow> \<forall>p \<in> set L. settled_pair (objs sp) p \<Longrightarrow> distinct L \<Longrightarrow> set L \<inter> set (List.map ends (hot sp)) = {} \<Longrightarrow>
    \<exists>sp'. gen_pairs F L sp = Some (List.map (ids_of (objs sp)) (filter (\<lambda>p. fst p \<noteq> snd p \<and> near_ends F (objs sp) p) L), sp') \<and>
      aoi_inv T sp' \<and> slots sp' = slots sp \<and> objmap sp' = objmap sp \<and> recounted (objs sp) (objs sp')"
proof (induction L arbitrary: sp)
  case Nil
  then show ?case by (simp add: recounted_def thinned_refl)
next
  case (Cons p L)
  obtain x y where p: "p = (x, y)" by (cases p)
  obtain sp1 where 1: "gen_pair F x y sp =
      Some (if x \<noteq> y \<and> near_ends F (objs sp) p then [ids_of (objs sp) p] else [], sp1)" "aoi_inv T sp1"
    "slots sp1 = slots sp" "recounted (objs sp) (objs sp1)" "objmap sp1 = objmap sp"
    "set (List.map ends (hot sp1)) \<subseteq> insert p (set (List.map ends (hot sp)))"
    using gen_pair_ok [OF Cons.prems(1) T, of x y F] Cons.prems(2,4) p by auto
  have same: "settled_pair (objs sp1) q" "near_ends F (objs sp1) q = near_ends F (objs sp) q" "ids_of (objs sp1) q = ids_of (objs sp) q"
    if "q \<in> set L" for q
    using recounted_pair [OF 1(4), of q] Cons.prems(2) that by auto
  have "set L \<inter> set (List.map ends (hot sp1)) = {}" using 1(6) Cons.prems(3,4) by auto
  then obtain sp2 where 2: "gen_pairs F L sp1 =
      Some (List.map (ids_of (objs sp1)) (filter (\<lambda>p. fst p \<noteq> snd p \<and> near_ends F (objs sp1) p) L), sp2)"
    "aoi_inv T sp2" "slots sp2 = slots sp1" "objmap sp2 = objmap sp1" "recounted (objs sp1) (objs sp2)"
    using Cons.IH [OF 1(2)] same(1) Cons.prems(3) by auto
  have f: "filter (\<lambda>p. fst p \<noteq> snd p \<and> near_ends F (objs sp1) p) L = filter (\<lambda>p. fst p \<noteq> snd p \<and> near_ends F (objs sp) p) L"
    using same(2) by (auto intro!: filter_cong)
  have "List.map (ids_of (objs sp1)) (filter (\<lambda>p. fst p \<noteq> snd p \<and> near_ends F (objs sp) p) L) =
      List.map (ids_of (objs sp)) (filter (\<lambda>p. fst p \<noteq> snd p \<and> near_ends F (objs sp) p) L)"
    using same(3) by auto
  then show ?case using 1 2 f recounted_trans [OF 1(4) 2(5)] p by (intro exI [of _ sp2]) simp
qed

text \<open>The pairs a round looks at: a watcher and a marker, of which at least one has moved.\<close>

definition round_pairs :: "(nat \<rightharpoonup> 'f object) \<Rightarrow> nat list \<Rightarrow> (nat \<times> nat) list" where
  "round_pairs os xs = (case sorted_slots os xs of (ws, ms, wm, mm) \<Rightarrow>
     List.product ws mm @ List.product wm ms @ List.product wm mm)"

lemma round_pairs_set:
  "(x, y) \<in> set (round_pairs os xs) \<longleftrightarrow> x \<in> set xs \<and> y \<in> set xs \<and> bit (o_mode (the (os x))) 0 \<and> bit (o_mode (the (os y))) 1 \<and>
    (bit (o_mode (the (os x))) 2 \<or> bit (o_mode (the (os y))) 2)"
  by (auto simp: round_pairs_def sorted_slots_def Let_def)

lemma round_pairs_distinct: "distinct xs \<Longrightarrow> distinct (round_pairs os xs)"
  by (auto simp: round_pairs_def sorted_slots_def Let_def distinct_product)

definition touch :: "'f float_ops \<Rightarrow> (nat \<rightharpoonup> 'f object) \<Rightarrow> nat \<times> nat \<Rightarrow> bool" where
  "touch F os p \<longleftrightarrow> fst p \<noteq> snd p \<and> near_ends F os p"

lemma gen_pair_slots: "gen_pair F x y sp = Some (out, sp') \<Longrightarrow> slots sp' = slots sp"
  by (auto simp: gen_pair_def grab_object_def upd_object_def slots_def Let_def split: if_splits option.splits Option.bind_splits)

lemma gen_pairs_slots: "gen_pairs F L sp = Some (out, sp') \<Longrightarrow> slots sp' = slots sp"
proof (induction L arbitrary: sp out)
  case (Cons p L)
  then show ?case by (auto split: Option.bind_splits dest!: gen_pair_slots)
qed simp

lemma three_lists:
  assumes s: "slots sp1 = sorted_slots os xs" and g: "gen_pairs F (round_pairs os xs) sp1 = Some (out, sp')"
  shows "\<exists>out1 out2 out3 sp2 sp3. gen_pair_list F (watcher_static sp1) (marker_move sp1) sp1 = Some (out1, sp2) \<and>
    gen_pair_list F (watcher_move sp2) (marker_static sp2) sp2 = Some (out2, sp3) \<and>
    gen_pair_list F (watcher_move sp3) (marker_move sp3) sp3 = Some (out3, sp') \<and> out = out1 @ out2 @ out3"
proof -
  obtain ws ms wm mm where q: "sorted_slots os xs = (ws, ms, wm, mm)" by (cases "sorted_slots os xs")
  obtain out1 sp2 out' where 1: "gen_pairs F (List.product ws mm) sp1 = Some (out1, sp2)"
    "gen_pairs F (List.product wm ms @ List.product wm mm) sp2 = Some (out', sp')" "out = out1 @ out'"
    using g unfolding round_pairs_def q prod.case gen_pairs_append [of F "List.product ws mm"]
    by (auto split: Option.bind_splits)
  obtain out2 sp3 out3 where 2: "gen_pairs F (List.product wm ms) sp2 = Some (out2, sp3)"
    "gen_pairs F (List.product wm mm) sp3 = Some (out3, sp')" "out' = out2 @ out3"
    using 1(2) unfolding gen_pairs_append by (auto split: Option.bind_splits)
  have "slots sp1 = (ws, ms, wm, mm)" "slots sp2 = (ws, ms, wm, mm)" "slots sp3 = (ws, ms, wm, mm)"
    using s q gen_pairs_slots [OF 1(1)] gen_pairs_slots [OF 2(1)] by simp_all
  then show ?thesis using 1 2 by (auto simp: gen_pair_list_def slots_def)
qed

text \<open>A message round: it returns, keeps the invariant, and reports the hot pairs that are live and near and the round's
  pairs that are near.\<close>

lemma aoi_message_ok:
  fixes F :: "'f float_ops" and sp :: "'f aoi_space"
  assumes inv: "aoi_inv T sp" and T: "T < 2 ^ 28"
  obtains sp0 sp' where "aoi_message F sp = Some
      (List.map (ids_of (objs sp) \<circ> ends) (filter (\<lambda>p. pair_live F (objs sp) p \<and> near_ends F (objs sp) (ends p)) (hot sp)) @
       List.map (ids_of (objs sp0)) (filter (touch F (objs sp0)) (round_pairs (objs sp0) (map_objects (objmap sp0)))), sp')"
    "thinned (objs sp) (objs sp0)" "set (map_objects (objmap sp0)) = dom (objs sp0)" "distinct (map_objects (objmap sp0))"
    "space_ok T (length (hot sp0)) sp0" "aoi_inv T sp'"
proof -
  have i: "space_ok T (length (hot sp)) sp" "refs_ok (pair_refs (hot sp)) (objs sp)" "pairs_ok (hot sp) (objs sp)"
    "fields_ok T (objs sp)" using inv by (simp_all add: aoi_inv_def)
  let ?keep = "filter (\<lambda>p. pair_live F (objs sp) p \<and> \<not> near_ends F (objs sp) (ends p)) (hot sp)"
  have rb: "0 + pair_refs (hot sp) a < 2 ^ 30" for a using aoi_refs_bound [OF i(3,2,1), of a] T by simp
  obtain spf where f: "flush_pairs F (hot sp) sp = Some (?keep, List.map (ids_of (objs sp) \<circ> ends)
      (filter (\<lambda>p. pair_live F (objs sp) p \<and> near_ends F (objs sp) (ends p)) (hot sp)), spf)"
    "space_ok T (length ?keep) spf" "refs_ok (pair_refs ?keep) (objs spf)" "thinned (objs sp) (objs spf)"
    using flush_pairs_ok [of T 0 "hot sp" sp "\<lambda>_. 0" F, OF _ _ rb] i by auto
  define sp0 where "sp0 = spf\<lparr>hot := ?keep\<rparr>"
  have o0: "objs sp0 = objs spf" "hot sp0 = ?keep" by (simp_all add: sp0_def)
  have s0: "space_ok T (length ?keep) sp0" using f(2) by (simp add: sp0_def space_ok_def sets_ok_def accounted_def blocks_def bytes_def)
  have fresh: "\<not> bit (o_mode ob) 2" if p: "p \<in> set ?keep" and ob: "objs sp0 x = Some ob" and x: "x = pl_watcher p \<or> x = pl_marker p" for p x ob
  proof -
    obtain ob1 where 1: "objs sp x = Some ob1" "o_version ob = o_version ob1" "o_mode ob = o_mode ob1"
      using thinnedD [OF f(4), of x ob] ob o0 by metis
    have "end_ok (objs sp) (pl_watcher p) (pl_watcher_version p)" "end_ok (objs sp) (pl_marker p) (pl_marker_version p)" "pair_live F (objs sp) p"
      using p i(3) by (auto simp: pairs_ok_def)
    then show ?thesis using 1 x by (auto simp: end_ok_def pair_live_def)
  qed
  have pk: "pairs_ok ?keep (objs sp0)"
  proof -
    have "end_ok (objs sp0) y v" if "end_ok (objs sp) y v" for y v
      unfolding end_ok_def
    proof (intro allI impI)
      fix ob assume ob: "objs sp0 y = Some ob"
      obtain ob1 where "objs sp y = Some ob1" "o_version ob = o_version ob1" "o_mode ob = o_mode ob1"
        using thinnedD [OF f(4), of y ob] ob o0 by metis
      then show "v \<le> o_version ob \<and> (bit (o_mode ob) 2 \<longrightarrow> v < o_version ob)" using that by (simp add: end_ok_def)
    qed
    then show ?thesis using i(3) by (auto simp: pairs_ok_def distinct_map intro: inj_on_subset)
  qed
  have v0: "fields_ok T (objs sp0)"
    unfolding fields_ok_def
  proof (intro allI impI)
    fix a ob assume ob: "objs sp0 a = Some ob"
    obtain ob1 where "objs sp a = Some ob1" "o_version ob = o_version ob1" "o_mode ob = o_mode ob1"
      using thinnedD [OF f(4), of a ob] ob o0 by metis
    then show "0 \<le> o_version ob \<and> o_version ob \<le> int T \<and> (bit (o_mode ob) 3 \<longrightarrow> \<not> bit (o_mode ob) 0 \<and> \<not> bit (o_mode ob) 1)" using i(4) by (simp add: fields_ok_def)
  qed
  let ?xs = "map_objects (objmap sp0)" and ?os = "objs sp0"
  have known: "snd ` known ?os = dom ?os" "inj_on snd (known ?os)" by (auto simp: known_def inj_on_def image_iff)
  have xs: "set ?xs = dom ?os" "distinct ?xs"
    using set_map_objects [OF space_okD(1) [OF s0]] distinct_map_objects [OF space_okD(1) [OF s0]] known space_okD(7) [OF s0] by simp_all
  have r0: "space_ok T (length ?keep) (reset_sets sp0)"
    using s0 by (auto simp: reset_sets_def space_ok_def sets_ok_def set_ok_def accounted_def blocks_def bytes_def set_bytes_def)
  have "objs (reset_sets sp0) = settle ?os []" "slots (reset_sets sp0) = sorted_slots ?os []"
    by (simp_all add: reset_sets_def settle_def slots_def sorted_slots_def)
  then obtain sp1 where 1: "set_push_all ?xs (reset_sets sp0) = Some sp1" "space_ok T (length ?keep) sp1" "hot sp1 = ?keep"
    "objs sp1 = settle ?os ?xs" "slots sp1 = sorted_slots ?os ?xs"
    using set_push_all_ok [OF r0, of "[]" ?xs ?os] xs o0 by (auto simp: reset_sets_def)
  have inv1: "aoi_inv T sp1"
    unfolding aoi_inv_def 1(3,4)
    using 1(2) settle_refs f(3) settle_pairs pk settle_versions v0 o0 by auto
  let ?L = "round_pairs ?os ?xs"
  have at: "objs sp1 x = map_option settled (?os x)" if "x \<in> set ?xs" for x using that by (simp add: 1(4) settle_def)
  have L: "settled_pair (objs sp1) p \<and> near_ends F (objs sp1) p = near_ends F ?os p \<and> ids_of (objs sp1) p = ids_of ?os p \<and>
      p \<notin> set (List.map ends ?keep)" if p: "p \<in> set ?L" for p
  proof -
    obtain x y where xy: "p = (x, y)" by (cases p)
    obtain w m where wm: "?os x = Some w" "?os y = Some m" "bit (o_mode w) 0" "bit (o_mode m) 1" "bit (o_mode w) 2 \<or> bit (o_mode m) 2"
      and xs: "x \<in> set ?xs" "y \<in> set ?xs"
      using p round_pairs_set [of x y ?os ?xs] xs(1) unfolding xy by auto
    have "\<not> (q \<in> set ?keep \<and> ends q = (x, y))" for q using fresh [of q x w] fresh [of q y m] wm by auto
    then show ?thesis using at [OF xs(1)] at [OF xs(2)] wm by (auto simp: xy settled_pair_def near_ends_def ids_of_def)
  qed
  then have "\<forall>p \<in> set ?L. settled_pair (objs sp1) p" "set ?L \<inter> set (List.map ends (hot sp1)) = {}" unfolding 1(3) by blast+
  then obtain sp' where g: "gen_pairs F ?L sp1 =
      Some (List.map (ids_of (objs sp1)) (filter (\<lambda>p. fst p \<noteq> snd p \<and> near_ends F (objs sp1) p) ?L), sp')" "aoi_inv T sp'"
    using gen_pairs_ok [OF T inv1 _ round_pairs_distinct [OF xs(2)]] by blast
  have "filter (\<lambda>p. fst p \<noteq> snd p \<and> near_ends F (objs sp1) p) ?L = filter (touch F ?os) ?L"
    using L by (auto intro!: filter_cong simp: touch_def)
  then have out: "List.map (ids_of (objs sp1)) (filter (\<lambda>p. fst p \<noteq> snd p \<and> near_ends F (objs sp1) p) ?L) =
      List.map (ids_of ?os) (filter (touch F ?os) ?L)" using L by auto
  have fp: "flush_pair F sp = Some (List.map (ids_of (objs sp) \<circ> ends)
      (filter (\<lambda>p. pair_live F (objs sp) p \<and> near_ends F (objs sp) (ends p)) (hot sp)), sp0)"
    using f(1) by (simp add: flush_pair_def sp0_def)
  show thesis
  proof (rule that [of sp0 sp'])
    show "aoi_message F sp = Some
      (List.map (ids_of (objs sp) \<circ> ends) (filter (\<lambda>p. pair_live F (objs sp) p \<and> near_ends F (objs sp) (ends p)) (hot sp)) @
       List.map (ids_of ?os) (filter (touch F ?os) ?L), sp')"
    proof -
      obtain out1 out2 out3 sp2 sp3 where "gen_pair_list F (watcher_static sp1) (marker_move sp1) sp1 = Some (out1, sp2)"
        "gen_pair_list F (watcher_move sp2) (marker_static sp2) sp2 = Some (out2, sp3)"
        "gen_pair_list F (watcher_move sp3) (marker_move sp3) sp3 = Some (out3, sp')"
        "List.map (ids_of ?os) (filter (touch F ?os) ?L) = out1 @ out2 @ out3"
        using three_lists [OF 1(5) g(1) [unfolded out]] by blast
      then show ?thesis using fp 1(1) by (simp add: aoi_message_def)
    qed
    show "thinned (objs sp) ?os" "space_ok T (length (hot sp0)) sp0" using f(4) o0 s0 by simp_all
  qed (rule xs g(2))+
qed

lemma aoi_message_inv: "aoi_inv T sp \<Longrightarrow> T < 2 ^ 28 \<Longrightarrow> \<exists>out sp'. aoi_message F sp = Some (out, sp') \<and> aoi_inv T sp'"
  by (rule aoi_message_ok) blast+


section \<open>Sessions\<close>

abbreviation no_cookie :: alloc_cookie where
  "no_cookie \<equiv> \<lparr>al_count = 0, al_max = 0, al_current = 0\<rparr>"

definition legal_op :: "'f aoi_op \<Rightarrow> bool" where
  "legal_op c \<longleftrightarrow> (case c of Update raw k modestring pos \<Rightarrow> k \<noteq> INVALID_ID | Message \<Rightarrow> True)"

definition updates :: "'f aoi_op list \<Rightarrow> nat" where
  "updates cs = length (filter (\<lambda>c. c \<noteq> Message) cs)"

lemma aoi_create_inv: "aoi_inv 0 (aoi_create no_cookie)"
proof -
  have "set_ok 0 (snd (set_new c))" for c by (simp add: set_ok_def set_new_def PRE_ALLOC_def)
  moreover have "accounted 0 (aoi_create no_cookie)"
    by (simp add: accounted_def blocks_def bytes_def aoi_create_def set_new_def map_new_def Let_def set_bytes_def PRE_ALLOC_def algebra_simps)
  ultimately show ?thesis
    using map_new_correct [of "my_alloc sizeof_aoi_space no_cookie"]
    by (simp add: aoi_inv_def space_ok_def sets_ok_def refs_ok_def pairs_ok_def fields_ok_def known_def aoi_create_def
        split_def Let_def PRE_ALLOC_def)
qed

lemma aoi_run_inv:
  "aoi_inv T sp \<Longrightarrow> \<forall>c \<in> set cs. legal_op c \<Longrightarrow> T + updates cs < 2 ^ 28 \<Longrightarrow>
   \<exists>outs sp'. run_ops (aoi_call F) sp cs = Some (outs, sp') \<and> aoi_inv (T + updates cs) sp'"
proof (induction cs arbitrary: sp T)
  case Nil
  then show ?case by (simp add: updates_def)
next
  case (Cons c cs)
  show ?case
  proof (cases c)
    case (Update raw k modestring pos)
    then have u: "updates (c # cs) = Suc (updates cs)" by (simp add: updates_def)
    obtain sp1 where 1: "aoi_update F raw k modestring pos sp = Some sp1" "aoi_inv (Suc T) sp1"
      using aoi_update_inv [OF Cons.prems(1), of k F raw modestring pos] Cons.prems(2,3) Update u by (auto simp: legal_op_def)
    then obtain outs sp' where "run_ops (aoi_call F) sp1 cs = Some (outs, sp')" "aoi_inv (Suc T + updates cs) sp'"
      using Cons.IH [OF 1(2)] Cons.prems(2,3) u by auto
    then show ?thesis using 1(1) Update u by auto
  next
    case Message
    then have u: "updates (c # cs) = updates cs" by (simp add: updates_def)
    obtain out sp1 where 1: "aoi_message F sp = Some (out, sp1)" "aoi_inv T sp1"
      using aoi_message_inv [OF Cons.prems(1), of F] Cons.prems(3) by auto
    then obtain outs sp' where "run_ops (aoi_call F) sp1 cs = Some (outs, sp')" "aoi_inv (T + updates cs) sp'"
      using Cons.IH [OF 1(2)] Cons.prems(2,3) u by auto
    then show ?thesis using 1(1) Message u by auto
  qed
qed

lemma delete_objects_ok:
  "distinct xs \<Longrightarrow> set xs \<subseteq> dom (objs sp) \<Longrightarrow>
   \<exists>sp'. delete_objects xs sp = Some sp' \<and> objs sp' = (\<lambda>a. if a \<in> set xs then None else objs sp a) \<and> objmap sp' = objmap sp \<and>
     hot sp' = hot sp \<and> watcher_static sp' = watcher_static sp \<and> marker_static sp' = marker_static sp \<and>
     watcher_move sp' = watcher_move sp \<and> marker_move sp' = marker_move sp \<and>
     s32 (al_count (cookie sp')) = s32 (al_count (cookie sp) - int (length xs)) \<and>
     s32 (al_current (cookie sp')) = s32 (al_current (cookie sp) - int (length xs) * sizeof_object)"
proof (induction xs arbitrary: sp)
  case (Cons x xs)
  let ?sp1 = "sp\<lparr>objs := (objs sp)(x := None), cookie := my_free sizeof_object (cookie sp)\<rparr>"
  have "set xs \<subseteq> dom (objs ?sp1)" "distinct xs" using Cons.prems by auto
  from Cons.IH [OF this(2,1)] obtain sp' where s: "delete_objects xs ?sp1 = Some sp'"
    "objs sp' = (\<lambda>a. if a \<in> set xs then None else objs ?sp1 a)" "objmap sp' = objmap ?sp1" "hot sp' = hot ?sp1"
    "watcher_static sp' = watcher_static ?sp1" "marker_static sp' = marker_static ?sp1"
    "watcher_move sp' = watcher_move ?sp1" "marker_move sp' = marker_move ?sp1"
    "s32 (al_count (cookie sp')) = s32 (al_count (cookie ?sp1) - int (length xs))"
    "s32 (al_current (cookie sp')) = s32 (al_current (cookie ?sp1) - int (length xs) * sizeof_object)" by blast
  have "delete_object x sp = Some ?sp1" using Cons.prems(2) by (auto simp: delete_object_def)
  then show ?case using s by (intro exI [of _ sp']) (auto simp: algebra_simps fun_eq_iff)
qed simp

lemma delete_pair_list_cookie:
  "s32 (al_count (delete_pair_list ps c)) = s32 (al_count c - int (length ps))"
  "s32 (al_current (delete_pair_list ps c)) = s32 (al_current c - int (length ps) * sizeof_pair_list)"
proof (induction ps arbitrary: c)
  case (Cons p ps)
  { case 1 then show ?case using Cons.IH(1) [of "my_free sizeof_pair_list c"] by (simp add: delete_pair_list_def algebra_simps) }
  { case 2 then show ?case using Cons.IH(2) [of "my_free sizeof_pair_list c"] by (simp add: delete_pair_list_def algebra_simps) }
qed (simp_all add: delete_pair_list_def)

lemma aoi_release_ok:
  assumes inv: "aoi_inv T sp"
  shows "\<exists>sp'. aoi_release sp = Some sp' \<and> objs sp' = Map.empty \<and> al_count (cookie sp') = 0 \<and> al_current (cookie sp') = 0"
proof -
  have ok: "space_ok T (length (hot sp)) sp" using inv by (simp add: aoi_inv_def)
  let ?xs = "map_objects (objmap sp)"
  have known: "snd ` known (objs sp) = dom (objs sp)" "inj_on snd (known (objs sp))" by (auto simp: known_def inj_on_def image_iff)
  have xs: "set ?xs = dom (objs sp)" "distinct ?xs"
    using set_map_objects [OF space_okD(1) [OF ok]] distinct_map_objects [OF space_okD(1) [OF ok]] known space_okD(7) [OF ok] by simp_all
  have len: "length ?xs = card (dom (objs sp))" using xs distinct_card by metis
  obtain sp1 where 1: "delete_objects ?xs sp = Some sp1" "objs sp1 = (\<lambda>a. if a \<in> set ?xs then None else objs sp a)"
    "objmap sp1 = objmap sp" "hot sp1 = hot sp" "watcher_static sp1 = watcher_static sp" "marker_static sp1 = marker_static sp"
    "watcher_move sp1 = watcher_move sp" "marker_move sp1 = marker_move sp"
    "s32 (al_count (cookie sp1)) = s32 (al_count (cookie sp) - int (length ?xs))"
    "s32 (al_current (cookie sp1)) = s32 (al_current (cookie sp) - int (length ?xs) * sizeof_object)"
    using delete_objects_ok [OF xs(2), of sp] xs(1) by auto
  have acc: "al_count (cookie sp) = s32 (blocks (length (hot sp)) sp)" "al_current (cookie sp) = s32 (bytes (length (hot sp)) sp)"
    using space_okD(10) [OF ok] by (simp_all add: accounted_def)
  define sp' where "sp' = the (aoi_release sp)"
  have r: "aoi_release sp = Some sp'" unfolding sp'_def by (simp add: aoi_release_def 1(1) Let_def)
  have e: "objs sp' = Map.empty" using 1(2) xs(1) unfolding sp'_def by (auto simp: aoi_release_def 1(1) fun_eq_iff Let_def domIff)
  have z: "s32 0 = 0" by (simp add: s32_def)
  let ?c = "map_delete (cookie sp1) (objmap sp1)"
  have "al_count (cookie sp') = s32 (s32 (al_count (delete_pair_list (hot sp1) ?c)) - 9)"
    unfolding sp'_def by (simp add: aoi_release_def 1(1) Let_def delete_set_def)
  also have "\<dots> = s32 (s32 (al_count (cookie sp1)) - int (length (hot sp)) - 11)"
    unfolding delete_pair_list_cookie 1(4) by (simp add: map_delete_def algebra_simps)
  also have "\<dots> = 0" unfolding 1(9) acc len using z by (simp add: blocks_def)
  finally have n: "al_count (cookie sp') = 0" .
  have "al_current (cookie sp') = s32 (s32 (al_current (delete_pair_list (hot sp1) ?c)) - set_bytes (watcher_static sp) -
      set_bytes (marker_static sp) - set_bytes (watcher_move sp) - set_bytes (marker_move sp) - sizeof_aoi_space)"
    unfolding sp'_def by (simp add: aoi_release_def 1(1,5-8) Let_def delete_set_def set_bytes_def algebra_simps)
  moreover have "s32 (al_current (delete_pair_list (hot sp1) ?c)) = s32 (s32 (al_current (cookie sp1)) -
      int (m_size (objmap sp)) * sizeof_map_slot - sizeof_map - int (length (hot sp)) * sizeof_pair_list)"
    unfolding delete_pair_list_cookie 1(4) by (simp add: map_delete_def 1(3) algebra_simps)
  ultimately have "al_current (cookie sp') = 0"
    unfolding 1(10) acc len using z by (simp add: bytes_def algebra_simps)
  then show ?thesis using r e n by blast
qed


text \<open>[C4] After any sequence of updates and message rounds (fewer than 2 to the 28 updates, of ids other than the one
  that marks a free slot) every call has returned without touching a freed object or leaving the tables, and
  releasing the space gives back every block and every byte it took.\<close>

theorem aoi_session_safe:
  assumes "\<forall>c \<in> set cs. legal_op c" "updates cs < 2 ^ 28"
  shows "\<exists>outs sp sp'. run_ops (aoi_call F) (aoi_create no_cookie) cs = Some (outs, sp) \<and> aoi_release sp = Some sp' \<and>
    objs sp' = Map.empty \<and> al_count (cookie sp') = 0 \<and> al_current (cookie sp') = 0"
proof -
  obtain outs sp where "run_ops (aoi_call F) (aoi_create no_cookie) cs = Some (outs, sp)" "aoi_inv (0 + updates cs) sp"
    using aoi_run_inv [OF aoi_create_inv assms(1), of F] assms(2) by auto
  then show ?thesis using aoi_release_ok by blast
qed

text \<open>Exact arithmetic, and a watcher at the origin with a marker that comes near, leaves and is dropped.\<close>

abbreviation rat_ops :: "rat float_ops" where
  "rat_ops \<equiv> \<lparr>f_sub = (-), f_add = (+), f_mul = (*), f_less = (<), AOI_RADIS = 10, f_quarter = 1 / 4, f_four = 4\<rparr>"

abbreviation raw_object :: "rat object" where
  "raw_object \<equiv> \<lparr>o_ref = 7, o_id = 7, o_version = 7, o_mode = 7, o_last = (7, 7, 7), o_position = (7, 7, 7)\<rparr>"

abbreviation visit :: "rat aoi_op list" where
  "visit \<equiv> [Update raw_object 1 ''w'' (0, 0, 0), Update raw_object 2 ''m'' (15, 0, 0), Message,
    Update raw_object 2 ''m'' (12, 0, 0), Message, Update raw_object 2 ''d'' (0, 0, 0), Message]"

lemma visit_legal: "\<forall>c \<in> set visit. legal_op c" "updates visit < 2 ^ 28"
  by (simp_all add: legal_op_def updates_def INVALID_ID_def)

theorem aoi_session_safe_witness:
  "\<exists>outs sp sp'. run_ops (aoi_call rat_ops) (aoi_create no_cookie) visit = Some (outs, sp) \<and> aoi_release sp = Some sp' \<and>
    objs sp' = Map.empty \<and> al_count (cookie sp') = 0 \<and> al_current (cookie sp') = 0"
  by (rule aoi_session_safe [OF visit_legal])

text \<open>[C26] After any such sequence with \<open>n\<close> updates the object map has at most \<open>max 16 (2 n)\<close> slots and at most \<open>n\<close> objects
  are alive; every object has between 1 and \<open>2 n + 1\<close> references and a version between 0 and \<open>n\<close>, so that neither its
  reference count nor its version wraps.\<close>

theorem aoi_bounded:
  assumes "\<forall>c \<in> set cs. legal_op c" "updates cs < 2 ^ 28" "run_ops (aoi_call F) (aoi_create no_cookie) cs = Some (outs, sp)"
  shows "m_size (objmap sp) \<le> max 16 (2 * updates cs) \<and> card (dom (objs sp)) \<le> updates cs \<and>
    (\<forall>a ob. objs sp a = Some ob \<longrightarrow>
      0 < o_ref ob \<and> o_ref ob \<le> 2 * int (updates cs) + 1 \<and> 0 \<le> o_version ob \<and> o_version ob \<le> int (updates cs))"
proof -
  have "aoi_inv (0 + updates cs) sp" using aoi_run_inv [OF aoi_create_inv assms(1), of F] assms(2,3) by auto
  then have i: "space_ok (updates cs) (length (hot sp)) sp" "refs_ok (pair_refs (hot sp)) (objs sp)" "pairs_ok (hot sp) (objs sp)"
    "fields_ok (updates cs) (objs sp)" by (simp_all add: aoi_inv_def)
  have "o_ref ob \<le> 2 * int (updates cs) + 1 \<and> 0 < o_ref ob" if "objs sp a = Some ob" for a ob
    using refs_okD(1,2) [OF i(2) that] aoi_refs_bound [OF i(3,2,1), of a] by (auto simp: held_def)
  then show ?thesis using space_okD(3,5) [OF i(1)] i(4) by (auto simp: fields_ok_def PRE_ALLOC_def)
qed

theorem aoi_bounded_witness:
  "\<exists>outs sp. run_ops (aoi_call rat_ops) (aoi_create no_cookie) visit = Some (outs, sp) \<and>
     m_size (objmap sp) \<le> 16 \<and> card (dom (objs sp)) \<le> 4"
proof -
  obtain outs sp where run: "run_ops (aoi_call rat_ops) (aoi_create no_cookie) visit = Some (outs, sp)"
    using aoi_run_inv [OF aoi_create_inv visit_legal(1), of rat_ops] visit_legal(2) by auto
  have "updates visit = 4" by (simp add: updates_def)
  then show ?thesis using aoi_bounded [OF visit_legal run] run by auto
qed


text \<open>What the flush leaves of a watcher or a marker.\<close>

lemma thinned_back:
  assumes t: "thinned os os0" and f: "fields_ok T os" and w: "os x = Some w" "bit (o_mode w) 0 \<or> bit (o_mode w) 1"
  obtains w0 where "os0 x = Some w0" "o_id w0 = o_id w" "o_mode w0 = o_mode w" "o_position w0 = o_position w"
proof -
  have "\<not> bit (o_mode w) 3" using f w by (auto simp: fields_ok_def)
  then obtain w0 where w0: "os0 x = Some w0" using t w(1) unfolding thinned_def by blast
  show thesis by (rule thinnedD [OF t w0]) (use that w0 w(1) in auto)
qed

definition meets :: "'f float_ops \<Rightarrow> 'f object \<Rightarrow> 'f object \<Rightarrow> bool" where
  "meets F w m \<longleftrightarrow> has_mode MODE_WATCHER w \<and> has_mode MODE_MARKER m \<and> (has_mode MODE_MOVE w \<or> has_mode MODE_MOVE m) \<and>
     f_less F (DIST2 F (o_position w) (o_position m)) (AOI_RADIS2 F)"

lemma meets_cong:
  "o_mode w = o_mode w' \<Longrightarrow> o_mode m = o_mode m' \<Longrightarrow> o_position w = o_position w' \<Longrightarrow> o_position m = o_position m' \<Longrightarrow>
   meets F w m = meets F w' m'"
  by (simp add: meets_def)

lemma round_meets:
  assumes "set xs = dom os"
  shows "(x, y) \<in> set (filter (touch F os) (round_pairs os xs)) \<longleftrightarrow>
    (\<exists>w m. os x = Some w \<and> os y = Some m \<and> x \<noteq> y \<and> meets F w m)"
  using assms by (auto simp: round_pairs_set touch_def near_ends_def meets_def)

lemma round_thinned:
  assumes t: "thinned os os0" and f: "fields_ok T os" and xs: "set xs = dom os0"
  shows "(x, y) \<in> set (filter (touch F os0) (round_pairs os0 xs)) \<longleftrightarrow>
      (\<exists>w m. os x = Some w \<and> os y = Some m \<and> x \<noteq> y \<and> meets F w m \<and> ids_of os0 (x, y) = (o_id w, o_id m))"
  unfolding round_meets [OF xs]
proof
  assume "\<exists>w m. os0 x = Some w \<and> os0 y = Some m \<and> x \<noteq> y \<and> meets F w m"
  then obtain w0 m0 where wm: "os0 x = Some w0" "os0 y = Some m0" "x \<noteq> y" "meets F w0 m0" by blast
  obtain w where w: "os x = Some w" "o_id w0 = o_id w" "o_mode w0 = o_mode w" "o_position w0 = o_position w"
    by (rule thinnedD [OF t wm(1)])
  obtain m where m: "os y = Some m" "o_id m0 = o_id m" "o_mode m0 = o_mode m" "o_position m0 = o_position m"
    by (rule thinnedD [OF t wm(2)])
  have "meets F w m" using wm(4) meets_cong w m by metis
  then show "\<exists>w m. os x = Some w \<and> os y = Some m \<and> x \<noteq> y \<and> meets F w m \<and> ids_of os0 (x, y) = (o_id w, o_id m)"
    using wm w m by (auto simp: ids_of_def)
next
  assume "\<exists>w m. os x = Some w \<and> os y = Some m \<and> x \<noteq> y \<and> meets F w m \<and> ids_of os0 (x, y) = (o_id w, o_id m)"
  then obtain w m where wm: "os x = Some w" "os y = Some m" "x \<noteq> y" "meets F w m" by blast
  then have b: "bit (o_mode w) 0 \<or> bit (o_mode w) 1" "bit (o_mode m) 0 \<or> bit (o_mode m) 1" by (auto simp: meets_def)
  obtain w0 where w0: "os0 x = Some w0" "o_mode w0 = o_mode w" "o_position w0 = o_position w"
    by (rule thinned_back [OF t f wm(1) b(1)])
  obtain m0 where m0: "os0 y = Some m0" "o_mode m0 = o_mode m" "o_position m0 = o_position m"
    by (rule thinned_back [OF t f wm(2) b(2)])
  have "meets F w0 m0" using wm(4) meets_cong w0 m0 by metis
  then show "\<exists>w m. os0 x = Some w \<and> os0 y = Some m \<and> x \<noteq> y \<and> meets F w m" using w0 m0 wm(3) by blast
qed

lemma round_ids:
  assumes t: "thinned (objs sp) os0" and f: "fields_ok T (objs sp)" and xs: "set xs = dom os0" "distinct xs" and ok: "space_ok T h sp"
  shows "distinct (List.map (ids_of os0) (filter (touch F os0) (round_pairs os0 xs)))"
    "set (List.map (ids_of os0) (filter (touch F os0) (round_pairs os0 xs))) =
      {(o_id w, o_id m) | w m. w \<in> ran (objs sp) \<and> m \<in> ran (objs sp) \<and> o_id w \<noteq> o_id m \<and> meets F w m}"
proof -
  let ?L = "filter (touch F os0) (round_pairs os0 xs)"
  note L = round_thinned [OF t f xs(1)]
  have "inj_on (ids_of os0) (set ?L)"
  proof (rule inj_onI)
    fix p q assume p: "p \<in> set ?L" and q: "q \<in> set ?L" and e: "ids_of os0 p = ids_of os0 q"
    obtain x y x' y' where xy: "p = (x, y)" "q = (x', y')" by (cases p; cases q)
    obtain w m where 1: "objs sp x = Some w" "objs sp y = Some m" "ids_of os0 p = (o_id w, o_id m)" using p unfolding xy L by blast
    obtain w' m' where 2: "objs sp x' = Some w'" "objs sp y' = Some m'" "ids_of os0 q = (o_id w', o_id m')" using q unfolding xy L by blast
    show "p = q" using known_same_id [OF ok 1(1) 2(1)] known_same_id [OF ok 1(2) 2(2)] e 1(3) 2(3) xy by simp
  qed
  then show "distinct (List.map (ids_of os0) ?L)" using round_pairs_distinct [OF xs(2), of os0] by (simp add: distinct_map)
  show "set (List.map (ids_of os0) ?L) =
      {(o_id w, o_id m) | w m. w \<in> ran (objs sp) \<and> m \<in> ran (objs sp) \<and> o_id w \<noteq> o_id m \<and> meets F w m}" (is "?A = ?B")
  proof (rule set_eqI)
    fix uv
    show "uv \<in> ?A \<longleftrightarrow> uv \<in> ?B"
    proof
      assume "uv \<in> ?A"
      then obtain x y where xy: "(x, y) \<in> set ?L" "uv = ids_of os0 (x, y)" by (metis imageE list.set_map surj_pair)
      then obtain w m where "objs sp x = Some w" "objs sp y = Some m" "x \<noteq> y" "meets F w m" "uv = (o_id w, o_id m)"
        unfolding L by auto
      then show "uv \<in> ?B" using known_same_id [OF ok, of x w y m] by (auto intro: ranI)
    next
      assume "uv \<in> ?B"
      then obtain w m x y where wm: "objs sp x = Some w" "objs sp y = Some m" "o_id w \<noteq> o_id m" "meets F w m" "uv = (o_id w, o_id m)"
        by (auto simp: ran_def)
      then have b: "bit (o_mode w) 0 \<or> bit (o_mode w) 1" "bit (o_mode m) 0 \<or> bit (o_mode m) 1" by (auto simp: meets_def)
      obtain w0 m0 where "os0 x = Some w0" "o_id w0 = o_id w" "os0 y = Some m0" "o_id m0 = o_id m"
        using thinned_back [OF t f wm(1) b(1)] thinned_back [OF t f wm(2) b(2)] by metis
      then have "ids_of os0 (x, y) = uv" "x \<noteq> y" using wm by (auto simp: ids_of_def)
      then have "(x, y) \<in> set ?L" unfolding L using wm by auto
      then show "uv \<in> ?A" using \<open>ids_of os0 (x, y) = uv\<close> by (metis image_eqI list.set_map)
    qed
  qed
qed

text \<open>[C12] A message round reports, of the pairs that were waiting, those whose ends have not changed mode or moved since, are
  not dropped and are now near; and exactly once each pair of a watcher and a different marker of which at least one
  has moved since the last round and that are nearer than the radius.\<close>

theorem aoi_message_reports:
  fixes F :: "'f float_ops"
  assumes "\<forall>c \<in> set cs. legal_op c" "updates cs < 2 ^ 28" "run_ops (aoi_call F) (aoi_create no_cookie) cs = Some (outs, sp)"
  shows "\<exists>hot_out gen_out sp'. aoi_message F sp = Some (hot_out @ gen_out, sp') \<and>
    set hot_out = ids_of (objs sp) ` ends ` {p \<in> set (hot sp). pair_live F (objs sp) p \<and> near_ends F (objs sp) (ends p)} \<and>
    distinct gen_out \<and>
    set gen_out = {(o_id w, o_id m) | w m. w \<in> ran (objs sp) \<and> m \<in> ran (objs sp) \<and> o_id w \<noteq> o_id m \<and> meets F w m}"
proof -
  have inv: "aoi_inv (updates cs) sp" using aoi_run_inv [OF aoi_create_inv assms(1), of F] assms(2,3) by auto
  then have i: "fields_ok (updates cs) (objs sp)" "space_ok (updates cs) (length (hot sp)) sp" by (simp_all add: aoi_inv_def)
  let ?h = "List.map (ids_of (objs sp) \<circ> ends) (filter (\<lambda>p. pair_live F (objs sp) p \<and> near_ends F (objs sp) (ends p)) (hot sp))"
  let ?g = "\<lambda>sp0. List.map (ids_of (objs sp0)) (filter (touch F (objs sp0)) (round_pairs (objs sp0) (map_objects (objmap sp0))))"
  obtain sp0 sp' where r: "aoi_message F sp = Some (?h @ ?g sp0, sp')" "thinned (objs sp) (objs sp0)"
    "set (map_objects (objmap sp0)) = dom (objs sp0)" "distinct (map_objects (objmap sp0))"
    "space_ok (updates cs) (length (hot sp0)) sp0" "aoi_inv (updates cs) sp'"
    by (rule aoi_message_ok [OF inv assms(2), of F])
  have "set ?h = ids_of (objs sp) ` ends ` {p \<in> set (hot sp). pair_live F (objs sp) p \<and> near_ends F (objs sp) (ends p)}"
    by (auto simp: image_image)
  then show ?thesis using r(1) round_ids [OF r(2) i(1) r(3,4) i(2), of F] by blast
qed

text \<open>Before the last round the marker stands nearer than the radius.\<close>

abbreviation visit3 :: "rat aoi_op list" where
  "visit3 \<equiv> [Update raw_object 1 ''w'' (0, 0, 0), Update raw_object 2 ''m'' (3, 0, 0)]"

theorem aoi_message_reports_witness:
  "\<exists>outs sp out sp'. run_ops (aoi_call rat_ops) (aoi_create no_cookie) visit3 = Some (outs, sp) \<and>
     aoi_message rat_ops sp = Some (out, sp') \<and>
     {(o_id w, o_id m) | w m. w \<in> ran (objs sp) \<and> m \<in> ran (objs sp) \<and> o_id w \<noteq> o_id m \<and> meets rat_ops w m} \<subseteq> set out"
proof -
  have l: "\<forall>c \<in> set visit3. legal_op c" "updates visit3 < 2 ^ 28" by (simp_all add: legal_op_def updates_def INVALID_ID_def)
  obtain outs sp where run: "run_ops (aoi_call rat_ops) (aoi_create no_cookie) visit3 = Some (outs, sp)"
    using aoi_run_inv [OF aoi_create_inv l(1), of rat_ops] l(2) by auto
  obtain h g sp' where "aoi_message rat_ops sp = Some (h @ g, sp')"
    "set g = {(o_id w, o_id m) | w m. w \<in> ran (objs sp) \<and> m \<in> ran (objs sp) \<and> o_id w \<noteq> o_id m \<and> meets rat_ops w m}"
    using aoi_message_reports [OF l run] by blast
  then show ?thesis using run by (intro exI [of _ outs] exI [of _ sp] exI [of _ "h @ g"] exI [of _ sp']) auto
qed

end
