(* ===== verification/AoiService.thy ===== *)
theory AoiService
  imports Aoi
begin

text \<open>
  The two ways into the area of interest: the skynet service \<^verbatim>\<open>src/lualib-src/skynet_aoi/service_aoi.c\<close>, which takes text
  commands and reports pairs as text messages, and the Lua module \<^verbatim>\<open>lua-aoi.c\<close>, which checks positions against the
  size of a map and collects the pairs of a message round in a table.

  Text is a list of characters. \<^verbatim>\<open>strtof\<close>, the conversion of a Lua integer to \<^verbatim>\<open>float\<close> and comparison of floats are
  arguments like the rest of the float arithmetic; \<^verbatim>\<open>strtol\<close>, \<^verbatim>\<open>strsep\<close>, \<^verbatim>\<open>memcmp\<close> and the format \<^verbatim>\<open>%d\<close> are modelled. The
  handle of the running service is an argument. A call of the library that has no result is undefined behaviour here.
\<close>

section \<open>The string functions of the C library\<close>

abbreviation NUL :: char where "NUL \<equiv> CHR 0x00"

definition c_string :: "string \<Rightarrow> string" where
  "c_string = takeWhile (\<lambda>c. c \<noteq> NUL)"

text \<open>\<^verbatim>\<open>strsep(&text, " ")\<close> on a text that is not null: the token, and the rest, if a space ended the token.\<close>

definition strsep :: "string \<Rightarrow> string \<times> string option" where
  "strsep t =
     (takeWhile (\<lambda>c. c \<noteq> CHR '' '') t,
      case dropWhile (\<lambda>c. c \<noteq> CHR '' '') t of [] \<Rightarrow> None | _ # r \<Rightarrow> Some r)"

definition is_space :: "char \<Rightarrow> bool" where
  "is_space c \<longleftrightarrow> c \<in> set [CHR 0x20, CHR 0x09, CHR 0x0A, CHR 0x0B, CHR 0x0C, CHR 0x0D]"

definition digit :: "char \<Rightarrow> int" where
  "digit c = of_char c - 48"

definition is_digit :: "char \<Rightarrow> bool" where
  "is_digit c \<longleftrightarrow> 0 \<le> digit c \<and> digit c \<le> 9"

definition digits_value :: "string \<Rightarrow> int" where
  "digits_value = foldl (\<lambda>n c. 10 * n + digit c) 0"

text \<open>\<^verbatim>\<open>strtol\<close> in base 10, with a 64-bit \<^verbatim>\<open>long\<close>: it saturates.\<close>

definition strtol :: "string \<Rightarrow> int" where
  "strtol s =
     (let t = dropWhile is_space s;
          neg = (t \<noteq> [] \<and> hd t = CHR ''-'');
          u = (if t \<noteq> [] \<and> hd t \<in> {CHR ''-'', CHR ''+''} then tl t else t);
          v = digits_value (takeWhile is_digit u)
      in max (- (2 ^ 63)) (min (2 ^ 63 - 1) (if neg then - v else v)))"

text \<open>\<^verbatim>\<open>memcmp(mem, lit, i) == 0\<close> for a literal with its zero byte. Only when the literal is exhausted without a difference
  does the comparison read on behind it.\<close>

definition memcmp_equal :: "string \<Rightarrow> string \<Rightarrow> nat \<Rightarrow> bool result" where
  "memcmp_equal mem lit i =
     (let l = lit @ [NUL]
      in if i \<le> length l then Inr (take i mem = take i l)
         else if take (length l) mem = l then Inl OutOfBounds else Inr False)"

text \<open>\<^verbatim>\<open>%d\<close>.\<close>

definition digit_char :: "nat \<Rightarrow> char" where
  "digit_char d = char_of (48 + d)"

fun print_nat :: "nat \<Rightarrow> string" where
  "print_nat n = (if n < 10 then [digit_char n] else print_nat (n div 10) @ [digit_char (n mod 10)])"

declare print_nat.simps [simp del]

definition print_int :: "int \<Rightarrow> string" where
  "print_int i = (if i < 0 then CHR ''-'' # print_nat (nat (- i)) else print_nat (nat i))"

section \<open>The service\<close>

text \<open>What the service does to the outside: a message for another service, with the bytes that are sent, or a line in the log.\<close>

datatype service_out = Sent u32 string | Logged string

function getnumbercount :: "u32 \<Rightarrow> nat" where
  "getnumbercount n = (if n = 0 then 0 else Suc (getnumbercount (n div 10)))"
  by pat_completeness auto

termination
proof (relation "measure unat")
  fix n :: u32 assume "n \<noteq> 0"
  then have "unat n \<noteq> 0" using unat_eq_zero by blast
  then show "(n div 10, n) \<in> measure unat" by (simp add: unat_div)
qed simp

declare getnumbercount.simps [simp del]

definition callbackmessage :: "u32 \<Rightarrow> u32 \<Rightarrow> u32 \<Rightarrow> service_out result" where
  "callbackmessage handle watcher marker =
     (let sz = getnumbercount watcher + getnumbercount marker + length ''aoicallback'' + 2;
          msg = replicate sz NUL
      in rbind (mem_write msg 0 (''aoicallback '' @ print_int (sint watcher) @ '' '' @ print_int (sint marker) @ [NUL]))
           (\<lambda>msg. Inr (Sent (handle - 1) msg)))"

primrec callbacks :: "u32 \<Rightarrow> (u32 \<times> u32) list \<Rightarrow> service_out list result" where
  "callbacks handle [] = Inr []"
| "callbacks handle (p # ps) =
     rbind (callbackmessage handle (fst p) (snd p)) (\<lambda>m. rbind (callbacks handle ps) (\<lambda>ms. Inr (m # ms)))"

text \<open>The text from \<open>command_sz\<close> on, without the spaces in front, moved to the front of the buffer: what is then a C string.\<close>

definition parm :: "string \<Rightarrow> nat \<Rightarrow> string" where
  "parm msg command_sz = dropWhile (\<lambda>c. c = CHR '' '') (drop command_sz msg)"

definition of_option :: "'a option \<Rightarrow> 'a result" where
  "of_option r = (case r of None \<Rightarrow> Inl Undefined | Some x \<Rightarrow> Inr x)"

text \<open>The five fields of an update, each but the last ended by a space; without them nothing happens.\<close>

definition ctrl_update ::
  "'f float_ops \<Rightarrow> (string \<Rightarrow> 'f) \<Rightarrow> 'f object \<Rightarrow> string \<Rightarrow> 'f aoi_space \<Rightarrow> 'f aoi_space result" where
  "ctrl_update F strtof raw text0 space =
     (let (idstr, text1) = strsep text0 in
      case text1 of None \<Rightarrow> Inr space | Some text1 \<Rightarrow>
      let k = s32 (strtol idstr); (mode, text2) = strsep text1 in
      case text2 of None \<Rightarrow> Inr space | Some text2 \<Rightarrow>
      let (posstr0, text3) = strsep text2 in
      case text3 of None \<Rightarrow> Inr space | Some text3 \<Rightarrow>
      let (posstr1, text4) = strsep text3 in
      case text4 of None \<Rightarrow> Inr space | Some text4 \<Rightarrow>
      let (posstr2, _) = strsep text4 in
      of_option (aoi_update F raw (word_of_int k) mode (strtof posstr0, strtof posstr1, strtof posstr2) space))"

text \<open>\<^verbatim>\<open>_ctrl\<close>. The array \<^verbatim>\<open>tmp[sz + 1]\<close> needs a size that is positive as an \<^verbatim>\<open>int\<close>.\<close>

definition ctrl ::
  "'f float_ops \<Rightarrow> (string \<Rightarrow> 'f) \<Rightarrow> u32 \<Rightarrow> 'f object \<Rightarrow> 'f aoi_space \<Rightarrow> string \<Rightarrow> int \<Rightarrow>
   (service_out list \<times> 'f aoi_space) result" where
  "ctrl F strtof handle raw space msg sz =
     (if sz < 0 \<or> sz = INT_MAX then Inl Undefined
      else if sz = 0 then Inr ([], space)
      else
        let command = take (nat sz) msg;
            i = length (takeWhile (\<lambda>c. c \<noteq> CHR '' '') command)
        in rbind (memcmp_equal (command @ [NUL]) ''update'' i) (\<lambda>update.
           if update then rbind (ctrl_update F strtof raw (c_string (parm command i)) space) (\<lambda>space'. Inr ([], space'))
           else rbind (memcmp_equal (command @ [NUL]) ''message'' i) (\<lambda>message.
             if message
             then rbind (of_option (aoi_message F space)) (\<lambda>(out, space').
               rbind (callbacks handle out) (\<lambda>sent. Inr (sent, space')))
             else Inr ([Logged (''[aoi] Unkown command : '' @ c_string command)], space))))"

text \<open>\<^verbatim>\<open>caoi_cb\<close>; the number \<^verbatim>\<open>PTYPE_TEXT\<close> is skynet's.\<close>

definition caoi_cb ::
  "'f float_ops \<Rightarrow> (string \<Rightarrow> 'f) \<Rightarrow> int \<Rightarrow> u32 \<Rightarrow> 'f object \<Rightarrow> 'f aoi_space \<Rightarrow> int \<Rightarrow> string \<Rightarrow>
   (service_out list \<times> 'f aoi_space) result" where
  "caoi_cb F strtof PTYPE_TEXT handle raw space type msg =
     (if type = PTYPE_TEXT then ctrl F strtof handle raw space msg (s32 (int (length msg))) else Inr ([], space))"

definition caoi_create :: "'f aoi_space" where
  "caoi_create = aoi_create no_cookie"

definition caoi_release :: "'f aoi_space \<Rightarrow> 'f aoi_space result" where
  "caoi_release space = of_option (aoi_release space)"


section \<open>The Lua module\<close>

text \<open>Conversion of a Lua integer to \<^verbatim>\<open>float\<close> and comparison.\<close>

record 'f lua_floats =
  f_of_int :: "int \<Rightarrow> 'f"
  f_le :: "'f \<Rightarrow> 'f \<Rightarrow> bool"

text \<open>The block behind the light userdata, which is never freed. \<^verbatim>\<open>space\<close> and \<^verbatim>\<open>cookie\<close> become null together; the
  cookie is part of the space here.\<close>

record 'f laoi_space =
  ls_map_id :: u32
  ls_map_x :: 'f
  ls_map_y :: 'f
  ls_map_z :: 'f
  ls_space :: "'f aoi_space option"

definition laoi_create :: "'f lua_floats \<Rightarrow> int \<Rightarrow> int \<Rightarrow> int \<Rightarrow> int \<Rightarrow> 'f laoi_space result" where
  "laoi_create N map_id x y z =
     (let map_id = word_of_int map_id; map_x = f_of_int N x; map_y = f_of_int N y; map_z = f_of_int N z
      in if map_id \<le> 0 \<or> f_le N map_x (f_of_int N 0) \<or> f_le N map_y (f_of_int N 0)
         then Inl (LuaError ''aoi create map len error'')
         else Inr \<lparr>ls_map_id = map_id, ls_map_x = map_x, ls_map_y = map_y, ls_map_z = map_z,
                ls_space = Some (aoi_create no_cookie)\<rparr>)"

definition get_lspace :: "'f laoi_space option \<Rightarrow> 'f laoi_space result" where
  "get_lspace arg = (case arg of None \<Rightarrow> Inl (LuaError ''aoi lspace type must be a userdata.'') | Some ls \<Rightarrow> Inr ls)"

definition outside :: "('f \<Rightarrow> 'f \<Rightarrow> bool) \<Rightarrow> 'f lua_floats \<Rightarrow> 'f laoi_space \<Rightarrow> 'f vec \<Rightarrow> bool" where
  "outside lt N ls pos \<longleftrightarrow>
     (case pos of (pos_x, pos_y, pos_z) \<Rightarrow>
       lt (ls_map_x ls) pos_x \<or> lt (ls_map_y ls) pos_y \<or> lt (ls_map_z ls) pos_z \<or>
       lt pos_x (f_of_int N 0) \<or> lt pos_y (f_of_int N 0) \<or> lt pos_z (f_of_int N 0))"

text \<open>\<^verbatim>\<open>_aoi_update\<close>. A mode that is no string is a null pointer.\<close>

definition laoi_update ::
  "'f float_ops \<Rightarrow> 'f lua_floats \<Rightarrow> 'f object \<Rightarrow> 'f laoi_space option \<Rightarrow> int \<Rightarrow> string option \<Rightarrow> int \<Rightarrow> int \<Rightarrow> int \<Rightarrow>
   'f laoi_space result" where
  "laoi_update F N raw arg k mode x y z =
     rbind (get_lspace arg) (\<lambda>ls.
       let pos = (f_of_int N x, f_of_int N y, f_of_int N z)
       in if outside (f_less F) N ls pos then Inl (LuaError ''aoi update pos error'')
          else case (ls_space ls, mode) of
            (Some space, Some m) \<Rightarrow>
              rbind (of_option (aoi_update F raw (word_of_int k) (c_string m) pos space)) (\<lambda>space'. Inr (ls\<lparr>ls_space := Some space'\<rparr>))
          | _ \<Rightarrow> Inl Undefined)"

text \<open>The callback puts each pair into the result under the next number, a \<^verbatim>\<open>uint32_t\<close>.\<close>

definition aoi_cb_message :: "u32 \<times> (u32 \<Rightarrow> (u32 \<times> u32) option) \<Rightarrow> u32 \<times> u32 \<Rightarrow> u32 \<times> (u32 \<Rightarrow> (u32 \<times> u32) option)" where
  "aoi_cb_message clua wm = (let n = fst clua + 1 in (n, (snd clua)(n := Some wm)))"

text \<open>The answer to a message round. The two times are 64-bit counts here; the code pushes them as doubles.\<close>

record aoi_report =
  rp_pairs :: "u32 \<Rightarrow> (u32 \<times> u32) option"
  rp_num :: u32
  rp_begin_time :: u64
  rp_end_time :: u64

definition laoi_message ::
  "'f float_ops \<Rightarrow> u64 \<times> u64 \<Rightarrow> 'f laoi_space option \<Rightarrow> (aoi_report \<times> 'f laoi_space) result" where
  "laoi_message F clock arg =
     rbind (get_lspace arg) (\<lambda>ls.
       case ls_space ls of None \<Rightarrow> Inl Undefined
       | Some space \<Rightarrow> rbind (of_option (aoi_message F space)) (\<lambda>(out, space').
           let clua = foldl aoi_cb_message (0, \<lambda>_. None) out
           in Inr (\<lparr>rp_pairs = snd clua, rp_num = fst clua, rp_begin_time = fst clock, rp_end_time = snd clock\<rparr>,
                ls\<lparr>ls_space := Some space'\<rparr>)))"

text \<open>\<^verbatim>\<open>_aoi_release\<close>, with what the allocator counted when the cookie was freed.\<close>

definition laoi_release :: "'f laoi_space option \<Rightarrow> (alloc_cookie \<times> 'f laoi_space) result" where
  "laoi_release arg =
     rbind (get_lspace arg) (\<lambda>ls.
       case ls_space ls of None \<Rightarrow> Inl (LuaError ''aoi release space is null'')
       | Some space \<Rightarrow> rbind (of_option (aoi_release space)) (\<lambda>space'. Inr (cookie space', ls\<lparr>ls_space := None\<rparr>)))"

text \<open>\<^verbatim>\<open>_aoi_dump\<close>: what it prints.\<close>

definition laoi_dump :: "'f laoi_space option \<Rightarrow> (u32 \<times> alloc_cookie) result" where
  "laoi_dump arg =
     rbind (get_lspace arg) (\<lambda>ls.
       case ls_space ls of None \<Rightarrow> Inl Undefined | Some space \<Rightarrow> Inr (ls_map_id ls, cookie space))"

text \<open>The calls of a script on a map that it has created, and what each returns; an error that is raised leaves the map as it was.\<close>

datatype 'f laoi_command =
  LUpdate "'f object" int "string option" int int int | LMessage "u64 \<times> u64" | LDump | LRelease

datatype laoi_reply = Updated | Reported aoi_report | Dumped u32 alloc_cookie | Released alloc_cookie

fun laoi_call :: "'f float_ops \<Rightarrow> 'f lua_floats \<Rightarrow> 'f laoi_space \<Rightarrow> 'f laoi_command \<Rightarrow> (laoi_reply \<times> 'f laoi_space) result" where
  "laoi_call F N ls (LUpdate raw k mode x y z) = rbind (laoi_update F N raw (Some ls) k mode x y z) (\<lambda>ls'. Inr (Updated, ls'))"
| "laoi_call F N ls (LMessage clock) = rbind (laoi_message F clock (Some ls)) (\<lambda>(r, ls'). Inr (Reported r, ls'))"
| "laoi_call F N ls LDump = rbind (laoi_dump (Some ls)) (\<lambda>(k, c). Inr (Dumped k c, ls))"
| "laoi_call F N ls LRelease = rbind (laoi_release (Some ls)) (\<lambda>(c, ls'). Inr (Released c, ls'))"

fun laoi_script ::
  "'f float_ops \<Rightarrow> 'f lua_floats \<Rightarrow> 'f laoi_space \<Rightarrow> 'f laoi_command list \<Rightarrow> laoi_reply result list \<times> 'f laoi_space" where
  "laoi_script F N ls [] = ([], ls)"
| "laoi_script F N ls (c # cs) =
     (case laoi_call F N ls c of
        Inl e \<Rightarrow> (let (rs, ls') = laoi_script F N ls cs in (Inl e # rs, ls'))
      | Inr (r, ls1) \<Rightarrow> (let (rs, ls') = laoi_script F N ls1 cs in (Inr r # rs, ls')))"


section \<open>Text\<close>

lemma takeWhile_token [simp]:
  "x \<notin> set t \<Longrightarrow> takeWhile (\<lambda>c. c \<noteq> x) (t @ x # r) = t" "x \<notin> set t \<Longrightarrow> dropWhile (\<lambda>c. c \<noteq> x) (t @ x # r) = x # r"
  by (induction t) auto

lemma takeWhile_whole [simp]:
  "x \<notin> set t \<Longrightarrow> takeWhile (\<lambda>c. c \<noteq> x) t = t" "x \<notin> set t \<Longrightarrow> dropWhile (\<lambda>c. c \<noteq> x) t = []"
  by (induction t) auto

lemma strsep_token:
  "CHR '' '' \<notin> set t \<Longrightarrow> strsep (t @ CHR '' '' # r) = (t, Some r)" "CHR '' '' \<notin> set t \<Longrightarrow> strsep t = (t, None)"
  by (simp_all add: strsep_def)

lemma digit_digit_char: "d < 10 \<Longrightarrow> digit (digit_char d) = int d"
  using of_nat_of_char [where 'a = int, of "char_of (48 + d)"] by (simp add: digit_def digit_char_def)

lemma digit_char_simps:
  assumes "d < 10"
  shows "is_digit (digit_char d)" "\<not> is_space (digit_char d)" "digit_char d \<noteq> CHR ''-''" "digit_char d \<noteq> CHR ''+''"
    "digit_char d \<noteq> CHR '' ''" "digit_char d \<noteq> NUL"
proof -
  have d: "digit (digit_char d) = int d" by (rule digit_digit_char [OF assms])
  show "is_digit (digit_char d)" using d assms by (simp add: is_digit_def)
  have n: "digit_char d \<noteq> c" if "digit c < 0" for c using that d by auto
  show "\<not> is_space (digit_char d)" unfolding is_space_def using n by (simp add: digit_def)
  show "digit_char d \<noteq> CHR ''-''" "digit_char d \<noteq> CHR ''+''" "digit_char d \<noteq> CHR '' ''" "digit_char d \<noteq> NUL"
    by (rule n, simp add: digit_def)+
qed

lemma print_nat_digits: "\<forall>c \<in> set (print_nat n). \<exists>d < 10. c = digit_char d"
proof (induction n rule: print_nat.induct)
  case (1 n)
  show ?case
  proof (cases "n < 10")
    case True
    then show ?thesis by (auto simp: print_nat.simps [of n])
  next
    case False
    have "\<exists>d < 10. digit_char (n mod 10) = digit_char d" by (intro exI [of _ "n mod 10"]) simp
    then show ?thesis using 1 [OF False] False by (subst print_nat.simps) simp
  qed
qed

lemma print_nat_ne [simp]: "print_nat n \<noteq> []"
  by (subst print_nat.simps) simp

lemma digits_value_snoc: "digits_value (s @ [c]) = 10 * digits_value s + digit c"
  by (simp add: digits_value_def)

lemma digits_value_print: "digits_value (print_nat n) = int n"
proof (induction n rule: print_nat.induct)
  case (1 n)
  show ?case
  proof (cases "n < 10")
    case True
    then show ?thesis by (simp add: print_nat.simps [of n] digits_value_def digit_digit_char)
  next
    case False
    then have "digits_value (print_nat n) = 10 * int (n div 10) + int (n mod 10)"
      using 1 [OF False] by (subst print_nat.simps) (simp add: digits_value_snoc digit_digit_char)
    also have "\<dots> = int n" by presburger
    finally show ?thesis .
  qed
qed

lemma print_nat_chars:
  assumes "c \<in> set (print_nat n)"
  shows "is_digit c" "c \<noteq> CHR '' ''" "c \<noteq> NUL"
  using print_nat_digits assms digit_char_simps by metis+

text \<open>Reading a printed number.\<close>

lemma strtol_print:
  assumes "int n < 2 ^ 63"
  shows "strtol (print_nat n) = int n"
proof -
  obtain c cs where p: "print_nat n = c # cs" using print_nat_ne by (metis neq_Nil_conv)
  obtain d where "d < 10" "c = digit_char d" using print_nat_digits [of n] p by auto
  then have c: "\<not> is_space c" "c \<noteq> CHR ''-''" "c \<noteq> CHR ''+''" using digit_char_simps by metis+
  have "takeWhile is_digit (print_nat n) = print_nat n" using print_nat_chars by (simp add: takeWhile_eq_all_conv)
  then show ?thesis using assms c digits_value_print [of n] unfolding strtol_def p by (simp add: Let_def)
qed

text \<open>A printed number is at least as long as the count says.\<close>

lemma getnumbercount_0 [simp]: "getnumbercount 0 = 0"
  by (subst getnumbercount.simps) simp

lemma getnumbercount_print: "getnumbercount n \<le> length (print_nat (unat n))"
proof (induction n rule: getnumbercount.induct)
  case (1 n)
  show ?case
  proof (cases "unat n < 10")
    case True
    then have "unat (n div 10) = 0" by (simp add: unat_div)
    then have "n div 10 = 0" using unat_eq_zero by blast
    then have "getnumbercount n \<le> 1" by (subst getnumbercount.simps) simp
    moreover have "length (print_nat (unat n)) = 1" using True by (subst print_nat.simps) simp
    ultimately show ?thesis by simp
  next
    case False
    then have nz: "n \<noteq> 0" by auto
    have "unat (n div 10) = unat n div 10" by (simp add: unat_div)
    then show ?thesis using 1 [OF nz] False nz
      by (subst getnumbercount.simps, subst print_nat.simps) simp
  qed
qed


section \<open>The callback message\<close>

lemma sint_small:
  assumes "w < 0x80000000"
  shows "sint (w :: u32) = int (unat w)"
proof -
  have "uint w < 2 ^ 31" using assms by (simp add: word_less_def)
  moreover have "- (2 ^ 31) \<le> uint w" by (rule order_trans [OF _ uint_ge_0]) simp
  ultimately have "signed_take_bit 31 (uint w) = uint w" by (intro signed_take_bit_int_eq_self)
  then show ?thesis by (simp add: sint_uint)
qed

text \<open>One character more is written than was allocated.\<close>

lemma callbackmessage_overruns:
  assumes "w < 0x80000000" "m < 0x80000000"
  shows "callbackmessage handle w m = Inl OutOfBounds"
proof -
  let ?text = "''aoicallback '' @ print_int (sint w) @ '' '' @ print_int (sint m) @ [NUL]"
  let ?sz = "getnumbercount w + getnumbercount m + length ''aoicallback'' + 2"
  have "print_int (sint w) = print_nat (unat w)" "print_int (sint m) = print_nat (unat m)"
    using assms by (simp_all add: print_int_def sint_small)
  then have "?sz < length ?text" using getnumbercount_print [of w] getnumbercount_print [of m] by simp
  then have "mem_write (replicate ?sz NUL) 0 ?text = Inl OutOfBounds" by (simp add: mem_write_def)
  then show ?thesis unfolding callbackmessage_def Let_def by (simp only: rbind_simps)
qed

lemma callbacks_overrun:
  "ps \<noteq> [] \<Longrightarrow> \<forall>p \<in> set ps. fst p < 0x80000000 \<and> snd p < 0x80000000 \<Longrightarrow> callbacks handle ps = Inl OutOfBounds"
  by (cases ps) (simp_all add: callbackmessage_overruns)

lemma ctrl_message: "ctrl F strtof handle raw sp ''message '' 8 =
    rbind (of_option (aoi_message F sp)) (\<lambda>(out, sp'). rbind (callbacks handle out) (\<lambda>sent. Inr (sent, sp')))"
  by (simp add: ctrl_def memcmp_equal_def Let_def numeral_eq_Suc)

text \<open>[C40] The service cannot report a pair: a text command for a message round in which a watcher meets a marker, after any
  sequence of updates and rounds, writes one byte behind the allocated message. The ids are below 2 to the 31, from where
  on they are printed as negative numbers.\<close>

theorem service_report_overruns:
  fixes F :: "'f float_ops"
  assumes "\<forall>c \<in> set cs. legal_op c" "updates cs < 2 ^ 28" "run_ops (aoi_call F) (aoi_create no_cookie) cs = Some (outs, sp)"
    and small: "\<forall>ob \<in> ran (objs sp). o_id ob < 0x80000000"
    and near: "w \<in> ran (objs sp)" "m \<in> ran (objs sp)" "o_id w \<noteq> o_id m" "meets F w m"
  shows "caoi_cb F strtof ptype handle raw sp ptype ''message '' = Inl OutOfBounds"
proof -
  have inv: "aoi_inv (updates cs) sp" using aoi_run_inv [OF aoi_create_inv assms(1), of F] assms(2,3) by auto
  then have i: "fields_ok (updates cs) (objs sp)" "space_ok (updates cs) (length (hot sp)) sp" by (simp_all add: aoi_inv_def)
  let ?h = "List.map (ids_of (objs sp) \<circ> ends) (filter (\<lambda>p. pair_live F (objs sp) p \<and> near_ends F (objs sp) (ends p)) (hot sp))"
  obtain sp0 sp' where r: "aoi_message F sp = Some (?h @ List.map (ids_of (objs sp0))
      (filter (touch F (objs sp0)) (round_pairs (objs sp0) (map_objects (objmap sp0)))), sp')" (is "_ = Some (?h @ ?g, sp')")
    "thinned (objs sp) (objs sp0)" "set (map_objects (objmap sp0)) = dom (objs sp0)" "distinct (map_objects (objmap sp0))"
    "space_ok (updates cs) (length (hot sp0)) sp0" "aoi_inv (updates cs) sp'"
    by (rule aoi_message_ok [OF inv assms(2), of F])
  have g: "set ?g = {(o_id w, o_id m) | w m. w \<in> ran (objs sp) \<and> m \<in> ran (objs sp) \<and> o_id w \<noteq> o_id m \<and> meets F w m}"
    using round_ids(2) [OF r(2) i(1) r(3,4) i(2), of F] .
  define hs gs where "hs = ?h" and "gs = ?g"
  have "(o_id w, o_id m) \<in> set gs" unfolding gs_def g using near by blast
  then have ne: "hs @ gs \<noteq> []" by auto
  have "fst p < 0x80000000 \<and> snd p < 0x80000000" if p: "p \<in> set hs" for p
  proof -
    obtain q where q: "p = ids_of (objs sp) (ends q)" "pair_live F (objs sp) q" using p unfolding hs_def by auto
    then obtain a b where "objs sp (pl_watcher q) = Some a" "objs sp (pl_marker q) = Some b" unfolding pair_live_def by blast
    then show ?thesis using q(1) small by (auto simp: ids_of_def intro: ranI)
  qed
  moreover have "fst p < 0x80000000 \<and> snd p < 0x80000000" if "p \<in> set gs" for p
    using that small unfolding gs_def g by force
  ultimately have "callbacks handle (hs @ gs) = Inl OutOfBounds"
    by (intro callbacks_overrun [OF ne]) auto
  moreover have "aoi_message F sp = Some (hs @ gs, sp')" using r(1) unfolding hs_def gs_def .
  ultimately show ?thesis by (simp add: caoi_cb_def s32_id ctrl_message of_option_def)
qed


section \<open>The text of an update\<close>

definition field :: "string \<Rightarrow> bool" where
  "field t \<longleftrightarrow> CHR '' '' \<notin> set t \<and> NUL \<notin> set t"

lemma fieldD: "field t \<Longrightarrow> CHR '' '' \<notin> set t" "field t \<Longrightarrow> NUL \<notin> set t"
  by (simp_all add: field_def)

lemma field_print_nat: "field (print_nat n)"
  using print_nat_chars [of _ n] by (auto simp: field_def)

lemma c_string_fields:
  "NUL \<notin> set t \<Longrightarrow> c_string (t @ r) = t @ c_string r" "NUL \<notin> set t \<Longrightarrow> c_string t = t" "c_string (CHR '' '' # r) = CHR '' '' # c_string r"
  by (simp_all add: c_string_def takeWhile_append)

lemma parm_print_nat: "parm (''update '' @ print_nat n @ r) 6 = print_nat n @ r"
proof -
  obtain c cs where p: "print_nat n = c # cs" using print_nat_ne by (metis neq_Nil_conv)
  then have "c \<noteq> CHR '' ''" using print_nat_chars(2) [of c n] by simp
  then show ?thesis by (simp add: parm_def p)
qed

lemma ctrl_update_text:
  assumes "0 < sz" "sz < INT_MAX" "nat sz = length (''update '' @ rest)"
  shows "ctrl F strtof handle raw sp (''update '' @ rest) sz =
    rbind (ctrl_update F strtof raw (c_string (parm (''update '' @ rest) 6)) sp) (\<lambda>sp'. Inr ([], sp'))"
proof -
  have t: "take (nat sz) (''update '' @ rest) = ''update '' @ rest" using assms(3) by simp
  have i: "length (takeWhile (\<lambda>c. c \<noteq> CHR '' '') (''update '' @ rest)) = 6" by simp
  have m: "memcmp_equal ((''update '' @ rest) @ [NUL]) ''update'' 6 = Inr True" by (simp add: memcmp_equal_def numeral_eq_Suc)
  show ?thesis unfolding ctrl_def t Let_def i m using assms(1,2) by simp
qed

text \<open>The command of \<^verbatim>\<open>aoi.lua\<close>.\<close>

definition update_command :: "u32 \<Rightarrow> string \<Rightarrow> string \<Rightarrow> string \<Rightarrow> string \<Rightarrow> string" where
  "update_command k mode x y z =
     ''update '' @ print_nat (unat k) @ CHR '' '' # mode @ CHR '' '' # x @ CHR '' '' # y @ CHR '' '' # z"

text \<open>[C24] The command that the Lua side sends for an object, its number, mode and three coordinates separated by
  spaces, is understood by the service as an update of this object with this mode and the coordinates read by
  \<^verbatim>\<open>strtof\<close>. No field contains a space or a zero byte.\<close>

theorem service_update_command:
  fixes k :: u32
  assumes "field mode" "field x" "field y" "field z" "int (length (update_command k mode x y z)) < INT_MAX"
  shows "caoi_cb F strtof ptype handle raw sp ptype (update_command k mode x y z) =
    (case aoi_update F raw k mode (strtof x, strtof y, strtof z) sp of None \<Rightarrow> Inl Undefined | Some sp' \<Rightarrow> Inr ([], sp'))"
proof -
  let ?rest = "print_nat (unat k) @ CHR '' '' # mode @ CHR '' '' # x @ CHR '' '' # y @ CHR '' '' # z"
  define cmd where "cmd = update_command k mode x y z"
  note cmd_def = cmd_def [unfolded update_command_def]
  have len: "int (length cmd) < INT_MAX" using assms(5) by (simp add: cmd_def update_command_def)
  have l: "s32 (int (length cmd)) = int (length cmd)" using len by (intro s32_id) simp_all
  have p: "c_string (parm cmd 6) = ?rest"
    unfolding cmd_def parm_print_nat using assms(1-4) field_print_nat by (simp add: c_string_fields fieldD)
  have k: "word_of_int (s32 (strtol (print_nat (unat k)))) = k"
  proof -
    have "uint k < 2 ^ 32" using unsigned_less [of k, where 'a = int] by simp
    then have "strtol (print_nat (unat k)) = int (unat k)" by (intro strtol_print) simp
    moreover have "word_of_int (s32 i) = (word_of_int i :: u32)" for i
    proof -
      have "s32 i mod 2 ^ 32 = i mod 2 ^ 32" by (simp add: s32_def mod_simps)
      then show ?thesis by (simp add: word_of_int_eq_iff take_bit_eq_mod)
    qed
    ultimately show ?thesis by simp
  qed
  have u: "ctrl_update F strtof raw ?rest sp = of_option (aoi_update F raw k mode (strtof x, strtof y, strtof z) sp)"
    unfolding ctrl_update_def using assms(1-4) field_print_nat k by (simp add: strsep_token fieldD Let_def)
  have "caoi_cb F strtof ptype handle raw sp ptype cmd =
      rbind (ctrl_update F strtof raw (c_string (parm cmd 6)) sp) (\<lambda>sp'. Inr ([], sp'))"
    unfolding caoi_cb_def l using len unfolding cmd_def by (subst ctrl_update_text) simp_all
  then have "caoi_cb F strtof ptype handle raw sp ptype (update_command k mode x y z) =
      rbind (ctrl_update F strtof raw ?rest sp) (\<lambda>sp'. Inr ([], sp'))"
    unfolding p by (simp add: cmd_def update_command_def)
  then show ?thesis unfolding u by (simp add: of_option_def split: option.split)
qed


abbreviation zero_text :: "string \<Rightarrow> rat" where
  "zero_text \<equiv> \<lambda>_. 0"

theorem service_update_command_witness:
  "caoi_cb rat_ops zero_text 0 9 raw_object (aoi_create no_cookie) 0 (update_command 4294967294 ''wm'' ''1.5'' ''2'' ''-3'') =
   (case aoi_update rat_ops raw_object 4294967294 ''wm'' (0, 0, 0) (aoi_create no_cookie) of
      None \<Rightarrow> Inl Undefined | Some sp' \<Rightarrow> Inr ([], sp'))"
proof -
  have "length (print_nat 4294967294) = 10" by (simp add: print_nat.simps)
  then have "int (length (update_command 4294967294 ''wm'' ''1.5'' ''2'' ''-3'')) < INT_MAX" by (simp add: update_command_def)
  then show ?thesis
    by (intro service_update_command [where strtof = zero_text and x = "''1.5''" and y = "''2''" and z = "''-3''"])
      (simp_all add: field_def del: caoi_cb_def)
qed

section \<open>A watcher and a marker near it\<close>

lemma visit3_objects:
  "\<exists>outs sp. run_ops (aoi_call rat_ops) (aoi_create no_cookie) visit3 = Some (outs, sp) \<and>
     ran (objs sp) = {\<lparr>o_ref = 1, o_id = 1, o_version = 1, o_mode = 5, o_last = (0, 0, 0), o_position = (0, 0, 0)\<rparr>,
       \<lparr>o_ref = 1, o_id = 2, o_version = 1, o_mode = 6, o_last = (3, 0, 0), o_position = (3, 0, 0)\<rparr>}"
proof -
  have "map_option (\<lambda>(outs, sp). (obj_brk sp, objs sp 0, objs sp 1)) (run_ops (aoi_call rat_ops) (aoi_create no_cookie) visit3) =
    Some (2, Some \<lparr>o_ref = 1, o_id = 1, o_version = 1, o_mode = 5, o_last = (0, 0, 0), o_position = (0, 0, 0)\<rparr>,
       Some \<lparr>o_ref = 1, o_id = 2, o_version = 1, o_mode = 6, o_last = (3, 0, 0), o_position = (3, 0, 0)\<rparr>)"
    by code_simp
  then obtain outs sp where run: "run_ops (aoi_call rat_ops) (aoi_create no_cookie) visit3 = Some (outs, sp)"
    and sp: "obj_brk sp = 2"
      "objs sp 0 = Some \<lparr>o_ref = 1, o_id = 1, o_version = 1, o_mode = 5, o_last = (0, 0, 0), o_position = (0, 0, 0)\<rparr>"
      "objs sp 1 = Some \<lparr>o_ref = 1, o_id = 2, o_version = 1, o_mode = 6, o_last = (3, 0, 0), o_position = (3, 0, 0)\<rparr>" by auto
  have legal: "\<forall>c \<in> set visit3. legal_op c" "updates visit3 < 2 ^ 28" by (simp_all add: legal_op_def updates_def INVALID_ID_def)
  have "aoi_inv (0 + updates visit3) sp" using aoi_run_inv [OF aoi_create_inv legal(1), of rat_ops] legal(2) run by auto
  then have "space_ok (0 + updates visit3) (length (hot sp)) sp" by (simp add: aoi_inv_def)
  note below = space_okD(6) [OF this]
  have two: "objs sp a = Some b \<Longrightarrow> a = 0 \<or> a = 1" for a b using below [of a b] sp(1) by auto
  have "ran (objs sp) = {the (objs sp 0), the (objs sp 1)}"
  proof
    show "ran (objs sp) \<subseteq> {the (objs sp 0), the (objs sp 1)}" using two by (fastforce simp: ran_def)
    show "{the (objs sp 0), the (objs sp 1)} \<subseteq> ran (objs sp)" using sp(2,3) by (auto intro: ranI)
  qed
  then show ?thesis using run sp by auto
qed

theorem service_report_overruns_witness:
  "\<exists>outs sp. run_ops (aoi_call rat_ops) (aoi_create no_cookie) visit3 = Some (outs, sp) \<and>
     caoi_cb rat_ops zero_text 0 9 raw_object sp 0 ''message '' = Inl OutOfBounds"
proof -
  have legal: "\<forall>c \<in> set visit3. legal_op c" "updates visit3 < 2 ^ 28" by (simp_all add: legal_op_def updates_def INVALID_ID_def)
  let ?w = "\<lparr>o_ref = 1, o_id = 1, o_version = 1, o_mode = 5, o_last = (0, 0, 0), o_position = (0, 0, 0)\<rparr> :: rat object"
  let ?m = "\<lparr>o_ref = 1, o_id = 2, o_version = 1, o_mode = 6, o_last = (3, 0, 0), o_position = (3, 0, 0)\<rparr> :: rat object"
  obtain outs sp where sp: "run_ops (aoi_call rat_ops) (aoi_create no_cookie) visit3 = Some (outs, sp)" "ran (objs sp) = {?w, ?m}"
    using visit3_objects by blast
  have "meets rat_ops ?w ?m"
    by (simp add: meets_def has_mode_def MODE_WATCHER_def MODE_MARKER_def MODE_MOVE_def AOI_RADIS2_def)
  then have "caoi_cb rat_ops zero_text 0 9 raw_object sp 0 ''message '' = Inl OutOfBounds"
    using sp(2) by (intro service_report_overruns [OF legal sp(1), of ?w ?m]) simp_all
  then show ?thesis using sp(1) by blast
qed

section \<open>Scripts\<close>

definition lua_legal :: "'f laoi_command \<Rightarrow> bool" where
  "lua_legal c \<longleftrightarrow> (case c of LUpdate raw k mode x y z \<Rightarrow> word_of_int k \<noteq> INVALID_ID \<and> mode \<noteq> None | LRelease \<Rightarrow> False | _ \<Rightarrow> True)"

definition rejected :: "'f float_ops \<Rightarrow> 'f lua_floats \<Rightarrow> 'f laoi_space \<Rightarrow> 'f laoi_command \<Rightarrow> bool" where
  "rejected F N ls c \<longleftrightarrow>
     (case c of LUpdate raw k mode x y z \<Rightarrow> outside (f_less F) N ls (f_of_int N x, f_of_int N y, f_of_int N z) | _ \<Rightarrow> False)"

definition lua_updates :: "'f laoi_command list \<Rightarrow> nat" where
  "lua_updates cs = length (filter (\<lambda>c. case c of LUpdate raw k mode x y z \<Rightarrow> True | _ \<Rightarrow> False) cs)"

text \<open>Same map, other space.\<close>

definition same_map :: "'f laoi_space \<Rightarrow> 'f laoi_space \<Rightarrow> bool" where
  "same_map ls ls' \<longleftrightarrow> (\<exists>s. ls' = ls\<lparr>ls_space := s\<rparr>)"

lemma rejected_same_map: "same_map ls ls' \<Longrightarrow> rejected F N ls' = rejected F N ls"
  by (auto simp: same_map_def rejected_def outside_def fun_eq_iff split: laoi_command.splits)

lemma same_map_trans: "same_map ls ls1 \<Longrightarrow> same_map ls1 ls2 \<Longrightarrow> same_map ls ls2"
  by (auto simp: same_map_def)

text \<open>One call: what it returns, and a space that keeps the invariant.\<close>

lemma laoi_call_ok:
  assumes s: "ls_space ls = Some sp" and inv: "aoi_inv T sp" and T: "T + lua_updates [c] \<le> 2 ^ 28" and c: "lua_legal c" "T < 2 ^ 28"
  shows "rejected F N ls c \<and> laoi_call F N ls c = Inl (LuaError ''aoi update pos error'') \<or>
    \<not> rejected F N ls c \<and> (\<exists>r ls' sp'. laoi_call F N ls c = Inr (r, ls') \<and> same_map ls ls' \<and> ls_space ls' = Some sp' \<and>
      aoi_inv (T + lua_updates [c]) sp')"
proof (cases c)
  case (LUpdate raw k mode x y z)
  obtain m where m: "mode = Some m" using c LUpdate by (auto simp: lua_legal_def)
  let ?pos = "(f_of_int N x, f_of_int N y, f_of_int N z)"
  have k: "word_of_int k \<noteq> INVALID_ID" using c LUpdate by (simp add: lua_legal_def)
  have u: "lua_updates [c] = 1" by (simp add: LUpdate lua_updates_def)
  show ?thesis
  proof (cases "outside (f_less F) N ls ?pos")
    case True
    then show ?thesis by (simp add: LUpdate rejected_def laoi_update_def get_lspace_def)
  next
    case False
    obtain sp' where "aoi_update F raw (word_of_int k) (c_string m) ?pos sp = Some sp'" "aoi_inv (Suc T) sp'"
      using aoi_update_inv [OF inv k c(2)] by blast
    then show ?thesis using False s u
      by (simp add: LUpdate m rejected_def laoi_update_def get_lspace_def of_option_def same_map_def)
        (metis)
  qed
next
  case (LMessage clock)
  obtain out sp' where "aoi_message F sp = Some (out, sp')" "aoi_inv T sp'" using aoi_message_inv [OF inv c(2), of F] by blast
  then show ?thesis using s
    by (auto simp: LMessage rejected_def laoi_message_def get_lspace_def of_option_def same_map_def lua_updates_def Let_def)
next
  case LDump
  then show ?thesis using s inv
    by (auto simp: rejected_def laoi_dump_def get_lspace_def same_map_def lua_updates_def intro!: exI [of _ "ls_space ls"])
next
  case LRelease
  then show ?thesis using c by (simp add: lua_legal_def)
qed

definition answered :: "'f float_ops \<Rightarrow> 'f lua_floats \<Rightarrow> 'f laoi_space \<Rightarrow> 'f laoi_command \<Rightarrow> laoi_reply result \<Rightarrow> bool" where
  "answered F N ls c r \<longleftrightarrow> (if rejected F N ls c then r = Inl (LuaError ''aoi update pos error'') else \<exists>x. r = Inr x)"

lemma laoi_script_append: "laoi_script F N ls (cs @ ds) =
    (let (rs, ls1) = laoi_script F N ls cs; (rs', ls2) = laoi_script F N ls1 ds in (rs @ rs', ls2))"
  by (induction cs arbitrary: ls) (auto simp: split_def Let_def split: sum.split)

lemma laoi_script_ok:
  "ls_space ls = Some sp \<Longrightarrow> aoi_inv T sp \<Longrightarrow> \<forall>c \<in> set cs. lua_legal c \<Longrightarrow> T + lua_updates cs < 2 ^ 28 \<Longrightarrow>
   \<exists>rs ls' sp'. laoi_script F N ls cs = (rs, ls') \<and> same_map ls ls' \<and> ls_space ls' = Some sp' \<and>
     (\<exists>T' \<le> T + lua_updates cs. aoi_inv T' sp') \<and> list_all2 (answered F N ls) cs rs"
proof (induction cs arbitrary: ls sp T)
  case Nil
  then show ?case by (auto simp: same_map_def lua_updates_def intro: exI [of _ "ls_space ls"])
next
  case (Cons c cs)
  have u: "T + lua_updates (c # cs) = T + lua_updates [c] + lua_updates cs" by (simp add: lua_updates_def)
  have T: "T + lua_updates [c] \<le> 2 ^ 28" "lua_legal c" "T < 2 ^ 28" using Cons.prems(3,4) u by simp_all
  show ?case
  proof (cases "rejected F N ls c")
    case True
    then have 1: "laoi_call F N ls c = Inl (LuaError ''aoi update pos error'')" using laoi_call_ok [OF Cons.prems(1,2) T] by blast
    obtain rs ls' sp' T' where "laoi_script F N ls cs = (rs, ls')" "same_map ls ls'" "ls_space ls' = Some sp'"
      and T': "aoi_inv T' sp'" "T' \<le> T + lua_updates cs" and "list_all2 (answered F N ls) cs rs"
      using Cons.IH [OF Cons.prems(1,2)] Cons.prems(3,4) u by auto
    moreover have "answered F N ls c (Inl (LuaError ''aoi update pos error''))" using True by (simp add: answered_def)
    moreover have "\<exists>T' \<le> T + lua_updates (c # cs). aoi_inv T' sp'" using T' u by (intro exI [of _ T']) simp
    ultimately show ?thesis using 1 by simp
  next
    case False
    then obtain r ls1 sp1 where 1: "laoi_call F N ls c = Inr (r, ls1)" "same_map ls ls1" "ls_space ls1 = Some sp1"
      "aoi_inv (T + lua_updates [c]) sp1" using laoi_call_ok [OF Cons.prems(1,2) T] by blast
    obtain rs ls' sp' T' where 2: "laoi_script F N ls1 cs = (rs, ls')" "same_map ls1 ls'" "ls_space ls' = Some sp'"
      "aoi_inv T' sp'" "T' \<le> T + lua_updates [c] + lua_updates cs" "list_all2 (answered F N ls1) cs rs"
      using Cons.IH [OF 1(3,4)] Cons.prems(3,4) u by auto
    have "answered F N ls1 = answered F N ls" unfolding answered_def rejected_same_map [OF 1(2)] ..
    moreover have "answered F N ls c (Inr r)" using False by (simp add: answered_def)
    moreover have "\<exists>T' \<le> T + lua_updates (c # cs). aoi_inv T' sp'" using 2(4,5) u by (intro exI [of _ T']) simp
    ultimately show ?thesis using 1(1) 2(1,3,5,6) same_map_trans [OF 1(2) 2(2)] by simp
  qed
qed

text \<open>[C23] On a map that was created, a script of updates, rounds and dumps (with string modes, fewer than 2 to the 28
  updates, no id that marks a free slot) gets an answer to each call: the position error exactly for updates outside the
  map, which change nothing, a result for all others. A release then gives back every block and byte, and a second release is
  refused.\<close>

theorem laoi_script_answered:
  assumes "laoi_create N map_id x y z = Inr ls" "\<forall>c \<in> set cs. lua_legal c" "lua_updates cs < 2 ^ 28"
  shows "\<exists>rs c ls'. laoi_script F N ls (cs @ [LRelease, LRelease]) =
      (rs @ [Inr (Released c), Inl (LuaError ''aoi release space is null'')], ls') \<and>
    list_all2 (answered F N ls) cs rs \<and> al_count c = 0 \<and> al_current c = 0"
proof -
  have "ls_space ls = Some (aoi_create no_cookie)" using assms(1) by (auto simp: laoi_create_def Let_def split: if_splits)
  then obtain rs ls1 sp T where 1: "laoi_script F N ls cs = (rs, ls1)" "ls_space ls1 = Some sp" "aoi_inv T sp"
    "list_all2 (answered F N ls) cs rs" using laoi_script_ok [OF _ aoi_create_inv assms(2), of ls F N] assms(3) by auto
  obtain sp' where "aoi_release sp = Some sp'" "al_count (cookie sp') = 0" "al_current (cookie sp') = 0"
    using aoi_release_ok [OF 1(3)] by blast
  then show ?thesis using 1
    by (simp add: laoi_script_append Let_def laoi_release_def get_lspace_def of_option_def)
qed

abbreviation rat_floats :: "rat lua_floats" where
  "rat_floats \<equiv> \<lparr>f_of_int = of_int, f_le = (\<le>)\<rparr>"

theorem laoi_script_answered_witness:
  "\<exists>ls. laoi_create rat_floats 7 100 50 0 = Inr ls \<and>
     (\<exists>r1 r3 c ls'. laoi_script rat_ops rat_floats ls
        [LUpdate raw_object 1 (Some ''w'') 3 4 0, LUpdate raw_object 2 (Some ''m'') 3 51 0, LMessage (5, 6), LRelease, LRelease] =
       ([Inr r1, Inl (LuaError ''aoi update pos error''), Inr r3, Inr (Released c), Inl (LuaError ''aoi release space is null'')], ls') \<and>
       al_count c = 0)"
proof -
  obtain ls where ls: "laoi_create rat_floats 7 100 50 0 = Inr ls" by (simp add: laoi_create_def)
  have m: "ls_map_x ls = 100" "ls_map_y ls = 50" "ls_map_z ls = 0" using ls by (auto simp: laoi_create_def)
  let ?cs = "[LUpdate raw_object 1 (Some ''w'') 3 4 0, LUpdate raw_object 2 (Some ''m'') 3 51 0, LMessage (5, 6)]"
  have l: "\<forall>c \<in> set ?cs. lua_legal c" "lua_updates ?cs < 2 ^ 28" by (simp_all add: lua_legal_def lua_updates_def INVALID_ID_def)
  obtain rs c ls' where r: "laoi_script rat_ops rat_floats ls (?cs @ [LRelease, LRelease]) =
      (rs @ [Inr (Released c), Inl (LuaError ''aoi release space is null'')], ls')"
    "list_all2 (answered rat_ops rat_floats ls) ?cs rs" "al_count c = 0"
    using laoi_script_answered [OF ls l, of rat_ops] by blast
  obtain a b d where "rs = [a, b, d]" "answered rat_ops rat_floats ls (?cs ! 0) a" "answered rat_ops rat_floats ls (?cs ! 1) b"
    "answered rat_ops rat_floats ls (?cs ! 2) d" using r(2) by (auto simp: list_all2_Cons1)
  then have "\<exists>r1 r3. rs = [Inr r1, Inl (LuaError ''aoi update pos error''), Inr r3]"
    using m by (auto simp: answered_def rejected_def outside_def)
  then show ?thesis using ls r(1,3) by (intro exI [of _ ls]) auto
qed

end
