(* ===== verification/Digest.thy ===== *)
theory Digest
  imports Interfaces
begin

text \<open>
  What the digests of \<^verbatim>\<open>luacrypto\<close> share: cutting a message into blocks, padding, words in a byte buffer, and the keyed
  hash HMAC. A digest is specified by the function on whole messages, \<open>md_hash\<close>, that its standard describes: pad the
  message, cut it into blocks, fold the compression function over them.
\<close>

unbundle bit_operations_syntax

section \<open>Blocks\<close>

fun blocks :: "nat \<Rightarrow> 'a list \<Rightarrow> 'a list list" where
  "blocks B xs = (if B = 0 \<or> length xs < B then [] else take B xs # blocks B (drop B xs))"

declare blocks.simps [simp del]

fun rest :: "nat \<Rightarrow> 'a list \<Rightarrow> 'a list" where
  "rest B xs = (if B = 0 \<or> length xs < B then xs else rest B (drop B xs))"

declare rest.simps [simp del]

lemma blocks_short [simp]: "length xs < B \<Longrightarrow> blocks B xs = []" "length xs < B \<Longrightarrow> rest B xs = xs"
  by (simp_all add: blocks.simps [of B] rest.simps [of B])

lemma blocks_Nil [simp]: "blocks B [] = []" "rest B [] = []"
  by (subst blocks.simps, cases "B = 0", simp_all) (subst rest.simps, cases "B = 0", simp_all)

lemma blocks_step:
  assumes "0 < B" "B \<le> length xs"
  shows "blocks B xs = take B xs # blocks B (drop B xs)" "rest B xs = rest B (drop B xs)"
  using assms by (simp_all add: blocks.simps [of B xs] rest.simps [of B xs])

lemma blocks_first:
  assumes "0 < B" "length xs = B"
  shows "blocks B (xs @ ys) = xs # blocks B ys" "rest B (xs @ ys) = rest B ys"
  using blocks_step [OF assms(1), of "xs @ ys"] assms(2) by auto

lemma length_rest: "0 < B \<Longrightarrow> length (rest B xs) = length xs mod B"
proof (induction B xs rule: rest.induct)
  case (1 B xs)
  then show ?case by (cases "length xs < B") (simp_all add: blocks_step mod_if [of "length xs"])
qed

text \<open>Input that comes in two parts.\<close>

lemma blocks_append:
  assumes "0 < B"
  shows "blocks B (xs @ ys) = blocks B xs @ blocks B (rest B xs @ ys)" "rest B (xs @ ys) = rest B (rest B xs @ ys)"
proof -
  have "blocks B (xs @ ys) = blocks B xs @ blocks B (rest B xs @ ys) \<and> rest B (xs @ ys) = rest B (rest B xs @ ys)"
    using assms
  proof (induction B xs rule: rest.induct)
    case (1 B xs)
    show ?case
    proof (cases "length xs < B")
      case False
      have "blocks B (xs @ ys) = take B xs # blocks B (drop B xs @ ys)" "rest B (xs @ ys) = rest B (drop B xs @ ys)"
        using blocks_first [OF 1(2), of "take B xs" "drop B xs @ ys"] False by (simp_all flip: append_assoc)
      then show ?thesis using 1 False by (simp add: blocks_step)
    qed simp
  qed
  then show "blocks B (xs @ ys) = blocks B xs @ blocks B (rest B xs @ ys)" "rest B (xs @ ys) = rest B (rest B xs @ ys)" by auto
qed

lemma concat_blocks: "concat (blocks B xs) @ rest B xs = xs"
proof (induction B xs rule: rest.induct)
  case (1 B xs)
  then show ?case by (cases "B = 0 \<or> length xs < B") (auto simp: blocks.simps [of B xs] rest.simps [of B xs])
qed

section \<open>Padding and hashing whole messages\<close>

text \<open>The padding: a byte \<open>0x80\<close>, the fewest zeroes that make room for the \<open>L\<close> bytes of the length up to a whole block.\<close>

definition pad_zeroes :: "nat \<Rightarrow> nat \<Rightarrow> nat \<Rightarrow> nat" where
  "pad_zeroes B L n = (B - (n + 1 + L) mod B) mod B"

definition md_pad :: "nat \<Rightarrow> nat \<Rightarrow> (nat \<Rightarrow> byte list) \<Rightarrow> byte list \<Rightarrow> byte list" where
  "md_pad B L len_bytes m = m @ 0x80 # replicate (pad_zeroes B L (length m)) 0 @ len_bytes (length m)"

definition md_hash ::
  "nat \<Rightarrow> nat \<Rightarrow> (nat \<Rightarrow> byte list) \<Rightarrow> ('s \<Rightarrow> byte list \<Rightarrow> 's) \<Rightarrow> 's \<Rightarrow> ('s \<Rightarrow> byte list) \<Rightarrow> byte list \<Rightarrow> byte list" where
  "md_hash B L len_bytes compress init output m = output (foldl compress init (blocks B (md_pad B L len_bytes m)))"

lemma pad_zeroes_mod:
  assumes "0 < B"
  shows "(n + 1 + pad_zeroes B L n + L) mod B = 0"
proof -
  let ?r = "(n + 1 + L) mod B"
  have "(n + 1 + pad_zeroes B L n + L) mod B = ((n + 1 + L) + (B - ?r) mod B) mod B"
    unfolding pad_zeroes_def by (simp only: ac_simps)
  also have "\<dots> = ((n + 1 + L) + (B - ?r)) mod B" by (rule mod_add_right_eq)
  also have "\<dots> = (?r + (B - ?r)) mod B" by (rule mod_add_left_eq [symmetric])
  also have "\<dots> = 0" using assms by (simp add: less_imp_le)
  finally show ?thesis .
qed

lemma mod_length: "(n + 1 + L) mod B = (n mod B + 1 + L) mod (B :: nat)"
  unfolding add.assoc by (rule mod_add_left_eq [symmetric])

lemma pad_zeroes_cases:
  assumes "n mod B + 1 + L \<le> B" "0 < B"
  shows "pad_zeroes B L n = B - (n mod B + 1 + L)"
proof -
  show ?thesis using assms unfolding pad_zeroes_def mod_length [of n L B] by (cases "n mod B + 1 + L = B") simp_all
qed

lemma pad_zeroes_wrap:
  assumes "B < n mod B + 1 + L" "L < B"
  shows "pad_zeroes B L n = 2 * B - (n mod B + 1 + L)"
proof -
  have b: "n mod B < B" using assms(2) by simp
  have "(n + 1 + L) mod B = (n mod B + 1 + L) mod B" by (rule mod_length)
  also have "\<dots> = n mod B + 1 + L - B"
  proof (cases "n mod B + 1 + L < 2 * B")
    case True
    then show ?thesis using assms(1) by (subst mod_if) simp
  next
    case False
    then show ?thesis using assms(2) b by linarith
  qed
  finally show ?thesis using assms b by (simp add: pad_zeroes_def)
qed

text \<open>A digest keyed by HMAC.\<close>

definition hmac_key :: "nat \<Rightarrow> (byte list \<Rightarrow> byte list) \<Rightarrow> byte list \<Rightarrow> byte list" where
  "hmac_key B hash key = (let k = (if length key > B then hash key else key) in k @ replicate (B - length k) 0)"

definition hmac :: "nat \<Rightarrow> (byte list \<Rightarrow> byte list) \<Rightarrow> byte list \<Rightarrow> byte list \<Rightarrow> byte list" where
  "hmac B hash key text =
     (let k = hmac_key B hash key
      in hash (map (\<lambda>b. b XOR 0x5c) k @ hash (map (\<lambda>b. b XOR 0x36) k @ text)))"

section \<open>Words in a buffer\<close>

text \<open>The word at index \<open>i\<close> of a buffer that is read and written as an array of words of \<open>n\<close> bytes on a little-endian machine.\<close>

definition get_word :: "nat \<Rightarrow> byte list \<Rightarrow> nat \<Rightarrow> 'a::len word" where
  "get_word n mem i = word_of_int (load_le (take n (drop (n * i) mem)))"

definition set_word :: "nat \<Rightarrow> byte list \<Rightarrow> nat \<Rightarrow> 'a::len word \<Rightarrow> byte list" where
  "set_word n mem i w = take (n * i) mem @ store_le n (uint w) @ drop (n * i + n) mem"

lemma in_array: "i < k \<Longrightarrow> n * k \<le> m \<Longrightarrow> n * i + n \<le> (m :: nat)"
proof -
  assume "i < k" "n * k \<le> m"
  then have "n * Suc i \<le> n * k" by (intro mult_le_mono2) simp
  then show ?thesis using \<open>n * k \<le> m\<close> by simp
qed

lemma length_set_word: "n * i + n \<le> length mem \<Longrightarrow> length (set_word n mem i w) = length mem"
  by (simp add: set_word_def)

lemma get_set_word:
  fixes w :: "'a::len word"
  assumes "n * i + n \<le> length mem" "LENGTH('a) = 8 * n"
  shows "get_word n (set_word n mem i w) i = w"
proof -
  have "take n (drop (n * i) (set_word n mem i w)) = store_le n (uint w)" using assms(1) by (simp add: set_word_def)
  moreover have "uint w < 256 ^ n"
  proof -
    have "(256 :: int) ^ n = 2 ^ LENGTH('a)" using assms(2) by (simp add: power_mult)
    then show ?thesis using uint_lt2p [of w] by simp
  qed
  ultimately show ?thesis by (simp add: get_word_def load_store_le)
qed

lemma bytes_set_word_other:
  assumes "i \<noteq> j" "n * i + n \<le> length mem"
  shows "take n (drop (n * j) (set_word n mem i (w :: 'a::len word))) = take n (drop (n * j) mem)"
proof (cases "j < i")
  case True
  then have "n * j + n \<le> n * i" using in_array [of j i n "n * i"] by simp
  define pre where "pre = take (n * i) mem"
  have p: "n * j + n \<le> length pre" "mem = pre @ drop (n * i) mem"
    using assms(2) \<open>n * j + n \<le> n * i\<close> by (simp_all add: pre_def)
  have "take n (drop (n * j) (pre @ ys)) = take n (drop (n * j) pre)" for ys using p(1) by simp
  then show ?thesis unfolding set_word_def pre_def [symmetric] using p(2) by metis
next
  case False
  then have "i < j" using assms(1) by simp
  then have "n * i + n \<le> n * j" using in_array [of i j n "n * j"] by simp
  then obtain d where j: "n * j = d + (n * i + n)" by (metis le_add_diff_inverse2)
  have "drop (n * i + n) (set_word n mem i w) = drop (n * i + n) mem" using assms(2) by (simp add: set_word_def)
  then have "drop (n * j) (set_word n mem i w) = drop (n * j) mem"
    unfolding j drop_drop [symmetric] by (rule arg_cong)
  then show ?thesis by simp
qed

lemma get_set_word_other:
  assumes "i \<noteq> j" "n * i + n \<le> length mem"
  shows "get_word n (set_word n mem i (w :: 'a::len word)) j = (get_word n mem j :: 'b::len word)"
  unfolding get_word_def bytes_set_word_other [OF assms] ..

section \<open>Shifts, rotations, bytes of a word\<close>

lemma shifts_rotl:
  assumes "0 < s" "s < LENGTH('a)"
  shows "push_bit s w OR drop_bit (LENGTH('a) - s) w = word_rotl s (w :: 'a::len word)"
proof (rule bit_word_eqI)
  fix n assume n: "n < LENGTH('a)"
  have "bit (word_rotl s w) n \<longleftrightarrow> bit w ((n + (LENGTH('a) - s)) mod LENGTH('a))"
    using assms n by (simp add: word_rotl_eq_word_rotr bit_word_rotr_iff)
  moreover have "(n + (LENGTH('a) - s)) mod LENGTH('a) = (if s \<le> n then n - s else n + (LENGTH('a) - s))"
    using assms n by (simp add: mod_if)
  ultimately show "bit (push_bit s w OR drop_bit (LENGTH('a) - s) w) n = bit (word_rotl s w) n"
    using assms n by (auto simp: bit_simps add.commute dest: bit_imp_le_length)
qed

lemma shifts_rotr:
  assumes "0 < s" "s < LENGTH('a)"
  shows "drop_bit s w OR push_bit (LENGTH('a) - s) w = word_rotr s (w :: 'a::len word)"
proof (rule bit_word_eqI)
  fix n assume n: "n < LENGTH('a)"
  have "bit (word_rotr s w) n \<longleftrightarrow> bit w ((n + s) mod LENGTH('a))"
    using assms n by (simp add: bit_word_rotr_iff)
  moreover have "(n + s) mod LENGTH('a) = (if n + s < LENGTH('a) then n + s else n + s - LENGTH('a))"
    using assms n by (simp add: mod_if)
  ultimately show "bit (drop_bit s w OR push_bit (LENGTH('a) - s) w) n = bit (word_rotr s w) n"
    using assms n by (auto simp: bit_simps add.commute diff_diff_right dest: bit_imp_le_length)
qed

text \<open>A counter of bits, read as bytes.\<close>

lemma unat_bits_of_bytes: "unat (drop_bit 3 (push_bit 3 (of_nat n :: u64))) = n mod 2 ^ 61"
proof -
  have "unat (push_bit 3 (of_nat n :: u64)) = (8 * n) mod (8 * 2 ^ 61)"
    unfolding push_bit_of_nat unsigned_of_nat by (simp add: take_bit_eq_mod push_bit_eq_mult mult.commute)
  also have "\<dots> = 8 * (n mod 2 ^ 61)" by (rule mult_mod_right [symmetric])
  finally have *: "unat (push_bit 3 (of_nat n :: u64)) = 8 * (n mod 2 ^ 61)" .
  show ?thesis unfolding unat_drop_bit_eq * by (simp add: drop_bit_eq_div)
qed

lemma byte_mod: "(n mod 2 ^ 61) mod 64 = n mod 64" "(n mod 2 ^ 61) mod 128 = (n :: nat) mod 128"
  by (rule mod_mod_cancel, simp)+

lemma store_le_mod: "store_le n (x mod 256 ^ n) = store_le n x"
  by (rule load_le_eqI) (simp_all add: load_store_le)

lemma store_le_word: "store_le n (uint (w :: 'a::len word)) = map (\<lambda>i. ucast (drop_bit (8 * i) w)) [0..<n]"
  unfolding store_le_def
proof (rule map_cong [OF refl])
  fix i
  have "(256 :: int) ^ i = 2 ^ (8 * i)" by (simp add: power_mult)
  moreover have "uint (drop_bit (8 * i) w) = uint w div 2 ^ (8 * i)"
    unfolding unsigned_drop_bit_eq take_bit_int_eq_self [OF uint_ge_0 uint_lt2p] by (simp add: drop_bit_eq_div)
  ultimately show "word_of_int (uint w div 256 ^ i) = (ucast (drop_bit (8 * i) w) :: byte)" by (simp only: ucast_eq)
qed

text \<open>What a buffer with a partial block and more input give.\<close>

lemma fill_block:
  assumes "0 < B" "length r < B" "B - length r \<le> length xs"
  shows "blocks B (r @ xs) = (r @ take (B - length r) xs) # blocks B (drop (B - length r) xs)"
    "rest B (r @ xs) = rest B (drop (B - length r) xs)"
  using blocks_step [OF assms(1), of "r @ xs"] assms by simp_all

section \<open>Keys\<close>

text \<open>\<^verbatim>\<open>xor_key\<close> of \<^verbatim>\<open>lmd5.c\<close>, word by word.\<close>

definition xor_key :: "nat \<Rightarrow> byte list \<Rightarrow> u32 \<Rightarrow> byte list" where
  "xor_key BLOCKSIZE key x = foldl (\<lambda>key i. set_word 4 key i (get_word 4 key i XOR x)) key [0..<BLOCKSIZE div 4]"

lemma store_le_xor:
  "store_le n (uint (v XOR (w :: 'a::len word))) = map2 (XOR) (store_le n (uint v)) (store_le n (uint w))"
proof (rule nth_equalityI)
  fix i assume "i < length (store_le n (uint (v XOR w)))"
  moreover have "(ucast (drop_bit (8 * i) (v XOR w)) :: byte) = ucast (drop_bit (8 * i) v) XOR ucast (drop_bit (8 * i) w)"
    by (rule bit_word_eqI) (auto simp: bit_simps)
  ultimately show "store_le n (uint (v XOR w)) ! i = map2 (XOR) (store_le n (uint v)) (store_le n (uint w)) ! i"
    by (simp add: store_le_word)
qed simp

lemma store_le_get_word:
  assumes "length bs = n" "LENGTH('a) = 8 * n"
  shows "store_le n (uint (word_of_int (load_le bs) :: 'a::len word)) = bs"
proof -
  have "(2 :: int) ^ LENGTH('a) = 256 ^ n" using assms(2) by (simp add: power_mult)
  then have "uint (word_of_int (load_le bs) :: 'a word) = load_le bs mod 256 ^ n" by (simp add: uint_word_of_int)
  then show ?thesis using store_load_le [of bs] assms(1) by (simp add: store_le_mod)
qed

lemma xor_key_bytes:
  assumes x: "store_le 4 (uint x) = replicate 4 c" and l: "length key = 4 * n"
  shows "xor_key (4 * n) key x = map (\<lambda>b. b XOR c) key"
proof -
  have "foldl (\<lambda>key i. set_word 4 key i (get_word 4 key i XOR x)) key [0..<k] = map (\<lambda>b. b XOR c) (take (4 * k) key) @ drop (4 * k) key"
    if "k \<le> n" for k
    using that
  proof (induction k)
    case (Suc k)
    let ?d = "map (\<lambda>b. b XOR c) (take (4 * k) key)" and ?w = "take 4 (drop (4 * k) key)" and ?r = "drop (4 * k + 4) key"
    have ld: "length ?d = 4 * k" "length ?w = 4" using Suc.prems l by simp_all
    have k: "drop (4 * k) key = ?w @ ?r" by (simp add: add.commute flip: drop_drop)
    have g: "get_word 4 (?d @ ?w @ ?r) k = (word_of_int (load_le ?w) :: u32)" using ld by (simp add: get_word_def)
    have "store_le 4 (uint (word_of_int (load_le ?w) XOR x)) = map2 (XOR) ?w (replicate 4 c)"
      unfolding store_le_xor x using ld(2) by (simp add: store_le_get_word)
    also have "\<dots> = map (\<lambda>b. b XOR c) ?w" using ld(2) by (simp add: map2_map_map zip_replicate2)
    finally have s: "set_word 4 (?d @ ?w @ ?r) k (word_of_int (load_le ?w) XOR x) = ?d @ map (\<lambda>b. b XOR c) ?w @ ?r"
      using ld by (simp add: set_word_def)
    have t: "take (4 * Suc k) key = take (4 * k) key @ ?w" unfolding mult_Suc_right add.commute [of 4] by (rule take_add)
    have "foldl (\<lambda>key i. set_word 4 key i (get_word 4 key i XOR x)) key [0..<Suc k] =
        set_word 4 (?d @ ?w @ ?r) k (get_word 4 (?d @ ?w @ ?r) k XOR x)"
      using Suc k by simp
    also have "\<dots> = map (\<lambda>b. b XOR c) (take (4 * Suc k) key) @ drop (4 * Suc k) key"
      unfolding g s t by (simp add: add.commute)
    finally show ?case .
  qed simp
  from this [of n] show ?thesis using l by (simp add: xor_key_def)
qed

lemma key_pads:
  assumes "length k = 4 * n"
  shows "xor_key (4 * n) k 0x5c5c5c5c = map (\<lambda>b. b XOR 0x5c) k"
    "xor_key (4 * n) (map (\<lambda>b. b XOR 0x5c) k) (0x5c5c5c5c XOR 0x36363636) = map (\<lambda>b. b XOR 0x36) k"
proof -
  have "store_le 4 (uint (0x5c5c5c5c :: u32)) = replicate 4 0x5c" "store_le 4 (uint (0x5c5c5c5c XOR 0x36363636 :: u32)) = replicate 4 (0x5c XOR 0x36)"
    by code_simp+
  then show "xor_key (4 * n) k 0x5c5c5c5c = map (\<lambda>b. b XOR 0x5c) k"
    "xor_key (4 * n) (map (\<lambda>b. b XOR 0x5c) k) (0x5c5c5c5c XOR 0x36363636) = map (\<lambda>b. b XOR 0x36) k"
    using assms xor_key_bytes [of _ _ _ n] by (simp_all add: comp_def xor.assoc)
qed

lemma hmac_key_length: "length (hash key) \<le> B \<Longrightarrow> length (hmac_key B hash key) = B"
  by (simp add: hmac_key_def Let_def)

end
