(* ===== verification/Md5.thy ===== *)
theory Md5
  imports Digest
begin

text \<open>
  The MD5 digest and its HMAC, \<^verbatim>\<open>src/lualib-src/luacrypto/lmd5.c\<close>, on a little-endian machine. The contents of a fresh
  context, a local variable of the C functions, are an argument. The digest is compared with the algorithm of RFC 1321
  written as a loop over a table, the keyed one with HMAC.
\<close>

unbundle bit_operations_syntax

section \<open>The compression function\<close>

definition F1 :: "u32 \<Rightarrow> u32 \<Rightarrow> u32 \<Rightarrow> u32" where "F1 x y z = z XOR (x AND (y XOR z))"
definition F2 :: "u32 \<Rightarrow> u32 \<Rightarrow> u32 \<Rightarrow> u32" where "F2 x y z = F1 z x y"
definition F3 :: "u32 \<Rightarrow> u32 \<Rightarrow> u32 \<Rightarrow> u32" where "F3 x y z = x XOR y XOR z"
definition F4 :: "u32 \<Rightarrow> u32 \<Rightarrow> u32 \<Rightarrow> u32" where "F4 x y z = y XOR (x OR NOT z)"

definition MD5STEP :: "(u32 \<Rightarrow> u32 \<Rightarrow> u32 \<Rightarrow> u32) \<Rightarrow> u32 \<Rightarrow> u32 \<Rightarrow> u32 \<Rightarrow> u32 \<Rightarrow> u32 \<Rightarrow> nat \<Rightarrow> u32" where
  "MD5STEP f w x y z data s =
     (let w1 = w + (f x y z + data); w2 = push_bit s w1 OR drop_bit (32 - s) w1 in w2 + x)"

type_synonym md5_state = "u32 \<times> u32 \<times> u32 \<times> u32"

text \<open>A step overwrites one of the four variables, the first argument of the macro; the others follow it in
  cyclic order. The rows are the 64 lines of the function: macro, variable, index of the input word, constant, shift.\<close>

datatype md5_reg = Ra | Rb | Rc | Rd

fun md5_step :: "(nat \<Rightarrow> u32) \<Rightarrow> md5_state \<Rightarrow> (u32 \<Rightarrow> u32 \<Rightarrow> u32 \<Rightarrow> u32) \<times> md5_reg \<times> nat \<times> u32 \<times> nat \<Rightarrow> md5_state" where
  "md5_step inp (a, b, c, d) (f, Ra, k, t, s) = (MD5STEP f a b c d (inp k + t) s, b, c, d)"
| "md5_step inp (a, b, c, d) (f, Rd, k, t, s) = (a, b, c, MD5STEP f d a b c (inp k + t) s)"
| "md5_step inp (a, b, c, d) (f, Rc, k, t, s) = (a, b, MD5STEP f c d a b (inp k + t) s, d)"
| "md5_step inp (a, b, c, d) (f, Rb, k, t, s) = (a, MD5STEP f b c d a (inp k + t) s, c, d)"

definition md5_steps :: "((u32 \<Rightarrow> u32 \<Rightarrow> u32 \<Rightarrow> u32) \<times> md5_reg \<times> nat \<times> u32 \<times> nat) list" where
  "md5_steps =
    [(F1, Ra, 0, 0xd76aa478, 7), (F1, Rd, 1, 0xe8c7b756, 12), (F1, Rc, 2, 0x242070db, 17), (F1, Rb, 3, 0xc1bdceee, 22),
     (F1, Ra, 4, 0xf57c0faf, 7), (F1, Rd, 5, 0x4787c62a, 12), (F1, Rc, 6, 0xa8304613, 17), (F1, Rb, 7, 0xfd469501, 22),
     (F1, Ra, 8, 0x698098d8, 7), (F1, Rd, 9, 0x8b44f7af, 12), (F1, Rc, 10, 0xffff5bb1, 17), (F1, Rb, 11, 0x895cd7be, 22),
     (F1, Ra, 12, 0x6b901122, 7), (F1, Rd, 13, 0xfd987193, 12), (F1, Rc, 14, 0xa679438e, 17), (F1, Rb, 15, 0x49b40821, 22),
     (F2, Ra, 1, 0xf61e2562, 5), (F2, Rd, 6, 0xc040b340, 9), (F2, Rc, 11, 0x265e5a51, 14), (F2, Rb, 0, 0xe9b6c7aa, 20),
     (F2, Ra, 5, 0xd62f105d, 5), (F2, Rd, 10, 0x02441453, 9), (F2, Rc, 15, 0xd8a1e681, 14), (F2, Rb, 4, 0xe7d3fbc8, 20),
     (F2, Ra, 9, 0x21e1cde6, 5), (F2, Rd, 14, 0xc33707d6, 9), (F2, Rc, 3, 0xf4d50d87, 14), (F2, Rb, 8, 0x455a14ed, 20),
     (F2, Ra, 13, 0xa9e3e905, 5), (F2, Rd, 2, 0xfcefa3f8, 9), (F2, Rc, 7, 0x676f02d9, 14), (F2, Rb, 12, 0x8d2a4c8a, 20),
     (F3, Ra, 5, 0xfffa3942, 4), (F3, Rd, 8, 0x8771f681, 11), (F3, Rc, 11, 0x6d9d6122, 16), (F3, Rb, 14, 0xfde5380c, 23),
     (F3, Ra, 1, 0xa4beea44, 4), (F3, Rd, 4, 0x4bdecfa9, 11), (F3, Rc, 7, 0xf6bb4b60, 16), (F3, Rb, 10, 0xbebfbc70, 23),
     (F3, Ra, 13, 0x289b7ec6, 4), (F3, Rd, 0, 0xeaa127fa, 11), (F3, Rc, 3, 0xd4ef3085, 16), (F3, Rb, 6, 0x04881d05, 23),
     (F3, Ra, 9, 0xd9d4d039, 4), (F3, Rd, 12, 0xe6db99e5, 11), (F3, Rc, 15, 0x1fa27cf8, 16), (F3, Rb, 2, 0xc4ac5665, 23),
     (F4, Ra, 0, 0xf4292244, 6), (F4, Rd, 7, 0x432aff97, 10), (F4, Rc, 14, 0xab9423a7, 15), (F4, Rb, 5, 0xfc93a039, 21),
     (F4, Ra, 12, 0x655b59c3, 6), (F4, Rd, 3, 0x8f0ccc92, 10), (F4, Rc, 10, 0xffeff47d, 15), (F4, Rb, 1, 0x85845dd1, 21),
     (F4, Ra, 8, 0x6fa87e4f, 6), (F4, Rd, 15, 0xfe2ce6e0, 10), (F4, Rc, 6, 0xa3014314, 15), (F4, Rb, 13, 0x4e0811a1, 21),
     (F4, Ra, 4, 0xf7537e82, 6), (F4, Rd, 11, 0xbd3af235, 10), (F4, Rc, 2, 0x2ad7d2bb, 15), (F4, Rb, 9, 0xeb86d391, 21)]"

definition MD5Transform :: "md5_state \<Rightarrow> byte list \<Rightarrow> md5_state" where
  "MD5Transform state block =
     (case (state, foldl (md5_step (get_word 4 block)) state md5_steps) of
        ((s0, s1, s2, s3), (a, b, c, d)) \<Rightarrow> (s0 + a, s1 + b, s2 + c, s3 + d))"

section \<open>The context\<close>

definition MD5_BLOCK_LENGTH :: nat where "MD5_BLOCK_LENGTH = 64"
definition MD5_DIGEST_LENGTH :: nat where "MD5_DIGEST_LENGTH = 16"

record md5_ctx =
  ctx_state :: md5_state
  ctx_count :: u64
  ctx_buffer :: "byte list"

definition PUT_64BIT_LE :: "u64 \<Rightarrow> byte list" where
  "PUT_64BIT_LE value = map (\<lambda>s. ucast (drop_bit s value)) [0, 8, 16, 24, 32, 40, 48, 56]"

definition PUT_32BIT_LE :: "u32 \<Rightarrow> byte list" where
  "PUT_32BIT_LE value = map (\<lambda>s. ucast (drop_bit s value)) [0, 8, 16, 24]"

definition PADDING :: "byte list" where
  "PADDING = 0x80 # replicate 63 0"

definition MD5Init :: "md5_ctx \<Rightarrow> md5_ctx" where
  "MD5Init ctx = ctx\<lparr>ctx_count := 0, ctx_state := (0x67452301, 0xefcdab89, 0x98badcfe, 0x10325476)\<rparr>"

text \<open>The number of bytes in the buffer.\<close>

definition md5_have :: "md5_ctx \<Rightarrow> nat" where
  "md5_have ctx = unat (drop_bit 3 (ctx_count ctx) AND (of_nat MD5_BLOCK_LENGTH - 1))"

function md5_whole_blocks :: "md5_state \<Rightarrow> byte list \<Rightarrow> md5_state \<times> byte list" where
  "md5_whole_blocks st input =
     (if length input \<ge> MD5_BLOCK_LENGTH
      then md5_whole_blocks (MD5Transform st (take MD5_BLOCK_LENGTH input)) (drop MD5_BLOCK_LENGTH input)
      else (st, input))"
  by pat_completeness auto

termination by (relation "measure (\<lambda>(st, input). length input)") (auto simp: MD5_BLOCK_LENGTH_def)

declare md5_whole_blocks.simps [simp del]

definition md5_store :: "md5_ctx \<Rightarrow> nat \<Rightarrow> byte list \<Rightarrow> md5_ctx result" where
  "md5_store ctx have input =
     (if length input \<noteq> 0 then rbind (mem_write (ctx_buffer ctx) have input) (\<lambda>b. Inr (ctx\<lparr>ctx_buffer := b\<rparr>)) else Inr ctx)"

text \<open>A buffer that holds some bytes is filled up and compressed.\<close>

definition md5_fill :: "md5_ctx \<Rightarrow> nat \<Rightarrow> byte list \<Rightarrow> (md5_ctx \<times> byte list \<times> nat) result" where
  "md5_fill ctx have input =
     (let need = MD5_BLOCK_LENGTH - have
      in if have \<noteq> 0
         then rbind (mem_write (ctx_buffer ctx) have (take need input)) (\<lambda>b.
           Inr (ctx\<lparr>ctx_buffer := b, ctx_state := MD5Transform (ctx_state ctx) b\<rparr>, drop need input, 0))
         else Inr (ctx, input, have))"

definition MD5Update :: "md5_ctx \<Rightarrow> byte list \<Rightarrow> md5_ctx result" where
  "MD5Update ctx input =
     (let len = length input; have = md5_have ctx; need = MD5_BLOCK_LENGTH - have;
          ctx1 = ctx\<lparr>ctx_count := ctx_count ctx + push_bit 3 (of_nat len)\<rparr>
      in if len \<ge> need
         then rbind (md5_fill ctx1 have input)
           (\<lambda>(ctx2, input2, have2).
             let (st, input3) = md5_whole_blocks (ctx_state ctx2) input2
             in md5_store (ctx2\<lparr>ctx_state := st\<rparr>) have2 input3)
         else md5_store ctx1 have input)"

definition md5_digest :: "md5_state \<Rightarrow> byte list" where
  "md5_digest st = (case st of (a, b, c, d) \<Rightarrow> PUT_32BIT_LE a @ PUT_32BIT_LE b @ PUT_32BIT_LE c @ PUT_32BIT_LE d)"

text \<open>\<^verbatim>\<open>MD5Final\<close>: the digest and the cleared context.\<close>

definition MD5Final :: "md5_ctx \<Rightarrow> (byte list \<times> md5_ctx) result" where
  "MD5Final ctx =
     (let count = PUT_64BIT_LE (ctx_count ctx);
          padlen0 = MD5_BLOCK_LENGTH - md5_have ctx;
          padlen = (if padlen0 < 1 + 8 then padlen0 + MD5_BLOCK_LENGTH else padlen0)
      in rbind (MD5Update ctx (take (padlen - 8) PADDING)) (\<lambda>ctx1.
         rbind (MD5Update ctx1 count) (\<lambda>ctx2.
         Inr (md5_digest (ctx_state ctx2),
              \<lparr>ctx_state = (0, 0, 0, 0), ctx_count = 0, ctx_buffer = replicate MD5_BLOCK_LENGTH 0\<rparr>))))"

section \<open>The Lua functions\<close>

definition lmd5 :: "md5_ctx \<Rightarrow> byte list \<Rightarrow> byte list result" where
  "lmd5 raw d = rbind (MD5Update (MD5Init raw) d) (\<lambda>ctx. rbind (MD5Final ctx) (\<lambda>(sum, _). Inr sum))"

text \<open>\<^verbatim>\<open>lhmac_md5\<close>, with the contents of its three contexts. A long key is hashed into the context \<^verbatim>\<open>ctx\<close>, but it is \<^verbatim>\<open>ctx1\<close>,
  not yet initialized, that is finished into \<^verbatim>\<open>rkey\<close>.\<close>

definition lhmac_md5 :: "md5_ctx \<Rightarrow> md5_ctx \<Rightarrow> md5_ctx \<Rightarrow> byte list \<Rightarrow> byte list \<Rightarrow> byte list result" where
  "lhmac_md5 raw raw1 raw2 key msg =
     rbind
       (if length key > 64
        then rbind (MD5Update (MD5Init raw) key) (\<lambda>_.
             rbind (MD5Final raw1) (\<lambda>(digest, ctx1).
             rbind (mem_write (replicate 64 0) 0 digest) (\<lambda>rkey. Inr (rkey, ctx1))))
        else rbind (mem_write (replicate 64 0) 0 key) (\<lambda>rkey. Inr (rkey, raw1)))
       (\<lambda>(rkey, ctx1).
         let rkey1 = xor_key 64 rkey 0x5c5c5c5c
         in rbind (MD5Update (MD5Init ctx1) rkey1) (\<lambda>ctx1.
            let rkey2 = xor_key 64 rkey1 (0x5c5c5c5c XOR 0x36363636)
            in rbind (MD5Update (MD5Init raw2) rkey2) (\<lambda>ctx2.
               rbind (MD5Update ctx2 msg) (\<lambda>ctx2.
               rbind (MD5Final ctx2) (\<lambda>(digest2, _).
               rbind (MD5Update ctx1 digest2) (\<lambda>ctx1.
               rbind (MD5Final ctx1) (\<lambda>(digest1, _). Inr digest1)))))))"

section \<open>RFC 1321\<close>

text \<open>The auxiliary functions and the sixty-four operations in the cyclic form: the registers move on by one each time.\<close>

definition rfc_F :: "u32 \<Rightarrow> u32 \<Rightarrow> u32 \<Rightarrow> u32" where "rfc_F X Y Z = (X AND Y) OR (NOT X AND Z)"
definition rfc_G :: "u32 \<Rightarrow> u32 \<Rightarrow> u32 \<Rightarrow> u32" where "rfc_G X Y Z = (X AND Z) OR (Y AND NOT Z)"
definition rfc_H :: "u32 \<Rightarrow> u32 \<Rightarrow> u32 \<Rightarrow> u32" where "rfc_H X Y Z = X XOR Y XOR Z"
definition rfc_I :: "u32 \<Rightarrow> u32 \<Rightarrow> u32 \<Rightarrow> u32" where "rfc_I X Y Z = Y XOR (X OR NOT Z)"

definition rfc_T :: "u32 list" where
  "rfc_T =
    [0xd76aa478, 0xe8c7b756, 0x242070db, 0xc1bdceee, 0xf57c0faf, 0x4787c62a, 0xa8304613, 0xfd469501,
     0x698098d8, 0x8b44f7af, 0xffff5bb1, 0x895cd7be, 0x6b901122, 0xfd987193, 0xa679438e, 0x49b40821,
     0xf61e2562, 0xc040b340, 0x265e5a51, 0xe9b6c7aa, 0xd62f105d, 0x02441453, 0xd8a1e681, 0xe7d3fbc8,
     0x21e1cde6, 0xc33707d6, 0xf4d50d87, 0x455a14ed, 0xa9e3e905, 0xfcefa3f8, 0x676f02d9, 0x8d2a4c8a,
     0xfffa3942, 0x8771f681, 0x6d9d6122, 0xfde5380c, 0xa4beea44, 0x4bdecfa9, 0xf6bb4b60, 0xbebfbc70,
     0x289b7ec6, 0xeaa127fa, 0xd4ef3085, 0x04881d05, 0xd9d4d039, 0xe6db99e5, 0x1fa27cf8, 0xc4ac5665,
     0xf4292244, 0x432aff97, 0xab9423a7, 0xfc93a039, 0x655b59c3, 0x8f0ccc92, 0xffeff47d, 0x85845dd1,
     0x6fa87e4f, 0xfe2ce6e0, 0xa3014314, 0x4e0811a1, 0xf7537e82, 0xbd3af235, 0x2ad7d2bb, 0xeb86d391]"

definition rfc_shift :: "nat \<Rightarrow> nat" where
  "rfc_shift i = [[7, 12, 17, 22], [5, 9, 14, 20], [4, 11, 16, 23], [6, 10, 15, 21]] ! (i div 16) ! (i mod 4)"

definition rfc_index :: "nat \<Rightarrow> nat" where
  "rfc_index i = (if i < 16 then i else if i < 32 then (5 * i + 1) mod 16 else if i < 48 then (3 * i + 5) mod 16 else 7 * i mod 16)"

definition rfc_fun :: "nat \<Rightarrow> u32 \<Rightarrow> u32 \<Rightarrow> u32 \<Rightarrow> u32" where
  "rfc_fun i = (if i < 16 then rfc_F else if i < 32 then rfc_G else if i < 48 then rfc_H else rfc_I)"

definition rfc_op :: "(nat \<Rightarrow> u32) \<Rightarrow> md5_state \<Rightarrow> nat \<Rightarrow> md5_state" where
  "rfc_op X st i =
     (case st of (a, b, c, d) \<Rightarrow>
        (d, b + word_rotl (rfc_shift i) (a + rfc_fun i b c d + X (rfc_index i) + rfc_T ! i), b, c))"

definition rfc_compress :: "md5_state \<Rightarrow> byte list \<Rightarrow> md5_state" where
  "rfc_compress st block =
     (case (st, foldl (rfc_op (\<lambda>k. word_of_int (load_le (take 4 (drop (4 * k) block))))) st [0..<64]) of
        ((s0, s1, s2, s3), (a, b, c, d)) \<Rightarrow> (s0 + a, s1 + b, s2 + c, s3 + d))"

definition rfc_output :: "md5_state \<Rightarrow> byte list" where
  "rfc_output st = (case st of (a, b, c, d) \<Rightarrow> concat (map (\<lambda>w. store_le 4 (uint w)) [a, b, c, d]))"

definition md5 :: "byte list \<Rightarrow> byte list" where
  "md5 = md_hash 64 8 (\<lambda>n. store_le 8 (8 * int n)) rfc_compress (0x67452301, 0xefcdab89, 0x98badcfe, 0x10325476) rfc_output"


section \<open>The compression function is the one of the RFC\<close>

lemma F_rfc: "F1 = rfc_F" "F2 = rfc_G" "F3 = rfc_H" "F4 = rfc_I"
proof -
  have "F1 x y z = rfc_F x y z" for x y z
    unfolding F1_def rfc_F_def by (rule bit_word_eqI) (auto simp: bit_simps)
  then show "F1 = rfc_F" by blast
  have "F2 x y z = rfc_G x y z" for x y z
    unfolding F2_def F1_def rfc_G_def by (rule bit_word_eqI) (auto simp: bit_simps)
  then show "F2 = rfc_G" by blast
qed (simp_all add: fun_eq_iff F3_def F4_def rfc_H_def rfc_I_def)

definition rfc_reg :: "nat \<Rightarrow> md5_reg" where
  "rfc_reg i = [Ra, Rd, Rc, Rb] ! (i mod 4)"

text \<open>The sixty-four lines of the code are the sixty-four operations.\<close>

lemma md5_steps_rfc: "md5_steps = map (\<lambda>i. (rfc_fun i, rfc_reg i, rfc_index i, rfc_T ! i, rfc_shift i)) [0..<64]"
proof -
  have u: "[0..<64] = [0, 1, 2, 3, 4, 5, 6, 7, 8, 9, 10, 11, 12, 13, 14, 15, 16, 17, 18, 19, 20, 21, 22, 23, 24, 25, 26, 27, 28, 29, 30, 31,
    32, 33, 34, 35, 36, 37, 38, 39, 40, 41, 42, 43, 44, 45, 46, 47, 48, 49, 50, 51, 52, 53, 54, 55, 56, 57, 58, 59, 60, 61, 62, 63]"
    by (simp add: upt_rec)
  show ?thesis unfolding u md5_steps_def F_rfc
    by (simp add: rfc_fun_def rfc_reg_def rfc_index_def rfc_shift_def rfc_T_def)
qed

lemma rfc_shift_range: "i < 64 \<Longrightarrow> 0 < rfc_shift i \<and> rfc_shift i < 32"
proof -
  assume "i < 64"
  then have "i div 16 \<in> {0, 1, 2, 3}" "i mod 4 \<in> {0, 1, 2, 3}" by auto
  then show ?thesis by (auto simp: rfc_shift_def)
qed

lemma MD5STEP_rotl:
  assumes "0 < s" "s < 32"
  shows "MD5STEP f w x y z (d + t) s = x + word_rotl s (w + f x y z + d + t)"
  using shifts_rotl [where 'a = 32, of s] assms by (simp add: MD5STEP_def Let_def add.assoc add.commute [of x])

text \<open>The registers of the cyclic form after \<open>i\<close> operations.\<close>

fun turned :: "nat \<Rightarrow> md5_state \<Rightarrow> md5_state" where
  "turned i (a, b, c, d) = [(a, b, c, d), (d, a, b, c), (c, d, a, b), (b, c, d, a)] ! (i mod 4)"

lemma turned_step:
  assumes "0 < s" "s < 32"
  shows "turned (Suc i) (md5_step X st (f, rfc_reg i, k, t, s)) =
    (case turned i st of (a, b, c, d) \<Rightarrow> (d, b + word_rotl s (a + f b c d + X k + t), b, c))"
proof -
  obtain a b c d where st: "st = (a, b, c, d)" by (cases st)
  consider "i mod 4 = 0" "Suc i mod 4 = 1" | "i mod 4 = 1" "Suc i mod 4 = 2" | "i mod 4 = 2" "Suc i mod 4 = 3" | "i mod 4 = 3" "Suc i mod 4 = 0"
    by (simp add: mod_Suc) linarith
  then show ?thesis by cases (simp_all add: st rfc_reg_def MD5STEP_rotl [OF assms])
qed

lemma turned_steps:
  "n \<le> 64 \<Longrightarrow> turned n (foldl (md5_step X) st (map (\<lambda>i. (rfc_fun i, rfc_reg i, rfc_index i, rfc_T ! i, rfc_shift i)) [0..<n])) =
     foldl (rfc_op X) st [0..<n]"
proof (induction n)
  case 0
  then show ?case by (cases st) simp
next
  case (Suc n)
  then show ?case using rfc_shift_range [of n] by (simp add: turned_step rfc_op_def)
qed

lemma MD5Transform_rfc: "MD5Transform = rfc_compress"
proof -
  have "MD5Transform st block = rfc_compress st block" for st block
  proof -
    have "turned 64 p = p" for p by (cases p) simp
    then show ?thesis using turned_steps [of 64 "get_word 4 block" st]
      by (simp add: MD5Transform_def rfc_compress_def md5_steps_rfc get_word_def [abs_def])
  qed
  then show ?thesis by blast
qed


section \<open>Input in pieces\<close>

abbreviation md5_init :: md5_state where
  "md5_init \<equiv> (0x67452301, 0xefcdab89, 0x98badcfe, 0x10325476)"

definition md5_holds :: "md5_ctx \<Rightarrow> byte list \<Rightarrow> bool" where
  "md5_holds ctx m \<longleftrightarrow> ctx_count ctx = push_bit 3 (of_nat (length m)) \<and> length (ctx_buffer ctx) = 64 \<and>
     ctx_state ctx = foldl rfc_compress md5_init (blocks 64 m) \<and> take (length m mod 64) (ctx_buffer ctx) = rest 64 m"

lemma md5_have: "ctx_count ctx = push_bit 3 (of_nat n) \<Longrightarrow> md5_have ctx = n mod 64"
proof -
  assume c: "ctx_count ctx = push_bit 3 (of_nat n)"
  have "w AND 63 = w mod 64" for w :: u64
    using take_bit_eq_mask [of 6 w] by (simp add: mask_eq_exp_minus_1 take_bit_eq_mod)
  then have "unat (w AND 63) = unat w mod 64" for w :: u64 by (simp add: unat_mod)
  then have "unat (drop_bit 3 (push_bit 3 (of_nat n :: u64)) AND 63) = unat (drop_bit 3 (push_bit 3 (of_nat n :: u64))) mod 64" .
  also have "\<dots> = n mod 64" unfolding unat_bits_of_bytes by (rule byte_mod)
  finally show ?thesis by (simp add: md5_have_def c MD5_BLOCK_LENGTH_def)
qed

lemma md5_whole_blocks: "md5_whole_blocks st xs = (foldl rfc_compress st (blocks 64 xs), rest 64 xs)"
proof (induction st xs rule: md5_whole_blocks.induct)
  case (1 st xs)
  show ?case
    by (subst md5_whole_blocks.simps) (use 1 in \<open>simp add: MD5_BLOCK_LENGTH_def MD5Transform_rfc blocks_step\<close>)
qed

lemma md5_init_holds: "length (ctx_buffer raw) = 64 \<Longrightarrow> md5_holds (MD5Init raw) []"
  by (simp add: md5_holds_def MD5Init_def)

text \<open>The bytes left over after the last whole block go behind those that are there.\<close>

lemma md5_store:
  assumes "length (ctx_buffer ctx) = 64" "take (length r) (ctx_buffer ctx) = r" "length r + length p < 64"
  shows "\<exists>b. md5_store ctx (length r) p = Inr (ctx\<lparr>ctx_buffer := b\<rparr>) \<and> length b = 64 \<and> take (length r + length p) b = r @ p"
proof (cases "p = []")
  case True
  then show ?thesis using assms(1,2) by (intro exI [of _ "ctx_buffer ctx"]) (simp add: md5_store_def)
next
  case False
  let ?b = "take (length r) (ctx_buffer ctx) @ p @ drop (length r + length p) (ctx_buffer ctx)"
  have "md5_store ctx (length r) p = Inr (ctx\<lparr>ctx_buffer := ?b\<rparr>)"
    using False assms by (simp add: md5_store_def mem_write_fits)
  moreover have "length ?b = 64" "take (length r + length p) ?b = r @ p" using assms by simp_all
  ultimately show ?thesis by blast
qed

lemma md5_fill:
  assumes "length (ctx_buffer ctx) = 64" "take (length r) (ctx_buffer ctx) = r" "length r < 64" "64 - length r \<le> length xs"
  obtains ctx2 input2 where "md5_fill ctx (length r) xs = Inr (ctx2, input2, 0)" "ctx_count ctx2 = ctx_count ctx"
    "length (ctx_buffer ctx2) = 64" "rest 64 input2 = rest 64 (r @ xs)"
    "foldl rfc_compress (ctx_state ctx2) (blocks 64 input2) = foldl rfc_compress (ctx_state ctx) (blocks 64 (r @ xs))"
proof (cases "r = []")
  case True
  then show thesis using that [of ctx xs] assms(1) by (simp add: md5_fill_def)
next
  case False
  let ?b = "r @ take (64 - length r) xs"
  have "mem_write (ctx_buffer ctx) (length r) (take (64 - length r) xs) = Inr ?b"
    using assms by (subst mem_write_fits) simp_all
  then have "md5_fill ctx (length r) xs =
      Inr (ctx\<lparr>ctx_buffer := ?b, ctx_state := rfc_compress (ctx_state ctx) ?b\<rparr>, drop (64 - length r) xs, 0)"
    using False by (simp add: md5_fill_def MD5_BLOCK_LENGTH_def MD5Transform_rfc Let_def)
  then show thesis using that fill_block [of 64 r xs] assms(3,4) by simp
qed

lemma md5_update_holds:
  assumes h: "md5_holds ctx m"
  shows "\<exists>ctx'. MD5Update ctx xs = Inr ctx' \<and> md5_holds ctx' (m @ xs)"
proof -
  define r where "r = rest 64 m"
  have c: "ctx_count ctx = push_bit 3 (of_nat (length m))" and b: "length (ctx_buffer ctx) = 64"
    and st: "ctx_state ctx = foldl rfc_compress md5_init (blocks 64 m)" using h by (simp_all add: md5_holds_def)
  have r: "length r = length m mod 64" "take (length r) (ctx_buffer ctx) = r" "length r < 64"
    using h length_rest [of 64 m] by (simp_all add: md5_holds_def r_def)
  have have_r: "md5_have ctx = length r" using md5_have [OF c] r(1) by simp
  have app: "blocks 64 (m @ xs) = blocks 64 m @ blocks 64 (r @ xs)" "rest 64 (m @ xs) = rest 64 (r @ xs)"
    using blocks_append [of 64 m xs] by (simp_all add: r_def)
  have len: "length (rest 64 (m @ xs)) = length (m @ xs) mod 64" "length (m @ xs) mod 64 < 64" using length_rest [of 64 "m @ xs"] by simp_all
  define ctx1 where "ctx1 = ctx\<lparr>ctx_count := ctx_count ctx + push_bit 3 (of_nat (length xs))\<rparr>"
  have c1: "ctx_count ctx1 = push_bit 3 (of_nat (length (m @ xs)))" "length (ctx_buffer ctx1) = 64" "take (length r) (ctx_buffer ctx1) = r"
    "ctx_state ctx1 = foldl rfc_compress md5_init (blocks 64 m)"
    using b r(2) by (simp_all add: ctx1_def c push_bit_add st)
  show ?thesis
  proof (cases "length xs < 64 - length r")
    case True
    then have s: "blocks 64 (r @ xs) = []" "rest 64 (r @ xs) = r @ xs" by simp_all
    have lr: "length r + length xs < 64" using True r(3) by linarith
    obtain b' where b': "md5_store ctx1 (length r) xs = Inr (ctx1\<lparr>ctx_buffer := b'\<rparr>)" "length b' = 64" "take (length r + length xs) b' = r @ xs"
      using md5_store [OF c1(2,3) lr] by blast
    have "MD5Update ctx xs = Inr (ctx1\<lparr>ctx_buffer := b'\<rparr>)"
      using True b'(1) by (simp add: MD5Update_def have_r MD5_BLOCK_LENGTH_def ctx1_def [symmetric] Let_def)
    moreover have "md5_holds (ctx1\<lparr>ctx_buffer := b'\<rparr>) (m @ xs)"
      using b'(2,3) c1 app s len(1) by (simp add: md5_holds_def)
    ultimately show ?thesis by blast
  next
    case False
    then have n: "64 - length r \<le> length xs" by simp
    let ?st = "foldl rfc_compress md5_init (blocks 64 (m @ xs))"
    obtain ctx2 input2 where 2: "md5_fill ctx1 (length r) xs = Inr (ctx2, input2, 0)" "ctx_count ctx2 = ctx_count ctx1"
      "length (ctx_buffer ctx2) = 64" "rest 64 input2 = rest 64 (r @ xs)"
      "foldl rfc_compress (ctx_state ctx2) (blocks 64 input2) = foldl rfc_compress (ctx_state ctx1) (blocks 64 (r @ xs))"
      by (rule md5_fill [OF c1(2,3) r(3) n])
    then have st2: "foldl rfc_compress (ctx_state ctx2) (blocks 64 input2) = ?st" using app(1) c1(4) by simp
    have "length (rest 64 (m @ xs)) < 64" using len by simp
    then obtain b' where b': "md5_store (ctx2\<lparr>ctx_state := ?st\<rparr>) 0 (rest 64 (m @ xs)) = Inr (ctx2\<lparr>ctx_state := ?st, ctx_buffer := b'\<rparr>)"
      "length b' = 64" "take (length (rest 64 (m @ xs))) b' = rest 64 (m @ xs)"
      using md5_store [of "ctx2\<lparr>ctx_state := ?st\<rparr>" "[]" "rest 64 (m @ xs)"] 2(3) by auto
    have "MD5Update ctx xs = Inr (ctx2\<lparr>ctx_state := ?st, ctx_buffer := b'\<rparr>)"
      using n 2(1,4) st2 b'(1) app(2)
      by (simp add: MD5Update_def have_r MD5_BLOCK_LENGTH_def ctx1_def [symmetric] Let_def md5_whole_blocks)
    moreover have "md5_holds (ctx2\<lparr>ctx_state := ?st, ctx_buffer := b'\<rparr>) (m @ xs)"
      using 2(2) c1(1) b'(2,3) len(1) by (simp add: md5_holds_def)
    ultimately show ?thesis by blast
  qed
qed

section \<open>The digest\<close>

lemma PUT_64BIT_LE_bits: "PUT_64BIT_LE (push_bit 3 (of_nat n)) = store_le 8 (8 * int n)"
proof -
  have "uint (push_bit 3 (of_nat n :: u64)) = 8 * int n mod 256 ^ 8"
    unfolding push_bit_of_nat unsigned_of_nat by (simp add: take_bit_eq_mod push_bit_eq_mult mult.commute of_nat_mod)
  moreover have "PUT_64BIT_LE w = store_le 8 (uint w)" for w
    unfolding PUT_64BIT_LE_def store_le_word by (simp add: upt_rec)
  ultimately show ?thesis by (simp only: store_le_mod)
qed

lemma md5_digest_rfc: "md5_digest = rfc_output"
proof -
  have "PUT_32BIT_LE w = store_le 4 (uint w)" for w
    unfolding PUT_32BIT_LE_def store_le_word by (simp add: upt_rec)
  then show ?thesis by (simp add: md5_digest_def [abs_def] rfc_output_def [abs_def])
qed

definition md5_cleared :: md5_ctx where
  "md5_cleared = \<lparr>ctx_state = (0, 0, 0, 0), ctx_count = 0, ctx_buffer = replicate 64 0\<rparr>"

lemma take_PADDING: "0 < n \<Longrightarrow> n \<le> 64 \<Longrightarrow> take n PADDING = 0x80 # replicate (n - 1) 0"
  by (cases n) (simp_all add: PADDING_def)

lemma md5_padding:
  assumes "md5_have ctx = n mod 64"
  defines "p \<equiv> MD5_BLOCK_LENGTH - md5_have ctx"
  shows "take ((if p < 1 + 8 then p + MD5_BLOCK_LENGTH else p) - 8) PADDING = 0x80 # replicate (pad_zeroes 64 8 n) 0"
proof (cases "n mod 64 + 9 \<le> 64")
  case True
  then have "pad_zeroes 64 8 n = 64 - (n mod 64 + 9)" "\<not> 64 - n mod 64 < 9" using pad_zeroes_cases [of n 64 8] by simp_all
  then show ?thesis using True by (simp add: p_def assms(1) MD5_BLOCK_LENGTH_def take_PADDING)
next
  case False
  then have "pad_zeroes 64 8 n = 128 - (n mod 64 + 9)" using pad_zeroes_wrap [of 64 n 8] by simp
  moreover have "n mod 64 < 64" by simp
  moreover from this have "64 - n mod 64 < 9" using False by linarith
  ultimately show ?thesis using False by (simp add: p_def assms(1) MD5_BLOCK_LENGTH_def take_PADDING)
qed

lemma md5_final:
  assumes h: "md5_holds ctx m"
  shows "MD5Final ctx = Inr (md5 m, md5_cleared)"
proof -
  let ?pad = "0x80 # replicate (pad_zeroes 64 8 (length m)) 0" and ?len = "store_le 8 (8 * int (length m))"
  have c: "ctx_count ctx = push_bit 3 (of_nat (length m))" using h by (simp add: md5_holds_def)
  obtain ctx1 where 1: "MD5Update ctx ?pad = Inr ctx1" "md5_holds ctx1 (m @ ?pad)" using md5_update_holds [OF h] by blast
  obtain ctx2 where 2: "MD5Update ctx1 ?len = Inr ctx2" "md5_holds ctx2 ((m @ ?pad) @ ?len)" using md5_update_holds [OF 1(2)] by blast
  have "ctx_state ctx2 = foldl rfc_compress md5_init (blocks 64 (md_pad 64 8 (\<lambda>n. store_le 8 (8 * int n)) m))"
    using 2(2) by (simp add: md5_holds_def md_pad_def)
  then have "md5_digest (ctx_state ctx2) = md5 m" by (simp add: md5_digest_rfc md5_def md_hash_def)
  then show ?thesis using 1(1) 2(1)
    unfolding MD5Final_def Let_def md5_padding [OF md5_have [OF c]] c PUT_64BIT_LE_bits
    by (simp add: md5_cleared_def MD5_BLOCK_LENGTH_def)
qed

interpretation md5: hash_sink md5_holds "\<lambda>_. True" MD5Update "\<lambda>ctx. rbind (MD5Final ctx) (\<lambda>(sum, _). Inr sum)" "\<lambda>m. Inr (md5 m)"
  by unfold_locales (use md5_update_holds md5_final in auto)

text \<open>[C29] The MD5 of the code is the MD5 of RFC 1321: whatever pieces a message is fed in, and whatever a fresh context
  contains, the final digest is that of the whole message.\<close>

theorem md5_correct:
  assumes "length (ctx_buffer raw) = 64"
  shows "rbind (md5.put_all (MD5Init raw) yss) (\<lambda>ctx. rbind (MD5Final ctx) (\<lambda>(sum, _). Inr sum)) = Inr (md5 (concat yss)) \<and>
    lmd5 raw d = Inr (md5 d)"
proof -
  have i: "md5_holds (MD5Init raw) []" by (rule md5_init_holds [OF assms])
  obtain ctx where "md5.put_all (MD5Init raw) yss = Inr ctx" "rbind (MD5Final ctx) (\<lambda>(sum, _). Inr sum) = Inr (md5 (concat yss))"
    using md5.digest_put_all [OF i, of yss] by auto
  moreover obtain ctx' where "MD5Update (MD5Init raw) d = Inr ctx'" "md5_holds ctx' d" using md5_update_holds [OF i, of d] by auto
  ultimately show ?thesis using md5_final by (simp add: lmd5_def)
qed

text \<open>A test of the RFC.\<close>

lemma md5_abc: "md5 [97, 98, 99] =
    [0x90, 0x01, 0x50, 0x98, 0x3c, 0xd2, 0x4f, 0xb0, 0xd6, 0x96, 0x3f, 0x7d, 0x28, 0xe1, 0x7f, 0x72]"
  by code_simp

abbreviation raw_md5 :: md5_ctx where
  "raw_md5 \<equiv> \<lparr>ctx_state = (1, 2, 3, 4), ctx_count = 5, ctx_buffer = replicate 64 6\<rparr>"

theorem md5_correct_witness:
  "rbind (md5.put_all (MD5Init raw_md5) [[1, 2], [], replicate 70 3]) (\<lambda>ctx. rbind (MD5Final ctx) (\<lambda>(sum, _). Inr sum)) =
     Inr (md5 ([1, 2] @ replicate 70 3))"
  using md5_correct [of raw_md5 "[[1, 2], [], replicate 70 3]" "[]"] by simp

section \<open>The keyed digest\<close>

lemma length_md5 [simp]: "length (md5 m) = 16"
  by (simp add: md5_def md_hash_def rfc_output_def split: prod.split)

text \<open>From the padded key on, the function computes HMAC.\<close>

definition hmac_md5_rest :: "md5_ctx \<Rightarrow> md5_ctx \<Rightarrow> byte list \<Rightarrow> byte list \<Rightarrow> byte list result" where
  "hmac_md5_rest ctx1 raw2 rkey msg =
     (let rkey1 = xor_key 64 rkey 0x5c5c5c5c
      in rbind (MD5Update (MD5Init ctx1) rkey1) (\<lambda>ctx1.
         let rkey2 = xor_key 64 rkey1 (0x5c5c5c5c XOR 0x36363636)
         in rbind (MD5Update (MD5Init raw2) rkey2) (\<lambda>ctx2.
            rbind (MD5Update ctx2 msg) (\<lambda>ctx2.
            rbind (MD5Final ctx2) (\<lambda>(digest2, _).
            rbind (MD5Update ctx1 digest2) (\<lambda>ctx1.
            rbind (MD5Final ctx1) (\<lambda>(digest1, _). Inr digest1)))))))"

lemma hmac_md5_rest:
  assumes "length (ctx_buffer ctx1) = 64" "length (ctx_buffer raw2) = 64" "length k = 64"
  shows "hmac_md5_rest ctx1 raw2 k msg = Inr (md5 (map (\<lambda>b. b XOR 0x5c) k @ md5 (map (\<lambda>b. b XOR 0x36) k @ msg)))"
proof -
  let ?o = "map (\<lambda>b. b XOR 0x5c) k" and ?i = "map (\<lambda>b. b XOR 0x36) k"
  have pads: "xor_key 64 k 0x5c5c5c5c = ?o" "xor_key 64 ?o (0x5c5c5c5c XOR 0x36363636) = ?i" using key_pads [of k 16] assms(3) by simp_all
  obtain c1 where c1: "MD5Update (MD5Init ctx1) ?o = Inr c1" "md5_holds c1 ?o"
    using md5_update_holds [OF md5_init_holds [OF assms(1)], of ?o] by auto
  obtain c2 where c2: "MD5Update (MD5Init raw2) ?i = Inr c2" "md5_holds c2 ?i"
    using md5_update_holds [OF md5_init_holds [OF assms(2)], of ?i] by auto
  obtain c3 where c3: "MD5Update c2 msg = Inr c3" "md5_holds c3 (?i @ msg)" using md5_update_holds [OF c2(2)] by blast
  obtain c4 where c4: "MD5Update c1 (md5 (?i @ msg)) = Inr c4" "md5_holds c4 (?o @ md5 (?i @ msg))"
    using md5_update_holds [OF c1(2)] by blast
  show ?thesis unfolding hmac_md5_rest_def Let_def pads
    using c1(1) c2(1) c3(1) c4(1) md5_final [OF c3(2)] md5_final [OF c4(2)] by simp
qed

lemma lhmac_md5_rest: "lhmac_md5 raw raw1 raw2 key msg =
    (if length key > 64
     then rbind (MD5Update (MD5Init raw) key) (\<lambda>_. rbind (MD5Final raw1) (\<lambda>(digest, ctx1).
       rbind (mem_write (replicate 64 0) 0 digest) (\<lambda>rkey. hmac_md5_rest ctx1 raw2 rkey msg)))
     else rbind (mem_write (replicate 64 0) 0 key) (\<lambda>rkey. hmac_md5_rest raw1 raw2 rkey msg))"
  by (auto simp: lhmac_md5_def hmac_md5_rest_def rbind_def split: sum.split)

text \<open>[C31] With a key of at most 64 bytes \<^verbatim>\<open>hmac_md5\<close> is HMAC-MD5. With a longer one the result does not depend on the key
  at all: what takes its place is the digest of an uninitialized context.\<close>

theorem hmac_md5_key:
  assumes "length (ctx_buffer raw) = 64" "length (ctx_buffer raw1) = 64" "length (ctx_buffer raw2) = 64"
  shows "(length key \<le> 64 \<longrightarrow> lhmac_md5 raw raw1 raw2 key msg = Inr (hmac 64 md5 key msg)) \<and>
    (64 < length key \<longrightarrow> 64 < length key' \<longrightarrow> lhmac_md5 raw raw1 raw2 key msg = lhmac_md5 raw raw1 raw2 key' msg)"
proof (intro conjI impI)
  assume k: "length key \<le> 64"
  then have "mem_write (replicate 64 0) 0 key = Inr (hmac_key 64 md5 key)"
    by (simp add: mem_write_def hmac_key_def)
  then show "lhmac_md5 raw raw1 raw2 key msg = Inr (hmac 64 md5 key msg)"
    using k hmac_md5_rest [OF assms(2,3) hmac_key_length, of md5 key msg] by (simp add: lhmac_md5_rest hmac_def Let_def)
next
  assume k: "64 < length key" "64 < length key'"
  have "\<exists>ctx. MD5Update (MD5Init raw) d = Inr ctx" for d using md5_update_holds [OF md5_init_holds [OF assms(1)]] by blast
  then obtain a b where "MD5Update (MD5Init raw) key = Inr a" "MD5Update (MD5Init raw) key' = Inr b" by blast
  then show "lhmac_md5 raw raw1 raw2 key msg = lhmac_md5 raw raw1 raw2 key' msg" using k by (simp add: lhmac_md5_rest)
qed

theorem hmac_md5_key_witness:
  "lhmac_md5 raw_md5 raw_md5 raw_md5 [1, 2, 3] [4] = Inr (hmac 64 md5 [1, 2, 3] [4]) \<and>
   lhmac_md5 raw_md5 raw_md5 raw_md5 (replicate 65 1) [4] = lhmac_md5 raw_md5 raw_md5 raw_md5 (replicate 99 7) [4]"
  using hmac_md5_key [of raw_md5 raw_md5 raw_md5 "[1, 2, 3]" "[4]"]
    hmac_md5_key [of raw_md5 raw_md5 raw_md5 "replicate 65 1" "[4]" "replicate 99 7"] by simp

end
