(* ===== verification/Sha2.thy ===== *)
theory Sha2
  imports Digest
begin

text \<open>
  SHA-256 and SHA-512 and their HMACs, \<^verbatim>\<open>src/lualib-src/luacrypto/lsha2.c\<close>, on a little-endian machine, with the rounds as
  loops (\<^verbatim>\<open>SHA2_UNROLL_TRANSFORM\<close> is not defined). The two algorithms are the same code for words of 32 and of
  64 bits: what they share is written once, over a record of the functions and constants of the algorithm. The buffer of
  the context, 128 bytes in both, is at the same time the ring of the last sixteen words of the message schedule, also
  when it is the block that is read. The digests are compared with the description of FIPS 180-4.
\<close>

unbundle bit_operations_syntax

section \<open>The algorithms\<close>

record 'w sha2_alg =
  alg_Sigma0 :: "'w \<Rightarrow> 'w"
  alg_Sigma1 :: "'w \<Rightarrow> 'w"
  alg_sigma0 :: "'w \<Rightarrow> 'w"
  alg_sigma1 :: "'w \<Rightarrow> 'w"
  alg_K :: "'w list"
  alg_bytes :: nat

definition Ch :: "'a::len word \<Rightarrow> 'a word \<Rightarrow> 'a word \<Rightarrow> 'a word" where
  "Ch x y z = (x AND y) XOR (NOT x AND z)"

definition Maj :: "'a::len word \<Rightarrow> 'a word \<Rightarrow> 'a word \<Rightarrow> 'a word" where
  "Maj x y z = (x AND y) XOR (x AND z) XOR (y AND z)"

definition S32 :: "nat \<Rightarrow> u32 \<Rightarrow> u32" where "S32 b x = drop_bit b x OR push_bit (32 - b) x"
definition S64 :: "nat \<Rightarrow> u64 \<Rightarrow> u64" where "S64 b x = drop_bit b x OR push_bit (64 - b) x"

definition Sigma0_256 :: "u32 \<Rightarrow> u32" where "Sigma0_256 x = S32 2 x XOR S32 13 x XOR S32 22 x"
definition Sigma1_256 :: "u32 \<Rightarrow> u32" where "Sigma1_256 x = S32 6 x XOR S32 11 x XOR S32 25 x"
definition sigma0_256 :: "u32 \<Rightarrow> u32" where "sigma0_256 x = S32 7 x XOR S32 18 x XOR drop_bit 3 x"
definition sigma1_256 :: "u32 \<Rightarrow> u32" where "sigma1_256 x = S32 17 x XOR S32 19 x XOR drop_bit 10 x"

definition Sigma0_512 :: "u64 \<Rightarrow> u64" where "Sigma0_512 x = S64 28 x XOR S64 34 x XOR S64 39 x"
definition Sigma1_512 :: "u64 \<Rightarrow> u64" where "Sigma1_512 x = S64 14 x XOR S64 18 x XOR S64 41 x"
definition sigma0_512 :: "u64 \<Rightarrow> u64" where "sigma0_512 x = S64 1 x XOR S64 8 x XOR drop_bit 7 x"
definition sigma1_512 :: "u64 \<Rightarrow> u64" where "sigma1_512 x = S64 19 x XOR S64 61 x XOR drop_bit 6 x"

text \<open>The tables, each constant with its index.\<close>

definition K256 :: "u32 list" where
  "K256 = map snd
    [(0 :: nat, 0x428a2f98), (1, 0x71374491), (2, 0xb5c0fbcf), (3, 0xe9b5dba5), (4, 0x3956c25b), (5, 0x59f111f1),
     (6, 0x923f82a4), (7, 0xab1c5ed5), (8, 0xd807aa98), (9, 0x12835b01), (10, 0x243185be), (11, 0x550c7dc3),
     (12, 0x72be5d74), (13, 0x80deb1fe), (14, 0x9bdc06a7), (15, 0xc19bf174), (16, 0xe49b69c1), (17, 0xefbe4786),
     (18, 0x0fc19dc6), (19, 0x240ca1cc), (20, 0x2de92c6f), (21, 0x4a7484aa), (22, 0x5cb0a9dc), (23, 0x76f988da),
     (24, 0x983e5152), (25, 0xa831c66d), (26, 0xb00327c8), (27, 0xbf597fc7), (28, 0xc6e00bf3), (29, 0xd5a79147),
     (30, 0x06ca6351), (31, 0x14292967), (32, 0x27b70a85), (33, 0x2e1b2138), (34, 0x4d2c6dfc), (35, 0x53380d13),
     (36, 0x650a7354), (37, 0x766a0abb), (38, 0x81c2c92e), (39, 0x92722c85), (40, 0xa2bfe8a1), (41, 0xa81a664b),
     (42, 0xc24b8b70), (43, 0xc76c51a3), (44, 0xd192e819), (45, 0xd6990624), (46, 0xf40e3585), (47, 0x106aa070),
     (48, 0x19a4c116), (49, 0x1e376c08), (50, 0x2748774c), (51, 0x34b0bcb5), (52, 0x391c0cb3), (53, 0x4ed8aa4a),
     (54, 0x5b9cca4f), (55, 0x682e6ff3), (56, 0x748f82ee), (57, 0x78a5636f), (58, 0x84c87814), (59, 0x8cc70208),
     (60, 0x90befffa), (61, 0xa4506ceb), (62, 0xbef9a3f7), (63, 0xc67178f2)]"

definition K512 :: "u64 list" where
  "K512 = map snd
    [(0 :: nat, 0x428a2f98d728ae22), (1, 0x7137449123ef65cd), (2, 0xb5c0fbcfec4d3b2f), (3, 0xe9b5dba58189dbbc),
     (4, 0x3956c25bf348b538), (5, 0x59f111f1b605d019), (6, 0x923f82a4af194f9b), (7, 0xab1c5ed5da6d8118),
     (8, 0xd807aa98a3030242), (9, 0x12835b0145706fbe), (10, 0x243185be4ee4b28c), (11, 0x550c7dc3d5ffb4e2),
     (12, 0x72be5d74f27b896f), (13, 0x80deb1fe3b1696b1), (14, 0x9bdc06a725c71235), (15, 0xc19bf174cf692694),
     (16, 0xe49b69c19ef14ad2), (17, 0xefbe4786384f25e3), (18, 0x0fc19dc68b8cd5b5), (19, 0x240ca1cc77ac9c65),
     (20, 0x2de92c6f592b0275), (21, 0x4a7484aa6ea6e483), (22, 0x5cb0a9dcbd41fbd4), (23, 0x76f988da831153b5),
     (24, 0x983e5152ee66dfab), (25, 0xa831c66d2db43210), (26, 0xb00327c898fb213f), (27, 0xbf597fc7beef0ee4),
     (28, 0xc6e00bf33da88fc2), (29, 0xd5a79147930aa725), (30, 0x06ca6351e003826f), (31, 0x142929670a0e6e70),
     (32, 0x27b70a8546d22ffc), (33, 0x2e1b21385c26c926), (34, 0x4d2c6dfc5ac42aed), (35, 0x53380d139d95b3df),
     (36, 0x650a73548baf63de), (37, 0x766a0abb3c77b2a8), (38, 0x81c2c92e47edaee6), (39, 0x92722c851482353b),
     (40, 0xa2bfe8a14cf10364), (41, 0xa81a664bbc423001), (42, 0xc24b8b70d0f89791), (43, 0xc76c51a30654be30),
     (44, 0xd192e819d6ef5218), (45, 0xd69906245565a910), (46, 0xf40e35855771202a), (47, 0x106aa07032bbd1b8),
     (48, 0x19a4c116b8d2d0c8), (49, 0x1e376c085141ab53), (50, 0x2748774cdf8eeb99), (51, 0x34b0bcb5e19b48a8),
     (52, 0x391c0cb3c5c95a63), (53, 0x4ed8aa4ae3418acb), (54, 0x5b9cca4f7763e373), (55, 0x682e6ff3d6b2b8a3),
     (56, 0x748f82ee5defb2fc), (57, 0x78a5636f43172f60), (58, 0x84c87814a1f0ab72), (59, 0x8cc702081a6439ec),
     (60, 0x90befffa23631e28), (61, 0xa4506cebde82bde9), (62, 0xbef9a3f7b2c67915), (63, 0xc67178f2e372532b),
     (64, 0xca273eceea26619c), (65, 0xd186b8c721c0c207), (66, 0xeada7dd6cde0eb1e), (67, 0xf57d4f7fee6ed178),
     (68, 0x06f067aa72176fba), (69, 0x0a637dc5a2c898a6), (70, 0x113f9804bef90dae), (71, 0x1b710b35131c471b),
     (72, 0x28db77f523047d84), (73, 0x32caab7b40c72493), (74, 0x3c9ebe0a15c9bebc), (75, 0x431d67c49c100d4c),
     (76, 0x4cc5d4becb3e42b6), (77, 0x597f299cfc657e2a), (78, 0x5fcb6fab3ad6faec), (79, 0x6c44198c4a475817)]"

definition sha256_alg :: "u32 sha2_alg" where
  "sha256_alg = \<lparr>alg_Sigma0 = Sigma0_256, alg_Sigma1 = Sigma1_256, alg_sigma0 = sigma0_256, alg_sigma1 = sigma1_256,
     alg_K = K256, alg_bytes = 4\<rparr>"

definition sha512_alg :: "u64 sha2_alg" where
  "sha512_alg = \<lparr>alg_Sigma0 = Sigma0_512, alg_Sigma1 = Sigma1_512, alg_sigma0 = sigma0_512, alg_sigma1 = sigma1_512,
     alg_K = K512, alg_bytes = 8\<rparr>"

section \<open>The context and the compression function\<close>

type_synonym 'w regs = "'w \<times> 'w \<times> 'w \<times> 'w \<times> 'w \<times> 'w \<times> 'w \<times> 'w"

record 'w sha2_ctx =
  sha_state :: "'w regs"
  sha_bitcount0 :: u64
  sha_bitcount1 :: u64
  sha_buffer :: "byte list"

definition sha256_initial_hash_value :: "u32 regs" where
  "sha256_initial_hash_value = (0x6a09e667, 0xbb67ae85, 0x3c6ef372, 0xa54ff53a, 0x510e527f, 0x9b05688c, 0x1f83d9ab, 0x5be0cd19)"

definition sha512_initial_hash_value :: "u64 regs" where
  "sha512_initial_hash_value = (0x6a09e667f3bcc908, 0xbb67ae8584caa73b, 0x3c6ef372fe94f82b, 0xa54ff53a5f1d36f1, 0x510e527fade682d1, 0x9b05688c2b3e6c1f, 0x1f83d9abfb41bd6b, 0x5be0cd19137e2179)"

text \<open>The bytes of a word, the most significant first.\<close>

definition be_word :: "byte list \<Rightarrow> 'a::len word" where
  "be_word bs = foldr (OR) (map (\<lambda>i. push_bit (8 * i) (ucast (rev bs ! i))) [0..<length bs]) 0"

fun sha2_round :: "'a::len word sha2_alg \<Rightarrow> 'a word \<Rightarrow> 'a word \<Rightarrow> 'a word regs \<Rightarrow> 'a word regs" where
  "sha2_round A k w (a, b, c, d, e, f, g, h) =
     (let T1 = h + alg_Sigma1 A e + Ch e f g + k + w;
          T2 = alg_Sigma0 A a + Maj a b c
      in (T1 + T2, a, b, c, d + T1, e, f, g))"

text \<open>The block is the buffer of the context itself or the input of the caller.\<close>

datatype sha2_data = Own_buffer | Data "byte list"

definition sha2_bytes :: "sha2_data \<Rightarrow> byte list \<Rightarrow> byte list" where
  "sha2_bytes data buf = (case data of Own_buffer \<Rightarrow> buf | Data d \<Rightarrow> d)"

definition sha2_load ::
  "'a::len word sha2_alg \<Rightarrow> sha2_data \<Rightarrow> 'a word regs \<times> byte list \<Rightarrow> nat \<Rightarrow> 'a word regs \<times> byte list" where
  "sha2_load A data s j =
     (let (regs, buf) = s; n = alg_bytes A;
          buf' = set_word n buf j (be_word (take n (drop (n * j) (sha2_bytes data buf))) :: 'a word)
      in (sha2_round A (alg_K A ! j) (get_word n buf' j) regs, buf'))"

definition sha2_expand ::
  "'a::len word sha2_alg \<Rightarrow> 'a word regs \<times> byte list \<Rightarrow> nat \<Rightarrow> 'a word regs \<times> byte list" where
  "sha2_expand A s j =
     (let (regs, buf) = s; n = alg_bytes A;
          s0 = alg_sigma0 A (get_word n buf ((j + 1) mod 16));
          s1 = alg_sigma1 A (get_word n buf ((j + 14) mod 16));
          w = get_word n buf (j mod 16) + (s1 + get_word n buf ((j + 9) mod 16) + s0)
      in (sha2_round A (alg_K A ! j) w regs, set_word n buf (j mod 16) w))"

fun add_regs :: "'a::len word regs \<Rightarrow> 'a word regs \<Rightarrow> 'a word regs" where
  "add_regs (a, b, c, d, e, f, g, h) (a', b', c', d', e', f', g', h') =
     (a + a', b + b', c + c', d + d', e + e', f + f', g + g', h + h')"

definition sha2_transform :: "'a::len word sha2_alg \<Rightarrow> 'a word sha2_ctx \<Rightarrow> sha2_data \<Rightarrow> 'a word sha2_ctx" where
  "sha2_transform A ctx data =
     (let (regs, buf) = foldl (sha2_expand A) (foldl (sha2_load A data) (sha_state ctx, sha_buffer ctx) [0..<16]) [16..<length (alg_K A)]
      in ctx\<lparr>sha_state := add_regs (sha_state ctx) regs, sha_buffer := buf\<rparr>)"

definition SHA256Transform :: "u32 sha2_ctx \<Rightarrow> sha2_data \<Rightarrow> u32 sha2_ctx" where
  "SHA256Transform = sha2_transform sha256_alg"

definition SHA512Transform :: "u64 sha2_ctx \<Rightarrow> sha2_data \<Rightarrow> u64 sha2_ctx" where
  "SHA512Transform = sha2_transform sha512_alg"

section \<open>Input\<close>

text \<open>Counting \<open>n\<close> bytes: a 64-bit counter of bits in SHA-256, \<^verbatim>\<open>ADDINC128\<close> in SHA-512.\<close>

definition addinc64 :: "nat \<Rightarrow> 'w sha2_ctx \<Rightarrow> 'w sha2_ctx" where
  "addinc64 n ctx = ctx\<lparr>sha_bitcount0 := sha_bitcount0 ctx + push_bit 3 (of_nat n)\<rparr>"

definition ADDINC128 :: "nat \<Rightarrow> 'w sha2_ctx \<Rightarrow> 'w sha2_ctx" where
  "ADDINC128 n ctx =
     (let w0 = sha_bitcount0 ctx + push_bit 3 (of_nat n)
      in ctx\<lparr>sha_bitcount0 := w0,
             sha_bitcount1 := (if w0 < push_bit 3 (of_nat n) then sha_bitcount1 ctx + 1 else sha_bitcount1 ctx)\<rparr>)"

definition sha_used :: "nat \<Rightarrow> 'w sha2_ctx \<Rightarrow> nat" where
  "sha_used B ctx = unat (drop_bit 3 (sha_bitcount0 ctx)) mod B"

definition sha_write :: "nat \<Rightarrow> byte list \<Rightarrow> 'w sha2_ctx \<Rightarrow> 'w sha2_ctx result" where
  "sha_write off bs ctx = rbind (mem_write (sha_buffer ctx) off bs) (\<lambda>b. Inr (ctx\<lparr>sha_buffer := b\<rparr>))"

text \<open>The loop over whole blocks, and what is left.\<close>

function sha2_blocks ::
  "('w sha2_ctx \<Rightarrow> sha2_data \<Rightarrow> 'w sha2_ctx) \<Rightarrow> nat \<Rightarrow> (nat \<Rightarrow> 'w sha2_ctx \<Rightarrow> 'w sha2_ctx) \<Rightarrow> 'w sha2_ctx \<Rightarrow> byte list \<Rightarrow>
   'w sha2_ctx \<times> byte list" where
  "sha2_blocks transform B addinc ctx data =
     (if 0 < B \<and> B \<le> length data
      then sha2_blocks transform B addinc (addinc B (transform ctx (Data data))) (drop B data)
      else (ctx, data))"
  by pat_completeness auto

termination by (relation "measure (\<lambda>(t, B, i, ctx, data). length data)") auto

declare sha2_blocks.simps [simp del]

definition sha2_rest ::
  "('w sha2_ctx \<Rightarrow> sha2_data \<Rightarrow> 'w sha2_ctx) \<Rightarrow> nat \<Rightarrow> (nat \<Rightarrow> 'w sha2_ctx \<Rightarrow> 'w sha2_ctx) \<Rightarrow> 'w sha2_ctx \<Rightarrow> byte list \<Rightarrow>
   'w sha2_ctx result" where
  "sha2_rest transform B addinc ctx data =
     (let (ctx1, data1) = sha2_blocks transform B addinc ctx data
      in if length data1 > 0 then rbind (sha_write 0 data1 ctx1) (\<lambda>ctx2. Inr (addinc (length data1) ctx2)) else Inr ctx1)"

definition sha2_update ::
  "('w sha2_ctx \<Rightarrow> sha2_data \<Rightarrow> 'w sha2_ctx) \<Rightarrow> nat \<Rightarrow> (nat \<Rightarrow> 'w sha2_ctx \<Rightarrow> 'w sha2_ctx) \<Rightarrow> 'w sha2_ctx \<Rightarrow> byte list \<Rightarrow>
   'w sha2_ctx result" where
  "sha2_update transform B addinc ctx data =
     (if length data = 0 then Inr ctx
      else
        let usedspace = sha_used B ctx; freespace = B - usedspace
        in if usedspace > 0
           then if length data \<ge> freespace
             then rbind (sha_write usedspace (take freespace data) ctx) (\<lambda>ctx1.
               sha2_rest transform B addinc (transform (addinc freespace ctx1) Own_buffer) (drop freespace data))
             else rbind (sha_write usedspace data ctx) (\<lambda>ctx1. Inr (addinc (length data) ctx1))
           else sha2_rest transform B addinc ctx data)"

definition SHA256_BLOCK_LENGTH :: nat where "SHA256_BLOCK_LENGTH = 64"
definition SHA256_DIGEST_LENGTH :: nat where "SHA256_DIGEST_LENGTH = 32"
definition SHA256_SHORT_BLOCK_LENGTH :: nat where "SHA256_SHORT_BLOCK_LENGTH = SHA256_BLOCK_LENGTH - 8"
definition SHA512_BLOCK_LENGTH :: nat where "SHA512_BLOCK_LENGTH = 128"
definition SHA512_DIGEST_LENGTH :: nat where "SHA512_DIGEST_LENGTH = 64"
definition SHA512_SHORT_BLOCK_LENGTH :: nat where "SHA512_SHORT_BLOCK_LENGTH = SHA512_BLOCK_LENGTH - 16"

definition SHA256Init :: "u32 sha2_ctx \<Rightarrow> u32 sha2_ctx" where
  "SHA256Init ctx = ctx\<lparr>sha_state := sha256_initial_hash_value,
     sha_buffer := replicate SHA256_BLOCK_LENGTH 0 @ drop SHA256_BLOCK_LENGTH (sha_buffer ctx), sha_bitcount0 := 0\<rparr>"

definition SHA512Init :: "u64 sha2_ctx \<Rightarrow> u64 sha2_ctx" where
  "SHA512Init ctx = ctx\<lparr>sha_state := sha512_initial_hash_value,
     sha_buffer := replicate SHA512_BLOCK_LENGTH 0 @ drop SHA512_BLOCK_LENGTH (sha_buffer ctx), sha_bitcount0 := 0, sha_bitcount1 := 0\<rparr>"

definition SHA256Update :: "u32 sha2_ctx \<Rightarrow> byte list \<Rightarrow> u32 sha2_ctx result" where
  "SHA256Update = sha2_update SHA256Transform SHA256_BLOCK_LENGTH addinc64"

definition SHA512Update :: "u64 sha2_ctx \<Rightarrow> byte list \<Rightarrow> u64 sha2_ctx result" where
  "SHA512Update = sha2_update SHA512Transform SHA512_BLOCK_LENGTH ADDINC128"

section \<open>Output\<close>

definition REVERSE32 :: "u32 \<Rightarrow> u32" where
  "REVERSE32 w =
     (let tmp = drop_bit 16 w OR push_bit 16 w
      in drop_bit 8 (tmp AND 0xff00ff00) OR push_bit 8 (tmp AND 0x00ff00ff))"

definition REVERSE64 :: "u64 \<Rightarrow> u64" where
  "REVERSE64 w =
     (let tmp = drop_bit 32 w OR push_bit 32 w;
          tmp = drop_bit 8 (tmp AND 0xff00ff00ff00ff00) OR push_bit 8 (tmp AND 0x00ff00ff00ff00ff)
      in drop_bit 16 (tmp AND 0xffff0000ffff0000) OR push_bit 16 (tmp AND 0x0000ffff0000ffff))"

text \<open>Padding and the last one or two blocks; \<open>lens\<close> are the bytes of the length, and \<open>zeroed\<close> is how far the buffer is
  cleared for a block of its own. The length is read before a transform touches anything.\<close>

definition sha2_last ::
  "('w sha2_ctx \<Rightarrow> sha2_data \<Rightarrow> 'w sha2_ctx) \<Rightarrow> nat \<Rightarrow> nat \<Rightarrow> nat \<Rightarrow> byte list \<Rightarrow> 'w sha2_ctx \<Rightarrow> 'w sha2_ctx result" where
  "sha2_last transform B short zeroed lens ctx =
     (let usedspace = sha_used B ctx
      in rbind
        (if usedspace > 0
         then rbind (sha_write usedspace [0x80] ctx) (\<lambda>ctx1.
           let usedspace = usedspace + 1
           in if usedspace \<le> short
              then sha_write usedspace (replicate (short - usedspace) 0) ctx1
              else rbind (if usedspace < B then sha_write usedspace (replicate (B - usedspace) 0) ctx1 else Inr ctx1)
                (\<lambda>ctx2. sha_write 0 (replicate zeroed 0) (transform ctx2 Own_buffer)))
         else rbind (sha_write 0 (replicate short 0) ctx) (sha_write 0 [0x80]))
        (\<lambda>ctx3. rbind (sha_write short lens ctx3) (\<lambda>ctx4. Inr (transform ctx4 Own_buffer))))"

definition SHA512Last :: "u64 sha2_ctx \<Rightarrow> u64 sha2_ctx result" where
  "SHA512Last ctx = sha2_last SHA512Transform SHA512_BLOCK_LENGTH SHA512_SHORT_BLOCK_LENGTH (SHA512_BLOCK_LENGTH - 2)
     (store_le 8 (uint (REVERSE64 (sha_bitcount1 ctx))) @ store_le 8 (uint (REVERSE64 (sha_bitcount0 ctx)))) ctx"

fun regs_list :: "'w regs \<Rightarrow> 'w list" where
  "regs_list (a, b, c, d, e, f, g, h) = [a, b, c, d, e, f, g, h]"

text \<open>The digest; the context is cleared and not used again.\<close>

definition SHA256Final :: "u32 sha2_ctx \<Rightarrow> byte list result" where
  "SHA256Final ctx = rbind
     (sha2_last SHA256Transform SHA256_BLOCK_LENGTH SHA256_SHORT_BLOCK_LENGTH SHA256_SHORT_BLOCK_LENGTH
       (store_le 8 (uint (REVERSE64 (sha_bitcount0 ctx)))) ctx)
     (\<lambda>ctx. Inr (concat (map (\<lambda>w. store_le 4 (uint (REVERSE32 w))) (regs_list (sha_state ctx)))))"

definition SHA512Final :: "u64 sha2_ctx \<Rightarrow> byte list result" where
  "SHA512Final ctx = rbind (SHA512Last ctx)
     (\<lambda>ctx. Inr (concat (map (\<lambda>w. store_le 8 (uint (REVERSE64 w))) (regs_list (sha_state ctx)))))"

section \<open>The Lua functions\<close>

definition lsha256 :: "u32 sha2_ctx \<Rightarrow> byte list \<Rightarrow> byte list result" where
  "lsha256 raw str = rbind (SHA256Update (SHA256Init raw) str) SHA256Final"

definition lsha512 :: "u64 sha2_ctx \<Rightarrow> byte list \<Rightarrow> byte list result" where
  "lsha512 raw str = rbind (SHA512Update (SHA512Init raw) str) SHA512Final"

text \<open>The keyed digests, over one set of functions each. The block length with which the key is compared and padded is
  the same in both.\<close>

definition sha2_hmac ::
  "('c \<Rightarrow> 'c) \<Rightarrow> ('c \<Rightarrow> byte list \<Rightarrow> 'c result) \<Rightarrow> ('c \<Rightarrow> byte list result) \<Rightarrow> nat \<Rightarrow> 'c \<Rightarrow> 'c \<Rightarrow> 'c \<Rightarrow> byte list \<Rightarrow> byte list \<Rightarrow>
   byte list result" where
  "sha2_hmac init update final BLOCKSIZE raw raw1 raw2 key msg =
     rbind
       (if length key > BLOCKSIZE
        then rbind (update (init raw) key) (\<lambda>ctx. rbind (final ctx) (mem_write (replicate BLOCKSIZE 0) 0))
        else mem_write (replicate BLOCKSIZE 0) 0 key)
       (\<lambda>rkey.
         let rkey1 = xor_key BLOCKSIZE rkey 0x5c5c5c5c
         in rbind (update (init raw1) rkey1) (\<lambda>ctx1.
            let rkey2 = xor_key BLOCKSIZE rkey1 (0x5c5c5c5c XOR 0x36363636)
            in rbind (update (init raw2) rkey2) (\<lambda>ctx2.
               rbind (update ctx2 msg) (\<lambda>ctx2.
               rbind (final ctx2) (\<lambda>digest2.
               rbind (update ctx1 digest2) (\<lambda>ctx1. final ctx1))))))"

definition lhmac_sha256 :: "u32 sha2_ctx \<Rightarrow> u32 sha2_ctx \<Rightarrow> u32 sha2_ctx \<Rightarrow> byte list \<Rightarrow> byte list \<Rightarrow> byte list result" where
  "lhmac_sha256 = sha2_hmac SHA256Init SHA256Update SHA256Final 64"

definition lhmac_sha512 :: "u64 sha2_ctx \<Rightarrow> u64 sha2_ctx \<Rightarrow> u64 sha2_ctx \<Rightarrow> byte list \<Rightarrow> byte list \<Rightarrow> byte list result" where
  "lhmac_sha512 = sha2_hmac SHA512Init SHA512Update SHA512Final 128"

section \<open>FIPS 180-4\<close>

text \<open>The functions with rotations, the message schedule as a list that grows, and the compression of a block.\<close>

definition fips256 :: "u32 sha2_alg" where
  "fips256 = \<lparr>alg_Sigma0 = (\<lambda>x. word_rotr 2 x XOR word_rotr 13 x XOR word_rotr 22 x),
     alg_Sigma1 = (\<lambda>x. word_rotr 6 x XOR word_rotr 11 x XOR word_rotr 25 x),
     alg_sigma0 = (\<lambda>x. word_rotr 7 x XOR word_rotr 18 x XOR drop_bit 3 x),
     alg_sigma1 = (\<lambda>x. word_rotr 17 x XOR word_rotr 19 x XOR drop_bit 10 x), alg_K = K256, alg_bytes = 4\<rparr>"

definition fips512 :: "u64 sha2_alg" where
  "fips512 = \<lparr>alg_Sigma0 = (\<lambda>x. word_rotr 28 x XOR word_rotr 34 x XOR word_rotr 39 x),
     alg_Sigma1 = (\<lambda>x. word_rotr 14 x XOR word_rotr 18 x XOR word_rotr 41 x),
     alg_sigma0 = (\<lambda>x. word_rotr 1 x XOR word_rotr 8 x XOR drop_bit 7 x),
     alg_sigma1 = (\<lambda>x. word_rotr 19 x XOR word_rotr 61 x XOR drop_bit 6 x), alg_K = K512, alg_bytes = 8\<rparr>"

definition fips_words :: "'a::len word sha2_alg \<Rightarrow> byte list \<Rightarrow> 'a word list" where
  "fips_words A block = map (\<lambda>t. word_of_int (load_le (rev (take (alg_bytes A) (drop (alg_bytes A * t) block))))) [0..<16]"

definition fips_schedule :: "'a::len word sha2_alg \<Rightarrow> byte list \<Rightarrow> nat \<Rightarrow> 'a word list" where
  "fips_schedule A block n =
     foldl (\<lambda>W t. W @ [alg_sigma1 A (W ! (t - 2)) + W ! (t - 7) + alg_sigma0 A (W ! (t - 15)) + W ! (t - 16)]) (fips_words A block) [16..<n]"

definition fips_compress :: "'a::len word sha2_alg \<Rightarrow> 'a word regs \<Rightarrow> byte list \<Rightarrow> 'a word regs" where
  "fips_compress A H block =
     (let W = fips_schedule A block (length (alg_K A))
      in add_regs H (foldl (\<lambda>r t. sha2_round A (alg_K A ! t) (W ! t) r) H [0..<length (alg_K A)]))"

definition fips_output :: "nat \<Rightarrow> 'a::len word regs \<Rightarrow> byte list" where
  "fips_output n H = concat (map (\<lambda>w. rev (store_le n (uint w))) (regs_list H))"

definition sha256 :: "byte list \<Rightarrow> byte list" where
  "sha256 = md_hash 64 8 (\<lambda>n. rev (store_le 8 (8 * int n))) (fips_compress fips256) sha256_initial_hash_value (fips_output 4)"

definition sha512 :: "byte list \<Rightarrow> byte list" where
  "sha512 = md_hash 128 16 (\<lambda>n. rev (store_le 16 (8 * int n))) (fips_compress fips512) sha512_initial_hash_value (fips_output 8)"

section \<open>The functions of the algorithms\<close>

lemma S_rotr: "0 < b \<Longrightarrow> b < 32 \<Longrightarrow> S32 b x = word_rotr b x" "0 < b \<Longrightarrow> b < 64 \<Longrightarrow> S64 b y = word_rotr b y"
  unfolding S32_def S64_def using shifts_rotr [where 'a = 32, of b x] shifts_rotr [where 'a = 64, of b y] by simp_all

lemma sha256_alg_fips: "sha256_alg = fips256"
  by (simp add: sha256_alg_def fips256_def fun_eq_iff Sigma0_256_def Sigma1_256_def sigma0_256_def sigma1_256_def S_rotr)

lemma sha512_alg_fips: "sha512_alg = fips512"
  by (simp add: sha512_alg_def fips512_def fun_eq_iff Sigma0_512_def Sigma1_512_def sigma0_512_def sigma1_512_def S_rotr)

lemma or_load_le:
  "foldr (OR) (map (\<lambda>i. push_bit (8 * i) (ucast (bs ! i))) [0..<length bs]) 0 = (word_of_int (load_le bs) :: 'a::len word)"
proof (induction bs)
  case (Cons b bs)
  have low: "word_of_int (uint b) = (ucast b :: 'a word)" by (rule ucast_eq [symmetric])
  have u: "[0..<length (b # bs)] = 0 # map Suc [0..<length bs]" unfolding length_Cons upt_conv_Cons [OF zero_less_Suc] map_Suc_upt ..
  have p: "push_bit 8 (foldr (OR) (map f js) 0) = foldr (OR) (map (\<lambda>i. push_bit 8 (f i)) js) (0 :: 'a word)" for f and js :: "nat list"
    by (induction js) (simp_all add: push_bit_or)
  have "foldr (OR) (map (\<lambda>i. push_bit (8 * i) (ucast ((b # bs) ! i))) [0..<length (b # bs)]) (0 :: 'a word) =
      ucast b OR foldr (OR) (map (\<lambda>i. push_bit 8 (push_bit (8 * i) (ucast (bs ! i)))) [0..<length bs]) 0"
    unfolding u by (simp add: comp_def push_bit_push_bit add.commute)
  also have "\<dots> = ucast b OR push_bit 8 (word_of_int (load_le bs))" unfolding Cons [symmetric] p ..
  also have "\<dots> = ucast b + push_bit 8 (word_of_int (load_le bs))"
    by (rule disjunctive_add_eq_or [symmetric]) (rule bit_word_eqI, auto simp: bit_simps dest: bit_imp_le_length)
  also have "\<dots> = word_of_int (load_le (b # bs))"
    unfolding low [symmetric] push_bit_eq_mult by (simp add: load_le_def algebra_simps)
  finally show ?case .
qed (simp add: load_le_def)

lemma be_word_load: "be_word bs = word_of_int (load_le (rev bs))"
  using or_load_le [of "rev bs"] by (simp add: be_word_def)

section \<open>The message schedule\<close>

lemma length_fips_schedule: "length (fips_schedule A block n) = max 16 n"
proof (induction n)
  case (Suc n)
  then show ?case by (cases "16 \<le> n") (simp_all add: fips_schedule_def fips_words_def)
qed (simp add: fips_schedule_def fips_words_def)

lemma fips_schedule_Suc:
  "16 \<le> n \<Longrightarrow> fips_schedule A block (Suc n) = (let W = fips_schedule A block n in
     W @ [alg_sigma1 A (W ! (n - 2)) + W ! (n - 7) + alg_sigma0 A (W ! (n - 15)) + W ! (n - 16)])"
  by (simp add: fips_schedule_def Let_def)

lemma fips_schedule_first: "t < 16 \<Longrightarrow> fips_schedule A block n ! t =
    word_of_int (load_le (rev (take (alg_bytes A) (drop (alg_bytes A * t) block))))"
proof (induction n)
  case (Suc n)
  then show ?case
    by (cases "16 \<le> n") (simp_all add: fips_schedule_Suc Let_def nth_append length_fips_schedule, simp_all add: fips_schedule_def fips_words_def)
qed (simp add: fips_schedule_def fips_words_def)

lemma fips_schedule_step:
  "16 \<le> t \<Longrightarrow> t < n \<Longrightarrow> fips_schedule A block n ! t = (let W = fips_schedule A block n in
     alg_sigma1 A (W ! (t - 2)) + W ! (t - 7) + alg_sigma0 A (W ! (t - 15)) + W ! (t - 16))"
proof (induction n)
  case (Suc n)
  then have n: "16 \<le> n" by simp
  show ?case
  proof (cases "t = n")
    case True
    then show ?thesis using n by (simp add: fips_schedule_Suc Let_def nth_append length_fips_schedule)
  next
    case False
    then have "t < n" "t - 2 < n" "t - 7 < n" "t - 15 < n" "t - 16 < n" using Suc.prems by linarith+
    then show ?thesis using Suc n by (simp add: fips_schedule_Suc Let_def nth_append length_fips_schedule)
  qed
qed simp

lemma fips_schedule_block:
  "16 * alg_bytes A \<le> length D \<Longrightarrow> fips_schedule A (take (16 * alg_bytes A) D) n = fips_schedule A D n"
proof -
  assume "16 * alg_bytes A \<le> length D"
  have eq: "take (alg_bytes A) (drop (alg_bytes A * t) (take (16 * alg_bytes A) D)) = take (alg_bytes A) (drop (alg_bytes A * t) D)"
    if "t < 16" for t
  proof -
    have "alg_bytes A * t + alg_bytes A \<le> 16 * alg_bytes A"
      using in_array [OF that, of "alg_bytes A" "16 * alg_bytes A"] by simp
    then have "alg_bytes A \<le> 16 * alg_bytes A - alg_bytes A * t" by linarith
    then show ?thesis by (simp add: drop_take min_def)
  qed
  have "fips_words A (take (16 * alg_bytes A) D) = fips_words A D"
    unfolding fips_words_def by (rule map_cong [OF refl]) (simp only: set_upt atLeastLessThan_iff eq)
  then show ?thesis unfolding fips_schedule_def by (rule arg_cong)
qed

section \<open>The compression function\<close>

text \<open>The context's buffer holds the last sixteen words of the schedule, the word \<open>t\<close> at index \<open>t mod 16\<close>.\<close>

definition rounds :: "'a::len word sha2_alg \<Rightarrow> (nat \<Rightarrow> 'a word) \<Rightarrow> 'a word regs \<Rightarrow> nat \<Rightarrow> 'a word regs" where
  "rounds A W H n = foldl (\<lambda>r t. sha2_round A (alg_K A ! t) (W t) r) H [0..<n]"

lemma rounds_Suc: "rounds A W H (Suc n) = sha2_round A (alg_K A ! n) (W n) (rounds A W H n)"
  by (simp add: rounds_def)

lemma load_phase:
  fixes A :: "'a::len word sha2_alg"
  assumes l: "LENGTH('a) = 8 * alg_bytes A" "16 * alg_bytes A \<le> length buf0"
    and W: "\<And>t. t < 16 \<Longrightarrow> W t = word_of_int (load_le (rev (take (alg_bytes A) (drop (alg_bytes A * t) (sha2_bytes data buf0)))))"
  shows "j \<le> 16 \<Longrightarrow> \<exists>buf. foldl (sha2_load A data) (H, buf0) [0..<j] = (rounds A W H j, buf) \<and> length buf = length buf0 \<and>
    (\<forall>i<j. get_word (alg_bytes A) buf i = W i) \<and>
    (\<forall>i\<ge>j. take (alg_bytes A) (drop (alg_bytes A * i) buf) = take (alg_bytes A) (drop (alg_bytes A * i) buf0))"
proof (induction j)
  case 0
  show ?case by (simp add: rounds_def)
next
  case (Suc j)
  let ?n = "alg_bytes A"
  obtain buf where b: "foldl (sha2_load A data) (H, buf0) [0..<j] = (rounds A W H j, buf)" "length buf = length buf0"
    "\<And>i. i < j \<Longrightarrow> get_word ?n buf i = W i" "\<And>i. j \<le> i \<Longrightarrow> take ?n (drop (?n * i) buf) = take ?n (drop (?n * i) buf0)"
    using Suc by auto
  have "take ?n (drop (?n * j) (sha2_bytes data buf)) = take ?n (drop (?n * j) (sha2_bytes data buf0))"
    using b(4) [of j] by (cases data) (simp_all add: sha2_bytes_def)
  then have w: "be_word (take ?n (drop (?n * j) (sha2_bytes data buf))) = W j"
    using W [of j] Suc.prems by (simp add: be_word_load)
  have fit: "?n * j + ?n \<le> length buf" using in_array [of j 16 ?n "length buf"] l(2) b(2) Suc.prems by (simp add: mult.commute)
  define buf' where "buf' = set_word ?n buf j (W j)"
  have "foldl (sha2_load A data) (H, buf0) [0..<Suc j] = (rounds A W H (Suc j), buf')"
    using w get_set_word [OF fit l(1), of "W j"] by (simp add: b(1) sha2_load_def Let_def buf'_def rounds_Suc)
  moreover have "length buf' = length buf0" using fit b(2) by (simp add: buf'_def length_set_word)
  moreover have "get_word ?n buf' i = W i" if "i < Suc j" for i
    using that b(3) get_set_word [OF fit l(1), of "W j"] get_set_word_other [where 'b = 'a, of j i ?n buf "W j", OF _ fit]
    by (cases "i = j") (simp_all add: buf'_def less_Suc_eq)
  moreover have "take ?n (drop (?n * i) buf') = take ?n (drop (?n * i) buf0)" if "Suc j \<le> i" for i
    using that b(4) [of i] bytes_set_word_other [of j i ?n buf "W j", OF _ fit] by (simp add: buf'_def)
  ultimately show ?case by blast
qed

lemma ring_index:
  assumes "16 \<le> (t :: nat)"
  shows "(t + 1) mod 16 = (t - 15) mod 16" "(t + 14) mod 16 = (t - 2) mod 16" "(t + 9) mod 16 = (t - 7) mod 16" "t mod 16 = (t - 16) mod 16"
proof -
  obtain d where "t = d + 16" using assms by (metis le_add_diff_inverse2)
  then show "(t + 1) mod 16 = (t - 15) mod 16" "(t + 14) mod 16 = (t - 2) mod 16" "(t + 9) mod 16 = (t - 7) mod 16" "t mod 16 = (t - 16) mod 16"
    using mod_add_self2 [of "d + 1" 16] mod_add_self2 [of "d + 14" 16] mod_add_self2 [of "d + 9" 16] mod_add_self2 [of d 16]
    by (simp_all add: ac_simps)
qed

lemma ring_other:
  assumes "t - 16 < i" "i < (t :: nat)" "16 \<le> t"
  shows "t mod 16 \<noteq> i mod 16"
proof
  assume "t mod 16 = i mod 16"
  then have "16 dvd t - i" using assms(2) by (metis less_imp_le mod_eq_dvd_iff_nat)
  then have "16 \<le> t - i" using assms(2) by (intro dvd_imp_le) simp_all
  then show False using assms by linarith
qed

lemma expand_phase:
  fixes A :: "'a::len word sha2_alg"
  assumes l: "LENGTH('a) = 8 * alg_bytes A" "16 * alg_bytes A \<le> length buf0"
    and W: "\<And>t. 16 \<le> t \<Longrightarrow> t < R \<Longrightarrow> W t = alg_sigma1 A (W (t - 2)) + W (t - 7) + alg_sigma0 A (W (t - 15)) + W (t - 16)"
    and start: "\<And>i. i < 16 \<Longrightarrow> get_word (alg_bytes A) buf0 i = W i"
  shows "t + 16 \<le> R \<Longrightarrow> \<exists>buf. foldl (sha2_expand A) (rounds A W H 16, buf0) [16..<16 + t] = (rounds A W H (16 + t), buf) \<and>
    length buf = length buf0 \<and> (\<forall>i. t \<le> i \<longrightarrow> i < 16 + t \<longrightarrow> get_word (alg_bytes A) buf (i mod 16) = W i)"
proof (induction t)
  case 0
  show ?case using start by simp
next
  case (Suc t)
  let ?n = "alg_bytes A" and ?t = "16 + t"
  obtain buf where b: "foldl (sha2_expand A) (rounds A W H 16, buf0) [16..<?t] = (rounds A W H ?t, buf)" "length buf = length buf0"
    "\<And>i. t \<le> i \<Longrightarrow> i < ?t \<Longrightarrow> get_word ?n buf (i mod 16) = W i"
    using Suc by auto
  have fit: "?n * (?t mod 16) + ?n \<le> length buf"
    using in_array [of "?t mod 16" 16 ?n "length buf"] l(2) b(2) by (simp add: mult.commute)
  define w where "w = get_word ?n buf (?t mod 16) +
    (alg_sigma1 A (get_word ?n buf ((?t + 14) mod 16)) + get_word ?n buf ((?t + 9) mod 16) + alg_sigma0 A (get_word ?n buf ((?t + 1) mod 16)))"
  define buf' where "buf' = set_word ?n buf (?t mod 16) w"
  have w: "w = W ?t"
    unfolding w_def ring_index(1-3) [OF le_add1] ring_index(4) [OF le_add1, of t]
    using b(3) [of "?t - 15"] b(3) [of "?t - 2"] b(3) [of "?t - 7"] b(3) [of "?t - 16"] W [of ?t] Suc.prems
    by (simp add: ac_simps)
  have "foldl (sha2_expand A) (rounds A W H 16, buf0) [16..<16 + Suc t] = sha2_expand A (rounds A W H ?t, buf) ?t"
    by (simp only: add_Suc_right upt_Suc_append [OF le_add1] foldl_append b(1) foldl.simps)
  also have "\<dots> = (rounds A W H (16 + Suc t), buf')"
    unfolding sha2_expand_def Let_def prod.case w_def [symmetric] buf'_def add_Suc_right rounds_Suc w ..
  finally have "foldl (sha2_expand A) (rounds A W H 16, buf0) [16..<16 + Suc t] = (rounds A W H (16 + Suc t), buf')" .
  moreover have "length buf' = length buf0" using fit b(2) by (simp add: buf'_def length_set_word)
  moreover have "get_word ?n buf' (i mod 16) = W i" if "Suc t \<le> i" "i < 16 + Suc t" for i
  proof (cases "i = ?t")
    case True
    then show ?thesis using get_set_word [OF fit l(1), of w] w by (simp add: buf'_def)
  next
    case False
    then have "?t mod 16 \<noteq> i mod 16" using that by (intro ring_other) simp_all
    then show ?thesis using get_set_word_other [where 'b = 'a, of "?t mod 16" "i mod 16" ?n buf w, OF _ fit] b(3) [of i] that False by (simp add: buf'_def)
  qed
  ultimately show ?case by blast
qed

lemma transform_fips:
  fixes A :: "'a::len word sha2_alg"
  assumes l: "LENGTH('a) = 8 * alg_bytes A" "16 * alg_bytes A \<le> length (sha_buffer ctx)" "16 \<le> length (alg_K A)"
    and D: "16 * alg_bytes A \<le> length (sha2_bytes data (sha_buffer ctx))"
  shows "\<exists>buf. sha2_transform A ctx data =
      ctx\<lparr>sha_state := fips_compress A (sha_state ctx) (take (16 * alg_bytes A) (sha2_bytes data (sha_buffer ctx))), sha_buffer := buf\<rparr> \<and>
    length buf = length (sha_buffer ctx)"
proof -
  let ?R = "length (alg_K A)" and ?H = "sha_state ctx" and ?D = "sha2_bytes data (sha_buffer ctx)"
  define W where "W = (\<lambda>t. fips_schedule A ?D ?R ! t)"
  have W: "W t = word_of_int (load_le (rev (take (alg_bytes A) (drop (alg_bytes A * t) ?D))))" if "t < 16" for t
    using fips_schedule_first [OF that] by (simp add: W_def)
  have W': "W t = alg_sigma1 A (W (t - 2)) + W (t - 7) + alg_sigma0 A (W (t - 15)) + W (t - 16)" if "16 \<le> t" "t < ?R" for t
    using fips_schedule_step [OF that, of A ?D] by (simp add: W_def Let_def)
  obtain buf1 where 1: "foldl (sha2_load A data) (?H, sha_buffer ctx) [0..<16] = (rounds A W ?H 16, buf1)"
      "length buf1 = length (sha_buffer ctx)" "\<And>i. i < 16 \<Longrightarrow> get_word (alg_bytes A) buf1 i = W i"
    using load_phase [OF l(1,2) W, of 16 ?H, OF _ order_refl] by blast
  have l2: "16 * alg_bytes A \<le> length buf1" and R: "16 + (?R - 16) = ?R" "?R - 16 + 16 \<le> ?R"
    using 1(2) l(2,3) by simp_all
  obtain buf where 2: "foldl (sha2_expand A) (rounds A W ?H 16, buf1) [16..<?R] = (rounds A W ?H ?R, buf)" "length buf = length buf1"
    using expand_phase [OF l(1) l2 W' 1(3) R(2), of ?H, unfolded R(1)] by blast
  have "fips_compress A ?H (take (16 * alg_bytes A) ?D) = add_regs ?H (rounds A W ?H ?R)"
    unfolding fips_compress_def Let_def fips_schedule_block [OF D] rounds_def W_def ..
  then show ?thesis using 1(1,2) 2 by (intro exI [of _ buf]) (simp add: sha2_transform_def)
qed

section \<open>Byte order\<close>

lemma bit_beyond: "LENGTH('a) \<le> n \<Longrightarrow> bit (w :: 'a::len word) n \<longleftrightarrow> False"
  by (auto dest: bit_imp_le_length)

lemma bytes_by_bits:
  assumes "\<And>i. i \<in> {0, 1, 2, 3, 4, 5, 6, 7} \<Longrightarrow> bit v (i + j) = bit w (i + k)"
  shows "(ucast (drop_bit j v) :: byte) = ucast (drop_bit k w)"
proof (rule bit_word_eqI)
  fix i assume i: "i < LENGTH(8)"
  then have "i \<in> {0, 1, 2, 3, 4, 5, 6, 7}" by auto
  then show "bit (ucast (drop_bit j v) :: byte) i = bit (ucast (drop_bit k w) :: byte) i"
    using assms [of i] i by (simp add: bit_simps add.commute)
qed

lemma REVERSE32_bits:
  assumes "i \<in> {0, 1, 2, 3, 4, 5, 6, 7}"
  shows "bit (REVERSE32 w) (i + 0) = bit w (i + 24)" "bit (REVERSE32 w) (i + 8) = bit w (i + 16)"
    "bit (REVERSE32 w) (i + 16) = bit w (i + 8)" "bit (REVERSE32 w) (i + 24) = bit w (i + 0)"
  using assms unfolding insert_iff empty_iff by (elim disjE; simp add: REVERSE32_def bit_simps bit_beyond)+

lemma REVERSE64_bits:
  assumes "i \<in> {0, 1, 2, 3, 4, 5, 6, 7}"
  shows "bit (REVERSE64 w) (i + 0) = bit w (i + 56)" "bit (REVERSE64 w) (i + 8) = bit w (i + 48)"
    "bit (REVERSE64 w) (i + 16) = bit w (i + 40)" "bit (REVERSE64 w) (i + 24) = bit w (i + 32)"
    "bit (REVERSE64 w) (i + 32) = bit w (i + 24)" "bit (REVERSE64 w) (i + 40) = bit w (i + 16)"
    "bit (REVERSE64 w) (i + 48) = bit w (i + 8)" "bit (REVERSE64 w) (i + 56) = bit w (i + 0)"
  using assms unfolding insert_iff empty_iff by (elim disjE; simp add: REVERSE64_def bit_simps bit_beyond)+

lemma REVERSE32_bytes: "store_le 4 (uint (REVERSE32 w)) = rev (store_le 4 (uint w))"
  using REVERSE32_bits [of _ w, THEN bytes_by_bits] by (simp add: store_le_word upt_rec)

lemma REVERSE64_bytes: "store_le 8 (uint (REVERSE64 w)) = rev (store_le 8 (uint w))"
  using REVERSE64_bits [of _ w, THEN bytes_by_bits] by (simp add: store_le_word upt_rec)

lemma store_le_add: "store_le (m + n) x = store_le m x @ store_le n (x div 256 ^ m)"
proof -
  have "store_le n (x div 256 ^ m) = map (\<lambda>i. word_of_int (x div 256 ^ i)) [m..<m + n]"
    unfolding store_le_def by (rule nth_equalityI) (simp_all add: power_add zdiv_zmult2_eq)
  then show ?thesis unfolding store_le_def upt_add_eq_append [OF le0] by simp
qed

end
