(* ===== verification/Sha2Correct.thy ===== *)
theory Sha2Correct
  imports Sha2
begin

text \<open>
  The SHA-2 digests of the code compute FIPS 180-4 and their keyed forms HMAC: what the two algorithms share is proved in
  the locale \<open>sha2_code\<close>, over the laws of the compression and of the counter, and the keyed digests in the locale
  \<open>hmac_code\<close>, over the laws of a digest that is fed in pieces. Both are interpreted for SHA-256 and for SHA-512.
  The round constants, the initial values and the round functions are those of the code also in the standard's definition;
  the digest of a known message, evaluated, checks the ones of SHA-256.
\<close>

unbundle bit_operations_syntax

section \<open>Input in pieces\<close>

text \<open>What the two algorithms share: \<open>counts ctx n\<close> says that the bit counter of the context stands at \<open>n\<close> bytes.\<close>

locale sha2_code =
  fixes transform :: "'w sha2_ctx \<Rightarrow> sha2_data \<Rightarrow> 'w sha2_ctx"
    and B :: nat
    and addinc :: "nat \<Rightarrow> 'w sha2_ctx \<Rightarrow> 'w sha2_ctx"
    and comp :: "'w regs \<Rightarrow> byte list \<Rightarrow> 'w regs"
    and start :: "'w regs"
    and counts :: "'w sha2_ctx \<Rightarrow> nat \<Rightarrow> bool"
  assumes block_size: "1 < B" "B \<le> 128"
    and transform: "length (sha_buffer ctx) = 128 \<Longrightarrow> B \<le> length (sha2_bytes data (sha_buffer ctx)) \<Longrightarrow>
      \<exists>buf. transform ctx data = ctx\<lparr>sha_state := comp (sha_state ctx) (take B (sha2_bytes data (sha_buffer ctx))), sha_buffer := buf\<rparr> \<and>
        length buf = 128"
    and addinc_frame: "sha_state (addinc k ctx) = sha_state ctx" "sha_buffer (addinc k ctx) = sha_buffer ctx"
    and counts_addinc: "counts ctx n \<Longrightarrow> k \<le> B \<Longrightarrow> counts (addinc k ctx) (n + k)"
    and counts_frame: "counts (ctx\<lparr>sha_buffer := b\<rparr>) n = counts ctx n" "counts (ctx\<lparr>sha_state := s\<rparr>) n = counts ctx n"
    and counts_used: "counts ctx n \<Longrightarrow> sha_used B ctx = n mod B"
begin

definition holds :: "'w sha2_ctx \<Rightarrow> byte list \<Rightarrow> bool" where
  "holds ctx m \<longleftrightarrow> counts ctx (length m) \<and> length (sha_buffer ctx) = 128 \<and> sha_state ctx = foldl comp start (blocks B m) \<and>
     take (length m mod B) (sha_buffer ctx) = rest B m"

lemma holdsD:
  assumes "holds ctx m"
  shows "counts ctx (length m)" "length (sha_buffer ctx) = 128" "sha_state ctx = foldl comp start (blocks B m)"
    "take (length (rest B m)) (sha_buffer ctx) = rest B m" "length (rest B m) < B" "sha_used B ctx = length (rest B m)"
  using assms length_rest [of B m] block_size counts_used [of ctx "length m"] by (simp_all add: holds_def)

lemma write_behind:
  assumes "length (sha_buffer ctx) = 128" "take (length p) (sha_buffer ctx) = p" "length p + length bs \<le> 128"
  shows "\<exists>b. sha_write (length p) bs ctx = Inr (ctx\<lparr>sha_buffer := b\<rparr>) \<and> length b = 128 \<and> take (length p + length bs) b = p @ bs"
  using assms by (intro exI [of _ "p @ bs @ drop (length p + length bs) (sha_buffer ctx)"]) (simp add: sha_write_def mem_write_fits)

text \<open>Bytes that do not fill the block.\<close>

lemma store_holds:
  assumes h: "holds ctx m" and l: "length (rest B m) + length p < B"
  shows "\<exists>ctx'. sha_write (length (rest B m)) p ctx = Inr ctx' \<and> holds (addinc (length p) ctx') (m @ p)"
proof -
  note d = holdsD [OF h]
  obtain b where b: "sha_write (length (rest B m)) p ctx = Inr (ctx\<lparr>sha_buffer := b\<rparr>)" "length b = 128"
      "take (length (rest B m) + length p) b = rest B m @ p"
    using write_behind [OF d(2,4)] l block_size by (meson less_imp_le less_le_trans)
  have s: "blocks B (m @ p) = blocks B m" "rest B (m @ p) = rest B m @ p"
    using blocks_append [of B m p] l block_size by simp_all
  have "length (m @ p) mod B = length (rest B m) + length p"
    using length_rest [of B "m @ p"] s(2) block_size by simp
  moreover have "counts (addinc (length p) (ctx\<lparr>sha_buffer := b\<rparr>)) (length (m @ p))"
    using counts_addinc [of "ctx\<lparr>sha_buffer := b\<rparr>" "length m" "length p"] d(1) l by (simp add: counts_frame)
  ultimately have "holds (addinc (length p) (ctx\<lparr>sha_buffer := b\<rparr>)) (m @ p)"
    using d(3) b(2,3) s by (simp add: holds_def addinc_frame)
  then show ?thesis using b(1) by blast
qed

lemma blocks_holds:
  "holds ctx m \<Longrightarrow> rest B m = [] \<Longrightarrow>
   \<exists>ctx'. sha2_blocks transform B addinc ctx data = (ctx', rest B data) \<and> holds ctx' (m @ concat (blocks B data)) \<and> rest B (m @ concat (blocks B data)) = []"
proof (induction "length data" arbitrary: ctx m data rule: less_induct)
  case less
  note d = holdsD [OF less.prems(1)]
  show ?case
  proof (cases "B \<le> length data")
    case False
    then show ?thesis using less.prems by (simp add: sha2_blocks.simps [of _ _ _ ctx])
  next
    case True
    have b: "blocks B (m @ take B data) = blocks B m @ [take B data]" "rest B (m @ take B data) = []"
      using blocks_append [of B m "take B data"] blocks_first [of B "take B data" "[]"] True less.prems(2) block_size by simp_all
    obtain buf where t: "transform ctx (Data data) = ctx\<lparr>sha_state := comp (sha_state ctx) (take B data), sha_buffer := buf\<rparr>" "length buf = 128"
      using transform [OF d(2), of "Data data"] True by (auto simp: sha2_bytes_def)
    have "holds (addinc B (transform ctx (Data data))) (m @ take B data)"
      using counts_addinc [of "transform ctx (Data data)" "length m" B] d(1,3) t b True length_rest [of B "m @ take B data"] block_size
      by (simp add: holds_def addinc_frame counts_frame)
    then show ?thesis
      using less.hyps [of "drop B data" "addinc B (transform ctx (Data data))" "m @ take B data"] b(2) True block_size
      by (simp add: sha2_blocks.simps [of _ _ _ ctx] blocks_step)
  qed
qed

lemma rest_holds:
  assumes "holds ctx m" "rest B m = []"
  shows "\<exists>ctx'. sha2_rest transform B addinc ctx data = Inr ctx' \<and> holds ctx' (m @ data)"
proof -
  let ?m = "m @ concat (blocks B data)"
  obtain ctx1 where 1: "sha2_blocks transform B addinc ctx data = (ctx1, rest B data)" "holds ctx1 ?m" "rest B ?m = []"
    using blocks_holds [OF assms] by blast
  have m: "m @ data = ?m @ rest B data" by (simp add: concat_blocks)
  have l: "length (rest B data) < B" using length_rest [of B data] block_size by simp
  obtain ctx2 where "sha_write 0 (rest B data) ctx1 = Inr ctx2" "holds (addinc (length (rest B data)) ctx2) (?m @ rest B data)"
    using store_holds [OF 1(2), of "rest B data"] 1(3) l by auto
  then show ?thesis unfolding sha2_rest_def Let_def 1(1) prod.case m using 1(2) by (cases "rest B data = []") auto
qed

theorem feed_holds:
  assumes h: "holds ctx m"
  shows "\<exists>ctx'. sha2_update transform B addinc ctx xs = Inr ctx' \<and> holds ctx' (m @ xs)"
proof -
  let ?r = "rest B m"
  note d = holdsD [OF h]
  consider "xs = []" | "xs \<noteq> []" "?r = []" | "xs \<noteq> []" "?r \<noteq> []" "length ?r + length xs < B" | "xs \<noteq> []" "?r \<noteq> []" "B \<le> length ?r + length xs"
    by linarith
  then show ?thesis
  proof cases
    case 2
    then show ?thesis using rest_holds [OF h] d(6) by (simp add: sha2_update_def)
  next
    case 3
    then show ?thesis using store_holds [OF h 3(3)] d(5,6) by (auto simp: sha2_update_def Let_def)
  next
    case 4
    let ?f = "B - length ?r"
    have f: "length (take ?f xs) = ?f" "length ?r + ?f = B" "?f \<le> B" using 4(3) d(5) by auto
    obtain b where b: "sha_write (length ?r) (take ?f xs) ctx = Inr (ctx\<lparr>sha_buffer := b\<rparr>)" "length b = 128" "take B b = ?r @ take ?f xs"
      using write_behind [OF d(2,4), of "take ?f xs"] f block_size by auto
    define ctx1 where "ctx1 = addinc ?f (ctx\<lparr>sha_buffer := b\<rparr>)"
    have c1: "counts ctx1 (length (m @ take ?f xs))" "length (sha_buffer ctx1) = 128" "sha_buffer ctx1 = b" "sha_state ctx1 = foldl comp start (blocks B m)"
      using counts_addinc [of "ctx\<lparr>sha_buffer := b\<rparr>" "length m" ?f] d(1,3) b(2) f by (simp_all add: ctx1_def addinc_frame counts_frame)
    have bl: "blocks B (m @ take ?f xs) = blocks B m @ [?r @ take ?f xs]" "rest B (m @ take ?f xs) = []"
      using blocks_append [of B m "take ?f xs"] blocks_first [of B "?r @ take ?f xs" "[]"] f block_size by simp_all
    obtain buf where t: "transform ctx1 Own_buffer = ctx1\<lparr>sha_state := comp (sha_state ctx1) (?r @ take ?f xs), sha_buffer := buf\<rparr>" "length buf = 128"
      using transform [OF c1(2), of Own_buffer] c1(2,3) b(3) block_size by (auto simp: sha2_bytes_def)
    have "holds (transform ctx1 Own_buffer) (m @ take ?f xs)"
      using c1(1,4) t bl length_rest [of B "m @ take ?f xs"] block_size by (simp add: holds_def counts_frame)
    moreover have "?f \<le> length xs" using 4(3) d(5) by linarith
    ultimately show ?thesis
      using rest_holds [OF _ bl(2), of "transform ctx1 Own_buffer" "drop ?f xs"] 4 d(5,6) b(1) by (simp add: sha2_update_def Let_def ctx1_def)
  qed (use h in \<open>simp add: sha2_update_def\<close>)
qed

section \<open>The last blocks\<close>

lemma transform_buffer:
  assumes "length (sha_buffer ctx) = 128" "take B (sha_buffer ctx) = p"
  obtains buf where "transform ctx Own_buffer = ctx\<lparr>sha_state := comp (sha_state ctx) p, sha_buffer := buf\<rparr>" "length buf = 128"
proof -
  have "B \<le> length (sha2_bytes Own_buffer (sha_buffer ctx))" "take B (sha2_bytes Own_buffer (sha_buffer ctx)) = p"
    using assms block_size by (simp_all add: sha2_bytes_def)
  moreover from transform [OF assms(1) this(1)] obtain buf where
    "transform ctx Own_buffer = ctx\<lparr>sha_state := comp (sha_state ctx) (take B (sha2_bytes Own_buffer (sha_buffer ctx))), sha_buffer := buf\<rparr>"
    "length buf = 128" by (elim exE conjE)
  ultimately show thesis using that [of buf] by simp
qed

lemma last_block:
  assumes "length (sha_buffer ctx) = 128" "take (length p) (sha_buffer ctx) = p" "length p + length lens = B"
  shows "\<exists>ctx'. rbind (sha_write (length p) lens ctx) (\<lambda>ctx4. Inr (transform ctx4 Own_buffer)) = Inr ctx' \<and>
    sha_state ctx' = comp (sha_state ctx) (p @ lens)"
proof -
  obtain b where b: "sha_write (length p) lens ctx = Inr (ctx\<lparr>sha_buffer := b\<rparr>)" "length b = 128" "take B b = p @ lens"
    using write_behind [OF assms(1,2), of lens] assms(3) block_size by auto
  obtain b' where "transform (ctx\<lparr>sha_buffer := b\<rparr>) Own_buffer =
      ctx\<lparr>sha_buffer := b, sha_state := comp (sha_state (ctx\<lparr>sha_buffer := b\<rparr>)) (p @ lens), sha_buffer := b'\<rparr>" "length b' = 128"
    by (rule transform_buffer [of "ctx\<lparr>sha_buffer := b\<rparr>" "p @ lens"]) (simp_all add: b)
  then show ?thesis using b(1) by simp
qed

lemma write_two:
  assumes "length (sha_buffer ctx) = 128" "take (length p) (sha_buffer ctx) = p" "length p + length xs + length ys \<le> 128"
  shows "\<exists>b. rbind (sha_write (length p) xs ctx) (sha_write (length p + length xs) ys) = Inr (ctx\<lparr>sha_buffer := b\<rparr>) \<and>
    length b = 128 \<and> take (length p + length xs + length ys) b = p @ xs @ ys"
proof -
  obtain b where b: "sha_write (length p) xs ctx = Inr (ctx\<lparr>sha_buffer := b\<rparr>)" "length b = 128" "take (length p + length xs) b = p @ xs"
    using write_behind [OF assms(1,2), of xs] assms(3) by auto
  then show ?thesis using write_behind [of "ctx\<lparr>sha_buffer := b\<rparr>" "p @ xs" ys] assms(3) by auto
qed

text \<open>The byte \<open>0x80\<close> and zeroes behind the rest of the message, up to the length or up to the end of the block.\<close>

lemma fill_short:
  assumes "holds ctx m" "length (rest B m) + 1 \<le> short" "short \<le> B"
  defines "u \<equiv> length (rest B m)"
  shows "\<exists>b. (if 0 < u then rbind (sha_write u [0x80] ctx) (\<lambda>ctx1. sha_write (u + 1) (replicate (short - (u + 1)) 0) ctx1)
      else rbind (sha_write 0 (replicate short 0) ctx) (sha_write 0 [0x80])) = Inr (ctx\<lparr>sha_buffer := b\<rparr>) \<and>
    length b = 128 \<and> take short b = rest B m @ 0x80 # replicate (short - (u + 1)) 0"
proof (cases "0 < u")
  case True
  then show ?thesis
    using write_two [OF holdsD(2,4) [OF assms(1)], of "[0x80]" "replicate (short - (u + 1)) 0"] assms(2,3) block_size by (auto simp: u_def)
next
  case False
  have short: "0 < short" "short \<le> 128" using assms(2,3) block_size by simp_all
  obtain b where b: "sha_write 0 (replicate short 0) ctx = Inr (ctx\<lparr>sha_buffer := b\<rparr>)" "length b = 128" "take short b = replicate short 0"
    using write_behind [OF holdsD(2) [OF assms(1)], of "[]" "replicate short 0"] short by auto
  have "take short (0x80 # drop 1 b) = 0x80 # replicate (short - 1) 0"
    using short(1) arg_cong [OF b(3), of "drop 1"] by (cases short) (simp_all add: drop_take)
  then show ?thesis using b False
    by (intro exI [of _ "0x80 # drop 1 b"]) (simp add: u_def, simp add: sha_write_def mem_write_def)
qed

lemma fill_block_end:
  assumes "holds ctx m"
  defines "u \<equiv> length (rest B m)"
  shows "\<exists>b1 b. sha_write u [0x80] ctx = Inr (ctx\<lparr>sha_buffer := b1\<rparr>) \<and>
    (if u + 1 < B then sha_write (u + 1) (replicate (B - (u + 1)) 0) (ctx\<lparr>sha_buffer := b1\<rparr>) else Inr (ctx\<lparr>sha_buffer := b1\<rparr>)) =
      Inr (ctx\<lparr>sha_buffer := b\<rparr>) \<and> length b = 128 \<and> take B b = rest B m @ 0x80 # replicate (B - (u + 1)) 0"
proof -
  note d = holdsD [OF assms(1), folded u_def]
  obtain b1 where b1: "sha_write u [0x80] ctx = Inr (ctx\<lparr>sha_buffer := b1\<rparr>)" "length b1 = 128" "take (u + 1) b1 = rest B m @ [0x80]"
    using write_behind [OF holdsD(2,4) [OF assms(1)], of "[0x80]"] d(5) block_size by (auto simp: u_def)
  show ?thesis
  proof (cases "u + 1 < B")
    case True
    have "length (rest B m @ [0x80]) = u + 1" "u + 1 + length (replicate (B - (u + 1)) 0) = B" using True by (simp_all add: u_def)
    then obtain b where "sha_write (u + 1) (replicate (B - (u + 1)) 0) (ctx\<lparr>sha_buffer := b1\<rparr>) = Inr (ctx\<lparr>sha_buffer := b\<rparr>)"
        "length b = 128" "take B b = rest B m @ 0x80 # replicate (B - (u + 1)) 0"
      using write_behind [of "ctx\<lparr>sha_buffer := b1\<rparr>" "rest B m @ [0x80]" "replicate (B - (u + 1)) 0"] b1 block_size by auto
    then show ?thesis using True b1(1) by - (rule exI [of _ b1], rule exI [of _ b], simp)
  next
    case False
    then have "B = u + 1" using d(5) by linarith
    then show ?thesis using b1 by (intro exI [of _ b1]) simp
  qed
qed

theorem last_holds:
  assumes h: "holds ctx m" and L: "0 < length lens" "length lens < B" "short = B - length lens" "short \<le> zeroed" "zeroed \<le> B"
  shows "\<exists>ctx'. sha2_last transform B short zeroed lens ctx = Inr ctx' \<and>
    sha_state ctx' = foldl comp start (blocks B (m @ 0x80 # replicate (pad_zeroes B (length lens) (length m)) 0 @ lens))"
proof -
  let ?r = "rest B m" and ?u = "length (rest B m)" and ?z = "pad_zeroes B (length lens) (length m)"
  note d = holdsD [OF h]
  have u: "?u = length m mod B" using length_rest [of B m] block_size by simp
  have app: "blocks B (m @ xs) = blocks B m @ blocks B (?r @ xs)" for xs using blocks_append [of B m] block_size by simp
  have short: "0 < short" "short + length lens = B" using L by simp_all
  show ?thesis
  proof (cases "?u + 1 \<le> short")
    case True
    then have z: "?z = short - (?u + 1)" using pad_zeroes_cases [of "length m" B "length lens"] u short block_size by simp
    let ?p = "?r @ 0x80 # replicate (short - (?u + 1)) 0"
    have p: "length ?p = short" using True by simp
    obtain b where b: "(if 0 < ?u then rbind (sha_write ?u [0x80] ctx) (\<lambda>ctx1. sha_write (?u + 1) (replicate (short - (?u + 1)) 0) ctx1)
        else rbind (sha_write 0 (replicate short 0) ctx) (sha_write 0 [0x80])) = Inr (ctx\<lparr>sha_buffer := b\<rparr>)" "length b = 128" "take short b = ?p"
      using fill_short [OF h True] short(2) by auto
    have "sha2_last transform B short zeroed lens ctx =
        rbind (sha_write short lens (ctx\<lparr>sha_buffer := b\<rparr>)) (\<lambda>ctx4. Inr (transform ctx4 Own_buffer))"
      using True b(1) d(6) by (simp add: sha2_last_def Let_def split: if_splits)
    moreover have "blocks B (?r @ 0x80 # replicate ?z 0 @ lens) = [?p @ lens]"
      using blocks_first [of B "?p @ lens" "[]"] p short(2) block_size by (simp add: z)
    ultimately show ?thesis
      using last_block [of "ctx\<lparr>sha_buffer := b\<rparr>" ?p lens] b(2,3) p short(2) d(3) app by auto
  next
    case False
    then have uz: "0 < ?u" "B < length m mod B + 1 + length lens" using short u by linarith+
    then have z: "?z = (B - (?u + 1)) + short"
      using pad_zeroes_wrap [OF _ L(2), of "length m"] u short(2) d(5) by linarith
    let ?p = "?r @ 0x80 # replicate (B - (?u + 1)) 0"
    have p: "length ?p = B" using d(5) by simp
    obtain b1 b where b: "sha_write ?u [0x80] ctx = Inr (ctx\<lparr>sha_buffer := b1\<rparr>)"
        "(if ?u + 1 < B then sha_write (?u + 1) (replicate (B - (?u + 1)) 0) (ctx\<lparr>sha_buffer := b1\<rparr>) else Inr (ctx\<lparr>sha_buffer := b1\<rparr>)) =
        Inr (ctx\<lparr>sha_buffer := b\<rparr>)" "length b = 128" "take B b = ?p"
      using fill_block_end [OF h] by blast
    define ctx2 where "ctx2 = transform (ctx\<lparr>sha_buffer := b\<rparr>) Own_buffer"
    obtain b' where "ctx2 = ctx\<lparr>sha_buffer := b, sha_state := comp (sha_state (ctx\<lparr>sha_buffer := b\<rparr>)) ?p, sha_buffer := b'\<rparr>" "length b' = 128"
      unfolding ctx2_def by (rule transform_buffer [of "ctx\<lparr>sha_buffer := b\<rparr>" ?p]) (simp_all add: b)
    then have l2: "length (sha_buffer ctx2) = 128" "sha_state ctx2 = comp (sha_state ctx) ?p" by simp_all
    obtain b2 where b2: "sha_write 0 (replicate zeroed 0) ctx2 = Inr (ctx2\<lparr>sha_buffer := b2\<rparr>)" "length b2 = 128" "take zeroed b2 = replicate zeroed 0"
      using write_behind [OF l2(1), of "[]" "replicate zeroed 0"] L(5) block_size by auto
    have s: "take short b2 = replicate short 0"
      using arg_cong [OF b2(3), of "take short"] L(4) by (simp add: min_absorb1 min_absorb2)
    have "sha2_last transform B short zeroed lens ctx =
        rbind (sha_write short lens (ctx2\<lparr>sha_buffer := b2\<rparr>)) (\<lambda>ctx4. Inr (transform ctx4 Own_buffer))"
      using False uz(1) b(1,2) b2(1) d(6) by (cases "?u + 1 < B") (simp_all add: sha2_last_def Let_def ctx2_def)
    moreover have "?r @ 0x80 # replicate ?z 0 @ lens = ?p @ replicate short 0 @ lens" by (simp add: z replicate_add)
    moreover have "blocks B (?p @ replicate short 0 @ lens) = [?p, replicate short 0 @ lens]"
      using blocks_first [of B ?p "replicate short 0 @ lens"] blocks_first [of B "replicate short 0 @ lens" "[]"] p short(2) block_size by simp
    ultimately show ?thesis
      using last_block [of "ctx2\<lparr>sha_buffer := b2\<rparr>" "replicate short 0" lens] b2(2) s short(2) l2(2) d(3) app by auto
  qed
qed

end

section \<open>The counters\<close>

lemma uint_bits_of_bytes: "uint (push_bit 3 (of_nat n :: u64)) = 8 * int n mod 2 ^ 64"
  unfolding push_bit_of_nat unsigned_of_nat by (simp add: take_bit_eq_mod push_bit_eq_mult mult.commute of_nat_mod)

definition counts256 :: "'w sha2_ctx \<Rightarrow> nat \<Rightarrow> bool" where
  "counts256 ctx n \<longleftrightarrow> sha_bitcount0 ctx = push_bit 3 (of_nat n)"

definition counts512 :: "'w sha2_ctx \<Rightarrow> nat \<Rightarrow> bool" where
  "counts512 ctx n \<longleftrightarrow> sha_bitcount0 ctx = push_bit 3 (of_nat n) \<and> sha_bitcount1 ctx = word_of_int (8 * int n div 2 ^ 64)"

lemma counts256_addinc: "counts256 ctx n \<Longrightarrow> counts256 (addinc64 k ctx) (n + k)"
  by (simp add: counts256_def addinc64_def push_bit_add)

lemma carry_out:
  assumes "0 \<le> d" "d < (M :: int)"
  shows "(a + d) mod M < d \<longleftrightarrow> M \<le> a mod M + d" "(a + d) div M = a div M + (if M \<le> a mod M + d then 1 else 0)"
proof -
  have m: "0 \<le> a mod M" "a mod M < M" using assms by simp_all
  have e: "a + d = a div M * M + (a mod M + d)" by simp
  have "(a + d) mod M = (a mod M + d) mod M" by (simp add: mod_add_left_eq)
  also have "\<dots> = (if M \<le> a mod M + d then a mod M + d - M else a mod M + d)"
  proof (cases "M \<le> a mod M + d")
    case True
    then have "(a mod M + d) mod M = (a mod M + d - M) mod M" by simp
    also have "\<dots> = a mod M + d - M" using m True assms by (intro mod_pos_pos_trivial) linarith+
    finally show ?thesis using True by simp
  qed (use m assms in simp)
  finally have *: "(a + d) mod M = (if M \<le> a mod M + d then a mod M + d - M else a mod M + d)" .
  show "(a + d) mod M < d \<longleftrightarrow> M \<le> a mod M + d" unfolding * using m by auto
  have "(a + d) div M = a div M + (a mod M + d) div M"
    by (subst e, subst div_mult_self3) (use assms in simp_all)
  moreover have "(a mod M + d) div M = (if M \<le> a mod M + d then 1 else 0)"
  proof (cases "M \<le> a mod M + d")
    case True
    then have "(a mod M + d) div M = 1" using m assms by (intro int_div_pos_eq [where r = "a mod M + d - M"]) linarith+
    then show ?thesis using True by simp
  qed (use m assms in \<open>simp add: div_pos_pos_trivial\<close>)
  ultimately show "(a + d) div M = a div M + (if M \<le> a mod M + d then 1 else 0)" by simp
qed

lemma counts512_addinc:
  assumes "counts512 ctx n" "k \<le> 128"
  shows "counts512 (ADDINC128 k ctx) (n + k)"
proof -
  let ?d = "8 * int k" and ?a = "8 * int n" and ?M = "2 ^ 64 :: int"
  have d: "0 \<le> ?d" "?d < ?M" using assms(2) by simp_all
  define X Y :: u64 where "X = push_bit 3 (of_nat (n + k))" and "Y = push_bit 3 (of_nat k)"
  have w: "push_bit 3 (of_nat n) + Y = X" by (simp add: X_def Y_def push_bit_add)
  have "X < Y \<longleftrightarrow> (?a + ?d) mod ?M < ?d"
    unfolding word_less_def X_def Y_def uint_bits_of_bytes using d by (simp add: distrib_left)
  also have "\<dots> \<longleftrightarrow> ?M \<le> ?a mod ?M + ?d" by (rule carry_out [OF d])
  finally have c: "X < Y \<longleftrightarrow> ?M \<le> ?a mod ?M + ?d" .
  have e: "8 * int (n + k) div ?M = ?a div ?M + (if ?M \<le> ?a mod ?M + ?d then 1 else 0)"
    using carry_out(2) [OF d, of ?a] by (simp add: distrib_left)
  show ?thesis using assms(1)
    unfolding counts512_def ADDINC128_def Let_def e X_def [symmetric] Y_def [symmetric] by (simp add: w c)
qed

lemma counts_used: "sha_bitcount0 ctx = push_bit 3 (of_nat n) \<Longrightarrow> sha_used 64 ctx = n mod 64"
  "sha_bitcount0 ctx = push_bit 3 (of_nat n) \<Longrightarrow> sha_used 128 ctx = n mod 128"
  by (simp_all only: sha_used_def unat_bits_of_bytes byte_mod)

section \<open>The two algorithms\<close>

lemma length_K: "length K256 = 64" "length K512 = 80"
  by (simp_all add: K256_def K512_def)

interpretation sha256: sha2_code SHA256Transform SHA256_BLOCK_LENGTH addinc64 "fips_compress fips256" sha256_initial_hash_value counts256
proof
  fix ctx :: "u32 sha2_ctx" and data
  assume "length (sha_buffer ctx) = 128" "SHA256_BLOCK_LENGTH \<le> length (sha2_bytes data (sha_buffer ctx))"
  then show "\<exists>buf. SHA256Transform ctx data =
      ctx\<lparr>sha_state := fips_compress fips256 (sha_state ctx) (take SHA256_BLOCK_LENGTH (sha2_bytes data (sha_buffer ctx))), sha_buffer := buf\<rparr> \<and>
      length buf = 128"
    using transform_fips [of fips256 ctx data]
    by (simp add: SHA256Transform_def sha256_alg_fips SHA256_BLOCK_LENGTH_def fips256_def length_K)
qed (simp_all add: SHA256_BLOCK_LENGTH_def counts256_addinc, simp_all add: addinc64_def counts256_def counts_used)

interpretation sha512: sha2_code SHA512Transform SHA512_BLOCK_LENGTH ADDINC128 "fips_compress fips512" sha512_initial_hash_value counts512
proof
  fix ctx :: "u64 sha2_ctx" and data
  assume "length (sha_buffer ctx) = 128" "SHA512_BLOCK_LENGTH \<le> length (sha2_bytes data (sha_buffer ctx))"
  then show "\<exists>buf. SHA512Transform ctx data =
      ctx\<lparr>sha_state := fips_compress fips512 (sha_state ctx) (take SHA512_BLOCK_LENGTH (sha2_bytes data (sha_buffer ctx))), sha_buffer := buf\<rparr> \<and>
      length buf = 128"
    using transform_fips [of fips512 ctx data]
    by (simp add: SHA512Transform_def sha512_alg_fips SHA512_BLOCK_LENGTH_def fips512_def length_K)
qed (simp_all add: SHA512_BLOCK_LENGTH_def counts512_addinc, simp_all add: ADDINC128_def counts512_def counts_used Let_def)

section \<open>The digests\<close>

lemma final256:
  assumes h: "sha256.holds ctx m"
  shows "SHA256Final ctx = Inr (sha256 m)"
proof -
  let ?lens = "store_le 8 (uint (REVERSE64 (sha_bitcount0 ctx)))"
  have "sha_bitcount0 ctx = push_bit 3 (of_nat (length m))" using sha256.holdsD(1) [OF h] by (simp add: counts256_def)
  then have "uint (sha_bitcount0 ctx) = 8 * int (length m) mod 256 ^ 8" using uint_bits_of_bytes [of "length m"] by simp
  then have l: "?lens = rev (store_le 8 (8 * int (length m)))" by (simp only: REVERSE64_bytes store_le_mod)
  obtain ctx' where c: "sha2_last SHA256Transform SHA256_BLOCK_LENGTH SHA256_SHORT_BLOCK_LENGTH SHA256_SHORT_BLOCK_LENGTH ?lens ctx = Inr ctx'"
    "sha_state ctx' = foldl (fips_compress fips256) sha256_initial_hash_value (blocks SHA256_BLOCK_LENGTH (m @ 0x80 #
       replicate (pad_zeroes SHA256_BLOCK_LENGTH (length ?lens) (length m)) 0 @ ?lens))"
    using sha256.last_holds [OF h, of ?lens SHA256_SHORT_BLOCK_LENGTH SHA256_SHORT_BLOCK_LENGTH]
    by (auto simp: SHA256_BLOCK_LENGTH_def SHA256_SHORT_BLOCK_LENGTH_def)
  then show ?thesis
    unfolding SHA256Final_def c(1)
    by (simp add: l sha256_def md_hash_def md_pad_def fips_output_def REVERSE32_bytes SHA256_BLOCK_LENGTH_def)
qed

lemma final512:
  assumes h: "sha512.holds ctx m"
  shows "SHA512Final ctx = Inr (sha512 m)"
proof -
  let ?lens = "store_le 8 (uint (REVERSE64 (sha_bitcount1 ctx))) @ store_le 8 (uint (REVERSE64 (sha_bitcount0 ctx)))" and ?n = "8 * int (length m)"
  have "sha_bitcount0 ctx = push_bit 3 (of_nat (length m))" "sha_bitcount1 ctx = word_of_int (?n div 2 ^ 64)"
    using sha512.holdsD(1) [OF h] by (simp_all add: counts512_def)
  then have "uint (sha_bitcount0 ctx) = ?n mod 256 ^ 8" "uint (sha_bitcount1 ctx) = ?n div 256 ^ 8 mod 256 ^ 8"
    using uint_bits_of_bytes [of "length m"] by (simp_all add: uint_word_of_int)
  then have "?lens = rev (store_le (8 + 8) ?n)"
    by (simp only: REVERSE64_bytes store_le_mod store_le_add rev_append)
  then have l: "?lens = rev (store_le 16 ?n)" by simp
  have len: "length ?lens = 16" by simp
  obtain ctx' where c: "sha2_last SHA512Transform SHA512_BLOCK_LENGTH SHA512_SHORT_BLOCK_LENGTH (SHA512_BLOCK_LENGTH - 2) ?lens ctx = Inr ctx'"
    "sha_state ctx' = foldl (fips_compress fips512) sha512_initial_hash_value (blocks SHA512_BLOCK_LENGTH (m @ 0x80 #
       replicate (pad_zeroes SHA512_BLOCK_LENGTH (length ?lens) (length m)) 0 @ ?lens))"
    using sha512.last_holds [OF h, of ?lens SHA512_SHORT_BLOCK_LENGTH "SHA512_BLOCK_LENGTH - 2"]
    by (auto simp: SHA512_BLOCK_LENGTH_def SHA512_SHORT_BLOCK_LENGTH_def)
  then have "sha_state ctx' = foldl (fips_compress fips512) sha512_initial_hash_value
      (blocks 128 (md_pad 128 16 (\<lambda>n. rev (store_le 16 (8 * int n))) m))"
    unfolding len by (simp add: l md_pad_def SHA512_BLOCK_LENGTH_def)
  then show ?thesis
    unfolding SHA512Final_def SHA512Last_def c(1) by (simp add: sha512_def md_hash_def fips_output_def REVERSE64_bytes)
qed

interpretation sha256_in: hash_sink sha256.holds "\<lambda>_. True" SHA256Update SHA256Final "\<lambda>m. Inr (sha256 m)"
  unfolding SHA256Update_def by unfold_locales (use sha256.feed_holds final256 in auto)

interpretation sha512_in: hash_sink sha512.holds "\<lambda>_. True" SHA512Update SHA512Final "\<lambda>m. Inr (sha512 m)"
  unfolding SHA512Update_def by unfold_locales (use sha512.feed_holds final512 in auto)

lemma init256: "length (sha_buffer raw) = 128 \<Longrightarrow> sha256.holds (SHA256Init raw) []"
  unfolding sha256.holds_def by (simp add: SHA256Init_def counts256_def SHA256_BLOCK_LENGTH_def)

lemma init512: "length (sha_buffer raw) = 128 \<Longrightarrow> sha512.holds (SHA512Init raw) []"
  unfolding sha512.holds_def by (simp add: SHA512Init_def counts512_def SHA512_BLOCK_LENGTH_def)

text \<open>An example of the standard.\<close>

lemma sha256_abc: "sha256 [97, 98, 99] =
    [0xba, 0x78, 0x16, 0xbf, 0x8f, 0x01, 0xcf, 0xea, 0x41, 0x41, 0x40, 0xde, 0x5d, 0xae, 0x22, 0x23,
     0xb0, 0x03, 0x61, 0xa3, 0x96, 0x17, 0x7a, 0x9c, 0xb4, 0x10, 0xff, 0x61, 0xf2, 0x00, 0x15, 0xad]"
  by code_simp

text \<open>[C11] The SHA-256 and SHA-512 of the code are those of FIPS 180-4: whatever pieces a message is fed in, and whatever
  a fresh context contains, the final digest is that of the whole message.\<close>

theorem sha2_correct:
  assumes "length (sha_buffer raw) = 128" "length (sha_buffer raw') = 128"
  shows "rbind (sha256_in.put_all (SHA256Init raw) yss) SHA256Final = Inr (sha256 (concat yss)) \<and> lsha256 raw d = Inr (sha256 d) \<and>
    rbind (sha512_in.put_all (SHA512Init raw') yss) SHA512Final = Inr (sha512 (concat yss)) \<and> lsha512 raw' d = Inr (sha512 d)"
proof -
  note i = init256 [OF assms(1)] init512 [OF assms(2)]
  show ?thesis
    using sha256_in.digest_put_all [OF i(1), of yss] sha512_in.digest_put_all [OF i(2), of yss]
      sha256_in.digest_put_all [OF i(1), of "[d]"] sha512_in.digest_put_all [OF i(2), of "[d]"]
    by (auto simp: lsha256_def lsha512_def rbind_def split: sum.splits)
qed

abbreviation raw_sha :: "'w \<Rightarrow> 'w sha2_ctx" where
  "raw_sha w \<equiv> \<lparr>sha_state = (w, w, w, w, w, w, w, w), sha_bitcount0 = 7, sha_bitcount1 = 8, sha_buffer = replicate 128 9\<rparr>"

theorem sha2_correct_witness:
  "lsha256 (raw_sha 1) [97, 98, 99] = Inr (sha256 [97, 98, 99]) \<and>
   rbind (sha512_in.put_all (SHA512Init (raw_sha 1)) [[1], [], replicate 130 2]) SHA512Final = Inr (sha512 (1 # replicate 130 2))"
  using sha2_correct [of "raw_sha 1" "raw_sha 1" "[[1], [], replicate 130 2]" "[97, 98, 99]"] by simp

section \<open>The keyed digests\<close>

text \<open>What the functions ask of the digest they are written over.\<close>

locale hmac_code = hash_sink holds "\<lambda>_. True" update final "\<lambda>m. Inr (hash m)"
  for holds :: "'c \<Rightarrow> byte list \<Rightarrow> bool" and update :: "'c \<Rightarrow> byte list \<Rightarrow> 'c result" and final :: "'c \<Rightarrow> byte list result" and hash +
  fixes init :: "'c \<Rightarrow> 'c"
    and fresh :: "'c \<Rightarrow> bool"
    and words :: nat
  assumes init_holds: "fresh raw \<Longrightarrow> holds (init raw) []"
    and hash_fits: "length (hash m) \<le> 4 * words"
begin

lemma put_ok: "holds s xs \<Longrightarrow> \<exists>s'. update s ys = Inr s' \<and> holds s' (xs @ ys)"
  using put_holds by blast

lemma final_ok: "holds s xs \<Longrightarrow> final s = Inr (hash xs)"
  using digest_holds by blast

theorem hmac_ok:
  assumes fresh: "fresh raw" "fresh raw1" "fresh raw2"
  shows "sha2_hmac init update final (4 * words) raw raw1 raw2 key msg = Inr (hmac (4 * words) hash key msg)"
proof -
  let ?k = "hmac_key (4 * words) hash key"
  let ?o = "map (\<lambda>b. b XOR 0x5c) ?k" and ?i = "map (\<lambda>b. b XOR 0x36) ?k"
  obtain c where c: "update (init raw) key = Inr c" "holds c key" using put_ok [OF init_holds [OF fresh(1)], of key] by auto
  have key: "(if length key > 4 * words
      then rbind (update (init raw) key) (\<lambda>ctx. rbind (final ctx) (mem_write (replicate (4 * words) 0) 0))
      else mem_write (replicate (4 * words) 0) 0 key) = Inr ?k"
    using c(1) final_ok [OF c(2)] hash_fits [of key] by (simp add: mem_write_def hmac_key_def Let_def)
  have pads: "xor_key (4 * words) ?k 0x5c5c5c5c = ?o" "xor_key (4 * words) ?o (0x5c5c5c5c XOR 0x36363636) = ?i"
    using key_pads [OF hmac_key_length [of hash key "4 * words", OF hash_fits]] by simp_all
  obtain c1 where c1: "update (init raw1) ?o = Inr c1" "holds c1 ?o" using put_ok [OF init_holds [OF fresh(2)], of ?o] by auto
  obtain c2 where c2: "update (init raw2) ?i = Inr c2" "holds c2 ?i" using put_ok [OF init_holds [OF fresh(3)], of ?i] by auto
  obtain c3 where c3: "update c2 msg = Inr c3" "holds c3 (?i @ msg)" using put_ok [OF c2(2)] by blast
  obtain c4 where c4: "update c1 (hash (?i @ msg)) = Inr c4" "holds c4 (?o @ hash (?i @ msg))" using put_ok [OF c1(2)] by blast
  show ?thesis unfolding sha2_hmac_def key rbind_simps Let_def pads
    using c1(1) c2(1) c3(1) c4(1) final_ok [OF c3(2)] final_ok [OF c4(2)] by (simp add: hmac_def Let_def)
qed

end

lemma length_fips_output: "length (fips_output n H) = 8 * n"
  by (cases H rule: regs_list.cases) (simp add: fips_output_def)

interpretation hmac256: hmac_code sha256.holds SHA256Update SHA256Final sha256 SHA256Init "\<lambda>raw. length (sha_buffer raw) = 128" 16
  by unfold_locales (simp_all add: init256 sha256_def md_hash_def length_fips_output)

interpretation hmac512: hmac_code sha512.holds SHA512Update SHA512Final sha512 SHA512Init "\<lambda>raw. length (sha_buffer raw) = 128" 32
  by unfold_locales (simp_all add: init512 sha512_def md_hash_def length_fips_output)

text \<open>[C30] \<^verbatim>\<open>hmac_sha256\<close> and \<^verbatim>\<open>hmac_sha512\<close> compute HMAC for keys of every length, each with the block length of its digest.\<close>

theorem hmac_sha2_correct:
  assumes "length (sha_buffer a) = 128" "length (sha_buffer a1) = 128" "length (sha_buffer a2) = 128"
    "length (sha_buffer b) = 128" "length (sha_buffer b1) = 128" "length (sha_buffer b2) = 128"
  shows "lhmac_sha256 a a1 a2 key msg = Inr (hmac 64 sha256 key msg) \<and> lhmac_sha512 b b1 b2 key msg = Inr (hmac 128 sha512 key msg)"
  using hmac256.hmac_ok [OF assms(1-3), of key msg] hmac512.hmac_ok [OF assms(4-6), of key msg]
  by (simp add: lhmac_sha256_def lhmac_sha512_def)

theorem hmac_sha2_correct_witness:
  "lhmac_sha256 (raw_sha 1) (raw_sha 2) (raw_sha 3) (replicate 70 1) [4] = Inr (hmac 64 sha256 (replicate 70 1) [4]) \<and>
   lhmac_sha512 (raw_sha 1) (raw_sha 2) (raw_sha 3) (replicate 70 1) [4] = Inr (hmac 128 sha512 (replicate 70 1) [4])"
  using hmac_sha2_correct [of "raw_sha 1" "raw_sha 2" "raw_sha 3" "raw_sha 1" "raw_sha 2" "raw_sha 3" "replicate 70 1" "[4]"] by simp

end
