(* ===== verification/Fixmath.thy ===== *)
theory Fixmath
  imports Prelude "HOL-Library.Signed_Division"
begin

text \<open>
  The fixed-point library \<^verbatim>\<open>src/lualib-src/luafixmath\<close> and its Lua binding: arithmetic and conversions
  (\<^verbatim>\<open>fixmath_impl.h\<close>, \<^verbatim>\<open>fixmath_impl.c\<close>), the functions of \<^verbatim>\<open>fixmath.c\<close> with their tables
  (\<^verbatim>\<open>FX_NO_EXP_LOG_TABLES\<close> is not defined), and \<^verbatim>\<open>luabinding.c\<close>. A number is an integer in the range of
  \<^verbatim>\<open>int32_t\<close>, an unsigned word an integer below \<open>2 ^ 32\<close>; as the documentation of the library demands, the number of
  fraction bits handed to arithmetic and conversions is below 32. A function of \<^verbatim>\<open>fixmath.c\<close> returns whether it sets \<^verbatim>\<open>errno\<close> and
  its value. A shift by a negative amount or by the width of the word and more, and a division by zero, are undefined (the
  division ends the process). Floating point is a parameter: the conversions from and to \<^verbatim>\<open>double\<close> are arguments.
\<close>

unbundle bit_operations_syntax

section \<open>Machine integers\<close>

definition wrap32 :: "int \<Rightarrow> int" where "wrap32 x = x mod 2 ^ 32"

definition s64 :: "int \<Rightarrow> int" where "s64 x = (x + 2 ^ 63) mod 2 ^ 64 - 2 ^ 63"

text \<open>A shift of a 32-bit word to the right, by an amount that may be out of range.\<close>

definition shift_right :: "int \<Rightarrow> int \<Rightarrow> int result" where
  "shift_right v k = (if 0 \<le> k \<and> k < 32 then Inr (v div 2 ^ nat k) else Inl Undefined)"

text \<open>The number of binary digits, and \<^verbatim>\<open>__builtin_clz\<close> for a number that is not zero.\<close>

function width :: "int \<Rightarrow> nat" where
  "width n = (if n \<le> 0 then 0 else Suc (width (n div 2)))"
  by pat_completeness auto

termination by (relation "measure nat") auto

declare width.simps [simp del]

definition fx_clz :: "int \<Rightarrow> int" where "fx_clz w = 32 - int (width w)"

section \<open>Arithmetic and conversions\<close>

definition fx_itox :: "int \<Rightarrow> nat \<Rightarrow> int" where
  "fx_itox ival frac = s32 (ival * 2 ^ frac)"

definition fx_roundx :: "int \<Rightarrow> nat \<Rightarrow> int" where
  "fx_roundx xval frac = (if frac \<noteq> 0 then s32 (xval div 2 ^ (frac - 1) + 1) div 2 else xval)"

definition fx_xtox :: "int \<Rightarrow> nat \<Rightarrow> nat \<Rightarrow> int" where
  "fx_xtox xval f1 f2 = (if f2 \<ge> f1 then s32 (xval * 2 ^ (f2 - f1)) else fx_roundx xval (f1 - f2))"

definition fx_ceilx :: "int \<Rightarrow> nat \<Rightarrow> int" where
  "fx_ceilx xval frac = s32 ((xval + (2 ^ frac - 1)) div 2 ^ frac)"

definition fx_floorx :: "int \<Rightarrow> nat \<Rightarrow> int" where
  "fx_floorx xval frac = xval div 2 ^ frac"

definition fx_xtoi :: "int \<Rightarrow> nat \<Rightarrow> int" where
  "fx_xtoi xval frac = fx_floorx xval frac"

definition fx_addx :: "int \<Rightarrow> int \<Rightarrow> int" where "fx_addx x1 x2 = s32 (x1 + x2)"
definition fx_subx :: "int \<Rightarrow> int \<Rightarrow> int" where "fx_subx x1 x2 = s32 (x1 - x2)"

definition fx_mulx :: "int \<Rightarrow> int \<Rightarrow> nat \<Rightarrow> int" where
  "fx_mulx x1 x2 frac = (if frac \<noteq> 0 then s32 ((x1 * x2 div 2 ^ (frac - 1) + 1) div 2) else s32 (x1 * x2))"

definition fx_divx :: "int \<Rightarrow> int \<Rightarrow> nat \<Rightarrow> int result" where
  "fx_divx x1 x2 frac =
     (if x2 = 0 then Inl Undefined
      else Inr (s32 ((x1 * 2 ^ frac + (if x1 < 0 then - \<bar>x2\<bar> else \<bar>x2\<bar>) sdiv 2) sdiv x2)))"

record fx_rdiv_t =
  rd_mant :: int
  rd_expn :: int

definition fx_rdivx :: "int \<Rightarrow> fx_rdiv_t \<Rightarrow> int result" where
  "fx_rdivx xval rdiv =
     (if 0 \<le> rd_expn rdiv \<and> rd_expn rdiv \<le> 64 then Inr (fx_mulx xval (rd_mant rdiv) (nat (rd_expn rdiv))) else Inl Undefined)"

section \<open>The macros of the functions\<close>

text \<open>\<^verbatim>\<open>FX_SMUL\<close> and \<^verbatim>\<open>FX_UMUL\<close>, whose products fit 64 bits.\<close>

definition FX_SMUL :: "int \<Rightarrow> int \<Rightarrow> nat \<Rightarrow> int" where "FX_SMUL x1 x2 frac = x1 * x2 div 2 ^ frac"
definition FX_UMUL :: "int \<Rightarrow> int \<Rightarrow> nat \<Rightarrow> int" where "FX_UMUL x1 x2 frac = x1 * x2 div 2 ^ frac"

text \<open>Mantissa and exponent.\<close>

definition FX_NORMALIZE :: "int \<Rightarrow> nat \<Rightarrow> int \<times> int" where
  "FX_NORMALIZE xval frac = (let nz = fx_clz xval in (wrap32 (xval * 2 ^ nat nz), 31 - nz - int frac))"

definition FX_SHIFT :: "int \<Rightarrow> int \<Rightarrow> int result" where
  "FX_SHIFT value shift =
     (if shift > 0 then if shift < 32 then Inr (s32 (wrap32 (value * 2 ^ nat shift))) else Inl Undefined
      else if shift > - 31 then Inr (s32 (value div 2 ^ nat (- shift)))
      else Inr 0)"

definition FX_INV_UPDATE :: "int \<Rightarrow> int \<Rightarrow> int" where
  "FX_INV_UPDATE est mant = wrap32 (wrap32 (est * 2) - wrap32 (FX_UMUL mant (wrap32 (FX_UMUL est est 31)) 31))"

definition FX_ISQRT_UPDATE :: "int \<Rightarrow> int \<Rightarrow> int" where
  "FX_ISQRT_UPDATE est mant2 =
     wrap32 (wrap32 (est + est div 2) - wrap32 (FX_UMUL (wrap32 (FX_UMUL mant2 est 31)) (wrap32 (FX_UMUL est est 31)) 31))"

section \<open>Cores\<close>

definition isqrt_lut :: "int list" where
  "isqrt_lut =
    [150, 149, 148, 147, 146, 145, 144, 143, 142, 141, 140, 139, 138, 137, 136, 135, 134, 133, 132, 131,
     131, 130, 129, 128, 127, 126, 125, 124, 124, 123, 122, 121, 120, 119, 119, 118, 117, 116, 115, 114,
     114, 113, 112, 111, 110, 110, 109, 108, 107, 107, 106, 105, 104, 104, 103, 102, 101, 101, 100, 99,
     98, 98, 97, 96, 95, 95, 94, 93, 93, 92, 91, 91, 90, 89, 88, 88, 87, 86, 86, 85, 84, 84, 83, 82, 82,
     81, 80, 80, 79, 79, 78, 77, 77, 76, 75, 75, 74, 74, 73, 72, 72, 71, 70, 70, 69, 69, 68, 67, 67, 66,
     66, 65, 65, 64, 63, 63, 62, 62, 61, 61, 60, 59, 59, 58, 58, 57, 57, 56, 56, 55, 54, 54, 53, 53, 52,
     52, 51, 51, 50, 50, 49, 49, 48, 48, 47, 47, 46, 46, 45, 45, 44, 44, 43, 43, 42, 42, 41, 41, 40, 40,
     39, 39, 38, 38, 37, 37, 36, 36, 35, 35, 34, 34, 33, 33, 33, 32, 32, 31, 31, 30, 30, 29, 29, 28, 28,
     28, 27, 27, 26, 26, 25, 25, 25, 24, 24, 23, 23, 22, 22, 22, 21, 21, 20, 20, 19, 19, 19, 18, 18, 17,
     17, 17, 16, 16, 15, 15, 15, 14, 14, 13, 13, 13, 12, 12, 11, 11, 11, 10, 10, 9, 9, 9, 8, 8, 8, 7, 7,
     6, 6, 6, 5, 5, 5, 4, 4, 3, 3, 3, 2, 2, 2, 1, 1, 1, 0, 0]"

definition inv_lut :: "int list" where
  "inv_lut =
    [255, 254, 252, 250, 248, 246, 244, 242, 240, 238, 236, 234, 233, 231, 229, 227, 225, 224, 222, 220,
     218, 217, 215, 213, 212, 210, 208, 207, 205, 203, 202, 200, 199, 197, 195, 194, 192, 191, 189, 188,
     186, 185, 183, 182, 180, 179, 178, 176, 175, 173, 172, 170, 169, 168, 166, 165, 164, 162, 161, 160,
     158, 157, 156, 154, 153, 152, 151, 149, 148, 147, 146, 144, 143, 142, 141, 139, 138, 137, 136, 135,
     134, 132, 131, 130, 129, 128, 127, 126, 125, 123, 122, 121, 120, 119, 118, 117, 116, 115, 114, 113,
     112, 111, 110, 109, 108, 107, 106, 105, 104, 103, 102, 101, 100, 99, 98, 97, 96, 95, 94, 93, 92,
     91, 90, 89, 88, 88, 87, 86, 85, 84, 83, 82, 81, 80, 80, 79, 78, 77, 76, 75, 74, 74, 73, 72, 71, 70,
     70, 69, 68, 67, 66, 66, 65, 64, 63, 62, 62, 61, 60, 59, 59, 58, 57, 56, 56, 55, 54, 53, 53, 52, 51,
     50, 50, 49, 48, 48, 47, 46, 46, 45, 44, 43, 43, 42, 41, 41, 40, 39, 39, 38, 37, 37, 36, 35, 35, 34,
     33, 33, 32, 32, 31, 30, 30, 29, 28, 28, 27, 27, 26, 25, 25, 24, 24, 23, 22, 22, 21, 21, 20, 19, 19,
     18, 18, 17, 17, 16, 15, 15, 14, 14, 13, 13, 12, 12, 11, 10, 10, 9, 9, 8, 8, 7, 7, 6, 6, 5, 5, 4, 4,
     3, 3, 2, 2, 1, 1, 0]"

definition exp2_table :: "int list list" where
  "exp2_table =
    [[0x80000000, 0x58b90c9b, 0x7afd6ab0, 0x72e946ce],
     [0x82cd8699, 0x5aaa6677, 0x7daedb8c, 0x756d6e58],
     [0x85aac368, 0x5ca6a450, 0x806f652f, 0x77ffb0d3],
     [0x88980e80, 0x5eae0331, 0x833f5c39, 0x7aa05d42],
     [0x8b95c1e4, 0x60c0c17e, 0x861f1727, 0x7d4fc480],
     [0x8ea4398b, 0x62df1ef7, 0x890eee57, 0x800e3913],
     [0x91c3d373, 0x65095cc2, 0x8c0f3c19, 0x82dc0f68],
     [0x94f4efa9, 0x673fbd72, 0x8f205cb7, 0x85b99db0],
     [0x9837f051, 0x6982850f, 0x9242ae7f, 0x88a73c0f],
     [0x9b8d39ba, 0x6bd1f91f, 0x957691d0, 0x8ba54488],
     [0x9ef53260, 0x6e2e60ad, 0x98bc6928, 0x8eb4131f],
     [0xa2704303, 0x70980452, 0x9c149928, 0x91d405e1],
     [0xa5fed6a9, 0x730f2e40, 0x9f7f88aa, 0x95057ce1],
     [0xa9a15ab5, 0x75942a46, 0xa2fda0c5, 0x9848da4f],
     [0xad583eea, 0x782745de, 0xa68f4cdf, 0x9b9e828a],
     [0xb123f582, 0x7ac8d034, 0xaa34fab9, 0x9f06dc16],
     [0xb504f334, 0x7d791a2f, 0xadef1a78, 0xa2824fbd],
     [0xb8fbaf47, 0x8038767c, 0xb1be1eb8, 0xa6114890],
     [0xbd08a39f, 0x83073998, 0xb5a27c97, 0xa9b43406],
     [0xc12c4cca, 0x85e5b9d8, 0xb99cabc3, 0xad6b81de],
     [0xc5672a11, 0x88d44f77, 0xbdad268b, 0xb137a476],
     [0xc9b9bd86, 0x8bd3549e, 0xc1d469e8, 0xb519107b],
     [0xce248c15, 0x8ee3256e, 0xc612f593, 0xb9103d52],
     [0xd2a81d92, 0x9204200e, 0xca694c0f, 0xbd1da4da],
     [0xd744fccb, 0x9536a4b4, 0xced7f2bb, 0xc141c3d0],
     [0xdbfbb798, 0x987b15b2, 0xd35f71e1, 0xc57d1964],
     [0xe0ccdeec, 0x9bd1d780, 0xd80054c9, 0xc9d027cd],
     [0xe5b906e7, 0x9f3b50cb, 0xdcbb29c6, 0xce3b7407],
     [0xeac0c6e8, 0xa2b7ea7d, 0xe1908249, 0xd2bf85e4],
     [0xefe4b99c, 0xa6480fcf, 0xe680f2f3, 0xd75ce85a],
     [0xf5257d15, 0xa9ec2e52, 0xeb8d13a6, 0xdc142939],
     [0xfa83b2db, 0xada4b5fb, 0xf0b57f97, 0xe0e5d996]]"

definition log2_table :: "int list list" where
  "log2_table =
    [[2, 0xb8aa3809, 0xb8a71111, 0xf5181ba1, 0xa3741666],
     [0x1663f6fc, 0xadcd6287, 0xa391c7e9, 0xcc703403, 0x8128cede],
     [0x2b803475, 0xa4258829, 0x91e6b29d, 0xac4bac7e, 0x67680fa0],
     [0x3f782d73, 0x9b81dfa0, 0x82f2bdb3, 0x928ce148, 0x53c3aca5],
     [0x5269e130, 0x93bb617a, 0x762e71ac, 0x7daff66f, 0x449294cb],
     [0x646eea25, 0x8cb27563, 0x6b31ccc5, 0x6c9a3c9d, 0x38ac9277],
     [0x759d4f81, 0x864d41a3, 0x61abe29b, 0x5e7a6031, 0x2f3f8599],
     [0x86082807, 0x80766b68, 0x595cf97f, 0x52b32231, 0x27b3f257],
     [0x95c01a3a, 0x7b1c2702, 0x5212559b, 0x48ccd634, 0x219b062a],
     [0xa4d3c25f, 0x762f81ac, 0x4ba32b4e, 0x406b50e8, 0x1ca29548],
     [0xb3500472, 0x71a3d559, 0x45ee5fba, 0x3946ce96, 0x188cf14a],
     [0xc1404eae, 0x6d6e5bb5, 0x40d8dba4, 0x3326de10, 0x152b42bb],
     [0xceaecfeb, 0x6985d876, 0x3c4c47a5, 0x2ddeb388, 0x1259a653],
     [0xdba4a47b, 0x65e25570, 0x38361502, 0x294a6f77, 0x0ffc3eb3],
     [0xe829fb69, 0x627cec35, 0x3486bf54, 0x254d2025, 0x0dfd4de4],
     [0xf446359b, 0x5f4f9a49, 0x3131385e, 0x21cf3d01, 0x0c4bacbd]]"

definition sin_table :: "int list list" where
  "sin_table =
    [[1, 0xc90fd9a3, 0x00003fb0, 0xa58a7e76, 0x065f386b],
     [0x1917a6bd, 0xc817ffc8, - 0x07bcf80f, 0xa4be44bc, 0x130df3a4],
     [0x31f17079, 0xc532d541, - 0x0f671be3, 0xa25be1b9, 0x1f8db4a9],
     [0x4a5018bc, 0xc0677d57, - 0x16eb464b, 0x9e693649, 0x2bbfaac2],
     [0x61f78a9b, 0xb9c1c9f7, - 0x1e36ef68, 0x98effe28, 0x3785c4f8],
     [0x78ad74e1, 0xb1521e87, - 0x25381aa7, 0x91fdb7eb, 0x42c2fc45],
     [0x8e39d9ce, 0xa72d4786, - 0x2bdd8320, 0x89a383c5, 0x4d5b9b12],
     [0xa2679929, 0x9b6c4741, - 0x3216c622, 0x7ff5f946, 0x57358192],
     [0xb504f334, 0x8e2c182b, - 0x37d48b9e, 0x750cf49d, 0x60386657],
     [0xc5e40359, 0x7f8d656d, - 0x3d08abfa, 0x69035bc2, 0x684e11dd],
     [0xd4db3149, 0x6fb43a5a, - 0x41a652f5, 0x5bf6dc22, 0x6f629596],
     [0xe1c5978c, 0x5ec7a990, - 0x45a21f4a, 0x4e07a17a, 0x75647cec],
     [0xec835e7a, 0x4cf16ca9, - 0x48f23ebf, 0x3f580680, 0x7a44f841],
     [0xf4fa0ab6, 0x3a5d7d55, - 0x4b8e8659, 0x300c403c, 0x7df801d6],
     [0xfb14be80, 0x2739a8f5, - 0x4d708680, 0x204a04ae, 0x80747a4c],
     [0xfec46d1f, 0x13b51fad, - 0x4e939ae0, 0x10382e0b, 0x81b441c8]]"

definition fx_core_isqrt :: "int \<Rightarrow> int \<Rightarrow> nat \<Rightarrow> int" where
  "fx_core_isqrt mant expn iter =
     (let m2 = mant div 2;
          est = (isqrt_lut ! nat (mant div 2 ^ 23 mod 256) + 362) * 2 ^ 22;
          est = (if iter = 0 \<or> iter = 1 then est else FX_ISQRT_UPDATE est m2);
          est = (if iter = 0 then est else FX_ISQRT_UPDATE est m2)
      in if expn mod 2 = 1 then wrap32 (FX_UMUL est 0xb504f334 31) else est)"

definition fx_core_inv :: "int \<Rightarrow> int" where
  "fx_core_inv mant =
     (let idx = nat (mant div 2 ^ 23 mod 256);
          est = (inv_lut ! idx + 256 + (if idx = 0 then 1 else 0)) * 2 ^ 22;
          est = FX_INV_UPDATE est mant
      in FX_INV_UPDATE est mant)"

definition fx_core_exp2 :: "int \<Rightarrow> int" where
  "fx_core_exp2 fpart32 =
     (let c = exp2_table ! nat (fpart32 div 2 ^ 27);
          x1 = wrap32 (fpart32 * 2 ^ 5);
          x2 = wrap32 (FX_UMUL x1 x1 32);
          acc = FX_UMUL (c ! 1) x1 36;
          x3 = wrap32 (FX_UMUL x2 x1 32);
          acc = acc + FX_UMUL (c ! 2) x2 43;
          acc = acc + FX_UMUL (c ! 3) x3 50;
          acc = acc + c ! 0 * 2
      in wrap32 ((acc + 1) div 2))"

definition fx_core_log2 :: "int \<Rightarrow> int" where
  "fx_core_log2 fpart32 =
     (let c = log2_table ! nat (fpart32 div 2 ^ 28);
          x1 = wrap32 (fpart32 * 2 ^ 4);
          x2 = wrap32 (FX_UMUL x1 x1 32);
          acc = FX_UMUL (c ! 1) x1 35;
          x3 = wrap32 (FX_UMUL x2 x1 32);
          x4 = wrap32 (FX_UMUL x2 x2 32);
          acc = acc - FX_UMUL (c ! 2) x2 40;
          acc = acc + FX_UMUL (c ! 3) x3 45;
          acc = acc - FX_UMUL (c ! 4) x4 49;
          acc = acc + c ! 0
      in wrap32 ((acc + 1) div 2))"

definition fx_core_sin :: "int \<Rightarrow> int" where
  "fx_core_sin fpart32 =
     (let c = map wrap32 (sin_table ! nat (fpart32 div 2 ^ 28));
          x1 = wrap32 (fpart32 * 2 ^ 4);
          x2 = wrap32 (FX_UMUL x1 x1 32);
          acc = FX_UMUL (c ! 1) x1 33;
          x3 = wrap32 (FX_UMUL x2 x1 32);
          x4 = wrap32 (FX_UMUL x2 x2 32);
          acc = acc + FX_SMUL (s32 (c ! 2)) x2 36;
          acc = acc - FX_UMUL (c ! 3) x3 42;
          acc = acc + FX_UMUL (c ! 4) x4 47;
          acc = acc + c ! 0 * 4
      in wrap32 ((acc + 4) div 8))"

section \<open>Algebraic functions\<close>

text \<open>The error number and the value.\<close>

definition edom :: "int \<Rightarrow> (bool \<times> int) result" where "edom v = Inr (True, v)"
definition returns :: "int \<Rightarrow> (bool \<times> int) result" where "returns v = Inr (False, v)"

definition fx_invx :: "int \<Rightarrow> nat \<Rightarrow> (bool \<times> int \<times> fx_rdiv_t option) result" where
  "fx_invx xval frac =
     (if xval = 0 \<or> frac > 31 then Inr (True, 0, None)
      else
        let aval = \<bar>xval\<bar>; (mant, expn) = FX_NORMALIZE aval frac; est = fx_core_inv mant;
            tmp = s32 (wrap32 (est + 1) div 2);
            rdiv = \<lparr>rd_mant = (if xval > 0 then tmp else s32 (- tmp)), rd_expn = 31 + expn - 1\<rparr>
        in rbind (shift_right est (31 + expn - int frac)) (\<lambda>est.
             Inr (False, if xval > 0 then s32 est else s32 (- s32 est), Some rdiv)))"

definition fx_sqrtx :: "int \<Rightarrow> nat \<Rightarrow> (bool \<times> int) result" where
  "fx_sqrtx xval frac =
     (if xval < 0 \<or> frac > 31 then edom (- 1)
      else if xval = 0 then returns 0
      else
        let (mant, expn) = FX_NORMALIZE xval frac; i = (expn div 2 + int frac) div 8
        in if 0 \<le> i \<and> i < 4
           then
             let est = fx_core_isqrt mant expn ([0, 1, 2, 2] ! nat i);
                 est = wrap32 (FX_UMUL est mant 31)
             in rbind (shift_right est (31 - expn div 2 - int frac)) (\<lambda>est. returns (s32 est))
           else Inl OutOfBounds)"

definition fx_isqrtx :: "int \<Rightarrow> nat \<Rightarrow> (bool \<times> int \<times> fx_rdiv_t option) result" where
  "fx_isqrtx xval frac =
     (if xval \<le> 0 \<or> frac > 31 then Inr (True, - 1, None)
      else
        let (mant, expn) = FX_NORMALIZE xval frac; est = fx_core_isqrt mant expn 2; expn = - expn div 2;
            rdiv = \<lparr>rd_mant = s32 (wrap32 (est + 1) div 2), rd_expn = 31 - expn - 1\<rparr>
        in rbind (shift_right est (31 - expn - int frac)) (\<lambda>est. Inr (False, s32 est, Some rdiv)))"

section \<open>Exponentials and logarithms\<close>

definition fx_exp2x :: "int \<Rightarrow> nat \<Rightarrow> (bool \<times> int) result" where
  "fx_exp2x xval frac =
     (if frac > 31 then edom (- 1)
      else
        let ipart = fx_floorx xval frac; fpart = s32 (xval - fx_itox ipart frac);
            value = fx_core_exp2 (wrap32 (wrap32 fpart * 2 ^ ((32 - frac) mod 32)));
            shift = s32 (ipart + int frac - 31)
        in rbind (FX_SHIFT value shift) returns)"

definition fx_exp_base :: "int \<Rightarrow> nat \<Rightarrow> int \<Rightarrow> int \<Rightarrow> (bool \<times> int) result" where
  "fx_exp_base xval frac imul fmul =
     (if frac > 31 then edom (- 1)
      else
        let xmod = s64 (FX_SMUL xval fmul frac + s64 (FX_SMUL xval imul 0 * 2 ^ (32 - frac)));
            ipart = s32 (xmod div 2 ^ 32); fpart = wrap32 xmod;
            value = fx_core_exp2 fpart;
            shift = s32 (ipart + int frac - 31)
        in rbind (FX_SHIFT value shift) returns)"

definition fx_exp10x :: "int \<Rightarrow> nat \<Rightarrow> (bool \<times> int) result" where
  "fx_exp10x xval frac = fx_exp_base xval frac 3 0x5269e12f"

definition fx_expx :: "int \<Rightarrow> nat \<Rightarrow> (bool \<times> int) result" where
  "fx_expx xval frac = fx_exp_base xval frac 1 0x71547653"

definition fx_log2x :: "int \<Rightarrow> nat \<Rightarrow> (bool \<times> int) result" where
  "fx_log2x xval frac =
     (if xval \<le> 0 \<or> frac > 31 then edom 0
      else
        let (mant, expn) = FX_NORMALIZE xval frac; fpart = fx_core_log2 (wrap32 (mant * 2))
        in returns (s32 (fx_itox expn frac + fpart div 2 ^ (31 - frac))))"

definition fx_log_base :: "int \<Rightarrow> nat \<Rightarrow> int \<Rightarrow> nat \<Rightarrow> (bool \<times> int) result" where
  "fx_log_base xval frac scale shift =
     (if xval \<le> 0 \<or> frac > 31 then edom 0
      else
        let (mant, expn) = FX_NORMALIZE xval frac; fpart = fx_core_log2 (wrap32 (mant * 2));
            fpart = wrap32 (FX_UMUL fpart scale shift);
            ipart = FX_SMUL expn scale (shift - 31)
        in returns (s32 ((ipart + fpart) div 2 ^ (31 - frac))))"

definition fx_log10x :: "int \<Rightarrow> nat \<Rightarrow> (bool \<times> int) result" where
  "fx_log10x xval frac = fx_log_base xval frac 0x4d104d42 32"

definition fx_logx :: "int \<Rightarrow> nat \<Rightarrow> (bool \<times> int) result" where
  "fx_logx xval frac = fx_log_base xval frac 0x58b90bfc 31"

definition fx_powx :: "int \<Rightarrow> nat \<Rightarrow> int \<Rightarrow> nat \<Rightarrow> (bool \<times> int) result" where
  "fx_powx xval xfrac yval yfrac =
     (if xfrac > 31 \<or> yfrac > 31 \<or> xval < 0 \<or> (xval = 0 \<and> yval < 0) then edom 0
      else if xval = 0 then returns 0
      else
        let (mant, expn) = FX_NORMALIZE xval xfrac;
            mant = fx_core_log2 (wrap32 (mant * 2));
            sh = nat (fx_clz (\<bar>expn\<bar> OR 1) - 1);
            logx = s32 (expn * 2 ^ sh + (mant div 2 ^ (30 - sh) + 1) div 2);
            ylogx = FX_SMUL logx yval yfrac;
            ipart = ylogx div 2 ^ sh;
            fpart = wrap32 (ylogx * 2 ^ (32 - sh));
            value = fx_core_exp2 fpart;
            shift = ipart + int xfrac - 31
        in rbind (FX_SHIFT value shift) returns)"


section \<open>Trigonometry\<close>

text \<open>The constants for \<^verbatim>\<open>FIX_MATH_FRACTIONAL_BIT_COUNT\<close> fraction bits, eight as built.\<close>

definition fractional_bit_count :: nat where "fractional_bit_count = 8"
definition FIX_MATH_FRACTIONAL_OFFSET :: nat where "FIX_MATH_FRACTIONAL_OFFSET = 16 - fractional_bit_count"
definition fix_maximum :: int where "fix_maximum = 0x7FFFFFFF"
definition fix_minimum :: int where "fix_minimum = s32 0x80000000"
definition fix_one :: int where "fix_one = 2 ^ fractional_bit_count"
definition fix_pi :: int where "fix_pi = 0x0003243F div 2 ^ FIX_MATH_FRACTIONAL_OFFSET"
definition fix_pi_div_2 :: int where "fix_pi_div_2 = 0x00019220 div 2 ^ FIX_MATH_FRACTIONAL_OFFSET"
definition PI_DIV_4 :: int where "PI_DIV_4 = 0x0000C910 div 2 ^ FIX_MATH_FRACTIONAL_OFFSET"
definition THREE_PI_DIV_4 :: int where "THREE_PI_DIV_4 = 0x00025B30 div 2 ^ FIX_MATH_FRACTIONAL_OFFSET"
definition fix_rad_to_deg_mult :: int where "fix_rad_to_deg_mult = 0x00394BB8 div 2 ^ FIX_MATH_FRACTIONAL_OFFSET"
definition fix_180_degree :: int where "fix_180_degree = 0x00B40000 div 2 ^ FIX_MATH_FRACTIONAL_OFFSET"
definition fix_atan2_factor_a :: int where "fix_atan2_factor_a = 0x00003241 div 2 ^ FIX_MATH_FRACTIONAL_OFFSET"
definition fix_atan2_factor_b :: int where "fix_atan2_factor_b = 0x0000FB51 div 2 ^ FIX_MATH_FRACTIONAL_OFFSET"

definition fx_sin_phase :: "int \<Rightarrow> nat \<Rightarrow> int \<Rightarrow> bool \<times> int" where
  "fx_sin_phase uval frac phase =
     (if frac > 31 then (True, 0)
      else
        let fpart = wrap32 (FX_UMUL uval 0xa2f9836e (frac + 2));
            segm = (fpart div 2 ^ 30 + phase) mod 4;
            value = (if segm = 0 \<or> segm = 2 then fx_core_sin (wrap32 (fpart * 4)) else fx_core_sin (0xFFFFFFFF - wrap32 (fpart * 4)));
            value = value div 2 ^ (31 - frac)
        in (False, if segm > 1 then s32 (- s32 value) else s32 value))"

definition fx_sinx :: "int \<Rightarrow> nat \<Rightarrow> bool \<times> int" where
  "fx_sinx xval frac = (let (e, value) = fx_sin_phase \<bar>xval\<bar> frac 0 in (e, if xval < 0 then s32 (- value) else value))"

definition fx_cosx :: "int \<Rightarrow> nat \<Rightarrow> bool \<times> int" where
  "fx_cosx xval frac = fx_sin_phase \<bar>xval\<bar> frac 1"

definition fx_atan2x :: "int \<Rightarrow> int \<Rightarrow> nat \<Rightarrow> int result" where
  "fx_atan2x y x frac =
     (let mask = y div 2 ^ 31; abs_inY = s32 (y + mask) XOR mask
      in rbind
        (if x \<ge> 0
         then rbind (fx_divx (s32 (x - abs_inY)) (s32 (x + abs_inY)) frac) (\<lambda>r. Inr (r, PI_DIV_4))
         else rbind (fx_divx (s32 (x + abs_inY)) (s32 (abs_inY - x)) frac) (\<lambda>r. Inr (r, THREE_PI_DIV_4)))
        (\<lambda>(r, offset).
          let r_3 = fx_mulx (fx_mulx r r frac) r frac;
              angle = s32 (s32 (fx_mulx fix_atan2_factor_a r_3 frac - fx_mulx fix_atan2_factor_b r frac) + offset)
          in Inr (if y < 0 then s32 (- angle) else angle)))"

definition fx_atanx :: "int \<Rightarrow> nat \<Rightarrow> int result" where
  "fx_atanx x frac = fx_atan2x x fix_one frac"

definition fx_asinx :: "int \<Rightarrow> nat \<Rightarrow> int result" where
  "fx_asinx x frac =
     (if x > fix_one \<or> x < - fix_one then Inr 0
      else if x = fix_one then Inr fix_pi_div_2
      else if x = 0 then Inr 0
      else
        let out = s32 (fix_one - fx_mulx x x frac)
        in rbind (fx_sqrtx out frac) (\<lambda>(_, root).
           rbind (fx_divx x root frac) (\<lambda>out. fx_atanx out frac)))"

definition fx_acosx :: "int \<Rightarrow> nat \<Rightarrow> int result" where
  "fx_acosx x frac =
     (if x = fix_one then Inr 0
      else if x = 0 then Inr fix_pi_div_2
      else rbind (fx_asinx x frac) (\<lambda>a. Inr (s32 (fix_pi div 2 - a))))"

definition fx_tanx :: "int \<Rightarrow> nat \<Rightarrow> int result" where
  "fx_tanx x frac = fx_divx (snd (fx_sinx x frac)) (snd (fx_cosx x frac)) frac"

definition fx_rad_to_deg :: "int \<Rightarrow> nat \<Rightarrow> int" where
  "fx_rad_to_deg radians frac = fx_mulx radians fix_rad_to_deg_mult frac"

definition fx_deg_to_rad :: "int \<Rightarrow> nat \<Rightarrow> int result" where
  "fx_deg_to_rad degrees frac = fx_divx (fx_mulx degrees fix_pi frac) fix_180_degree frac"

section \<open>The Lua binding\<close>

text \<open>An argument is a number object of the module, a Lua number or something else; a result is a number object, a Lua number
  or integer, a boolean, or nothing.\<close>

datatype 'd lua_arg = Fix int | Num 'd | Other
datatype 'd lua_ret = PushFix int | PushNumber 'd | PushInteger int | PushBool bool | Nothing

definition lua_tofix :: "('d \<Rightarrow> nat \<Rightarrow> int) \<Rightarrow> 'd lua_arg \<Rightarrow> int result" where
  "lua_tofix fx_dtox a = (case a of Fix v \<Rightarrow> Inr v | Num d \<Rightarrow> Inr (fx_dtox d fractional_bit_count) | Other \<Rightarrow> Inl (LuaError ''number expected''))"

text \<open>The functions of the two tables of the module.\<close>

datatype fix_op = Add | Sub | Mul | Div | Mod | Pow | Unm | Idiv | Lt | Le | Eq | Tostring | Tofix | Rawvalue
  | Abs | Floor | Ceil | Min | Max | Sin | Cos | Tan | Asin | Acos | Atan2 | Deg | Rad | Sqrt | Exp | Log | Atan1 | LogBase

definition fix_unary :: "fix_op \<Rightarrow> bool" where
  "fix_unary f \<longleftrightarrow> f \<in> {Unm, Tostring, Rawvalue, Abs, Floor, Ceil, Sin, Cos, Tan, Asin, Acos, Deg, Rad, Sqrt, Exp, Log, Atan1}"

definition fix_mod :: "int \<Rightarrow> int \<Rightarrow> int result" where
  "fix_mod x y = (if y = 0 \<or> (x = INT_MIN \<and> y = - 1) then Inl Undefined else Inr (x smod y))"

definition fix_idiv :: "int \<Rightarrow> int \<Rightarrow> int result" where
  "fix_idiv x y = rbind (fx_divx x y fractional_bit_count) (\<lambda>q. Inr (fx_floorx q fractional_bit_count))"

definition fix_floor :: "int \<Rightarrow> int" where
  "fix_floor x = fx_itox (fx_floorx x fractional_bit_count) fractional_bit_count"

definition fix_ceil :: "int \<Rightarrow> int" where
  "fix_ceil x = fx_itox (fx_ceilx x fractional_bit_count) fractional_bit_count"

definition fix_abs :: "int \<Rightarrow> int" where
  "fix_abs x = (if x < 0 then s32 (- x) else x)"

definition fix_log_base :: "int \<Rightarrow> int \<Rightarrow> int result" where
  "fix_log_base x y =
     rbind (fx_logx x fractional_bit_count) (\<lambda>(_, a). rbind (fx_logx y fractional_bit_count) (\<lambda>(_, b). fx_divx a b fractional_bit_count))"

definition push_fix :: "int result \<Rightarrow> 'd lua_ret result" where
  "push_fix r = rbind r (\<lambda>v. Inr (PushFix v))"

definition push_math :: "(bool \<times> int) result \<Rightarrow> 'd lua_ret result" where
  "push_math r = rbind r (\<lambda>(_, v). Inr (PushFix v))"

definition fix_one_arg :: "(int \<Rightarrow> nat \<Rightarrow> 'd) \<Rightarrow> fix_op \<Rightarrow> int \<Rightarrow> 'd lua_ret result" where
  "fix_one_arg fx_xtod f x =
     (let frac = fractional_bit_count in
      case f of
        Unm \<Rightarrow> push_fix (Inr (s32 (- x)))
      | Tostring \<Rightarrow> Inr (PushNumber (fx_xtod x frac))
      | Rawvalue \<Rightarrow> Inr (PushInteger x)
      | Abs \<Rightarrow> push_fix (Inr (fix_abs x))
      | Floor \<Rightarrow> push_fix (Inr (fix_floor x))
      | Ceil \<Rightarrow> push_fix (Inr (fix_ceil x))
      | Sin \<Rightarrow> push_fix (Inr (snd (fx_sinx x frac)))
      | Cos \<Rightarrow> push_fix (Inr (snd (fx_cosx x frac)))
      | Tan \<Rightarrow> push_fix (fx_tanx x frac)
      | Asin \<Rightarrow> push_fix (fx_asinx x frac)
      | Acos \<Rightarrow> push_fix (fx_acosx x frac)
      | Atan1 \<Rightarrow> push_fix (fx_atanx x frac)
      | Deg \<Rightarrow> push_fix (Inr (fx_rad_to_deg x frac))
      | Rad \<Rightarrow> push_fix (fx_deg_to_rad x frac)
      | Sqrt \<Rightarrow> push_math (fx_sqrtx x frac)
      | Exp \<Rightarrow> push_math (fx_expx x frac)
      | Log \<Rightarrow> push_math (fx_logx x frac)
      | _ \<Rightarrow> Inr Nothing)"

definition fix_two_args :: "fix_op \<Rightarrow> int \<Rightarrow> int \<Rightarrow> 'd lua_ret result" where
  "fix_two_args f x y =
     (let frac = fractional_bit_count in
      case f of
        Add \<Rightarrow> push_fix (Inr (fx_addx x y))
      | Sub \<Rightarrow> push_fix (Inr (fx_subx x y))
      | Mul \<Rightarrow> push_fix (Inr (fx_mulx x y frac))
      | Div \<Rightarrow> push_fix (fx_divx x y frac)
      | Mod \<Rightarrow> push_fix (fix_mod x y)
      | Pow \<Rightarrow> push_math (fx_powx x frac y frac)
      | Idiv \<Rightarrow> push_fix (fix_idiv x y)
      | Lt \<Rightarrow> Inr (PushBool (x < y))
      | Le \<Rightarrow> Inr (PushBool (x \<le> y))
      | Eq \<Rightarrow> Inr (PushBool (x = y))
      | Min \<Rightarrow> push_fix (Inr (if x < y then x else y))
      | Max \<Rightarrow> push_fix (Inr (if x > y then x else y))
      | Atan2 \<Rightarrow> push_fix (fx_atan2x x y frac)
      | LogBase \<Rightarrow> push_fix (fix_log_base x y)
      | _ \<Rightarrow> Inr Nothing)"

definition fix_call ::
  "('d \<Rightarrow> nat \<Rightarrow> int) \<Rightarrow> (int \<Rightarrow> nat \<Rightarrow> 'd) \<Rightarrow> fix_op \<Rightarrow> 'd lua_arg \<Rightarrow> 'd lua_arg \<Rightarrow> 'd lua_ret result" where
  "fix_call fx_dtox fx_xtod f a b =
     (if f = Tofix
      then case a of Num d \<Rightarrow> Inr (PushFix (fx_dtox d fractional_bit_count)) | _ \<Rightarrow> Inr Nothing
      else if fix_unary f then rbind (lua_tofix fx_dtox a) (fix_one_arg fx_xtod f)
      else rbind (lua_tofix fx_dtox a) (\<lambda>x. rbind (lua_tofix fx_dtox b) (fix_two_args f x)))"

end
