(* ===== verification/FixmathArith.thy ===== *)
theory FixmathArith
  imports Fixmath
begin

text \<open>
  What the arithmetic of the fixed-point library computes: products, quotients and roundings are exact results rounded to the
  nearest representable number; and what happens at the edges, where a shift or a division leaves the range of C.
\<close>

unbundle bit_operations_syntax

section \<open>Rounding\<close>

text \<open>The integer nearest to \<open>a / b\<close>, the greater one of two.\<close>

definition nearest :: "int \<Rightarrow> int \<Rightarrow> int" where
  "nearest a b = (2 * a + b) div (2 * b)"

lemma nearest_error:
  assumes "0 < b"
  shows "\<bar>2 * (b * nearest a b - a)\<bar> \<le> b"
proof -
  have "2 * b * nearest a b \<le> 2 * a + b" "2 * a + b < 2 * b * nearest a b + 2 * b"
    using assms unfolding nearest_def
    by (simp_all add: minus_mod_eq_mult_div [symmetric] pos_mod_bound)
  then show ?thesis by (simp add: abs_le_iff algebra_simps)
qed

lemma half_up_nearest: "0 < b \<Longrightarrow> (a div b + 1) div 2 = nearest a (2 * b)"
proof -
  assume b: "0 < b"
  then have "b \<noteq> 0" by simp
  then have "(a div b + 1) div 2 = ((a + b) div b) div 2" using div_add_self2 [of b a] by metis
  also have "\<dots> = (a + b) div (2 * b)" by (simp add: zdiv_zmult2_eq mult.commute)
  also have "\<dots> = (2 * (a + b)) div (2 * (2 * b))" by (rule div_mult_mult1 [symmetric]) simp
  finally show ?thesis by (simp add: nearest_def algebra_simps)
qed

lemma half_nearest: "0 < b \<Longrightarrow> (a + b div 2) div b = nearest a b"
proof -
  assume b: "0 < b"
  have "nearest a b = (2 * a + b) div 2 div b" using zdiv_zmult2_eq [of b "2 * a + b" 2] b by (simp add: nearest_def)
  also have "(2 * a + b) div 2 = a + b div 2" by presburger
  finally show ?thesis ..
qed

lemma fx_mulx_nearest: "fx_mulx x y f = s32 (nearest (x * y) (2 ^ f))"
proof (cases f)
  case (Suc n)
  then show ?thesis using half_up_nearest [of "2 ^ n" "x * y"] by (simp add: fx_mulx_def)
qed (simp add: fx_mulx_def nearest_def)

lemma div_range:
  assumes "in_s32 x" "0 < (d :: int)"
  shows "in_s32 (x div d)" "2 \<le> d \<Longrightarrow> x div d < INT_MAX"
proof -
  have "x div d \<le> x div 1 \<and> 0 \<le> x div d" if "0 \<le> x" using that assms(2) zdiv_mono2 [of x 1 d] by (simp add: pos_imp_zdiv_nonneg_iff)
  moreover have "x div 1 \<le> x div d \<and> x div d < 0" if "x < 0" using that assms(2) zdiv_mono2_neg [of x 1 d] by (simp add: div_neg_pos_less0)
  ultimately show "in_s32 (x div d)" using assms(1) by (cases "0 \<le> x") (auto simp: in_s32_def)
  assume d: "2 \<le> d"
  show "x div d < INT_MAX"
  proof (cases "0 \<le> x")
    case True
    then have "x div d \<le> x div 2" using d by (intro zdiv_mono2) simp_all
    moreover have "x div 2 < INT_MAX" using assms(1) True by (simp add: in_s32_def)
    ultimately show ?thesis by simp
  next
    case False
    then have "x div d < 0" using assms(2) by (simp add: div_neg_pos_less0)
    then show ?thesis by simp
  qed
qed

lemma fx_roundx_nearest:
  assumes "in_s32 x" "f = 1 \<Longrightarrow> x < INT_MAX"
  shows "fx_roundx x f = nearest x (2 ^ f)"
proof (cases f)
  case (Suc n)
  have "in_s32 (x div 2 ^ n)" using assms(1) by (intro div_range) simp_all
  moreover have "x div 2 ^ n < INT_MAX"
  proof (cases n)
    case 0
    then show ?thesis using assms(2) Suc by simp
  next
    case (Suc k)
    have "(2 :: int) \<le> 2 ^ n" unfolding Suc by simp
    then show ?thesis using assms(1) by (intro div_range) simp_all
  qed
  ultimately have "s32 (x div 2 ^ n + 1) = x div 2 ^ n + 1" by (intro s32_id) (simp_all add: in_s32_def)
  then show ?thesis using Suc half_up_nearest [of "2 ^ n" x] by (simp add: fx_roundx_def)
qed (simp add: fx_roundx_def nearest_def)

lemma fx_divx_nearest:
  "y \<noteq> 0 \<Longrightarrow> fx_divx x y f = Inr (s32 (sgn x * sgn y * nearest (\<bar>x\<bar> * 2 ^ f) \<bar>y\<bar>))"
proof -
  assume y: "y \<noteq> 0"
  have h: "(if x < 0 then - \<bar>y\<bar> else \<bar>y\<bar>) sdiv 2 = (if x < 0 then - (\<bar>y\<bar> div 2) else \<bar>y\<bar> div 2)"
    using y by (simp add: signed_divide_int_def sgn_if)
  have n: "(\<bar>x\<bar> * 2 ^ f + \<bar>y\<bar> div 2) div \<bar>y\<bar> = nearest (\<bar>x\<bar> * 2 ^ f) \<bar>y\<bar>" using y by (intro half_nearest) simp
  have s: "(- a) sdiv y = - (a sdiv y)" for a by (simp add: signed_divide_int_def sgn_if)
  have p: "a sdiv y = sgn y * (a div \<bar>y\<bar>)" if "0 \<le> a" for a using that by (cases "a = 0") (simp_all add: signed_divide_int_def)
  consider "x < 0" | "x = 0" | "0 < x" by linarith
  then have "(x * 2 ^ f + (if x < 0 then - \<bar>y\<bar> else \<bar>y\<bar>) sdiv 2) sdiv y = sgn x * sgn y * nearest (\<bar>x\<bar> * 2 ^ f) \<bar>y\<bar>"
  proof cases
    case 1
    let ?n = "\<bar>x\<bar> * 2 ^ f + \<bar>y\<bar> div 2"
    have e: "x * 2 ^ f + (if x < 0 then - \<bar>y\<bar> else \<bar>y\<bar>) sdiv 2 = - ?n" unfolding h using 1 by simp
    have "?n sdiv y = sgn y * nearest (\<bar>x\<bar> * 2 ^ f) \<bar>y\<bar>" unfolding n [symmetric] by (rule p) simp
    then show ?thesis unfolding e s using 1 by simp
  next
    case 2
    have "\<bar>y\<bar> div 2 div \<bar>y\<bar> = 0" using y by (intro div_pos_pos_trivial) linarith+
    then show ?thesis unfolding h using 2 by (simp add: p)
  next
    case 3
    then have "x * 2 ^ f + \<bar>y\<bar> div 2 = \<bar>x\<bar> * 2 ^ f + \<bar>y\<bar> div 2" "0 \<le> \<bar>x\<bar> * 2 ^ f + \<bar>y\<bar> div 2" by simp_all
    then show ?thesis unfolding h using 3 n by (simp add: p)
  qed
  then show ?thesis using y by (simp add: fx_divx_def)
qed

lemma fx_ceilx_bounds:
  assumes "in_s32 x" "0 < f"
  shows "(fx_ceilx x f - 1) * 2 ^ f < x" "x \<le> fx_ceilx x f * 2 ^ f"
proof -
  let ?d = "2 ^ f :: int" and ?q = "(x + (2 ^ f - 1)) div 2 ^ f"
  have d: "2 \<le> ?d" using assms(2) by (cases f) simp_all
  have "?d * ?q \<le> x + (?d - 1)" "x + (?d - 1) < ?d * ?q + ?d"
    using pos_mod_sign [of ?d "x + (?d - 1)"] pos_mod_bound [of ?d "x + (?d - 1)"] d by (simp_all only: minus_mod_eq_mult_div [symmetric]) linarith+
  then have q: "(?q - 1) * ?d < x" "x \<le> ?q * ?d" by (simp_all add: algebra_simps)
  have "?q \<le> x div ?d + 1"
  proof -
    have "?q \<le> (x + ?d) div ?d" using d by (intro zdiv_mono1) simp_all
    also have "\<dots> = x div ?d + 1" by (rule div_add_self2) simp
    finally show ?thesis .
  qed
  moreover have "x div ?d \<le> ?q" using d by (intro zdiv_mono1) simp_all
  moreover have "in_s32 (x div ?d)" "x div ?d < INT_MAX" using assms(1) d by (intro div_range; simp)+
  ultimately have "s32 ?q = ?q" by (intro s32_id) (simp_all add: in_s32_def)
  then have "fx_ceilx x f = ?q" by (simp add: fx_ceilx_def)
  then show "(fx_ceilx x f - 1) * 2 ^ f < x" "x \<le> fx_ceilx x f * 2 ^ f" using q by simp_all
qed

text \<open>The arithmetic of the library, with at most 31 fraction bits: a product and a quotient are the exact ones rounded to the
  nearest number, up to wrap-around, halves of a quotient away from zero; rounding gives the nearest integer, floor and
  ceiling the integers around. The nearest integer to a fraction is within half a unit.\<close>

theorem fix_arith_rounds:
  assumes "in_s32 x" "in_s32 y" "f \<le> 31" "f = 1 \<Longrightarrow> x < INT_MAX"
  shows "fx_mulx x y f = s32 (nearest (x * y) (2 ^ f)) \<and>
    (y \<noteq> 0 \<longrightarrow> fx_divx x y f = Inr (s32 (sgn x * sgn y * nearest (\<bar>x\<bar> * 2 ^ f) \<bar>y\<bar>))) \<and>
    fx_roundx x f = nearest x (2 ^ f) \<and>
    fx_floorx x f * 2 ^ f \<le> x \<and> x < (fx_floorx x f + 1) * 2 ^ f \<and>
    (0 < f \<longrightarrow> (fx_ceilx x f - 1) * 2 ^ f < x \<and> x \<le> fx_ceilx x f * 2 ^ f) \<and>
    (\<forall>a b. 0 < b \<longrightarrow> \<bar>2 * (b * nearest a b - a)\<bar> \<le> b)"
proof -
  have "fx_floorx x f * 2 ^ f \<le> x" "x < (fx_floorx x f + 1) * 2 ^ f"
    using pos_mod_sign [of "2 ^ f" x, OF zero_less_power] pos_mod_bound [of "2 ^ f" x, OF zero_less_power] div_mult_mod_eq [of x "2 ^ f"]
    unfolding fx_floorx_def distrib_right by linarith+
  then show ?thesis
    using fx_mulx_nearest fx_divx_nearest fx_roundx_nearest [OF assms(1,4)] fx_ceilx_bounds [OF assms(1)] nearest_error by blast
qed

theorem fix_arith_rounds_witness:
  "fx_mulx 384 (- 128) 8 = - 192 \<and> fx_divx (- 3) 512 8 = Inr (- 2) \<and> fx_roundx (- 3) 8 = 0 \<and> fx_ceilx (- 3) 8 = 0"
  using fix_arith_rounds [of 384 "- 128" 8] fix_arith_rounds [of "- 3" 512 8]
  by (simp add: in_s32_def nearest_def s32_def fx_ceilx_def)

section \<open>Calls that end the process\<close>

text \<open>The binding does not check for zero: dividing a number object by zero, also as a remainder or an integral quotient,
  asking for the arc sine or cosine of minus one, the tangent of half of pi, the angle of the origin, or a logarithm to
  the base one divides by zero in C, which is undefined and ends the process.\<close>

theorem fix_calls_trap:
  fixes dtox :: "'d \<Rightarrow> nat \<Rightarrow> int" and xtod :: "int \<Rightarrow> nat \<Rightarrow> 'd"
  assumes "dtox zero fractional_bit_count = 0" "f \<in> {Div, Mod, Idiv}" "b \<in> {Fix 0, Num zero}" "g \<in> {Asin, Acos}"
  shows "fix_call dtox xtod f (Fix x) b = Inl Undefined \<and> fix_call dtox xtod g (Fix (- fix_one)) c = Inl Undefined \<and>
    fix_call dtox xtod Atan2 (Fix 0) (Fix 0) = Inl Undefined \<and> fix_call dtox xtod Tan (Fix fix_pi_div_2) c = Inl Undefined \<and>
    fix_call dtox xtod LogBase (Fix y) (Fix fix_one) = Inl Undefined"
proof -
  have "lua_tofix dtox b = Inr 0" using assms(1,3) by (auto simp: lua_tofix_def)
  then have "fix_call dtox xtod f (Fix x) b = Inl Undefined"
    using assms(2) by (auto simp: fix_call_def fix_unary_def lua_tofix_def fix_two_args_def push_fix_def fix_mod_def fix_idiv_def fx_divx_def)
  moreover have "fx_asinx (- fix_one) fractional_bit_count = Inl Undefined"
    by (simp add: fx_asinx_def fix_one_def fractional_bit_count_def fx_mulx_def s32_def fx_sqrtx_def returns_def fx_divx_def)
  then have "fix_call dtox xtod g (Fix (- fix_one)) c = Inl Undefined"
    using assms(4) by (auto simp: fix_call_def fix_unary_def lua_tofix_def fix_one_arg_def push_fix_def fx_acosx_def Let_def)
      (simp_all add: fix_one_def fractional_bit_count_def)
  moreover have "fx_tanx fix_pi_div_2 fractional_bit_count = Inl Undefined" by code_simp
  then have "fix_call dtox xtod Tan (Fix fix_pi_div_2) c = Inl Undefined"
    by (simp add: fix_call_def fix_unary_def lua_tofix_def fix_one_arg_def push_fix_def)
  moreover have "fx_atan2x 0 0 fractional_bit_count = Inl Undefined" by (simp add: fx_atan2x_def s32_def fx_divx_def)
  then have "fix_call dtox xtod Atan2 (Fix 0) (Fix 0) = Inl Undefined"
    by (simp add: fix_call_def fix_unary_def lua_tofix_def fix_two_args_def push_fix_def)
  moreover have "fix_log_base y fix_one = Inl Undefined"
  proof -
    have "fx_logx fix_one fractional_bit_count = Inr (False, 0)" by code_simp
    moreover have "\<exists>r. fx_logx y fractional_bit_count = Inr r"
      by (auto simp: fx_logx_def fx_log_base_def edom_def returns_def Let_def split_def)
    ultimately show ?thesis by (auto simp: fix_log_base_def fx_divx_def)
  qed
  then have "fix_call dtox xtod LogBase (Fix y) (Fix fix_one) = Inl Undefined"
    by (simp add: fix_call_def fix_unary_def lua_tofix_def fix_two_args_def push_fix_def)
  ultimately show ?thesis by blast
qed

theorem fix_calls_trap_witness:
  "fix_call (\<lambda>d f. d * 2 ^ f) (\<lambda>v f. v) Mod (Fix 7) (Num 0) = Inl Undefined \<and>
   fix_call (\<lambda>d f. d * 2 ^ f) (\<lambda>v f. v) Acos (Fix (- fix_one)) Other = Inl Undefined"
  using fix_calls_trap [of "\<lambda>d f. d * 2 ^ f" 0 Mod "Num 0" Acos "\<lambda>v f. v" 7 Other 1] by simp

section \<open>Powers of two\<close>

lemma width_bounds: "0 < n \<Longrightarrow> 0 < width n \<and> 2 ^ (width n - 1) \<le> n \<and> n < 2 ^ width n"
proof (induction n rule: width.induct)
  case (1 n)
  show ?case
  proof (cases "n = 1")
    case True
    then show ?thesis by (simp add: width.simps [of 1] width.simps [of 0])
  next
    case False
    then have h: "0 < n div 2" using 1(2) by simp
    then have IH: "0 < width (n div 2)" "2 ^ (width (n div 2) - 1) \<le> n div 2" "n div 2 < 2 ^ width (n div 2)" using 1 by simp_all
    have w: "width n = Suc (width (n div 2))" using 1(2) by (simp add: width.simps [of n])
    have "(2 :: int) ^ width (n div 2) = 2 * 2 ^ (width (n div 2) - 1)" using IH(1) by (cases "width (n div 2)") simp_all
    moreover have "2 * (n div 2) \<le> n" "n < 2 * (n div 2) + 2" by presburger+
    ultimately show ?thesis using IH(2,3) by (simp add: w)
  qed
qed

lemma width_unique:
  assumes "2 ^ k \<le> n" "n < 2 ^ Suc k"
  shows "width n = Suc k"
proof -
  have n: "0 < n" using assms(1) zero_less_power [of "2 :: int" k] by linarith
  have w: "0 < width n" "2 ^ (width n - 1) \<le> n" "n < 2 ^ width n" using width_bounds [OF n] by simp_all
  have "(2 :: int) ^ k < 2 ^ width n" "(2 :: int) ^ (width n - 1) < 2 ^ Suc k" using assms w by linarith+
  then have "k < width n" "width n - 1 < Suc k" by (simp_all only: power_strict_increasing_iff one_less_numeral_iff semiring_norm)
  then show ?thesis using w(1) by linarith
qed

lemma normalize_power: "k \<le> 31 \<Longrightarrow> FX_NORMALIZE (2 ^ k) g = (2 ^ 31, int k - int g)"
proof -
  assume k: "k \<le> 31"
  have "fx_clz (2 ^ k) = 31 - int k" using width_unique [of k "2 ^ k"] by (simp add: fx_clz_def)
  moreover have "(2 :: int) ^ k * 2 ^ (31 - k) = 2 ^ 31" using k by (simp flip: power_add)
  moreover have "nat (31 - int k) = 31 - k" by (simp add: nat_diff_distrib)
  ultimately show ?thesis by (simp add: FX_NORMALIZE_def Let_def wrap32_def)
qed

text \<open>The base-2 exponential of an integer is exact from two units of the last place up to the range. At one unit and
  below it is zero; just above the range it is the least number, then zero, and with 32 bits above the range the shift
  is undefined. The base-2 logarithm of a power of two is exact, up to wrap-around.\<close>

theorem exp2_log2_powers:
  assumes "f \<le> 31" "in_s32 (n * 2 ^ f)" "INT_MIN + 31 \<le> n" "k \<le> 30" "g \<le> 30"
  shows "fx_exp2x (n * 2 ^ f) f =
      (let e = n + int f
       in if e \<le> 0 then returns 0 else if e \<le> 30 then returns (2 ^ nat e) else if e = 31 then returns INT_MIN
          else if e \<le> 62 then returns 0 else Inl Undefined) \<and>
    fx_log2x (2 ^ k) g = returns (s32 ((int k - int g) * 2 ^ g))"
proof
  have n: "n \<le> INT_MAX"
  proof (cases "0 \<le> n")
    case True
    then have "n * 1 \<le> n * 2 ^ f" by (intro mult_left_mono) simp_all
    then show ?thesis using assms(2) by (simp add: in_s32_def)
  qed simp
  have i: "fx_itox n f = n * 2 ^ f" "fx_floorx (n * 2 ^ f) f = n"
    using assms(2) by (simp_all add: fx_itox_def fx_floorx_def in_s32_def s32_id)
  have s: "s32 (n + int f - 31) = n + int f - 31" using assms(1,3) n by (intro s32_id) linarith+
  have c: "fx_core_exp2 (wrap32 (wrap32 (s32 0) * m)) = 0x80000000" for m
  proof -
    have "wrap32 (wrap32 (s32 0) * m) = 0" by (simp add: s32_def wrap32_def)
    moreover have "fx_core_exp2 0 = 0x80000000" by code_simp
    ultimately show ?thesis by simp
  qed
  have e: "fx_exp2x (n * 2 ^ f) f = rbind (FX_SHIFT 0x80000000 (n + int f - 31)) returns"
    using assms(1) c unfolding fx_exp2x_def Let_def i by (simp add: s)
  define e' where "e' = n + int f"
  have "FX_SHIFT 0x80000000 (e' - 31) =
      (if e' \<le> 0 then Inr 0 else if e' \<le> 30 then Inr (2 ^ nat e') else if e' = 31 then Inr INT_MIN else if e' \<le> 62 then Inr 0 else Inl Undefined)"
  proof -
    consider "e' \<le> 0" | "0 < e'" "e' \<le> 30" | "e' = 31" | "31 < e'" "e' \<le> 62" | "62 < e'" by linarith
    then show ?thesis
    proof cases
      case 1
      then show ?thesis by (simp add: FX_SHIFT_def)
    next
      case 2
      define j where "j = nat e'"
      have j: "e' = int j" "0 < j" "j \<le> 30" using 2 by (simp_all add: j_def)
      have "(0x80000000 :: int) = 2 ^ j * 2 ^ (31 - j)" using j(3) by (simp flip: power_add)
      then have d: "(0x80000000 :: int) div 2 ^ (31 - j) = 2 ^ j" by (metis nonzero_mult_div_cancel_right power_not_zero zero_neq_numeral)
      have "(2 :: int) ^ j \<le> 2 ^ 30" using j(3) by (intro power_increasing) simp_all
      then have "s32 (2 ^ j) = 2 ^ j" by (intro s32_id) (simp_all add: order.trans [of _ 0])
      moreover have "nat (31 - int j) = 31 - j" by (simp add: nat_diff_distrib)
      ultimately show ?thesis using j d by (simp add: FX_SHIFT_def)
    next
      case 4
      define j where "j = nat (e' - 32)"
      have j: "nat (e' - 31) = Suc j" using 4 by (simp add: j_def)
      have "(0x80000000 :: int) * 2 ^ Suc j = 2 ^ j * 2 ^ 32" by simp
      then have "wrap32 (0x80000000 * 2 ^ Suc j) = 0" by (simp add: wrap32_def)
      then show ?thesis using 4 by (simp add: FX_SHIFT_def j s32_def)
    qed (simp_all add: FX_SHIFT_def wrap32_def s32_def)
  qed
  then show "fx_exp2x (n * 2 ^ f) f =
      (let e = n + int f
       in if e \<le> 0 then returns 0 else if e \<le> 30 then returns (2 ^ nat e) else if e = 31 then returns INT_MIN
          else if e \<le> 62 then returns 0 else Inl Undefined)"
    unfolding e Let_def e'_def [symmetric] by simp
next
  have "fx_core_log2 (wrap32 (2 ^ 31 * 2)) = 1" by code_simp
  moreover have "(1 :: int) div 2 ^ (31 - g) = 0"
  proof -
    have "(2 :: int) ^ 1 \<le> 2 ^ (31 - g)" using assms(5) by (intro power_increasing) simp_all
    then have "(1 :: int) < 2 ^ (31 - g)" unfolding power_one_right by linarith
    then show ?thesis by (intro div_pos_pos_trivial) simp_all
  qed
  moreover have "s32 (s32 x) = s32 x" for x using s32_in_range [of x] by (simp add: in_s32_def s32_id)
  ultimately show "fx_log2x (2 ^ k) g = returns (s32 ((int k - int g) * 2 ^ g))"
    using assms(4,5) by (simp add: fx_log2x_def normalize_power fx_itox_def)
qed

theorem exp2_log2_powers_witness:
  "fx_exp2x (5 * 2 ^ 8) 8 = returns (2 ^ 13) \<and> fx_exp2x (60 * 2 ^ 8) 8 = Inl Undefined \<and> fx_log2x (2 ^ 13) 8 = returns (5 * 2 ^ 8)"
  using exp2_log2_powers [of 8 5 13 8] exp2_log2_powers [of 8 60 13 8] by (simp add: in_s32_def s32_def)

end
