(* ===== verification/FixmathSqrt.thy ===== *)
theory FixmathSqrt
  imports Complex_Main FixmathArith
begin

text \<open>
  The square root of the fixed-point library, against the real square root: the estimate of the table, the Newton
  steps of the reciprocal root, and the final product. With \<open>m = M / 2 ^ 31\<close> the mantissa, an estimate \<open>X\<close> of
  the reciprocal root is measured by \<open>\<rho> = X * sqrt m / 2 ^ 31\<close>, which is one for the exact value.
\<close>

unbundle bit_operations_syntax

section \<open>Newton's step\<close>

lemma div_real:
  fixes a b :: int
  assumes "0 < b"
  shows "real_of_int (a div b) \<le> a / b" "a / b - 1 < real_of_int (a div b)"
proof -
  have "a div b = \<lfloor>real_of_int a / real_of_int b\<rfloor>" by (simp add: floor_divide_of_int_eq)
  then show "real_of_int (a div b) \<le> a / b" "a / b - 1 < real_of_int (a div b)" by linarith+
qed

definition newton :: "real \<Rightarrow> real" where "newton r = r * (3 - r * r) / 2"

lemma newton_near:
  assumes "\<bar>r - 1\<bar> \<le> d" "d \<le> 1"
  shows "newton r \<le> 1" "1 - 3 / 2 * d ^ 2 - d ^ 3 / 2 \<le> newton r"
proof -
  define e where "e = r - 1"
  have r: "r = 1 + e" by (simp add: e_def)
  have n: "newton r = 1 - e ^ 2 * (3 + e) / 2" by (simp add: r newton_def power2_eq_square field_simps)
  have e: "\<bar>e\<bar> \<le> d" "- 1 \<le> e" "e \<le> d" using assms by (auto simp: e_def)
  have "0 \<le> e ^ 2 * (3 + e)" using e by simp
  then show "newton r \<le> 1" by (simp add: n)
  have "e ^ 2 \<le> d ^ 2" using e(1) by (simp add: abs_le_square_iff [symmetric])
  then have "e ^ 2 * (3 + e) \<le> d ^ 2 * (3 + d)" using e by (intro mult_mono) simp_all
  also have "\<dots> = 3 * d ^ 2 + d ^ 3" by (simp add: power2_eq_square power3_eq_cube algebra_simps)
  finally show "1 - 3 / 2 * d ^ 2 - d ^ 3 / 2 \<le> newton r" by (simp add: n)
qed

definition sqm :: "int \<Rightarrow> real" where "sqm M = sqrt (M / 2 ^ 31)"
definition rho :: "int \<Rightarrow> int \<Rightarrow> real" where "rho X M = X * sqm M / 2 ^ 31"

lemma sqm_bounds:
  assumes "2 ^ 31 \<le> M" "M < 2 ^ 32"
  shows "1 \<le> sqm M" "sqm M < 1.4143" "sqm M * sqm M = M / 2 ^ 31"
proof -
  have "1 \<le> real_of_int M / 2 ^ 31" "real_of_int M / 2 ^ 31 < 2" using assms by (simp_all add: field_simps)
  then show "1 \<le> sqm M" "sqm M * sqm M = M / 2 ^ 31" by (simp_all add: sqm_def)
  have "sqrt (real_of_int M / 2 ^ 31) < sqrt (1.4143 ^ 2)"
    using \<open>real_of_int M / 2 ^ 31 < 2\<close> by (intro real_sqrt_less_mono) (simp add: power2_eq_square)
  then show "sqm M < 1.4143" by (simp add: sqm_def)
qed

text \<open>One step, with the roundings of its four products and its halving.\<close>

lemma isqrt_update:
  assumes M: "2 ^ 31 \<le> M" "M < 2 ^ 32" and X: "0 \<le> X" "rho X M \<le> 101 / 100" "newton (rho X M) \<ge> 9 / 10"
  defines "X' \<equiv> FX_ISQRT_UPDATE X (M div 2)"
  shows "newton (rho X M) - 1 / 2 ^ 31 \<le> rho X' M" "rho X' M \<le> newton (rho X M) + 4 / 2 ^ 31" "0 \<le> X'"
proof -
  define A where "A = M div 2 * X div 2 ^ 31"
  define B where "B = X * X div 2 ^ 31"
  define C where "C = A * B div 2 ^ 31"
  define s where "s = sqm M"
  define y where "y = real_of_int X / 2 ^ 31"
  define a where "a = real_of_int A / 2 ^ 31"
  define b where "b = real_of_int B / 2 ^ 31"
  define c where "c = real_of_int C / 2 ^ 31"
  define h where "h = real_of_int (X div 2) / 2 ^ 31"
  define m where "m = real_of_int (M div 2) / 2 ^ 31"
  define u :: real where "u = 1 / 2 ^ 31"
  have u: "0 < u" by (simp add: u_def)
  have s: "1 \<le> s" "s < 14143 / 10000" "s * s = real_of_int M / 2 ^ 31" using sqm_bounds [OF M] by (simp_all add: s_def)
  have r: "rho X M = s * y" by (simp add: rho_def s_def y_def)
  have y: "0 \<le> y" "y \<le> 101 / 100"
  proof -
    show y0: "0 \<le> y" using X(1) by (simp add: y_def)
    have "1 * y \<le> s * y" using s(1) y0 by (intro mult_right_mono)
    then show "y \<le> 101 / 100" using X(2) by (simp add: r)
  qed
  define a0 where "a0 = s * s * y / 2"
  define b0 where "b0 = y * y"
  have nonneg: "0 \<le> A" "0 \<le> B" "0 \<le> C" using M X(1) by (simp_all add: A_def B_def C_def pos_imp_zdiv_nonneg_iff)
  have ab: "0 \<le> a" "0 \<le> b" "0 \<le> c" using nonneg by (simp_all add: a_def b_def c_def)
  have mu: "m \<le> s * s / 2" "s * s / 2 - u / 2 \<le> m"
    using div_real [of 2 M] by (simp_all add: m_def s(3) u_def field_simps)
  have a1: "a \<le> m * y" "m * y - u \<le> a"
    using div_real [of "2 ^ 31" "M div 2 * X"] by (simp_all add: m_def a_def A_def y_def u_def field_simps)
  have a2: "a \<le> a0" "a0 - (151 / 100) * u \<le> a"
  proof -
    have "m * y \<le> s * s / 2 * y" using mu y by (intro mult_right_mono)
    then show "a \<le> a0" using order.trans [OF a1(1)] by (simp only: a0_def times_divide_eq_left)
    have "(s * s / 2 - u / 2) * y \<le> m * y" using mu y by (intro mult_right_mono)
    then have "a0 - u * y / 2 \<le> m * y" by (simp add: a0_def left_diff_distrib)
    moreover have "u * y \<le> u * (101 / 100)" using u y by (intro mult_left_mono) simp_all
    ultimately show "a0 - (151 / 100) * u \<le> a" using a1(2) u by linarith
  qed
  have b1: "b \<le> b0" "b0 - u \<le> b"
    using div_real [of "2 ^ 31" "X * X"] by (simp_all add: b_def B_def b0_def y_def u_def field_simps)
  have c1: "c \<le> a * b" "a * b - u \<le> c"
    using div_real [of "2 ^ 31" "A * B"] by (simp_all add: c_def C_def a_def b_def u_def field_simps)
  have h1: "h \<le> y / 2" "y / 2 - u / 2 \<le> h"
    using div_real [of 2 X] by (simp_all add: h_def y_def u_def field_simps)
  have a0: "0 \<le> a0" "0 \<le> b0" using y by (simp_all add: a0_def b0_def)
  have up: "c \<le> a0 * b0" using c1(1) mult_mono [OF a2(1) b1(1)] a0 ab by linarith
  have low: "a0 * b0 - u * (a0 + (151 / 100) * b0 + 1) \<le> c"
  proof -
    have "(a0 - (151 / 100) * u) * b \<le> a * b" using a2 ab by (intro mult_right_mono)
    moreover have "a0 * (b0 - u) \<le> a0 * b" using b1 a0 by (intro mult_left_mono)
    moreover have "(151 / 100) * u * b \<le> (151 / 100) * u * b0" using b1 u by (intro mult_left_mono) simp_all
    ultimately show ?thesis using c1(2) by (simp add: algebra_simps)
  qed
  have N: "newton (rho X M) = s * (3 / 2 * y - a0 * b0)" by (simp add: r newton_def a0_def b0_def field_simps)
  define y' where "y' = y + h - c"
  have lo: "newton (rho X M) - u \<le> s * y'"
  proof -
    have "s * (3 / 2 * y - a0 * b0 - u / 2) \<le> s * y'" using s h1 up by (intro mult_left_mono) (simp_all add: y'_def)
    moreover have "s * (u / 2) \<le> 2 * (u / 2)" using s u by (intro mult_right_mono) simp_all
    ultimately show ?thesis by (simp add: N algebra_simps)
  qed
  have hi: "s * y' \<le> newton (rho X M) + 4 * u"
  proof -
    have "s * y' \<le> s * (3 / 2 * y - a0 * b0 + u * (a0 + (151 / 100) * b0 + 1))"
      using s h1 low by (intro mult_left_mono) (simp_all add: y'_def)
    also have "\<dots> = newton (rho X M) + u * (s * a0 + (151 / 100) * (s * b0) + s)" by (simp add: N algebra_simps)
    finally have 1: "s * y' \<le> newton (rho X M) + u * (s * a0 + (151 / 100) * (s * b0) + s)" .
    have "s * y \<le> 101 / 100" using X(2) by (simp add: r)
    have "s * s \<le> (14143 / 10000) * (14143 / 10000)" using s by (intro mult_mono) simp_all
    then have "(s * s) * (s * y) \<le> ((14143 / 10000) * (14143 / 10000)) * (101 / 100)"
      using \<open>s * y \<le> (101 / 100)\<close> s y by (intro mult_mono) simp_all
    then have 2: "s * a0 \<le> 10102 / 10000" by (simp add: a0_def algebra_simps)
    have "(s * y) * y \<le> (101 / 100) * (101 / 100)" using \<open>s * y \<le> (101 / 100)\<close> y by (intro mult_mono) simp_all
    then have "s * b0 \<le> 10201 / 10000" by (simp add: b0_def algebra_simps)
    then have "s * a0 + (151 / 100) * (s * b0) + s \<le> 4" using 2 s(2) by simp
    then have "u * (s * a0 + (151 / 100) * (s * b0) + s) \<le> u * 4" using u by (intro mult_left_mono) simp_all
    then show ?thesis using 1 by simp
  qed
  have iy: "real_of_int (X + X div 2 - C) = y' * 2 ^ 31" by (simp add: y'_def y_def h_def c_def)
  have "0 < s * y'" using lo X(3) u by (simp add: u_def)
  then have "0 < y'" using s by (simp add: zero_less_mult_iff)
  then have D0: "0 < X + X div 2 - C" using iy by (metis mult_pos_pos of_int_0_less_iff zero_less_numeral zero_less_power)
  have X1: "X \<le> 2169958925"
  proof -
    have "real_of_int X \<le> 2169958925" using y(2) by (simp add: y_def field_simps)
    then show ?thesis by linarith
  qed
  have AB: "A < 2 ^ 32" "B < 2 ^ 32"
  proof -
    have "M div 2 * X \<le> 2 ^ 31 * 2169958925" using M X X1 by (intro mult_mono) simp_all
    then show "A < 2 ^ 32" by (simp add: A_def)
    have "X * X \<le> 2169958925 * 2169958925" using X X1 by (intro mult_mono) simp_all
    then show "B < 2 ^ 32" by (simp add: B_def)
  qed
  have w: "wrap32 v = v" if "0 \<le> v" "v < 2 ^ 32" for v using that by (simp add: wrap32_def)
  have "X + X div 2 < 2 ^ 32" "X div 2 \<ge> 0" using X X1 by simp_all
  moreover have "wrap32 (FX_UMUL (M div 2) X 31) = A" "wrap32 (FX_UMUL X X 31) = B"
    using w nonneg AB by (simp_all only: FX_UMUL_def A_def [symmetric] B_def [symmetric])
  moreover have "FX_UMUL A B 31 = C" by (simp only: FX_UMUL_def C_def)
  ultimately have "X' = X + X div 2 - C"
    using nonneg D0 X(1) w [of C] w [of "X + X div 2"] w [of "X + X div 2 - C"]
    by (simp only: X'_def FX_ISQRT_UPDATE_def)
  then have "rho X' M = s * y'" using iy by (simp add: rho_def s_def)
  then show "newton (rho X M) - 1 / 2 ^ 31 \<le> rho X' M" "rho X' M \<le> newton (rho X M) + 4 / 2 ^ 31" "0 \<le> X'"
    using lo hi D0 \<open>X' = X + X div 2 - C\<close> by (simp_all add: u_def)
qed

section \<open>The table\<close>

text \<open>What the proof uses of the entries, by evaluation: each first estimate is within 0.271 percent below and 0.196
  percent above the exact reciprocal root on the interval it serves, and its product for an odd exponent fits the word.\<close>

definition lut_ok :: "nat \<times> int \<Rightarrow> bool" where
  "lut_ok = (\<lambda>(j, L). 0 \<le> L \<and> L \<le> 150 \<and>
     (10 ^ 5 - 271) ^ 2 * 2 ^ 26 \<le> (L + 362) ^ 2 * (256 + int j) * 10 ^ 10 \<and>
     (L + 362) ^ 2 * (257 + int j) * 10 ^ 10 \<le> (10 ^ 5 + 196) ^ 2 * 2 ^ 26 \<and>
     (L + 362) * 0xb504f334 * (257 + int j) < 2 ^ 49)"

lemma isqrt_lut_ok: "list_all lut_ok (zip [0..<256] isqrt_lut)" by code_simp

lemma length_isqrt_lut: "length isqrt_lut = 256" by code_simp

lemma isqrt_lut_entry: "j < 256 \<Longrightarrow> lut_ok (j, isqrt_lut ! j)"
  using isqrt_lut_ok by (auto simp: list_all_length length_isqrt_lut)

definition first_estimate :: "int \<Rightarrow> int" where
  "first_estimate M = (isqrt_lut ! nat (M div 2 ^ 23 mod 256) + 362) * 2 ^ 22"

lemma mantissa_index:
  assumes "2 ^ 31 \<le> M" "M < 2 ^ 32"
  obtains j where "j < 256" "nat (M div 2 ^ 23 mod 256) = j" "(256 + int j) * 2 ^ 23 \<le> M" "M < (257 + int j) * 2 ^ 23"
proof
  define q where "q = M div 2 ^ 23"
  have q: "256 \<le> q" "q < 512" using assms by (simp_all add: q_def)
  then have m: "q mod 256 = q - 256" by presburger
  show "nat (M div 2 ^ 23 mod 256) < 256" by simp
  have "q * 2 ^ 23 \<le> M" "M < (q + 1) * 2 ^ 23" unfolding q_def by simp_all
  then show "(256 + int (nat (M div 2 ^ 23 mod 256))) * 2 ^ 23 \<le> M" "M < (257 + int (nat (M div 2 ^ 23 mod 256))) * 2 ^ 23"
    using q unfolding q_def [symmetric] m by simp_all
qed simp

lemma first_estimate:
  assumes M: "2 ^ 31 \<le> M" "M < 2 ^ 32"
  shows "1 - 271 / 10 ^ 5 \<le> rho (first_estimate M) M" "rho (first_estimate M) M \<le> 1 + 196 / 10 ^ 5"
    "0 \<le> first_estimate M" "first_estimate M \<le> 2 ^ 31" "first_estimate M * 0xb504f334 * M < 2 ^ 94"
proof -
  obtain j where j: "j < 256" "nat (M div 2 ^ 23 mod 256) = j" "(256 + int j) * 2 ^ 23 \<le> M" "M < (257 + int j) * 2 ^ 23"
    using mantissa_index [OF M] by blast
  define L where "L = isqrt_lut ! j"
  have ok: "0 \<le> L" "L \<le> 150" "(10 ^ 5 - 271) ^ 2 * 2 ^ 26 \<le> (L + 362) ^ 2 * (256 + int j) * 10 ^ 10"
     "(L + 362) ^ 2 * (257 + int j) * 10 ^ 10 \<le> (10 ^ 5 + 196) ^ 2 * 2 ^ 26" "(L + 362) * 0xb504f334 * (257 + int j) < 2 ^ 49"
    using isqrt_lut_entry [OF j(1)] unfolding lut_ok_def prod.case L_def by blast+
  have E: "first_estimate M = (L + 362) * 2 ^ 22" by (simp only: first_estimate_def j(2) L_def)
  show "0 \<le> first_estimate M" "first_estimate M \<le> 2 ^ 31" using ok(1,2) by (simp_all add: E)
  have "first_estimate M * 0xb504f334 * M \<le> first_estimate M * 0xb504f334 * ((257 + int j) * 2 ^ 23)"
    using j(4) ok(1) by (intro mult_left_mono) (simp_all add: E)
  also have "\<dots> = (L + 362) * 0xb504f334 * (257 + int j) * 2 ^ 45" by (simp add: E algebra_simps)
  also have "\<dots> < 2 ^ 49 * 2 ^ 45" using ok(5) by (intro mult_strict_right_mono) simp_all
  finally show "first_estimate M * 0xb504f334 * M < 2 ^ 94" by simp
  have r: "rho (first_estimate M) M = (L + 362) / 512 * sqm M" by (simp add: rho_def E)
  have sq: "(rho (first_estimate M) M) ^ 2 = ((L + 362) / 512) ^ 2 * (M / 2 ^ 31)"
    using sqm_bounds(3) [OF M] by (simp add: r power_mult_distrib power2_eq_square)
  have r0: "0 \<le> rho (first_estimate M) M" using ok(1) sqm_bounds(1) [OF M] by (simp add: r)
  have m: "(256 + real j) / 256 \<le> M / 2 ^ 31" "M / 2 ^ 31 \<le> (257 + real j) / 256" using j(3,4) by (simp_all add: field_simps)
  have lo: "(10 ^ 5 - 271) ^ 2 * 2 ^ 26 \<le> (real_of_int L + 362) ^ 2 * (256 + real j) * 10 ^ 10"
    using ok(3) by (simp flip: of_int_le_iff [where ?'a = real])
  have hi: "(real_of_int L + 362) ^ 2 * (257 + real j) * 10 ^ 10 \<le> (10 ^ 5 + 196) ^ 2 * 2 ^ 26"
    using ok(4) by (simp flip: of_int_le_iff [where ?'a = real])
  show "1 - 271 / 10 ^ 5 \<le> rho (first_estimate M) M"
  proof (rule power2_le_imp_le [OF _ r0])
    have "(1 - 271 / 10 ^ 5) ^ 2 \<le> ((L + 362) / 512) ^ 2 * ((256 + real j) / 256)" using lo by (simp add: power_divide field_simps)
    also have "\<dots> \<le> ((L + 362) / 512) ^ 2 * (M / 2 ^ 31)" using m(1) by (intro mult_left_mono) simp_all
    finally show "(1 - 271 / 10 ^ 5) ^ 2 \<le> (rho (first_estimate M) M) ^ 2" by (simp only: sq)
  qed
  show "rho (first_estimate M) M \<le> 1 + 196 / 10 ^ 5"
  proof (rule power2_le_imp_le)
    have "((L + 362) / 512) ^ 2 * (M / 2 ^ 31) \<le> ((L + 362) / 512) ^ 2 * ((257 + real j) / 256)" using m(2) by (intro mult_left_mono) simp_all
    also have "\<dots> \<le> (1 + 196 / 10 ^ 5) ^ 2" using hi by (simp add: power_divide field_simps)
    finally show "(rho (first_estimate M) M) ^ 2 \<le> (1 + 196 / 10 ^ 5) ^ 2" by (simp only: sq)
  qed simp
qed

section \<open>The estimates\<close>

definition estimate :: "int \<Rightarrow> nat \<Rightarrow> int" where
  "estimate M i = ((\<lambda>X. FX_ISQRT_UPDATE X (M div 2)) ^^ i) (first_estimate M)"

definition estimate_error :: "nat \<Rightarrow> real" where
  "estimate_error i = (if i = 0 then 271 / 10 ^ 5 else if i = 1 then 1103 / 10 ^ 8 else 1 / 10 ^ 9)"

lemma estimate_zero: "estimate M 0 = first_estimate M" by (simp add: estimate_def)

lemma estimate_step:
  assumes M: "2 ^ 31 \<le> M" "M < 2 ^ 32" and X: "0 \<le> estimate M i" "\<bar>rho (estimate M i) M - 1\<bar> \<le> d" "d \<le> 1 / 100"
  shows "1 - 3 / 2 * d ^ 2 - d ^ 3 / 2 - 1 / 2 ^ 31 \<le> rho (estimate M (Suc i)) M" "rho (estimate M (Suc i)) M \<le> 1 + 4 / 2 ^ 31"
    "0 \<le> estimate M (Suc i)"
proof -
  have d: "0 \<le> d" using X(2) by linarith
  have S: "estimate M (Suc i) = FX_ISQRT_UPDATE (estimate M i) (M div 2)" by (simp add: estimate_def)
  have n: "newton (rho (estimate M i) M) \<le> 1" "1 - 3 / 2 * d ^ 2 - d ^ 3 / 2 \<le> newton (rho (estimate M i) M)"
    using newton_near [OF X(2)] X(3) by simp_all
  have "d ^ 2 \<le> (1 / 100) ^ 2" "d ^ 3 \<le> (1 / 100) ^ 3" using d X(3) by (intro power_mono; simp)+
  then have "9 / 10 \<le> newton (rho (estimate M i) M)" using n(2) by (simp add: power_divide)
  moreover have "rho (estimate M i) M \<le> 101 / 100" using X by linarith
  ultimately have u: "newton (rho (estimate M i) M) - 1 / 2 ^ 31 \<le> rho (estimate M (Suc i)) M"
    "rho (estimate M (Suc i)) M \<le> newton (rho (estimate M i) M) + 4 / 2 ^ 31" "0 \<le> estimate M (Suc i)"
    unfolding S using isqrt_update [OF M X(1)] by blast+
  show "1 - 3 / 2 * d ^ 2 - d ^ 3 / 2 - 1 / 2 ^ 31 \<le> rho (estimate M (Suc i)) M" "rho (estimate M (Suc i)) M \<le> 1 + 4 / 2 ^ 31"
    "0 \<le> estimate M (Suc i)" using n u by linarith+
qed

lemma estimate_near:
  assumes M: "2 ^ 31 \<le> M" "M < 2 ^ 32" and i: "i \<le> 2"
  shows "0 \<le> estimate M i" "1 - estimate_error i \<le> rho (estimate M i) M"
    "rho (estimate M i) M \<le> (if i = 0 then 1 + 196 / 10 ^ 5 else 1 + 4 / 2 ^ 31)"
proof -
  have z: "0 \<le> estimate M 0" "1 - 271 / 10 ^ 5 \<le> rho (estimate M 0) M" "rho (estimate M 0) M \<le> 1 + 196 / 10 ^ 5"
    using first_estimate [OF M] by (simp_all only: estimate_zero)
  then have d: "\<bar>rho (estimate M 0) M - 1\<bar> \<le> 271 / 10 ^ 5" by linarith
  have o: "0 \<le> estimate M 1" "1 - 1103 / 10 ^ 8 \<le> rho (estimate M 1) M" "rho (estimate M 1) M \<le> 1 + 4 / 2 ^ 31"
    using estimate_step [OF M z(1) d] by (simp_all add: power_divide)
  then have "\<bar>rho (estimate M 1) M - 1\<bar> \<le> 1103 / 10 ^ 8" by (intro abs_leI) simp_all
  from estimate_step [OF M o(1) this] have t: "0 \<le> estimate M 2" "1 - 1 / 10 ^ 9 \<le> rho (estimate M 2) M" "rho (estimate M 2) M \<le> 1 + 4 / 2 ^ 31"
    by (simp_all add: power_divide numeral_2_eq_2)
  consider "i = 0" | "i = 1" | "i = 2" using i by linarith
  then show "0 \<le> estimate M i" "1 - estimate_error i \<le> rho (estimate M i) M"
    "rho (estimate M i) M \<le> (if i = 0 then 1 + 196 / 10 ^ 5 else 1 + 4 / 2 ^ 31)"
    using z o t by (cases; simp add: estimate_error_def)+
qed

lemma core_isqrt_estimate:
  "i \<le> 2 \<Longrightarrow> fx_core_isqrt M e i =
     (if e mod 2 = 1 then wrap32 (FX_UMUL (estimate M i) 0xb504f334 31) else estimate M i)"
proof -
  assume "i \<le> 2"
  then consider "i = 0" | "i = 1" | "i = 2" by linarith
  then show ?thesis by cases (simp_all add: fx_core_isqrt_def Let_def estimate_def first_estimate_def numeral_2_eq_2)
qed

section \<open>The product\<close>

abbreviation sqrt2_31 :: int where "sqrt2_31 \<equiv> 0xb504f334"

lemma last_mantissas:
  "list_all (\<lambda>M. estimate M 1 * sqrt2_31 div 2 ^ 31 * M < 2 ^ 63 \<and> estimate M 2 * sqrt2_31 div 2 ^ 31 * M < 2 ^ 63)
     [2 ^ 32 - 22, 2 ^ 32 - 20, 2 ^ 32 - 18, 2 ^ 32 - 16, 2 ^ 32 - 14, 2 ^ 32 - 12, 2 ^ 32 - 10, 2 ^ 32 - 8, 2 ^ 32 - 6,
      2 ^ 32 - 4, 2 ^ 32 - 2]"
  by code_simp

lemma rho_product: "real_of_int (X * M) / 2 ^ 62 = rho X M * sqm M" if "2 ^ 31 \<le> M" "M < 2 ^ 32"
  using sqm_bounds(3) [OF that] by (simp add: rho_def mult.assoc)

lemma product_fits:
  assumes M: "2 ^ 31 \<le> M" "M < 2 ^ 32" "even M" and i: "i \<le> 2"
  shows "estimate M i * sqrt2_31 div 2 ^ 31 * M < 2 ^ 63" "estimate M i * M < 2 ^ 63"
proof -
  note e = estimate_near [OF M(1,2) i] and s = sqm_bounds [OF M(1,2)]
  define r where "r = rho (estimate M i) M"
  have r: "0 \<le> r" "r \<le> 1 + 196 / 10 ^ 5"
    using e(1) s(1) e(3) [folded r_def] by (simp add: r_def rho_def, simp split: if_splits)
  have p: "real_of_int (estimate M i * M) / 2 ^ 62 = r * sqm M" unfolding r_def by (rule rho_product [OF M(1,2)])
  have "r * sqm M \<le> (1 + 196 / 10 ^ 5) * 1.4143" using r s by (intro mult_mono) simp_all
  then have "r * sqm M < 2" by simp
  then have "real_of_int (estimate M i * M) < 2 ^ 63" unfolding p [symmetric] by (simp add: field_simps)
  then show "estimate M i * M < 2 ^ 63" by (metis of_int_less_iff of_int_numeral of_int_power)
  have d: "estimate M i * sqrt2_31 div 2 ^ 31 * M < 2 ^ 63" if "estimate M i * sqrt2_31 * M < 2 ^ 94"
  proof -
    have "estimate M i * sqrt2_31 div 2 ^ 31 * 2 ^ 31 \<le> estimate M i * sqrt2_31" by simp
    then have "estimate M i * sqrt2_31 div 2 ^ 31 * 2 ^ 31 * M \<le> estimate M i * sqrt2_31 * M" using M(1) by (intro mult_right_mono) simp_all
    then have "(estimate M i * sqrt2_31 div 2 ^ 31 * M) * 2 ^ 31 < 2 ^ 63 * 2 ^ 31" using that by (simp add: ac_simps)
    then show ?thesis by (simp add: ac_simps)
  qed
  consider "i = 0" | "0 < i" "M \<le> 2 ^ 32 - 24" | "0 < i" "2 ^ 32 - 24 < M" by linarith
  then show "estimate M i * sqrt2_31 div 2 ^ 31 * M < 2 ^ 63"
  proof cases
    case 1
    then show ?thesis using d first_estimate(5) [OF M(1,2)] by (simp add: estimate_zero)
  next
    case 2
    have "(r * sqm M * (sqrt2_31 / 2 ^ 31)) ^ 2 = r ^ 2 * (M / 2 ^ 31) * (sqrt2_31 / 2 ^ 31) ^ 2"
      using s(3) by (simp add: power_mult_distrib power2_eq_square)
    also have "\<dots> \<le> (1 + 4 / 2 ^ 31) ^ 2 * ((2 ^ 32 - 24) / 2 ^ 31) * (sqrt2_31 / 2 ^ 31) ^ 2"
    proof -
      have "r \<le> 1 + 4 / 2 ^ 31" using e(3) 2 by (simp add: r_def)
      moreover have "real_of_int M \<le> 2 ^ 32 - 24" using 2(2) by simp
      ultimately show ?thesis using r(1) M(1) by (intro mult_mono power_mono divide_right_mono) simp_all
    qed
    also have "\<dots> < 2 ^ 2" by (simp add: power_divide field_simps)
    finally have "r * sqm M * (sqrt2_31 / 2 ^ 31) < 2" by (rule power_less_imp_less_base) simp
    then have "real_of_int (estimate M i * M) / 2 ^ 62 * (sqrt2_31 / 2 ^ 31) < 2" by (simp only: p)
    then have "real_of_int (estimate M i * M * sqrt2_31) < 2 ^ 94" by (simp add: field_simps)
    then have "estimate M i * M * sqrt2_31 < 2 ^ 94" by (metis of_int_less_iff of_int_numeral of_int_power)
    then show ?thesis by (intro d) (simp add: ac_simps)
  next
    case 3
    obtain k where k: "M = 2 * k" using M(3) by (auto elim: evenE)
    have "k \<in> {2147483637..2147483647}" using 3 M(2) k by simp
    then have "M \<in> set [2 ^ 32 - 22, 2 ^ 32 - 20, 2 ^ 32 - 18, 2 ^ 32 - 16, 2 ^ 32 - 14, 2 ^ 32 - 12, 2 ^ 32 - 10, 2 ^ 32 - 8, 2 ^ 32 - 6,
      2 ^ 32 - 4, 2 ^ 32 - 2]"
      using k by simp presburger
    then have "estimate M 1 * sqrt2_31 div 2 ^ 31 * M < 2 ^ 63 \<and> estimate M 2 * sqrt2_31 div 2 ^ 31 * M < 2 ^ 63"
      using last_mantissas unfolding list_all_iff by blast
    moreover have "i = 1 \<or> i = 2" using 3(1) i by linarith
    ultimately show ?thesis by blast
  qed
qed

definition parity_factor :: "int \<Rightarrow> real" where "parity_factor e = (if e mod 2 = 1 then sqrt 2 else 1)"

lemma sqrt2_31: "sqrt 2 \<le> sqrt2_31 / 2 ^ 31" "sqrt2_31 / 2 ^ 31 \<le> sqrt 2 + 1 / 2 ^ 36"
proof -
  have "2 \<le> (sqrt2_31 / 2 ^ 31 :: real) ^ 2" by (simp add: power_divide)
  then show "sqrt 2 \<le> sqrt2_31 / 2 ^ 31" by (intro real_le_lsqrt) simp_all
  have "(sqrt2_31 / 2 ^ 31 - 1 / 2 ^ 36 :: real) ^ 2 \<le> 2" by (simp add: power_divide field_simps)
  then have "sqrt2_31 / 2 ^ 31 - 1 / 2 ^ 36 \<le> sqrt 2" by (rule real_le_rsqrt)
  then show "sqrt2_31 / 2 ^ 31 \<le> sqrt 2 + 1 / 2 ^ 36" by simp
qed

lemma product_real:
  fixes e :: int
  assumes M: "2 ^ 31 \<le> M" "M < 2 ^ 32" "even M" and i: "i \<le> 2"
  defines "V \<equiv> wrap32 (FX_UMUL (fx_core_isqrt M e i) M 31)" and "t \<equiv> rho (estimate M i) M * (sqm M * parity_factor e)"
  shows "0 \<le> V" "V < 2 ^ 32" "2 ^ 31 * t - 3 \<le> V" "V \<le> 2 ^ 31 * t + 1 / 8"
proof -
  define E where "E = estimate M i"
  note n = estimate_near [OF M(1,2) i, folded E_def] and s = sqm_bounds [OF M(1,2)]
  note fit = product_fits [OF M i, folded E_def] and p = rho_product [OF M(1,2), of E]
  have r: "rho E M \<le> 101 / 100" using n(3) by (simp split: if_splits)
  have rs: "0 \<le> rho E M * sqm M" "rho E M * sqm M \<le> 101 / 100 * 1.4143"
  proof -
    show "0 \<le> rho E M * sqm M" using n(1) s(1) by (simp add: rho_def)
    show "rho E M * sqm M \<le> 101 / 100 * 1.4143" using r s by (intro mult_mono) simp_all
  qed
  show "0 \<le> V" "V < 2 ^ 32" by (simp_all add: V_def wrap32_def)
  have "2 ^ 31 * t - 3 \<le> V \<and> V \<le> 2 ^ 31 * t + 1 / 8"
  proof (cases "e mod 2 = 1")
    case False
    then have t: "t = real_of_int (E * M) / 2 ^ 62" using p by (simp add: t_def parity_factor_def E_def)
    have "V = E * M div 2 ^ 31"
      using fit(2) n(1) M(1) False core_isqrt_estimate [OF i, of M e] by (simp add: V_def FX_UMUL_def wrap32_def E_def pos_imp_zdiv_nonneg_iff)
    then show ?thesis using div_real [of "2 ^ 31" "E * M"] by (simp add: t)
  next
    case True
    define F where "F = E * sqrt2_31 div 2 ^ 31"
    have "real_of_int E * 1 \<le> real_of_int E * sqm M" using n(1) s(1) by (intro mult_left_mono) simp_all
    then have "real_of_int E \<le> 101 / 100 * 2 ^ 31" using r by (simp add: rho_def mult.commute)
    then have "E \<le> 2168958484" by simp
    then have "E * sqrt2_31 < 2 ^ 63" by simp
    then have F: "0 \<le> F" "F < 2 ^ 32" "F * M < 2 ^ 63" using n(1) fit(1) by (simp_all add: F_def pos_imp_zdiv_nonneg_iff)
    have "fx_core_isqrt M e i = F" using F(1,2) True core_isqrt_estimate [OF i, of M e] by (simp add: F_def E_def FX_UMUL_def wrap32_def)
    then have V: "V = F * M div 2 ^ 31" using F M(1) by (simp add: V_def FX_UMUL_def wrap32_def pos_imp_zdiv_nonneg_iff)
    define q where "q = rho E M * sqm M"
    define m where "m = real_of_int M / 2 ^ 31"
    have m: "1 \<le> m" "m < 2" using M by (simp_all add: m_def field_simps)
    have t: "t = q * sqrt 2" using True by (simp add: t_def q_def parity_factor_def E_def)
    define k :: real where "k = sqrt2_31 / 2 ^ 31"
    have k: "q * sqrt 2 \<le> q * k" "q * k \<le> q * sqrt 2 + q / 2 ^ 36"
      using mult_left_mono [OF sqrt2_31(1) rs(1)] mult_left_mono [OF sqrt2_31(2) rs(1)]
      unfolding q_def [symmetric] k_def [symmetric] by (simp_all add: distrib_left)
    have q: "q / 2 ^ 36 * 2 ^ 31 \<le> 1 / 8" using rs [folded q_def] by simp
    define G where "G = real_of_int (E * sqrt2_31) / 2 ^ 31"
    have Gm: "G * m = 2 ^ 31 * (q * k)" using p by (simp add: G_def k_def q_def m_def field_simps)
    have F1: "real_of_int F \<le> G" "G - 1 \<le> real_of_int F"
      using div_real [of "2 ^ 31" "E * sqrt2_31"] by (simp_all add: F_def G_def)
    have V1: "real_of_int V \<le> real_of_int F * m" "real_of_int F * m - 1 \<le> real_of_int V"
      using div_real [of "2 ^ 31" "F * M"] by (simp_all add: V m_def)
    have "real_of_int F * m \<le> 2 ^ 31 * (q * k)" "2 ^ 31 * (q * k) - m \<le> real_of_int F * m"
      using mult_right_mono [OF F1(1), of m] mult_right_mono [OF F1(2), of m] m by (simp_all only: left_diff_distrib Gm) simp_all
    then show ?thesis using V1 m k q unfolding t by simp
  qed
  then show "2 ^ 31 * t - 3 \<le> V" "V \<le> 2 ^ 31 * t + 1 / 8" by blast+
qed

section \<open>The square root\<close>

lemma width_31:
  assumes "0 < x" "x \<le> INT_MAX"
  shows "width x \<le> 31"
proof (rule ccontr)
  assume "\<not> width x \<le> 31"
  then have "(2 :: int) ^ 31 \<le> 2 ^ (width x - 1)" by (intro power_increasing) simp_all
  then show False using width_bounds [OF assms(1)] assms(2) by simp
qed

lemma fx_sqrtx_runs:
  assumes x: "0 < x" "x \<le> INT_MAX" and f: "f \<le> 31"
  defines "M \<equiv> x * 2 ^ (32 - width x)" and "e \<equiv> int (width x) - 1 - int f" and "n \<equiv> (width x - 1 + f) div 2"
  shows "2 ^ 31 \<le> M" "M < 2 ^ 32" "even M" "n \<le> 30"
    "fx_sqrtx x f = rbind (shift_right (wrap32 (FX_UMUL (fx_core_isqrt M e ([0, 1, 2, 2] ! (n div 8))) M 31)) (31 - int n)) (\<lambda>est. returns (s32 est))"
    "sqrt (x * 2 ^ f) = sqm M * parity_factor e * 2 ^ n"
proof -
  have w: "0 < width x" "2 ^ (width x - 1) \<le> x" "x < 2 ^ width x" using width_bounds [OF x(1)] by simp_all
  have w31: "width x \<le> 31" using x by (rule width_31)
  define z where "z = 32 - width x"
  have z: "0 < z" "width x = 32 - z" "z < 32" using w(1) w31 by (simp_all add: z_def)
  have "(2 :: int) ^ 31 = 2 ^ (width x - 1) * 2 ^ z" using w(1) w31 by (simp add: z_def flip: power_add)
  also have "\<dots> \<le> M" unfolding M_def z_def [symmetric] using w(2) by (intro mult_right_mono) simp_all
  finally show M1: "2 ^ 31 \<le> M" .
  have "M < 2 ^ width x * 2 ^ z" unfolding M_def z_def [symmetric] using w(3) by (intro mult_strict_right_mono) simp_all
  also have "\<dots> = 2 ^ 32" using w31 by (simp add: z_def flip: power_add)
  finally show M2: "M < 2 ^ 32" .
  show "even M" using z(1) by (simp add: M_def flip: z_def)
  show n: "n \<le> 30" using w31 f by (simp add: n_def)
  have norm: "FX_NORMALIZE x f = (M, e)"
    using z M1 M2 by (simp add: FX_NORMALIZE_def fx_clz_def Let_def wrap32_def e_def M_def nat_diff_distrib flip: z_def)
  have en: "e div 2 + int f = int n"
    unfolding e_def n_def using w(1) by (simp add: zdiv_int of_nat_diff)
  then have e2: "e div 2 = int n - int f" by linarith
  have "int n div 8 = int (n div 8)" by (simp add: zdiv_int)
  moreover have "n div 8 < 4" using n by simp
  ultimately show "fx_sqrtx x f = rbind (shift_right (wrap32 (FX_UMUL (fx_core_isqrt M e ([0, 1, 2, 2] ! (n div 8))) M 31)) (31 - int n)) (\<lambda>est. returns (s32 est))"
    using x f by (simp add: fx_sqrtx_def norm e2)
  have p: "parity_factor e * parity_factor e = 2 ^ ((width x - 1 + f) mod 2)"
  proof -
    have "e mod 2 = int ((width x - 1 + f) mod 2)" unfolding e_def using w(1) by (simp add: zmod_int of_nat_diff) presburger
    then show ?thesis by (cases "(width x - 1 + f) mod 2 = 1") (simp_all add: parity_factor_def)
  qed
  have "(sqm M * parity_factor e * 2 ^ n) ^ 2 = (sqm M * sqm M) * (parity_factor e * parity_factor e) * (2 ^ n * 2 ^ n)"
    by (simp add: power2_eq_square algebra_simps)
  also have "\<dots> = M / 2 ^ 31 * 2 ^ ((width x - 1 + f) mod 2) * 2 ^ (2 * n)"
    using sqm_bounds(3) [OF M1 M2] by (simp add: p mult_2 flip: power_add)
  also have "\<dots> = x * 2 ^ z / 2 ^ 31 * 2 ^ (width x - 1 + f)"
    by (simp add: M_def n_def z_def flip: power_add)
  also have "\<dots> = x * 2 ^ f * ((2 ^ z * 2 ^ (31 - z)) / 2 ^ 31)"
  proof -
    have "width x - 1 + f = f + (31 - z)" using z by simp
    then show ?thesis by (simp add: power_add)
  qed
  also have "\<dots> = x * 2 ^ f" using z by (simp flip: power_add)
  finally have "sqrt (x * 2 ^ f) = \<bar>sqm M * parity_factor e * 2 ^ n\<bar>" by (metis real_sqrt_abs)
  also have "\<dots> = sqm M * parity_factor e * 2 ^ n" using sqm_bounds(1) [OF M1 M2] by (simp add: parity_factor_def)
  finally show "sqrt (x * 2 ^ f) = sqm M * parity_factor e * 2 ^ n" .
qed

lemma error_of_root:
  assumes M: "2 ^ 31 \<le> M" "M < 2 ^ 32" and n: "n \<le> 27" and i: "i = [0, 1, 2, 2] ! (n div 8)"
  shows "\<bar>(rho (estimate M i) M - 1) * (sqm M * parity_factor e * 2 ^ n)\<bar> \<le> 3 / 4" "i \<le> 2"
proof -
  have s: "1 \<le> sqm M" "sqm M < 1.4143" using sqm_bounds [OF M] by simp_all
  have "sqrt 2 \<le> 1.4143" by (intro real_le_lsqrt) (simp_all add: power2_eq_square)
  then have c: "0 \<le> parity_factor e" "parity_factor e \<le> 1.4143" by (simp_all add: parity_factor_def)
  have "sqm M * parity_factor e \<le> 1.4143 * 1.4143" using s c by (intro mult_mono) simp_all
  then have sc: "0 \<le> sqm M * parity_factor e" "sqm M * parity_factor e \<le> 2001 / 1000" using s c by simp_all
  define R where "R = sqm M * parity_factor e * 2 ^ n"
  have R: "\<bar>R\<bar> \<le> 2001 / 1000 * 2 ^ k" if "n \<le> k" for k
  proof -
    have "(2 :: real) ^ n \<le> 2 ^ k" using that by (intro power_increasing) simp_all
    then have "R \<le> 2001 / 1000 * 2 ^ k" unfolding R_def using sc by (intro mult_mono) simp_all
    then show ?thesis using sc by (simp add: R_def)
  qed
  define d where "d = rho (estimate M i) M - 1"
  have D: "\<bar>d * R\<bar> \<le> 3 / 4" if "\<bar>d\<bar> \<le> b" "n \<le> k" "b * (2001 / 1000 * 2 ^ k) \<le> 3 / 4" for b k
  proof -
    have "\<bar>d\<bar> * \<bar>R\<bar> \<le> b * (2001 / 1000 * 2 ^ k)" using R [OF that(2)] that(1) by (intro mult_mono) simp_all
    then show ?thesis using that(3) by (simp add: abs_mult)
  qed
  have "n div 8 < 4" using n by simp
  then consider "n div 8 = 0" | "n div 8 = 1" | "n div 8 = 2" | "n div 8 = 3" by linarith
  then have "(i = 0 \<and> n \<le> 7) \<or> (i = 1 \<and> n \<le> 15) \<or> i = 2" by cases (simp_all add: i)
  then consider "i = 0" "n \<le> 7" | "i = 1" "n \<le> 15" | "i = 2" by blast
  then have "\<bar>d * R\<bar> \<le> 3 / 4 \<and> i \<le> 2"
  proof cases
    case 1
    have "\<bar>d\<bar> \<le> 271 / 10 ^ 5" using estimate_near [OF M, of i] 1 by (intro abs_leI) (simp_all add: d_def estimate_error_def)
    then show ?thesis using D [OF _ 1(2), of "271 / 10 ^ 5"] 1 by simp
  next
    case 2
    have "\<bar>d\<bar> \<le> 1103 / 10 ^ 8" using estimate_near [OF M, of i] 2 by (intro abs_leI) (simp_all add: d_def estimate_error_def)
    then show ?thesis using D [OF _ 2(2), of "1103 / 10 ^ 8"] 2 by simp
  next
    case 3
    have "\<bar>d\<bar> \<le> 2 / 10 ^ 9" using estimate_near [OF M, of i] 3 by (intro abs_leI) (simp_all add: d_def estimate_error_def)
    then show ?thesis using D [OF _ n, of "2 / 10 ^ 9"] 3 by simp
  qed
  then show "\<bar>(rho (estimate M i) M - 1) * (sqm M * parity_factor e * 2 ^ n)\<bar> \<le> 3 / 4" "i \<le> 2" by (simp_all add: d_def R_def)
qed

text \<open>[C27] The square root of a positive number with at most 25 fraction bits is within two units of the last place of the real
  square root, whatever number of Newton steps the magnitude selects, and every shift of the computation is in range.\<close>

theorem sqrt_accurate:
  assumes "0 < x" "x \<le> INT_MAX" "f \<le> 25"
  shows "\<exists>r. fx_sqrtx x f = returns r \<and> \<bar>real_of_int r - sqrt (x * 2 ^ f)\<bar> < 2"
proof -
  define M where "M = x * 2 ^ (32 - width x)"
  define e where "e = int (width x) - 1 - int f"
  define n where "n = (width x - 1 + f) div 2"
  define i :: nat where "i = [0, 1, 2, 2] ! (n div 8)"
  have f: "f \<le> 31" using assms(3) by simp
  note run = fx_sqrtx_runs [OF assms(1,2) f, folded M_def e_def n_def]
  have "width x \<le> 31" using assms(1,2) by (rule width_31)
  then have n: "n \<le> 27" using assms(3) by (simp add: n_def)
  note err = error_of_root(1) [OF run(1,2) n i_def, of e] and i = error_of_root(2) [OF run(1,2) n i_def]
  define V where "V = wrap32 (FX_UMUL (fx_core_isqrt M e i) M 31)"
  define R where "R = sqm M * parity_factor e * 2 ^ n"
  define q where "q = rho (estimate M i) M"
  define D :: int where "D = 2 ^ (31 - n)"
  note V = product_real [OF run(1-3) i, of e, folded V_def q_def]
  have D: "16 \<le> D"
  proof -
    have "(2 :: int) ^ 4 \<le> 2 ^ (31 - n)" using n by (intro power_increasing) simp_all
    then show ?thesis by (simp add: D_def)
  qed
  have "(2 :: real) ^ 31 = 2 ^ n * 2 ^ (31 - n)" using n by (simp flip: power_add)
  then have t: "2 ^ 31 * (q * (sqm M * parity_factor e)) = q * R * D" by (simp add: R_def D_def)
  have "V div D \<le> V div 16" using V(1) D by (intro zdiv_mono2) simp_all
  then have "V div D < 2 ^ 28" "0 \<le> V div D" using V(1,2) D by (simp_all add: pos_imp_zdiv_nonneg_iff)
  then have s: "s32 (V div D) = V div D" by (intro s32_id) simp_all
  have "fx_sqrtx x f = returns (V div D)"
    unfolding run(5) i_def [symmetric] V_def [symmetric] using n s by (simp add: shift_right_def D_def nat_diff_distrib)
  moreover have "\<bar>real_of_int (V div D) - R\<bar> < 2"
  proof -
    have d: "real_of_int (V div D) \<le> V / D" "V / D - 1 < real_of_int (V div D)" using div_real [of D V] D by simp_all
    have "V / D \<le> q * R + 1 / 128" "q * R - 3 / 16 \<le> V / D"
    proof -
      have "16 \<le> real_of_int D" using D by simp
      then show "V / D \<le> q * R + 1 / 128" "q * R - 3 / 16 \<le> V / D"
        using V(3,4) unfolding t by (simp_all add: field_simps)
    qed
    moreover have "\<bar>q * R - R\<bar> \<le> 3 / 4" using err by (simp add: q_def R_def left_diff_distrib)
    ultimately show ?thesis using d by linarith
  qed
  ultimately show ?thesis using run(6) by (auto simp: R_def)
qed

theorem sqrt_accurate_witness: "fx_sqrtx 512 8 = returns 362 \<and> \<bar>362 - sqrt (512 * 2 ^ 8 :: real)\<bar> < 2"
proof -
  have "fx_sqrtx 512 8 = returns 362" by code_simp
  then show ?thesis using sqrt_accurate [of 512 8] by (simp add: returns_def)
qed

end
