(* ===== verification/FixmathStr.thy ===== *)
theory FixmathStr
  imports Complex_Main FixmathArith
begin

text \<open>
  The string conversions of the fixed-point library, \<^verbatim>\<open>luafixmath/fixmath_str.c\<close>: integers and fixed-point numbers to decimal
  strings. A string is written without its terminating zero and its length is the result of the C function; a null pointer
  is an argument of its own, and the answer \<open>None\<close> is the result -1 with \<^verbatim>\<open>errno\<close> set. The memory behind a string pointer is
  large enough; the local buffer of \<^verbatim>\<open>fx_xtoa\<close> is a list that starts with the character before the digits.
\<close>

section \<open>The conversions\<close>

definition ascii :: "int \<Rightarrow> char" where "ascii d = char_of (48 + d)"
definition digit_of :: "char \<Rightarrow> int" where "digit_of c = of_char c - 48"

definition times_tenth :: "int \<Rightarrow> int" where "times_tenth u = wrap32 (FX_UMUL u 0xcccccccd 35)"

lemma times_tenth_less: "0 < u \<Longrightarrow> nat (times_tenth u) < nat u"
proof -
  assume u: "0 < u"
  have "u * 0xcccccccd < u * 2 ^ 35" using u by (intro mult_strict_left_mono) simp_all
  then have "u * 0xcccccccd div 2 ^ 35 < u" by simp
  moreover have "0 \<le> u * 0xcccccccd div 2 ^ 35" using u by (simp add: pos_imp_zdiv_nonneg_iff)
  moreover have "wrap32 v \<le> v" if "0 \<le> v" for v using that by (simp add: wrap32_def zmod_le_nonneg_dividend)
  ultimately have "times_tenth u < u" unfolding times_tenth_def FX_UMUL_def by (meson le_less_trans)
  then show ?thesis using u by simp
qed

function utoa_loop :: "int \<Rightarrow> string result" where
  "utoa_loop u =
     (if u \<le> 0 then Inr []
      else
        let qt = times_tenth u; rm = wrap32 (u - wrap32 (qt * 8) - wrap32 (qt * 2))
        in if qt = u div 10 \<and> rm = u mod 10 then rbind (utoa_loop qt) (\<lambda>s. Inr (ascii rm # s)) else Inl AssertFailed)"
  by pat_completeness auto

termination by (relation "measure nat") (use times_tenth_less in \<open>auto simp: Let_def\<close>)

declare utoa_loop.simps [simp del]

function reverse_loop :: "string \<Rightarrow> nat \<Rightarrow> nat \<Rightarrow> string" where
  "reverse_loop str i j = (if i < j then reverse_loop (str[i := str ! j, j := str ! i]) (i + 1) (j - 1) else str)"
  by pat_completeness auto

termination by (relation "measure (\<lambda>(_, i, j). j - i)") auto

declare reverse_loop.simps [simp del]

definition fx_utoa32 :: "int \<Rightarrow> string result" where
  "fx_utoa32 uval =
     (if uval = 0 then Inr [ascii 0]
      else rbind (utoa_loop uval) (\<lambda>str. Inr (reverse_loop str 0 (length str - 1))))"

definition fx_utoa64 :: "int \<Rightarrow> string result" where
  "fx_utoa64 uval =
     (let hi = uval div 2 ^ 32;
          rm = (if hi \<noteq> 0 then uval mod 10 else 0);
          lo = (if hi \<noteq> 0 then wrap32 (uval div 10) else wrap32 uval)
      in rbind (fx_utoa32 lo) (\<lambda>str. Inr (if hi \<noteq> 0 then str @ [ascii rm] else str)))"

definition fx_itoa :: "bool \<Rightarrow> int \<Rightarrow> string option result" where
  "fx_itoa null val =
     (if null then Inr None
      else if val < 0 then rbind (fx_utoa32 (wrap32 (s32 (- val)))) (\<lambda>str. Inr (Some (CHR ''-'' # str)))
      else rbind (fx_utoa32 (wrap32 val)) (\<lambda>str. Inr (Some str)))"

text \<open>The rounding loop of \<^verbatim>\<open>fx_round_str\<close>; its third argument is the index into the buffer of the digit that was last visited.\<close>

primrec round_loop :: "bool \<Rightarrow> string \<Rightarrow> nat \<Rightarrow> string" where
  "round_loop carry buf 0 = buf"
| "round_loop carry buf (Suc i) =
     (if carry
      then let digit = digit_of (buf ! i) + 1; carry = (digit > 9)
           in round_loop carry (buf[i := ascii (if carry then 0 else digit)]) i
      else buf)"

definition fx_round_str :: "string \<Rightarrow> nat \<Rightarrow> string" where
  "fx_round_str buf e = round_loop (of_char (buf ! (e + 1)) \<ge> (of_char (CHR ''5'') :: int)) buf (e + 1)"

definition etab :: "nat list" where
  "etab = [0, 1, 1, 1, 2, 2, 2, 3, 3, 3, 4, 4, 4, 4, 5, 5, 5, 6, 6, 6, 7, 7, 7, 7, 8, 8, 8, 9, 9, 9, 10, 10]"

definition mtab :: "int list" where
  "mtab = [1, 10, 100, 1000, 10000, 100000, 1000000, 10000000, 100000000, 1000000000, 0x540BE400]"

definition xtoa_decimal :: "int \<Rightarrow> nat \<Rightarrow> int" where
  "xtoa_decimal uval fr =
     (let e10 = etab ! fr; dec = FX_UMUL uval (mtab ! e10) fr
      in if e10 = 10 then (dec + uval * 2 ^ (33 - fr)) mod 2 ^ 64 else dec)"

definition exponent_string :: "int \<Rightarrow> string" where
  "exponent_string e10 =
     (if e10 = 0 then []
      else [CHR ''e'', if e10 < 0 then CHR ''-'' else CHR ''+''] @ (if \<bar>e10\<bar> < 10 then [CHR ''0'', ascii \<bar>e10\<bar>] else [CHR ''1'', CHR ''0'']))"

definition mantissa_string :: "string \<Rightarrow> nat \<Rightarrow> nat \<Rightarrow> nat \<Rightarrow> string" where
  "mantissa_string buf pos digits len =
     buf ! pos #
     (if digits \<noteq> 0
      then let n = min digits (len - 1) in CHR ''.'' # take n (drop (pos + 1) buf) @ replicate (digits - n) (CHR ''0'')
      else [])"

definition fx_xtoa :: "bool \<Rightarrow> int \<Rightarrow> nat \<Rightarrow> nat \<Rightarrow> string option result" where
  "fx_xtoa null xval fr digits =
     (if null \<or> fr > 31 then Inr None
      else if xval = 0
      then Inr (Some (CHR ''0'' # (if digits \<noteq> 0 then CHR ''.'' # replicate digits (CHR ''0'') else [])))
      else
        let sign = (if xval < 0 then [CHR ''-''] else []); uval = wrap32 \<bar>xval\<bar>; e10 = int (etab ! fr)
        in rbind (fx_utoa64 (xtoa_decimal uval fr)) (\<lambda>str.
             let buf = CHR ''0'' # str; len = length str
             in if len \<ge> 12 then Inl AssertFailed
                else if digits \<ge> 2 ^ 31 then Inl OutOfBounds
                else
                  let rounded = digits < len - 1; buf = (if rounded then fx_round_str buf (digits + 1) else buf);
                      pos = (if rounded then if buf ! 0 = CHR ''0'' then 1 else 0 else 1);
                      e10 = int len + (if pos = 0 then 1 else 0) - e10 - 1;
                      out = sign @ mantissa_string buf pos digits len @ exponent_string e10
                  in if CHR 0x00 \<in> set out then Inl AssertFailed else Inr (Some out)))"

section \<open>Integers\<close>

definition decval :: "string \<Rightarrow> int" where "decval = foldl (\<lambda>a c. a * 10 + digit_of c) 0"

definition decimal_digit :: "char \<Rightarrow> bool" where "decimal_digit c \<longleftrightarrow> 0 \<le> digit_of c \<and> digit_of c \<le> 9"

lemma digit_of_ascii [simp]: "0 \<le> d \<Longrightarrow> d \<le> 9 \<Longrightarrow> digit_of (ascii d) = d"
  by (simp add: digit_of_def ascii_def)

lemma decimal_digit_ascii [simp]: "0 \<le> d \<Longrightarrow> d \<le> 9 \<Longrightarrow> decimal_digit (ascii d)"
  by (simp add: decimal_digit_def)

lemma decval_Nil [simp]: "decval [] = 0" by (simp add: decval_def)

lemma decval_snoc [simp]: "decval (s @ [c]) = decval s * 10 + digit_of c" by (simp add: decval_def)

lemma decval_nonneg: "list_all decimal_digit s \<Longrightarrow> 0 \<le> decval s"
  by (induction s rule: rev_induct) (simp_all add: decimal_digit_def)

lemma decval_append: "decval (s @ t) = decval s * 10 ^ length t + decval t"
proof (induction t rule: rev_induct)
  case (snoc c t)
  then show ?case using decval_snoc [of "s @ t" c] by (simp add: algebra_simps)
qed simp

lemma decval_Cons: "decval (c # s) = digit_of c * 10 ^ length s + decval s"
  using decval_append [of "[c]" s] decval_snoc [of "[]" c] by simp

lemma decval_less: "list_all decimal_digit s \<Longrightarrow> decval s < 10 ^ length s"
proof (induction s rule: rev_induct)
  case (snoc c s)
  then have "decval s + 1 \<le> 10 ^ length s" "digit_of c \<le> 9" by (simp_all add: decimal_digit_def)
  then show ?case by simp
qed simp

lemma decval_zeros [simp]: "decval (replicate n (CHR ''0'')) = 0"
  by (induction n) (simp_all add: decval_Cons digit_of_def)

text \<open>The division by ten through a multiplication.\<close>

lemma times_tenth: "0 \<le> u \<Longrightarrow> u < 2 ^ 32 \<Longrightarrow> times_tenth u = u div 10"
proof -
  assume u: "0 \<le> u" "u < 2 ^ 32"
  define q r where "q = u div 10" and "r = u mod 10"
  have "u = 10 * q + r" "0 \<le> r" "r < 10" "0 \<le> q" using u by (simp_all add: q_def r_def)
  then have "u * 0xcccccccd = q * 2 ^ 35 + (2 * q + r * 0xcccccccd)" "0 \<le> 2 * q + r * 0xcccccccd" "2 * q + r * 0xcccccccd < 2 ^ 35"
    using u(2) by simp_all
  then have "u * 0xcccccccd div 2 ^ 35 = q" by (intro int_div_pos_eq [where r = "2 * q + r * 0xcccccccd"]) simp_all
  then show ?thesis using u by (simp add: times_tenth_def FX_UMUL_def wrap32_def q_def)
qed

lemma utoa_loop:
  "0 < u \<Longrightarrow> u < 2 ^ 32 \<Longrightarrow>
   \<exists>s. utoa_loop u = Inr s \<and> s \<noteq> [] \<and> list_all decimal_digit s \<and> decval (rev s) = u \<and> 0 < digit_of (last s)"
proof (induction u rule: utoa_loop.induct)
  case (1 u)
  have q: "times_tenth u = u div 10" using 1 by (intro times_tenth) simp_all
  have r: "wrap32 (u - wrap32 (u div 10 * 8) - wrap32 (u div 10 * 2)) = u mod 10"
  proof -
    have "wrap32 (u div 10 * 8) = u div 10 * 8" "wrap32 (u div 10 * 2) = u div 10 * 2" using 1(2,3) by (simp_all add: wrap32_def)
    moreover have "u - u div 10 * 8 - u div 10 * 2 = u mod 10" by presburger
    ultimately show ?thesis using pos_mod_bound [of 10 u] pos_mod_sign [of 10 u] by (simp add: wrap32_def)
  qed
  have l: "utoa_loop u = rbind (utoa_loop (u div 10)) (\<lambda>s. Inr (ascii (u mod 10) # s))"
    using 1(2) by (subst utoa_loop.simps) (simp add: Let_def q r)
  have m: "0 \<le> u mod 10" "u mod 10 \<le> 9" using pos_mod_bound [of 10 u] pos_mod_sign [of 10 u] by simp_all
  show ?case
  proof (cases "u div 10 = 0")
    case True
    then have "utoa_loop (u div 10) = Inr []" by (simp add: utoa_loop.simps)
    moreover have "u mod 10 = u" using True 1(2) by simp
    ultimately show ?thesis using l m 1(2) decval_snoc [of "[]" "ascii u"] by simp
  next
    case False
    then have "0 < u div 10" "u div 10 < 2 ^ 32" using 1(2,3) by simp_all
    then obtain s where "utoa_loop (u div 10) = Inr s" "s \<noteq> []" "list_all decimal_digit s" "decval (rev s) = u div 10" "0 < digit_of (last s)"
      using 1(1) [OF _ refl refl] 1(2) q r by auto
    then show ?thesis using l m by simp
  qed
qed

lemma reverse_loop:
  assumes "length c = n"
  shows "reverse_loop (a @ c @ b) (length a) (length a + n - 1) = a @ rev c @ b"
  using assms
proof (induction n arbitrary: a b c rule: less_induct)
  case (less n)
  show ?case
  proof (cases "n \<le> 1")
    case True
    then have "rev c = c" using less.prems by (cases c) auto
    moreover have "\<not> length a < length a + n - 1" using True by linarith
    ultimately show ?thesis by (subst reverse_loop.simps) simp
  next
    case False
    then obtain x d y where c: "c = x # d @ [y]" using less.prems by (cases c; cases "tl c" rule: rev_cases) auto
    define j where "j = length a + n - 1"
    have j: "j = length (a @ x # d)" "length a < j" "length d = n - 2" using c less.prems by (simp_all add: j_def)
    let ?s = "a @ c @ b"
    have "?s ! length a = x" by (simp add: c)
    moreover have "?s ! j = y" using nth_append_length [of "a @ x # d" y b] by (simp add: c j(1))
    moreover have "?s[length a := y, j := x] = (a @ [y]) @ d @ [x] @ b"
    proof -
      have "?s[length a := y] = (a @ y # d) @ y # b" by (simp add: c)
      moreover have "j = length (a @ y # d)" using j(1) by simp
      ultimately show ?thesis using list_update_length [of "a @ y # d" y b x] by simp
    qed
    ultimately have "reverse_loop ?s (length a) j = reverse_loop ((a @ [y]) @ d @ [x] @ b) (length (a @ [y])) (j - 1)"
      using j(2) by (subst reverse_loop.simps) simp
    moreover have "length (a @ [y]) + length d - 1 = j - 1" using j(1) by simp
    moreover have "length d < n" using False j(3) by simp
    ultimately have "reverse_loop ?s (length a) j = a @ rev c @ b" using less.IH [of "length d" d "a @ [y]" "[x] @ b"] by (simp add: c)
    then show ?thesis unfolding j_def .
  qed
qed

lemma fx_utoa32_digits:
  assumes "0 \<le> u" "u < 2 ^ 32"
  obtains s where "fx_utoa32 u = Inr s" "list_all decimal_digit s" "decval s = u" "s \<noteq> []" "0 < u \<longrightarrow> 0 < digit_of (hd s)"
proof (cases "u = 0")
  case True
  then show ?thesis using that [of "[ascii 0]"] decval_snoc [of "[]" "ascii 0"] by (simp add: fx_utoa32_def)
next
  case False
  then obtain s where s: "utoa_loop u = Inr s" "s \<noteq> []" "list_all decimal_digit s" "decval (rev s) = u" "0 < digit_of (last s)"
    using utoa_loop [of u] assms by auto
  have "fx_utoa32 u = Inr (rev s)" using False s(1) reverse_loop [of s "length s" "[]" "[]"] by (simp add: fx_utoa32_def)
  then show ?thesis using that [of "rev s"] s by (simp add: list_all_iff hd_rev)
qed

lemma fx_utoa64_digits:
  assumes "0 \<le> u" "u < 10 * 2 ^ 32"
  obtains s where "fx_utoa64 u = Inr s" "list_all decimal_digit s" "decval s = u" "s \<noteq> []" "0 < u \<longrightarrow> 0 < digit_of (hd s)"
proof (cases "u div 2 ^ 32 = 0")
  case True
  then have u: "u < 2 ^ 32" using assms(1) by (auto simp: zdiv_eq_0_iff)
  then have "fx_utoa64 u = rbind (fx_utoa32 u) Inr" using assms(1) True by (simp add: fx_utoa64_def Let_def wrap32_def)
  moreover obtain s where "fx_utoa32 u = Inr s" "list_all decimal_digit s" "decval s = u" "s \<noteq> []" "0 < u \<longrightarrow> 0 < digit_of (hd s)"
    using fx_utoa32_digits [OF assms(1) u] by metis
  ultimately show ?thesis using that [of s] by simp
next
  case False
  then have u: "2 ^ 32 \<le> u" using assms(1) by (simp add: zdiv_eq_0_iff)
  have t: "0 \<le> u div 10" "u div 10 < 2 ^ 32" "0 < u div 10" using assms u by simp_all
  obtain s where s: "fx_utoa32 (u div 10) = Inr s" "list_all decimal_digit s" "decval s = u div 10" "s \<noteq> []" "0 < digit_of (hd s)"
    using fx_utoa32_digits [OF t(1,2)] t(3) by metis
  have m: "0 \<le> u mod 10" "u mod 10 \<le> 9" using pos_mod_bound [of 10 u] by simp_all
  have "fx_utoa64 u = Inr (s @ [ascii (u mod 10)])" using False t s(1) by (simp add: fx_utoa64_def Let_def wrap32_def)
  then show ?thesis using that [of "s @ [ascii (u mod 10)]"] s m by simp
qed

text \<open>A decimal string as an integer.\<close>

definition read_int :: "string \<Rightarrow> int" where
  "read_int s = (case s of [] \<Rightarrow> 0 | c # t \<Rightarrow> if c = CHR ''-'' then - decval t else decval s)"

text \<open>An integer is written as its decimal digits, the least one included, and reads back; the reciprocal multiplication
  that replaces the division by ten never fails its check.\<close>

theorem itoa_roundtrip:
  assumes "in_s32 v"
  shows "\<exists>s. fx_itoa False v = Inr (Some s) \<and> read_int s = v \<and> list_all decimal_digit (if v < 0 then tl s else s) \<and> (v < 0 \<longleftrightarrow> hd s = CHR ''-'')"
proof -
  have "\<bar>v\<bar> < 2 ^ 32" using assms by (simp add: in_s32_def abs_less_iff)
  then have a: "0 \<le> wrap32 \<bar>v\<bar>" "wrap32 \<bar>v\<bar> < 2 ^ 32" "wrap32 \<bar>v\<bar> = \<bar>v\<bar>" by (simp_all add: wrap32_def)
  have w: "wrap32 (s32 w) = wrap32 w" for w by (simp add: wrap32_def s32_def mod_diff_left_eq)
  obtain s where s: "fx_utoa32 (wrap32 \<bar>v\<bar>) = Inr s" "list_all decimal_digit s" "decval s = \<bar>v\<bar>" "s \<noteq> []"
    using fx_utoa32_digits [OF a(1,2)] a(3) by metis
  have "hd s \<noteq> CHR ''-''" using s(2,4) by (cases s) (auto simp: decimal_digit_def digit_of_def)
  then show ?thesis using s by (cases s) (auto simp: fx_itoa_def read_int_def w)
qed

theorem itoa_roundtrip_witness: "\<exists>s. fx_itoa False (- 2147483648) = Inr (Some s) \<and> read_int s = - 2147483648"
  using itoa_roundtrip [of "- 2147483648"] by (auto simp: in_s32_def)

section \<open>The decimal number\<close>

definition etab_ok :: "nat \<Rightarrow> bool" where
  "etab_ok f \<longleftrightarrow> (let e = etab ! f in e \<le> 10 \<and> (2 :: int) ^ f \<le> 10 ^ e \<and> (10 :: int) ^ e < 10 * 2 ^ f \<and>
     mtab ! e = (if e = 10 then 10 ^ 10 - 2 ^ 33 else 10 ^ e))"

lemma etab_ok: "f \<le> 31 \<Longrightarrow> etab_ok f"
proof -
  assume "f \<le> 31"
  then have "f \<in> set [0..<32]" by simp
  moreover have "list_all etab_ok [0..<32]" by code_simp
  ultimately show ?thesis by (simp only: list_all_iff)
qed

lemma xtoa_decimal:
  assumes f: "f \<le> 31" and u: "0 \<le> u" "u \<le> 2 ^ 31"
  shows "xtoa_decimal u f = u * 10 ^ (etab ! f) div 2 ^ f"
    "0 \<le> u * 10 ^ (etab ! f) div 2 ^ f" "u * 10 ^ (etab ! f) div 2 ^ f < 10 * 2 ^ 31" "0 < u \<Longrightarrow> 0 < u * 10 ^ (etab ! f) div 2 ^ f"
proof -
  let ?e = "etab ! f"
  have ok: "?e \<le> 10" "(2 :: int) ^ f \<le> 10 ^ ?e" "(10 :: int) ^ ?e < 10 * 2 ^ f" "mtab ! ?e = (if ?e = 10 then 10 ^ 10 - 2 ^ 33 else 10 ^ ?e)"
    using etab_ok [OF f] by (simp_all add: etab_ok_def Let_def)
  show n: "0 \<le> u * 10 ^ ?e div 2 ^ f" using u by (simp add: pos_imp_zdiv_nonneg_iff)
  show l: "u * 10 ^ ?e div 2 ^ f < 10 * 2 ^ 31"
  proof (cases "u = 0")
    case False
    then have "u * 10 ^ ?e < u * (10 * 2 ^ f)" using u ok(3) by (intro mult_strict_left_mono) simp_all
    also have "\<dots> \<le> 2 ^ 31 * (10 * 2 ^ f)" using u by (intro mult_right_mono) simp_all
    finally have "u * 10 ^ ?e < 10 * 2 ^ 31 * 2 ^ f" by (simp add: ac_simps)
    moreover have "u * 10 ^ ?e div 2 ^ f * 2 ^ f \<le> u * 10 ^ ?e"
    proof -
      have "0 \<le> u * 10 ^ ?e mod 2 ^ f" by simp
      then show ?thesis using div_mult_mod_eq [of "u * 10 ^ ?e" "2 ^ f"] by linarith
    qed
    ultimately have "u * 10 ^ ?e div 2 ^ f * 2 ^ f < 10 * 2 ^ 31 * 2 ^ f" by linarith
    then show ?thesis by simp
  qed simp
  show "0 < u \<Longrightarrow> 0 < u * 10 ^ ?e div 2 ^ f"
  proof -
    assume "0 < u"
    then have "1 * 10 ^ ?e \<le> u * 10 ^ ?e" by (intro mult_right_mono) simp_all
    then have "2 ^ f \<le> u * 10 ^ ?e" using ok(2) by linarith
    then show "0 < u * 10 ^ ?e div 2 ^ f" by (simp add: pos_imp_zdiv_pos_iff)
  qed
  show "xtoa_decimal u f = u * 10 ^ ?e div 2 ^ f"
  proof (cases "?e = 10")
    case True
    have "(2 :: int) ^ 33 = 2 ^ (33 - f) * 2 ^ f" using f by (simp flip: power_add)
    then have "u * 10 ^ 10 = u * (10 ^ 10 - 2 ^ 33) + u * 2 ^ (33 - f) * 2 ^ f" by (simp add: algebra_simps)
    then have "u * 10 ^ 10 div 2 ^ f = u * (10 ^ 10 - 2 ^ 33) div 2 ^ f + u * 2 ^ (33 - f)" by (simp only: div_mult_self1 power_not_zero zero_neq_numeral) simp
    then show ?thesis using ok(4) True n l by (simp add: xtoa_decimal_def FX_UMUL_def Let_def)
  next
    case False
    then show ?thesis using ok(4) by (simp add: xtoa_decimal_def FX_UMUL_def Let_def)
  qed
qed

section \<open>Rounding the digits\<close>

lemma round_loop_carry:
  assumes "i \<le> length buf" "list_all decimal_digit buf" "decval (take i buf) + 1 < 10 ^ i"
  shows "length (round_loop True buf i) = length buf \<and> list_all decimal_digit (round_loop True buf i) \<and>
    decval (take i (round_loop True buf i)) = decval (take i buf) + 1"
  using assms
proof (induction i arbitrary: buf)
  case (Suc k)
  have k: "k < length buf" using Suc.prems by simp
  have t: "take (Suc k) b = take k b @ [b ! k]" if "length b = length buf" for b :: string using k that by (simp add: take_Suc_conv_app_nth)
  define d where "d = digit_of (buf ! k)"
  have d: "0 \<le> d" "d \<le> 9" using Suc.prems(2) k by (simp_all add: list_all_length decimal_digit_def d_def)
  have upd: "list_all decimal_digit (buf[k := ascii v])" if "0 \<le> v" "v \<le> 9" for v
    using Suc.prems(2) that k by (simp add: list_all_length nth_list_update)
  have F: "round_loop False b i = b" for b i by (cases i) simp_all
  show ?case
  proof (cases "d = 9")
    case False
    then have "round_loop True buf (Suc k) = buf[k := ascii (d + 1)]" using d by (simp add: Let_def F flip: d_def)
    then show ?thesis using d False upd [of "d + 1"] k by (simp add: t flip: d_def)
  next
    case True
    let ?b = "buf[k := ascii 0]"
    have r: "round_loop True buf (Suc k) = round_loop True ?b k" using True by (simp add: Let_def flip: d_def)
    have "decval (take k buf) + 1 < 10 ^ k" using Suc.prems(3) True by (simp add: t flip: d_def)
    then have IH: "length (round_loop True ?b k) = length buf" "list_all decimal_digit (round_loop True ?b k)"
      "decval (take k (round_loop True ?b k)) = decval (take k buf) + 1"
      using Suc.IH [of ?b] k upd [of 0] by simp_all
    have "digit_of (round_loop True ?b k ! k) = 0"
    proof -
      have "round_loop c b j ! i = b ! i" if "j \<le> i" for c b j i
        using that by (induction j arbitrary: c b) (simp_all add: Let_def)
      then have "round_loop True ?b k ! k = ?b ! k" by simp
      then show ?thesis using k by simp
    qed
    then show ?thesis using IH True by (simp add: r t flip: d_def)
  qed
qed simp

lemma fx_round_str:
  assumes s: "list_all decimal_digit s" and e: "0 < e" "e < length s" and D: "D = decval s"
  defines "b \<equiv> fx_round_str (CHR ''0'' # s) e" and "N \<equiv> nearest D (10 ^ (length s - e))"
  shows "length b = Suc (length s)" "list_all decimal_digit b" "decval (take (Suc e) b) = N" "N \<le> 10 ^ e"
proof -
  define r where "r = length s - Suc e"
  define P where "P = decval (take e s)"
  define Q where "Q = decval (drop (Suc e) s)"
  define c where "c = digit_of (s ! e)"
  have split: "s = take e s @ s ! e # drop (Suc e) s" using e by (simp add: id_take_nth_drop)
  have digits: "list_all decimal_digit (take e s)" "list_all decimal_digit (drop (Suc e) s)" "0 \<le> c" "c \<le> 9"
    using s e by (auto simp: list_all_iff c_def decimal_digit_def dest: in_set_takeD in_set_dropD)
  have P: "0 \<le> P" "P < 10 ^ e" using decval_nonneg [OF digits(1)] decval_less [OF digits(1)] e by (simp_all add: P_def)
  have Q: "0 \<le> Q" "Q < 10 ^ r" using decval_nonneg [OF digits(2)] decval_less [OF digits(2)] by (simp_all add: Q_def r_def)
  have r: "length s - e = Suc r" using e by (simp add: r_def)
  have "D = P * 10 ^ Suc r + (c * 10 ^ r + Q)"
    unfolding D by (subst split, subst decval_append) (use e in \<open>simp add: decval_Cons P_def Q_def c_def r_def\<close>)
  then have DD: "2 * D + 10 ^ Suc r = P * (2 * 10 ^ Suc r) + (2 * (c * 10 ^ r + Q) + 10 ^ Suc r)" by simp
  define X where "X = c * 10 ^ r"
  have X: "(if 5 \<le> c then 5 else 0) * 10 ^ r \<le> X" "X \<le> (if 5 \<le> c then 9 else 4) * 10 ^ r"
    unfolding X_def using digits by (intro mult_right_mono; simp)+
  have N: "N = P + (if 5 \<le> c then 1 else 0)"
    unfolding N_def nearest_def r DD X_def [symmetric] using Q X
    by (intro int_div_pos_eq [where r = "2 * (X + Q) + 10 ^ Suc r - (if 5 \<le> c then 2 * 10 ^ Suc r else 0)"])
      (simp_all add: algebra_simps split: if_splits)
  then show "N \<le> 10 ^ e" using P by simp
  have ge: "(of_char ((CHR ''0'' # s) ! (e + 1)) \<ge> (of_char (CHR ''5'') :: int)) \<longleftrightarrow> 5 \<le> c" by (auto simp: c_def digit_of_def)
  have b: "b = round_loop (5 \<le> c) (CHR ''0'' # s) (Suc e)" by (simp only: b_def fx_round_str_def ge Suc_eq_plus1)
  have t: "decval (take (Suc e) (CHR ''0'' # s)) = P" by (simp add: decval_Cons P_def digit_of_def)
  have z: "list_all decimal_digit (CHR ''0'' # s)" using s by (simp add: decimal_digit_def digit_of_def)
  show "length b = Suc (length s)" "list_all decimal_digit b" "decval (take (Suc e) b) = N"
    using round_loop_carry [of "Suc e" "CHR ''0'' # s"] z t P e N unfolding b by (cases "5 \<le> c"; simp)+
qed

section \<open>Reading a number back\<close>

text \<open>The value of a decimal string with a point and an exponent.\<close>

definition read_exponent :: "string \<Rightarrow> int" where
  "read_exponent x = (if length x < 3 then 0 else if x ! 1 = CHR ''-'' then - decval (drop 2 x) else decval (drop 2 x))"

definition read_unsigned :: "string \<Rightarrow> rat" where
  "read_unsigned s =
     (let ds = filter (\<lambda>c. c \<noteq> CHR ''.'') (takeWhile (\<lambda>c. c \<noteq> CHR ''e'') s)
      in of_int (decval ds) * 10 powi (read_exponent (dropWhile (\<lambda>c. c \<noteq> CHR ''e'') s) - int (length ds - 1)))"

definition read_decimal :: "string \<Rightarrow> rat" where
  "read_decimal s = (if s \<noteq> [] \<and> hd s = CHR ''-'' then - read_unsigned (tl s) else read_unsigned s)"

definition point_string :: "string \<Rightarrow> string" where
  "point_string s = hd s # (if tl s = [] then [] else CHR ''.'' # tl s)"

lemma digit_chars: "decimal_digit c \<Longrightarrow> c \<noteq> CHR ''e'' \<and> c \<noteq> CHR ''.'' \<and> c \<noteq> CHR ''-'' \<and> c \<noteq> CHR 0x00"
  by (auto simp: decimal_digit_def digit_of_def)

lemma read_exponent_string: "\<bar>e\<bar> \<le> 10 \<Longrightarrow> read_exponent (exponent_string e) = e"
proof -
  assume "\<bar>e\<bar> \<le> 10"
  moreover have "decval [CHR ''0'', ascii \<bar>e\<bar>] = \<bar>e\<bar>" if "\<bar>e\<bar> < 10" using that by (simp add: decval_Cons digit_of_def [of "CHR ''0''"])
  moreover have "decval ''10'' = 10" by code_simp
  ultimately show ?thesis by (auto simp: read_exponent_def exponent_string_def)
qed

lemma exponent_string_head: "exponent_string e = [] \<or> hd (exponent_string e) = CHR ''e''"
  by (simp add: exponent_string_def)

lemma read_unsigned_printed:
  assumes s: "list_all decimal_digit s" "s \<noteq> []" and e: "\<bar>e\<bar> \<le> 10"
  shows "read_unsigned (point_string s @ exponent_string e) = of_int (decval s) * 10 powi (e - int (length s - 1))"
proof -
  have p: "x \<noteq> CHR ''e''" if "x \<in> set (point_string s)" for x
    using that s digit_chars [of x] by (cases s) (auto simp: point_string_def list_all_iff split: if_splits)
  have "takeWhile (\<lambda>c. c \<noteq> CHR ''e'') (exponent_string e) = []" "dropWhile (\<lambda>c. c \<noteq> CHR ''e'') (exponent_string e) = exponent_string e"
    using exponent_string_head [of e] by (cases "exponent_string e"; simp)+
  then have "takeWhile (\<lambda>c. c \<noteq> CHR ''e'') (point_string s @ exponent_string e) = point_string s"
    "dropWhile (\<lambda>c. c \<noteq> CHR ''e'') (point_string s @ exponent_string e) = exponent_string e"
    using p by (simp_all add: takeWhile_append2 dropWhile_append2)
  moreover have "filter (\<lambda>c. c \<noteq> CHR ''.'') (point_string s) = s"
    using s digit_chars by (cases s) (auto simp: point_string_def list_all_iff filter_id_conv)
  ultimately show ?thesis using read_exponent_string [OF e] by (simp add: read_unsigned_def Let_def)
qed

lemma mantissa_string:
  assumes b: "list_all decimal_digit buf" and n: "n = min digits (len - 1)" "pos + n < length buf"
  obtains s where "mantissa_string buf pos digits len = point_string s" "list_all decimal_digit s" "length s = Suc digits"
    "decval s = decval (take (Suc n) (drop pos buf)) * 10 ^ (digits - n)"
proof
  let ?s = "take (Suc n) (drop pos buf) @ replicate (digits - n) (CHR ''0'')"
  have d: "drop pos buf = buf ! pos # drop (pos + 1) buf" using n by (simp add: Cons_nth_drop_Suc)
  have l: "length (take n (drop (pos + 1) buf)) = n" using n by simp
  have "tl ?s = [] \<longleftrightarrow> digits = 0"
    using l n(1) by (simp add: d) linarith
  then show "mantissa_string buf pos digits len = point_string ?s" using n(1) by (simp add: mantissa_string_def point_string_def d Let_def)
  show "list_all decimal_digit ?s" using b by (auto simp: list_all_iff decimal_digit_def digit_of_def dest: in_set_takeD in_set_dropD)
  show "length ?s = Suc digits" using n by simp
  show "decval ?s = decval (take (Suc n) (drop pos buf)) * 10 ^ (digits - n)" by (simp add: decval_append)
qed

lemma no_nul:
  assumes "list_all decimal_digit s" "s \<noteq> []" "\<bar>e\<bar> \<le> 10"
  shows "CHR 0x00 \<notin> set (point_string s)" "CHR 0x00 \<notin> set (exponent_string e)" "hd (point_string s @ t) \<noteq> CHR ''-''"
proof -
  show "CHR 0x00 \<notin> set (point_string s)" using assms digit_chars [of "CHR 0x00"] by (cases s) (auto simp: point_string_def list_all_iff)
  show "hd (point_string s @ t) \<noteq> CHR ''-''" using assms digit_chars by (cases s) (auto simp: point_string_def)
  have "ascii \<bar>e\<bar> \<noteq> CHR 0x00" if "\<bar>e\<bar> < 10" using digit_chars [OF decimal_digit_ascii, of "\<bar>e\<bar>"] that by simp
  then show "CHR 0x00 \<notin> set (exponent_string e)" by (auto simp: exponent_string_def)
qed

lemma decval_take_Suc: "i < length s \<Longrightarrow> decval (take (Suc i) s) = decval (take i s) * 10 + digit_of (s ! i)"
  by (simp add: take_Suc_conv_app_nth)

text \<open>The mantissa and the exponent written for the digits \<open>s\<close> of a number that is divided by \<open>10 ^ E\<close>.\<close>

definition printed :: "string \<Rightarrow> nat \<Rightarrow> int \<Rightarrow> string \<times> int" where
  "printed s digits E =
     (let buf = CHR ''0'' # s; len = length s; rounded = digits < len - 1; buf = (if rounded then fx_round_str buf (digits + 1) else buf);
          pos = (if rounded then if buf ! 0 = CHR ''0'' then 1 else 0 else 1)
      in (mantissa_string buf pos digits len, int len + (if pos = 0 then 1 else 0) - E - 1))"

definition rounded_to :: "int \<Rightarrow> nat \<Rightarrow> nat \<Rightarrow> int" where
  "rounded_to D len digits = (if digits < len - 1 then nearest D (10 ^ (len - digits - 1)) * 10 ^ (len - digits - 1) else D)"

lemma printed_exact:
  assumes s: "list_all decimal_digit s" "s \<noteq> []" and l: "\<not> digits < length s - 1"
  obtains m where "printed s digits E = (point_string m, int (length s) - E - 1)" "list_all decimal_digit m" "length m = Suc digits"
    "decval m = decval s * 10 ^ (digits - (length s - 1))"
proof -
  let ?b = "CHR ''0'' # s"
  have b: "list_all decimal_digit ?b" using s(1) by (simp add: decimal_digit_def digit_of_def)
  have n: "length s - 1 = min digits (length s - 1)" "1 + (length s - 1) < length ?b" using l s(2) by auto
  obtain m where m: "mantissa_string ?b 1 digits (length s) = point_string m" "list_all decimal_digit m" "length m = Suc digits"
    "decval m = decval (take (Suc (length s - 1)) (drop 1 ?b)) * 10 ^ (digits - (length s - 1))"
    by (rule mantissa_string [OF b n]) blast
  then show thesis using that [of m] l s(2) by (simp add: printed_def Let_def)
qed

lemma printed_rounded:
  assumes s: "list_all decimal_digit s" and l: "digits < length s - 1"
  defines "N \<equiv> nearest (decval s) (10 ^ (length s - digits - 1))"
  obtains m c where "printed s digits E = (point_string m, int (length s) + int c - E - 1)" "list_all decimal_digit m" "length m = Suc digits"
    "decval m * 10 ^ c = N" "c \<le> 1"
proof -
  let ?b = "fx_round_str (CHR ''0'' # s) (digits + 1)"
  have e: "0 < digits + 1" "digits + 1 < length s" using l by simp_all
  have b: "length ?b = Suc (length s)" "list_all decimal_digit ?b" "decval (take (Suc (digits + 1)) ?b) = N" "N \<le> 10 ^ (digits + 1)"
    using fx_round_str [OF s e refl] by (simp_all add: N_def)
  define c where "c = digit_of (?b ! 0)"
  have c: "0 \<le> c" "?b ! 0 = CHR ''0'' \<longleftrightarrow> c = 0"
    using b(1,2) by (auto simp: c_def list_all_length decimal_digit_def digit_of_def of_char_eq_iff [of _ "CHR ''0''", where ?'a = int, symmetric] simp del: of_char_eq_iff)
  obtain b0 bs where bs: "?b = b0 # bs" using b(1) by (cases ?b) auto
  have N: "N = c * 10 ^ (digits + 1) + decval (take (digits + 1) bs)" "0 \<le> decval (take (digits + 1) bs)"
  proof -
    have bb: "list_all decimal_digit bs" "length bs = length s" using b(1,2) unfolding bs by simp_all
    then show "0 \<le> decval (take (digits + 1) bs)" by (intro decval_nonneg) (auto simp: list_all_iff dest: in_set_takeD)
    have "b0 = ?b ! 0" unfolding bs by simp
    then show "N = c * 10 ^ (digits + 1) + decval (take (digits + 1) bs)"
      using b(3) [unfolded bs take_Suc_Cons decval_Cons] bb l by (simp add: c_def min_absorb2)
  qed
  show thesis
  proof (cases "c = 0")
    case True
    have n: "digits = min digits (length s - 1)" "1 + digits < length ?b" using l b(1) by auto
    obtain m where m: "mantissa_string ?b 1 digits (length s) = point_string m" "list_all decimal_digit m" "length m = Suc digits"
      "decval m = decval (take (Suc digits) (drop 1 ?b)) * 10 ^ (digits - digits)" by (rule mantissa_string [OF b(2) n]) blast
    moreover have "decval m = N" using m(4) N(1) True by (simp add: bs [simplified])
    ultimately show thesis using True c l by (intro that [of m 0]) (simp_all add: printed_def Let_def)
  next
    case False
    have n: "digits = min digits (length s - 1)" "0 + digits < length ?b" using l b(1) by auto
    obtain m where m: "mantissa_string ?b 0 digits (length s) = point_string m" "list_all decimal_digit m" "length m = Suc digits"
      "decval m = decval (take (Suc digits) (drop 0 ?b)) * 10 ^ (digits - digits)" by (rule mantissa_string [OF b(2) n]) blast
    have "1 * 10 ^ (digits + 1) \<le> c * 10 ^ (digits + 1)" using False c(1) by (intro mult_right_mono) simp_all
    then have N10: "N = 10 ^ (digits + 1)" using N b(4) by linarith
    have "N = decval (take (digits + 1) ?b) * 10 + digit_of (?b ! (digits + 1))"
      using decval_take_Suc [of "digits + 1" ?b] b(1,3) l by simp
    moreover have "0 \<le> digit_of (?b ! (digits + 1))" "digit_of (?b ! (digits + 1)) \<le> 9"
      using b(1,2) l by (auto simp: list_all_length decimal_digit_def)
    ultimately have "decval (take (digits + 1) ?b) = 10 ^ digits" using N10 by simp
    then have "decval m * 10 ^ 1 = N" using m(4) N10 by simp
    then show thesis using m(1-3) False c l by (intro that [of m 1]) (simp_all add: printed_def Let_def)
  qed
qed

lemma powi_diff: "(10 :: rat) powi (int a - int b) = 10 ^ a / 10 ^ b"
  by (simp add: power_int_diff)

text \<open>What is printed reads as the number rounded to the digits asked for.\<close>

lemma printed_value:
  assumes s: "list_all decimal_digit s" "s \<noteq> []" and E: "E \<le> 10" "length s \<le> 10 + E"
  obtains m e where "printed s digits (int E) = (point_string m, e)" "list_all decimal_digit m" "m \<noteq> []" "\<bar>e\<bar> \<le> 10"
    "(of_int (decval m) * 10 powi (e - int (length m - 1)) :: rat) = of_int (rounded_to (decval s) (length s) digits) / 10 ^ E"
proof (cases "digits < length s - 1")
  case True
  let ?r = "length s - digits - 1"
  obtain m c where m: "printed s digits (int E) = (point_string m, int (length s) + int c - int E - 1)" "list_all decimal_digit m"
    "length m = Suc digits" "decval m * 10 ^ c = nearest (decval s) (10 ^ ?r)" "c \<le> 1"
    by (rule printed_rounded [OF s(1) True]) blast
  have "rounded_to (decval s) (length s) digits = decval m * 10 ^ (c + ?r)"
    unfolding power_add mult.assoc [symmetric] m(4) using True by (simp add: rounded_to_def)
  moreover have "int (length s) + int c - int E - 1 - int digits = int (c + ?r) - int E" using True by simp
  then have "(10 :: rat) powi (int (length s) + int c - int E - 1 - int digits) = 10 ^ (c + ?r) / 10 ^ E"
    by (simp only: powi_diff)
  moreover have "\<bar>int (length s) + int c - int E - 1\<bar> \<le> 10" using E m(5) s(2) by (cases s) auto
  ultimately show thesis using m(1-3) by (intro that [of m "int (length s) + int c - int E - 1"]) auto
next
  case False
  obtain m where m: "printed s digits (int E) = (point_string m, int (length s) - int E - 1)" "list_all decimal_digit m" "length m = Suc digits"
    "decval m = decval s * 10 ^ (digits - (length s - 1))" by (rule printed_exact [OF s False]) blast
  let ?q = "digits - (length s - 1)"
  have "int (length s) - int E - 1 - int digits = int 0 - int (?q + E)" using False s(2) by (cases s) auto
  then have "(10 :: rat) powi (int (length s) - int E - 1 - int digits) = 1 / (10 ^ ?q * 10 ^ E)"
    by (simp only: powi_diff power_add power_0)
  moreover have "\<bar>int (length s) - int E - 1\<bar> \<le> 10" using E s(2) by (cases s) auto
  ultimately show thesis using m False by (intro that [of m "int (length s) - int E - 1"]) (auto simp: rounded_to_def)
qed

text \<open>The decimal integer that is printed for \<open>x\<close>: its value in units of \<open>10 ^ -E\<close>, rounded down.\<close>

definition decimal_of :: "int \<Rightarrow> nat \<Rightarrow> int" where
  "decimal_of x f = \<bar>x\<bar> * 10 ^ (etab ! f) div 2 ^ f"

lemma decimal_of_bounds:
  assumes "in_s32 x" "f \<le> 31" "x \<noteq> 0"
  shows "0 < decimal_of x f" "decimal_of x f < 10 * 2 ^ 31" "xtoa_decimal \<bar>x\<bar> f = decimal_of x f" "etab ! f \<le> 10"
    "decimal_of x f < 10 ^ (10 + etab ! f)" "\<lceil>(of_int (decimal_of x f) / 10 ^ (etab ! f) :: rat) * 2 ^ f\<rceil> = \<bar>x\<bar>"
proof -
  let ?E = "etab ! f"
  have u: "0 \<le> \<bar>x\<bar>" "\<bar>x\<bar> \<le> 2 ^ 31" using assms(1) by (auto simp: in_s32_def)
  show d0: "0 < decimal_of x f" and "decimal_of x f < 10 * 2 ^ 31" "xtoa_decimal \<bar>x\<bar> f = decimal_of x f"
    using xtoa_decimal [OF assms(2) u] assms(3) by (simp_all add: decimal_of_def)
  show "?E \<le> 10" using etab_ok [OF assms(2)] by (simp add: etab_ok_def Let_def)
  have p: "(2 :: int) ^ f \<le> 10 ^ ?E" using etab_ok [OF assms(2)] by (simp add: etab_ok_def Let_def)
  have m: "\<bar>x\<bar> * 10 ^ ?E = decimal_of x f * 2 ^ f + \<bar>x\<bar> * 10 ^ ?E mod 2 ^ f"
    unfolding decimal_of_def by (rule div_mult_mod_eq [symmetric])
  have r: "0 \<le> \<bar>x\<bar> * 10 ^ ?E mod 2 ^ f" "\<bar>x\<bar> * 10 ^ ?E mod 2 ^ f < 10 ^ ?E"
    using order.strict_trans2 [OF pos_mod_bound p, of "\<bar>x\<bar> * 10 ^ ?E"] by simp_all
  have "decimal_of x f * 1 \<le> decimal_of x f * 2 ^ f" using d0 by (intro mult_left_mono) simp_all
  then have "decimal_of x f \<le> \<bar>x\<bar> * 10 ^ ?E" using m r by linarith
  also have "\<dots> \<le> 2 ^ 31 * 10 ^ ?E" using u by (intro mult_right_mono) simp_all
  also have "\<dots> < 10 ^ (10 + ?E)" unfolding power_add by (intro mult_strict_right_mono) simp_all
  finally show "decimal_of x f < 10 ^ (10 + ?E)" .
  have "decimal_of x f * 2 ^ f \<le> \<bar>x\<bar> * 10 ^ ?E" "\<bar>x\<bar> * 10 ^ ?E - 10 ^ ?E < decimal_of x f * 2 ^ f" using m r by linarith+
  then have "decimal_of x f * 2 ^ f \<le> \<bar>x\<bar> * 10 ^ ?E" "(\<bar>x\<bar> - 1) * 10 ^ ?E < decimal_of x f * 2 ^ f" by (simp_all add: left_diff_distrib)
  then have "of_int (decimal_of x f * 2 ^ f) \<le> (of_int (\<bar>x\<bar> * 10 ^ ?E) :: rat)" "(of_int ((\<bar>x\<bar> - 1) * 10 ^ ?E) :: rat) < of_int (decimal_of x f * 2 ^ f)"
    by (simp_all only: of_int_le_iff of_int_less_iff)
  then show "\<lceil>(of_int (decimal_of x f) / 10 ^ ?E :: rat) * 2 ^ f\<rceil> = \<bar>x\<bar>"
    by (intro ceiling_unique) (simp_all add: field_simps)
qed

lemma leading_digit:
  assumes "list_all decimal_digit s" "s \<noteq> []" "0 < digit_of (hd s)"
  shows "10 ^ (length s - 1) \<le> decval s"
proof -
  obtain c t where s: "s = c # t" using assms(2) by (cases s) auto
  have "1 * 10 ^ length t \<le> digit_of c * 10 ^ length t" using assms(3) s by (intro mult_right_mono) simp_all
  moreover have "0 \<le> decval t" using assms(1) s by (intro decval_nonneg) simp
  ultimately have "10 ^ length t \<le> digit_of c * 10 ^ length t + decval t" by linarith
  then show ?thesis by (simp add: s decval_Cons)
qed

lemma fx_xtoa_printed:
  assumes "in_s32 x" "f \<le> 31" "digits < 2 ^ 31" "x \<noteq> 0"
  obtains s where "list_all decimal_digit s" "s \<noteq> []" "0 < digit_of (hd s)" "decval s = decimal_of x f"
    "fx_xtoa False x f digits =
      (let (m, e) = printed s digits (int (etab ! f)); out = (if x < 0 then [CHR ''-''] else []) @ m @ exponent_string e
       in if length s \<ge> 12 then Inl AssertFailed else if CHR 0x00 \<in> set out then Inl AssertFailed else Inr (Some out))"
proof -
  note D = decimal_of_bounds [OF assms(1,2,4)]
  have w: "wrap32 \<bar>x\<bar> = \<bar>x\<bar>" using assms(1) by (simp add: in_s32_def wrap32_def abs_less_iff)
  obtain s where s: "fx_utoa64 (decimal_of x f) = Inr s" "list_all decimal_digit s" "decval s = decimal_of x f" "s \<noteq> []"
    "0 < digit_of (hd s)"
  proof -
    have "decimal_of x f < 10 * 2 ^ 32" using D(2) by simp
    with fx_utoa64_digits [of "decimal_of x f"] D(1) show thesis using that by (metis less_imp_le)
  qed
  show thesis
    using assms(2-4) s by (intro that [of s]) (simp_all add: fx_xtoa_def printed_def w D(3) Let_def)
qed



end
