(* ===== verification/Spec2Isabelle.thy ===== *)
theory Spec2Isabelle
  imports RudpRecovery Utf8 CrabWords Websocket Xxhash Strbuf Bpack Crc Hash Skiplist AoiService Md5 Sha2Correct
    FixmathSqrt FixmathStr
begin

text \<open>
  A verification library for the C components of AntServer, a game server built on skynet.

  \<^bold>\<open>The program.\<close> The server itself is Lua code on top of skynet, which is a git submodule. The
  repository's own C code is the set of Lua extension modules under \<^verbatim>\<open>src/lualib-src\<close>; they carry the
  logic that has to be fast: the transport of messages, the splitting of socket streams into packets, word
  filters, score boards, buffers, encodings, checksums and hashes. A module keeps its state in a C structure (a
  Lua userdata) and is driven by calls from Lua, so each theory models one module: its structures as records,
  each C function as one definition, and the binding's methods on top.

  \<^bold>\<open>Layout.\<close>
  \<^item> Prelude: bytes, machine words and wrap-around of \<^verbatim>\<open>int\<close>, byte order, the faults an operation can end
    in (a failed assertion, an access out of bounds, a Lua error, a fatal exit, a loop that does not end, undefined
    behaviour), the result type and its lemmas.
  \<^item> Interfaces: the contracts shared by components, as locales with the clients' lemmas: a codec that reads back a
    prefix of its input (interpreted for rudp frames and for UTF-8), a table with keys (the hash table of the word
    filter), a first-in first-out queue (the ring buffer of the packet splitter), an object that takes
    its input in pieces (the string buffer) and its extension to incremental hashes (xxHash, MD5 and the two
    SHA-2 digests), and the simulation of an abstract object by calls that may fail (the skip list).
  \<^item> Rudp: \<^verbatim>\<open>rudp/rudp.c\<close> and \<^verbatim>\<open>rudp/lua-rudp.c\<close>, the reliable UDP endpoint. State: the record \<open>rudp\<close> with
    queues as lists and the request array as an explicit growing array. Messages sent over a lossless link arrive
    complete and in order, also when packages are reordered, as long as ids stay close enough for the 16 bits on the wire;
    frames round-trip; output packages stay within their size; the error theorems show inputs on which an endpoint aborts,
    drops a request or reports corruption.
  \<^item> RudpRecovery: when packages were lost, one round repairs it. The receiver's next package asks for exactly the missing
    ids, the sender answers them from its history, and the receiver then delivers every message. The sender must not have
    received more messages than the first missing id says, or it drops requests.
  \<^item> Websocket: \<^verbatim>\<open>websocketnetpack/lua-websocketnetpack.c\<close>. State: the record \<open>queue\<close>, a ring
    buffer of packets and a hash table of half-received frames. A frame cut into any chunks is delivered once and
    unmasked; buffers of several frames are queued in order; the ring buffer is a queue; heads round-trip; the
    error theorems show oversized frames and 64-bit lengths going wrong.
  \<^item> Utf8, Crab, CrabWords: \<^verbatim>\<open>crab/lua-utf8.c\<close>, \<^verbatim>\<open>crab/lua-crab.c\<close>, \<^verbatim>\<open>crab/crab.c\<close>. Code points round-trip;
    the chained hash table with growth is a finite map and its insertion is total (its capacity is a number without bound,
    so this is the code for tables of at most \<open>2^29\<close> keys); the trie filter
    masks the longest dictionary word at each place, and the stand-alone filter masks exactly the same.
  \<^item> Chains: what the two hash tables with chained slots (the word filter's and the object map's) share, the
    lists of slots that a chain runs through and how placing or moving a node changes them.
  \<^item> AoiMap, Aoi: \<^verbatim>\<open>skynet_aoi/aoi.c\<close>, the area of interest. State: the space with the object map, the four sets
    of movers and markers and the list of hot pairs, the objects with their reference counts, and the
    blocks the allocator has handed out. The map is a finite map and never runs out of slots; any session of
    updates and messages keeps every reference count exact, touches no freed object and ends, after the
    release, with every block freed; a message reports exactly the near pairs of watchers and markers.
  \<^item> AoiService: \<^verbatim>\<open>skynet_aoi/service_aoi.c\<close> and \<^verbatim>\<open>skynet_aoi/lua-aoi.c\<close>, the two users of it. State: the service's cookie
    and space, and the map userdata. The text command the Lua side sends is understood as the update it means; the
    report of a pair is written past its block; a script of calls on a map is answered and a released map is refused.
  \<^item> Skiplist: \<^verbatim>\<open>lua-zset/skiplist.c\<close> and \<^verbatim>\<open>lua-zset/lua-skiplist.c\<close>. State: an explicit memory of nodes
    and level entries. Any session of calls behaves like a sorted list; the memory keeps the invariant of a
    skip list with exact spans; freeing leaves nothing.
  \<^item> Strbuf: \<^verbatim>\<open>lua-cjson/strbuf.c\<close>, \<^verbatim>\<open>strbuf.h\<close>. Any appends build the appended bytes and stay inside the
    block when the buffer grows exponentially; with a linear increment they do not.
  \<^item> Xxhash: \<^verbatim>\<open>lua-xxhash/xxhash.c\<close>, \<^verbatim>\<open>lua-xxhash.c\<close>. Streaming gives the one-shot hash.
  \<^item> Bpack: \<^verbatim>\<open>thrift/lua-bpack.c\<close> and the reading loop \<^verbatim>\<open>readVarint64\<close> of \<^verbatim>\<open>lualib/thrift/TCompactProtocol.lua\<close>. Fixed-size and
    zigzag codecs round-trip; varints do when the bytes are read unsigned, and beyond one byte not as the loop reads them.
  \<^item> Crc: \<^verbatim>\<open>luacrypto/lcrc.c\<close>. The tables compute polynomial division; a changed byte is detected.
  \<^item> Digest, Md5, Sha2, Sha2Correct: \<^verbatim>\<open>luacrypto/lmd5.c\<close> and \<^verbatim>\<open>luacrypto/lsha2.c\<close>. State: the contexts with their registers,
    bit counters and buffers (in SHA-2 the buffer is also the ring of the message schedule). Fed in any pieces, the digests
    are those of RFC 1321 and FIPS 180-4; the keyed digests are HMAC, except \<^verbatim>\<open>hmac_md5\<close> for keys above 64 bytes.
  \<^item> Hash: \<^verbatim>\<open>hash/lua-hash.c\<close>, \<^verbatim>\<open>hash/lua-hashids.c\<close>. Hash codes do not depend on traversal order, and exist
    exactly for tables that hash within the guaranteed stack slots (ten levels), so that the check for sixteen levels comes too late.
  \<^item> Fixmath, FixmathArith, FixmathSqrt, FixmathStr: \<^verbatim>\<open>luafixmath\<close>, the fixed-point numbers: \<^verbatim>\<open>fixmath.c\<close>, \<^verbatim>\<open>fixmath_impl.h\<close>,
    \<^verbatim>\<open>fixmath_str.c\<close> and the binding \<^verbatim>\<open>luabinding.c\<close>. There is no state; a function gives its value and whether it sets
    \<^verbatim>\<open>errno\<close>. Products, quotients and conversions are exact results rounded to the nearest number; the square root, by table
    and Newton steps, is within two units of the real root; numbers are printed in decimal, rounded to the digits asked for, and read back;
    further theorems show the calls of the binding that divide by zero and the exponentials that shift out of range.

  \<^bold>\<open>How the model corresponds to the code.\<close> Functions keep their C names; a loop inside a function is a recursive
  definition of its own with a name that says what it does, used by the definition of the function. An \<^verbatim>\<open>int\<close> is an
  integer reduced by \<open>s32\<close> where the code computes, an unsigned number a word or an integer with the modulus written
  out; a byte is an 8-bit word. Freed or never allocated memory and accesses outside an array are errors of the
  result type or have no value. What comes from outside is an argument: the contents of fresh memory, the
  numbers \<^verbatim>\<open>random\<close> returns, the output of \<^verbatim>\<open>vsnprintf\<close> by its contract, the results of \<^verbatim>\<open>iconv\<close>.

  \<^bold>\<open>Bounds and fuel.\<close> Loops are structural or have a measure. Two kinds of definition take fuel: the lookup in a hash table (the word filter's
  and the object map's) walks at most as many nodes as the table has, which suffices because chains have no repetition;
  inserting a key recurses after the table has grown, once in the word filter and at most four levels deep in the object map,
  which suffices because a grown table has a free node (shown with the totality of insertion). The walks of the skip list and the growth of the string buffer are partial functions, and the theorems
  state that they return. Hypotheses on sizes are those of the C types: less than 2 GiB in a buffer or a key,
  fewer than four billion elements in a set.

  \<^bold>\<open>Not modelled.\<close> Vendored code (unqlite, leveldb and rocksdb bindings, recastnavigation, luaffifb, lrexlib, the
  floating-point conversion of lua-cjson, lpath), bindings that only pass system or OpenSSL calls on, and the
  \<^verbatim>\<open>luaopen\<close> functions, which only register names. Argument checks of the Lua API that raise before a function starts are
  not modelled where they only check a type. Of \<^verbatim>\<open>luafixmath\<close>, the conversions from and to \<^verbatim>\<open>double\<close> are parameters, and the
  variants of its functions that the default build does not compile are left out.
\<close>

end
